(* ===== verification/Prelude.thy ===== *)
theory Prelude
  imports Main "HOL-Library.Sublist" "HOL-Library.Char_ord" "HOL-Library.List_Lexorder"
begin

text \<open>
  Shared vocabulary of the development: Rust's \<open>str\<close> operations, results, and the generic
  list facts the components use.

  A \<open>str\<close> is a HOL \<open>string\<close> whose characters are read as the Unicode scalar values
  U+0000 to U+00FF. The functions below are the standard library's, restricted to that block:
  a character below U+0080 takes one byte of UTF-8, the others take two, so \<open>byte_len\<close>
  (Rust's \<open>len\<close>) and \<open>length\<close> (Rust's \<open>chars().count()\<close>) differ, as they do in
  the code. Comparison of strings is lexicographic on code points, which is the byte order of
  UTF-8.
\<close>

section \<open>Fact collections\<close>

named_theorems str_simps \<open>unfolding of the string operations\<close>
named_theorems store_simps \<open>projections and frame facts of the task store's writes\<close>
named_theorems graph_simps \<open>rewriting of the task graph's walks\<close>

section \<open>Results\<close>

type_synonym ('e, 'a) result = "'e + 'a"

definition bind_res :: "('e, 'a) result \<Rightarrow> ('a \<Rightarrow> ('e, 'b) result) \<Rightarrow> ('e, 'b) result" where
  "bind_res r f = (case r of Inl e \<Rightarrow> Inl e | Inr x \<Rightarrow> f x)"

definition require :: "bool \<Rightarrow> 'e \<Rightarrow> ('e, unit) result" where
  "require b e = (if b then Inr () else Inl e)"

fun is_ok :: "('e, 'a) result \<Rightarrow> bool" where
  "is_ok (Inr _) = True"
| "is_ok (Inl _) = False"

lemma bind_res_Inr [simp]: "bind_res (Inr x) f = f x"
  by (simp add: bind_res_def)

lemma bind_res_Inl [simp]: "bind_res (Inl e) f = Inl e"
  by (simp add: bind_res_def)

lemma bind_res_eq_Inr: "bind_res r f = Inr y \<longleftrightarrow> (\<exists>x. r = Inr x \<and> f x = Inr y)"
  by (cases r) auto

lemma require_eq_Inr [simp]: "require b e = Inr u \<longleftrightarrow> b"
  by (simp add: require_def)

lemma require_eq_Inl: "require b e = Inl e' \<longleftrightarrow> \<not> b \<and> e' = e"
  by (auto simp: require_def)

lemma bind_require: "bind_res (require b e) f = (if b then f () else Inl e)"
  by (simp add: require_def)

text \<open>The loop \<open>for x in xs { check(x)?; }\<close>: the first error ends it.\<close>

fun for_each :: "('a \<Rightarrow> ('e, unit) result) \<Rightarrow> 'a list \<Rightarrow> ('e, unit) result" where
  "for_each f [] = Inr ()"
| "for_each f (x # xs) = bind_res (f x) (\<lambda>_. for_each f xs)"

lemma for_each_ok: "for_each f xs = Inr u \<longleftrightarrow> (\<forall>x \<in> set xs. f x = Inr ())"
  by (induction xs) (auto simp: bind_res_eq_Inr)

section \<open>Machine sizes\<close>

text \<open>A \<open>usize\<close> is 64 bits wide on the targets of the program.\<close>

definition usize_max :: nat where "usize_max = 2 ^ 64 - 1"

definition saturating_mul :: "nat \<Rightarrow> nat \<Rightarrow> nat" where
  "saturating_mul a b = min (a * b) usize_max"

section \<open>Characters\<close>

definition code :: "char \<Rightarrow> nat" where
  "code c = of_char c"

definition utf8_len :: "char \<Rightarrow> nat" where
  "utf8_len c = (if code c < 128 then 1 else 2)"

text \<open>\<open>char::is_whitespace\<close>, the White\_Space code points below U+0100.\<close>

definition is_whitespace :: "char \<Rightarrow> bool" where
  "is_whitespace c = (9 \<le> code c \<and> code c \<le> 13 \<or> code c = 32 \<or> code c = 133 \<or> code c = 160)"

definition is_ascii_digit :: "char \<Rightarrow> bool" where
  "is_ascii_digit c = (48 \<le> code c \<and> code c \<le> 57)"

definition is_ascii_alphabetic :: "char \<Rightarrow> bool" where
  "is_ascii_alphabetic c = (65 \<le> code c \<and> code c \<le> 90 \<or> 97 \<le> code c \<and> code c \<le> 122)"

definition is_ascii_alphanumeric :: "char \<Rightarrow> bool" where
  "is_ascii_alphanumeric c = (is_ascii_alphabetic c \<or> is_ascii_digit c)"

definition is_ascii_whitespace :: "char \<Rightarrow> bool" where
  "is_ascii_whitespace c = (code c \<in> {9, 10, 12, 13, 32})"

text \<open>\<open>char::is_alphabetic\<close> and \<open>is_alphanumeric\<close> on the same block: the Latin-1 letters,
  the ordinal indicators and the micro sign; the superscript digits and the vulgar fractions
  are numeric.\<close>

definition is_alphabetic :: "char \<Rightarrow> bool" where
  "is_alphabetic c = (is_ascii_alphabetic c \<or> code c \<in> {170, 181, 186}
     \<or> 192 \<le> code c \<and> code c \<noteq> 215 \<and> code c \<noteq> 247)"

definition is_alphanumeric :: "char \<Rightarrow> bool" where
  "is_alphanumeric c = (is_alphabetic c \<or> is_ascii_digit c
     \<or> code c \<in> {178, 179, 185, 188, 189, 190})"

definition to_lower :: "char \<Rightarrow> char" where
  "to_lower c = (if 65 \<le> code c \<and> code c \<le> 90
                   \<or> 192 \<le> code c \<and> code c \<le> 222 \<and> code c \<noteq> 215
                 then char_of (code c + 32) else c)"

definition to_ascii_lower :: "char \<Rightarrow> char" where
  "to_ascii_lower c = (if 65 \<le> code c \<and> code c \<le> 90 then char_of (code c + 32) else c)"

section \<open>Strings\<close>

definition byte_len :: "string \<Rightarrow> nat" where
  "byte_len s = sum_list (map utf8_len s)"

definition trim_start :: "string \<Rightarrow> string" where
  "trim_start s = dropWhile is_whitespace s"

definition trim_end :: "string \<Rightarrow> string" where
  "trim_end s = rev (dropWhile is_whitespace (rev s))"

definition trim :: "string \<Rightarrow> string" where
  "trim s = trim_end (trim_start s)"

definition trim_matches :: "(char \<Rightarrow> bool) \<Rightarrow> string \<Rightarrow> string" where
  "trim_matches p s = rev (dropWhile p (rev (dropWhile p s)))"

definition trim_end_matches :: "(char \<Rightarrow> bool) \<Rightarrow> string \<Rightarrow> string" where
  "trim_end_matches p s = rev (dropWhile p (rev s))"

definition to_lowercase :: "string \<Rightarrow> string" where
  "to_lowercase s = map to_lower s"

definition eq_ignore_ascii_case :: "string \<Rightarrow> string \<Rightarrow> bool" where
  "eq_ignore_ascii_case a b = (map to_ascii_lower a = map to_ascii_lower b)"

definition starts_with :: "string \<Rightarrow> string \<Rightarrow> bool" where
  "starts_with s p = prefix p s"

definition ends_with :: "string \<Rightarrow> string \<Rightarrow> bool" where
  "ends_with s p = suffix p s"

fun str_contains :: "string \<Rightarrow> string \<Rightarrow> bool" where
  "str_contains [] p = (p = [])"
| "str_contains (c # s) p = (prefix p (c # s) \<or> str_contains s p)"

definition strip_prefix :: "string \<Rightarrow> string \<Rightarrow> string option" where
  "strip_prefix p s = (if prefix p s then Some (drop (length p) s) else None)"

text \<open>\<open>split\<close> on a character class: the pieces between the separators, empty ones included.\<close>

fun split_on :: "(char \<Rightarrow> bool) \<Rightarrow> string \<Rightarrow> string list" where
  "split_on p [] = [[]]"
| "split_on p (c # s) =
     (if p c then [] # split_on p s
      else (case split_on p s of [] \<Rightarrow> [[c]] | w # ws \<Rightarrow> (c # w) # ws))"

definition split_whitespace :: "string \<Rightarrow> string list" where
  "split_whitespace s = filter (\<lambda>w. w \<noteq> []) (split_on is_whitespace s)"

text \<open>\<open>replace\<close> of one character by another, the only shape the modelled code uses with
  single-character patterns.\<close>

definition replace_char :: "char \<Rightarrow> char \<Rightarrow> string \<Rightarrow> string" where
  "replace_char a b s = map (\<lambda>c. if c = a then b else c) s"

section \<open>Facts on strings\<close>

lemma code_inj [simp]: "code a = code b \<longleftrightarrow> a = b"
  by (simp add: code_def)

lemma code_char_of [simp]: "n < 256 \<Longrightarrow> code (char_of n) = n"
  by (simp add: code_def)

lemma code_less_256 [simp]: "code c < 256"
  by (simp add: code_def)

lemma byte_len_Nil [simp]: "byte_len [] = 0"
  by (simp add: byte_len_def)

lemma byte_len_Cons [simp]: "byte_len (c # s) = utf8_len c + byte_len s"
  by (simp add: byte_len_def)

lemma byte_len_append [simp]: "byte_len (s @ t) = byte_len s + byte_len t"
  by (simp add: byte_len_def)

lemma length_le_byte_len: "length s \<le> byte_len s"
  by (induction s) (auto simp: utf8_len_def)

lemma byte_len_le_double: "byte_len s \<le> 2 * length s"
  by (induction s) (auto simp: utf8_len_def)

lemma str_contains_iff: "str_contains s p \<longleftrightarrow> sublist p s"
proof (induction s)
  case Nil
  then show ?case by simp
next
  case (Cons c s)
  then show ?case by (simp only: str_contains.simps sublist_Cons_right)
qed

lemma str_contains_trans: "str_contains s p \<Longrightarrow> str_contains p q \<Longrightarrow> str_contains s q"
  unfolding str_contains_iff by (rule sublist_order.order.trans)

lemma split_on_nonempty [simp]: "split_on p s \<noteq> []"
  by (induction s) (auto split: list.splits)

lemma split_on_no_sep: "w \<in> set (split_on p s) \<Longrightarrow> c \<in> set w \<Longrightarrow> \<not> p c"
proof (induction s arbitrary: w)
  case Nil
  then show ?case by simp
next
  case (Cons d s)
  show ?case
  proof (cases "p d")
    case True
    with Cons show ?thesis by auto
  next
    case False
    obtain v vs where vs: "split_on p s = v # vs"
      by (cases "split_on p s") auto
    with Cons False show ?thesis by fastforce
  qed
qed

end
