(* ===== verification/Decimal.thy ===== *)
theory Decimal
  imports Prelude
begin

text \<open>
  Decimal numerals as Rust prints and parses them, and the separators that no numeral contains.
\<close>

text \<open>\<open>str::parse\<close> for an unsigned type of \<open>w\<close> bits: an optional plus, then decimal
  digits, with a value below \<open>2^w\<close>.\<close>

definition digits_value :: "string \<Rightarrow> nat" where
  "digits_value s = foldl (\<lambda>n c. 10 * n + (code c - 48)) 0 s"

definition parse_uint :: "nat \<Rightarrow> string \<Rightarrow> nat option" where
  "parse_uint w s =
     (let ds = (case s of c # r \<Rightarrow> if c = CHR ''+'' then r else s | [] \<Rightarrow> [])
      in if ds = [] \<or> \<not> list_all is_ascii_digit ds \<or> digits_value ds \<ge> 2 ^ w then None
         else Some (digits_value ds))"

text \<open>\<open>Display\<close> of an unsigned integer.\<close>

fun decimal :: "nat \<Rightarrow> string" where
  "decimal n = (if n < 10 then [char_of (48 + n)] else decimal (n div 10) @ [char_of (48 + n mod 10)])"

declare decimal.simps [simp del]

lemma ascii_digit_char: "(n::nat) < 10 \<Longrightarrow> is_ascii_digit (char_of (48 + n))"
  by (simp add: is_ascii_digit_def)

lemma decimal_digits: "list_all is_ascii_digit (decimal n)" "decimal n \<noteq> []"
proof (induction n rule: decimal.induct)
  case (1 n)
  { case 1 show ?case using "1.IH" by (subst decimal.simps) (auto simp: ascii_digit_char) }
  { case 2 show ?case by (subst decimal.simps) simp }
qed

lemma digits_value_snoc: "digits_value (s @ [c]) = 10 * digits_value s + (code c - 48)"
  by (simp add: digits_value_def)

lemma digits_value_decimal: "digits_value (decimal n) = n"
proof (induction n rule: decimal.induct)
  case (1 n)
  show ?case
  proof (cases "n < 10")
    case True
    then show ?thesis by (subst decimal.simps) (simp add: digits_value_def)
  next
    case False
    with 1 show ?thesis by (subst decimal.simps) (simp add: digits_value_snoc)
  qed
qed


lemma parse_uint_decimal: "n < 2 ^ w \<Longrightarrow> parse_uint w (decimal n) = Some n"
proof -
  assume "n < 2 ^ w"
  moreover have "\<not> is_ascii_digit CHR ''+''" by (simp add: is_ascii_digit_def code_def)
  then obtain c r where "decimal n = c # r" "c \<noteq> CHR ''+''"
    using decimal_digits [of n] by (cases "decimal n") auto
  ultimately show ?thesis using decimal_digits [of n] digits_value_decimal [of n]
    by (simp add: parse_uint_def Let_def)
qed

lemma split_on_none: "\<not> list_ex p w \<Longrightarrow> split_on p w = [w]"
  by (induction w) auto

lemma split_on_cons: "\<not> list_ex p w \<Longrightarrow> p c \<Longrightarrow> split_on p (w @ c # rest) = w # split_on p rest"
  by (induction w) auto

text \<open>None of the characters that separate anything is a digit.\<close>

lemma decimal_no_sep [simp]:
  assumes "\<not> is_ascii_digit c"
  shows "c \<notin> set (decimal n)" "\<not> list_ex (\<lambda>d. d = c) (decimal n)"
  using decimal_digits(1) [of n] assms by (auto simp: list_all_iff list_ex_iff)

lemma digit_seps [simp]:
  "\<not> is_ascii_digit CHR ''-''" "\<not> is_ascii_digit CHR ''/''" "\<not> is_ascii_digit CHR '',''" "\<not> is_ascii_digit CHR ''*''"
  by (simp_all add: is_ascii_digit_def code_def)

lemma decimal_head: "decimal n \<noteq> CHR ''*'' # r"
  using decimal_no_sep(1) [of "CHR ''*''" n] by (metis digit_seps(4) list.set_intros(1))

end
