(* ===== verification/Unicode_Text.thy ===== *)
theory Unicode_Text
  imports Prelude Decimal
begin

text \<open>
  Rust's \<open>str\<close> over the whole of Unicode. The agent's context is measured and cut by the
  UTF-8 byte while its token estimate counts characters by class, and the notices it writes
  contain characters outside Latin-1, so a text here is the list of its scalar values. A slice
  \<open>&s[..s.floor_char_boundary(n)]\<close> is the longest prefix of at most \<open>n\<close> bytes.
\<close>

section \<open>Scalar values and their bytes\<close>

type_synonym ustring = "nat list"

definition is_ascii :: "nat \<Rightarrow> bool" where "is_ascii c = (c < 128)"

definition len_utf8 :: "nat \<Rightarrow> nat" where
  "len_utf8 c = (if c < 128 then 1 else if c < 2048 then 2 else if c < 65536 then 3 else 4)"

definition ulen :: "ustring \<Rightarrow> nat" where
  "ulen s = sum_list (map len_utf8 s)"

definition encode_utf8 :: "nat \<Rightarrow> nat list" where
  "encode_utf8 c =
     (if c < 128 then [c]
      else if c < 2048 then [192 + c div 64, 128 + c mod 64]
      else if c < 65536 then [224 + c div 4096, 128 + c div 64 mod 64, 128 + c mod 64]
      else [240 + c div 262144, 128 + c div 4096 mod 64, 128 + c div 64 mod 64, 128 + c mod 64])"

definition utf8_bytes :: "ustring \<Rightarrow> nat list" where
  "utf8_bytes s = concat (map encode_utf8 s)"

lemma length_utf8_bytes: "length (utf8_bytes s) = ulen s"
  by (induction s) (auto simp: utf8_bytes_def ulen_def encode_utf8_def len_utf8_def)

text \<open>An ASCII literal of the source, the line feed, and a number printed in decimal.\<close>

definition lit :: "string \<Rightarrow> ustring" where "lit s = map of_char s"

definition NL :: ustring where "NL = [10]"
definition NL2 :: ustring where "NL2 = [10, 10]"
definition EM_DASH :: ustring where "EM_DASH = [8212]"

definition udec :: "nat \<Rightarrow> ustring" where "udec n = lit (decimal n)"

lemma len_utf8_pos [simp]: "0 < len_utf8 c" "1 \<le> len_utf8 c"
  by (simp_all add: len_utf8_def)

lemma ulen_Nil [simp]: "ulen [] = 0"
  by (simp add: ulen_def)

lemma ulen_Cons [simp]: "ulen (c # s) = len_utf8 c + ulen s"
  by (simp add: ulen_def)

lemma ulen_append [simp]: "ulen (s @ t) = ulen s + ulen t"
  by (simp add: ulen_def)

lemma ulen_0_iff [simp]: "ulen s = 0 \<longleftrightarrow> s = []"
  by (cases s) auto

lemma length_le_ulen: "length s \<le> ulen s"
proof (induction s)
  case (Cons c s)
  then show ?case using len_utf8_pos(2) [of c] by (simp del: len_utf8_pos)
qed simp

lemma ulen_take_le: "ulen (take n s) \<le> ulen s"
  by (metis append_take_drop_id le_add1 ulen_append)

section \<open>Slices at character boundaries\<close>

fun floor_take :: "nat \<Rightarrow> ustring \<Rightarrow> ustring" where
  "floor_take n [] = []"
| "floor_take n (c # s) = (if len_utf8 c \<le> n then c # floor_take (n - len_utf8 c) s else [])"

text \<open>\<open>&s[i..]\<close> for the first boundary \<open>i\<close> at or after byte \<open>n\<close>.\<close>

fun ceil_drop :: "nat \<Rightarrow> ustring \<Rightarrow> ustring" where
  "ceil_drop n [] = []"
| "ceil_drop n (c # s) = (if n = 0 then c # s else ceil_drop (n - len_utf8 c) s)"

text \<open>\<open>&s[a..b]\<close> for two boundaries: the bytes between them.\<close>

definition byte_slice :: "nat \<Rightarrow> nat \<Rightarrow> ustring \<Rightarrow> ustring" where
  "byte_slice a b s = floor_take (b - a) (ceil_drop a s)"

lemma prefix_floor_take: "prefix (floor_take n s) s"
  by (induction n s rule: floor_take.induct) auto

lemma ulen_floor_take: "ulen (floor_take n s) \<le> n"
  by (induction n s rule: floor_take.induct) auto

lemma ulen_floor_take_le: "ulen (floor_take n s) \<le> ulen s"
  by (induction n s rule: floor_take.induct) auto

lemma floor_take_all [simp]: "ulen s \<le> n \<Longrightarrow> floor_take n s = s"
  by (induction n s rule: floor_take.induct) auto

lemma floor_take_append: "floor_take (ulen a) (a @ b) = a"
  by (induction a) (auto split: if_splits, cases b, auto)

lemma ceil_drop_append [simp]: "ceil_drop (ulen a) (a @ b) = b"
proof (induction a)
  case Nil
  then show ?case by (cases b) auto
next
  case (Cons c a)
  then show ?case by (simp add: add_pos_nonneg)
qed

lemma ceil_drop_0 [simp]: "ceil_drop 0 s = s"
  by (cases s) auto

lemma floor_take_append_exact [simp]: "floor_take (ulen a) (a @ b) = a"
  by (rule floor_take_append)

lemma byte_slice_middle: "byte_slice (ulen a) (ulen a + ulen b) (a @ b @ c) = b"
  by (simp add: byte_slice_def)

lemma floor_take_almost: "ulen s > n \<Longrightarrow> n < ulen (floor_take n s) + 4"
proof (induction n s rule: floor_take.induct)
  case (2 n c s)
  show ?case
  proof (cases "len_utf8 c \<le> n")
    case True
    with 2 have "n - len_utf8 c < ulen (floor_take (n - len_utf8 c) s) + 4" by simp
    with True show ?thesis by simp
  next
    case False
    then show ?thesis by (auto simp: len_utf8_def split: if_splits)
  qed
qed simp

section \<open>Words and lines\<close>

text \<open>The \<open>White_Space\<close> property of Unicode, which \<open>trim\<close> removes.\<close>

definition is_uwhite :: "nat \<Rightarrow> bool" where
  "is_uwhite c = (9 \<le> c \<and> c \<le> 13 \<or> c = 32 \<or> c = 133 \<or> c = 160 \<or> c = 5760
     \<or> 8192 \<le> c \<and> c \<le> 8202 \<or> c = 8232 \<or> c = 8233 \<or> c = 8239 \<or> c = 8287 \<or> c = 12288)"

definition utrim :: "ustring \<Rightarrow> ustring" where
  "utrim s = rev (dropWhile is_uwhite (rev (dropWhile is_uwhite s)))"

text \<open>\<open>s.lines().next().unwrap_or("")\<close>: up to the first line feed, less a carriage return
  that ended the line.\<close>

definition first_line :: "ustring \<Rightarrow> ustring" where
  "first_line s = (let l = takeWhile (\<lambda>c. c \<noteq> 10) s
     in if l \<noteq> [] \<and> last l = 13 \<and> length l < length s then butlast l else l)"

definition ujoin :: "ustring \<Rightarrow> ustring list \<Rightarrow> ustring" where
  "ujoin sep xs = concat (case xs of [] \<Rightarrow> [] | y # ys \<Rightarrow> y # map (\<lambda>z. sep @ z) ys)"

text \<open>\<open>split_terminator\<close> on a character class: a last empty piece is dropped.\<close>

fun usplit :: "(nat \<Rightarrow> bool) \<Rightarrow> ustring \<Rightarrow> ustring list" where
  "usplit p [] = [[]]"
| "usplit p (c # s) =
     (if p c then [] # usplit p s
      else (case usplit p s of [] \<Rightarrow> [[c]] | w # ws \<Rightarrow> (c # w) # ws))"

definition usplit_terminator :: "(nat \<Rightarrow> bool) \<Rightarrow> ustring \<Rightarrow> ustring list" where
  "usplit_terminator p s = (let ws = usplit p s in if last ws = [] then butlast ws else ws)"

lemma ulen_dropWhile_le: "ulen (dropWhile p s) \<le> ulen s"
  by (induction s) auto

lemma ulen_rev [simp]: "ulen (rev s) = ulen s"
  by (induction s) auto

lemma ulen_utrim_le: "ulen (utrim s) \<le> ulen s"
  unfolding utrim_def by (metis ulen_dropWhile_le ulen_rev le_trans)

lemma usplit_nonempty [simp]: "usplit p s \<noteq> []"
  by (induction s) (auto split: list.splits)

lemma ujoin_simps [simp]:
  "ujoin sep [] = []" "ujoin sep [x] = x"
  by (simp_all add: ujoin_def)

lemma ujoin_Cons: "xs \<noteq> [] \<Longrightarrow> ujoin sep (x # xs) = x @ sep @ ujoin sep xs"
  by (cases xs) (auto simp: ujoin_def)

lemma prefix_first_line: "prefix (first_line s) s"
proof -
  have "prefix (takeWhile (\<lambda>c. c \<noteq> 10) s) s" by (metis prefixI takeWhile_dropWhile_id)
  moreover have "prefix (butlast l) l" for l :: ustring by (rule prefixeq_butlast)
  ultimately show ?thesis unfolding first_line_def Let_def by (auto intro: prefix_order.trans)
qed

end
