(* ===== verification/Float_Rounding.thy ===== *)
theory Float_Rounding
  imports Prelude Complex_Main "HOL-Library.Log_Nat"
begin

text \<open>
  The IEEE arithmetic the program's ratios and budgets go through. A finite float is the
  rational number it denotes, and an operation is the exact rational operation followed by one
  rounding to nearest, ties to even, at the precision of the type: 24 bits for \<open>f32\<close>, 53
  for \<open>f64\<close>. No value of the modelled code comes near the exponent limits of either type,
  so neither infinities nor subnormals appear.
\<close>

section \<open>Rounding to an integer\<close>

definition round_half_even :: "rat \<Rightarrow> int" where
  "round_half_even y = (let f = \<lfloor>y\<rfloor>; r = y - of_int f
     in if r < 1 / 2 then f else if 1 / 2 < r then f + 1 else if even f then f else f + 1)"

lemma round_half_even_of_int [simp]: "round_half_even (of_int k) = k"
  by (simp add: round_half_even_def Let_def)

lemma round_half_even_le: "y \<le> of_int k \<Longrightarrow> round_half_even y \<le> k"
proof -
  assume "y \<le> of_int k"
  then have "\<lfloor>y\<rfloor> \<le> k" "\<lfloor>y\<rfloor> = k \<longrightarrow> y = of_int k" by linarith+
  then show ?thesis unfolding round_half_even_def Let_def
    by (cases "\<lfloor>y\<rfloor> = k") auto
qed

lemma round_half_even_ge: "of_int k \<le> y \<Longrightarrow> k \<le> round_half_even y"
proof -
  assume "of_int k \<le> y"
  then have "k \<le> \<lfloor>y\<rfloor>" by linarith
  then show ?thesis unfolding round_half_even_def Let_def by simp
qed

section \<open>The binade of a positive number\<close>

definition two_powi :: "int \<Rightarrow> rat" where
  "two_powi e = (if 0 \<le> e then 2 ^ nat e else 1 / 2 ^ nat (- e))"

lemma two_powi_pos [simp]: "0 < two_powi e" "two_powi e \<noteq> 0" "0 \<le> two_powi e"
  by (simp_all add: two_powi_def)

lemma two_powi_eq: "two_powi e = 2 powi e"
  by (simp add: two_powi_def power_int_def field_simps)

lemma two_powi_add: "two_powi (a + b) = two_powi a * two_powi b"
  by (simp add: two_powi_eq power_int_add)

lemma two_powi_mono: "a \<le> b \<Longrightarrow> two_powi a \<le> two_powi b"
  by (simp add: two_powi_eq power_int_increasing)

lemma two_powi_nat: "two_powi (int n) = 2 ^ n"
  by (simp add: two_powi_def)

lemma two_powi_less_imp: "two_powi a < two_powi b \<Longrightarrow> a < b"
  using two_powi_mono [of b a] by linarith

definition binade :: "rat \<Rightarrow> int" where
  "binade x = (let (a, b) = quotient_of x;
                   e = int (floorlog 2 (nat a)) - int (floorlog 2 (nat b))
               in if x < two_powi e then e - 1 else e)"

lemma two_powi_diff: "two_powi (a - b) = two_powi a / two_powi b"
  by (simp add: two_powi_eq power_int_diff)

lemma floorlog_two_powi:
  assumes "0 < k"
  shows "two_powi (int (floorlog 2 (nat k)) - 1) \<le> of_int k"
    "of_int k < two_powi (int (floorlog 2 (nat k)))"
proof -
  define m where "m = floorlog 2 (nat k)"
  have m: "2 ^ (m - 1) \<le> nat k" "nat k < 2 ^ m"
    using floorlog_bounds [of "nat k" 2] assms by (auto simp: m_def)
  have k: "rat_of_int k = of_nat (nat k)" using assms by simp
  have "m \<noteq> 0" using m(2) assms by (cases m) auto
  then have "int m - 1 = int (m - 1)" by simp
  then have "two_powi (int m - 1) = of_nat (2 ^ (m - 1))" by (simp only: two_powi_nat) simp
  then show "two_powi (int (floorlog 2 (nat k)) - 1) \<le> of_int k"
    using m(1) unfolding k m_def [symmetric] by (simp only: of_nat_le_iff)
  have "two_powi (int m) = of_nat (2 ^ m)" by (simp add: two_powi_nat)
  then show "of_int k < two_powi (int (floorlog 2 (nat k)))"
    using m(2) unfolding k m_def [symmetric] by (simp only: of_nat_less_iff)
qed

lemma binade_bounds:
  assumes "0 < x"
  shows "two_powi (binade x) \<le> x" "x < two_powi (binade x + 1)"
proof -
  obtain a b where q: "quotient_of x = (a, b)" by force
  then have b: "0 < b" and x: "x = of_int a / of_int b"
    by (auto dest: quotient_of_denom_pos quotient_of_div)
  with assms have a: "0 < a" by (simp add: zero_less_divide_iff)
  define m n where "m = int (floorlog 2 (nat a))" and "n = int (floorlog 2 (nat b))"
  note ab = floorlog_two_powi [OF a, folded m_def] floorlog_two_powi [OF b, folded n_def]
  have "x < two_powi m / two_powi (n - 1)"
    unfolding x using ab a b by (intro frac_less) auto
  then have up: "x < two_powi (m - n + 1)" by (simp add: two_powi_diff [symmetric] algebra_simps)
  have "two_powi (m - 1) / two_powi n \<le> x"
    unfolding x using ab a b by (intro frac_le) auto
  then have lo: "two_powi (m - n - 1) \<le> x" by (simp add: two_powi_diff [symmetric] algebra_simps)
  have "binade x = (if x < two_powi (m - n) then m - n - 1 else m - n)"
    by (simp add: binade_def q m_def n_def)
  with up lo show "two_powi (binade x) \<le> x" "x < two_powi (binade x + 1)" by auto
qed

section \<open>Rounding to a precision\<close>

definition round_to :: "nat \<Rightarrow> rat \<Rightarrow> rat" where
  "round_to p x =
     (if x = 0 then 0
      else (let u = two_powi (binade \<bar>x\<bar> - int p + 1)
            in of_int (round_half_even (x / u)) * u))"

abbreviation f32 :: "rat \<Rightarrow> rat" where "f32 \<equiv> round_to 24"
abbreviation f64 :: "rat \<Rightarrow> rat" where "f64 \<equiv> round_to 53"

lemma round_to_0 [simp]: "round_to p 0 = 0"
  by (simp add: round_to_def)

lemma round_to_nonneg: "0 \<le> x \<Longrightarrow> 0 \<le> round_to p x"
  unfolding round_to_def Let_def using round_half_even_ge [of 0]
  by simp

text \<open>An integer of at most \<open>p\<close> bits is a multiple of the unit of every number it bounds.\<close>

lemma nat_multiple_of_unit:
  assumes "e \<le> 0"
  shows "of_nat n / two_powi e = of_int (int n * 2 ^ nat (- e))"
proof -
  have "two_powi e = 1 / 2 ^ nat (- e)" using assms by (cases "e = 0") (auto simp: two_powi_def)
  then show ?thesis by simp
qed

lemma unit_nonpos:
  assumes "0 < x" "x \<le> of_nat n" "n < 2 ^ p"
  shows "binade x - int p + 1 \<le> 0"
proof -
  have "two_powi (binade x) \<le> of_nat n" using binade_bounds(1) [OF assms(1)] assms(2) by linarith
  also have "\<dots> < two_powi (int p)" using assms(3) unfolding two_powi_nat
    by (metis of_nat_less_iff of_nat_numeral of_nat_power)
  finally show ?thesis using two_powi_less_imp by fastforce
qed

lemma round_to_le_nat:
  assumes "0 \<le> x" "x \<le> of_nat n" "n < 2 ^ p"
  shows "round_to p x \<le> of_nat n"
proof (cases "x = 0")
  case False
  define u where "u = two_powi (binade x - int p + 1)"
  have x: "0 < x" using False assms(1) by simp
  have n: "of_nat n / u = of_int (int n * 2 ^ nat (- (binade x - int p + 1)))"
    unfolding u_def using unit_nonpos [OF x assms(2,3)] by (rule nat_multiple_of_unit)
  have "x / u \<le> of_nat n / u" using assms(2) by (simp add: u_def divide_right_mono)
  then have "of_int (round_half_even (x / u)) \<le> of_nat n / u"
    unfolding n of_int_le_iff by (rule round_half_even_le)
  moreover have "0 < u" by (simp add: u_def)
  ultimately show ?thesis using False x
    by (simp add: round_to_def Let_def u_def [symmetric] pos_le_divide_eq)
qed simp

lemma round_to_nat [simp]:
  assumes "n < 2 ^ p"
  shows "round_to p (of_nat n) = of_nat n"
proof (cases "n = 0")
  case False
  define u where "u = two_powi (binade (of_nat n) - int p + 1)"
  have "of_nat n / u = of_int (int n * 2 ^ nat (- (binade (of_nat n) - int p + 1)))"
    unfolding u_def using False assms by (intro nat_multiple_of_unit unit_nonpos [of _ n]) auto
  then have "of_int (round_half_even (of_nat n / u)) = of_nat n / u"
    by (simp only: round_half_even_of_int)
  moreover have "u \<noteq> 0" by (simp add: u_def)
  ultimately show ?thesis using False by (simp add: round_to_def Let_def u_def [symmetric])
qed simp

lemma round_to_ge_nat:
  assumes "of_nat n \<le> x" "n \<le> 2 ^ p" "p \<noteq> 0"
  shows "of_nat n \<le> round_to p x"
proof (cases "x = 0")
  case False
  define u where "u = two_powi (binade x - int p + 1)"
  have x: "0 < x" using False assms(1) of_nat_0_le_iff [of n, where 'a = rat] by linarith
  have u: "0 < u" and r: "round_to p x = of_int (round_half_even (x / u)) * u"
    using x False by (simp_all add: u_def round_to_def Let_def)
  have multiple: "of_int k * u \<le> round_to p x" if "of_int k * u \<le> x" for k
  proof -
    have "of_int k \<le> x / u" using that u by (simp add: pos_le_divide_eq)
    then show ?thesis unfolding r using u by (simp add: round_half_even_ge)
  qed
  show ?thesis
  proof (cases "binade x - int p + 1 \<le> 0")
    case True
    then have "of_int (int n * 2 ^ nat (- (binade x - int p + 1))) * u = of_nat n"
      using nat_multiple_of_unit [of _ n, folded u_def] u
      by (metis nonzero_eq_divide_eq less_irrefl u_def nat_multiple_of_unit)
    with multiple assms(1) show ?thesis by metis
  next
    case False
    have "of_int (2 ^ (p - 1)) * u = two_powi (int (p - 1) + (binade x - int p + 1))"
      by (simp add: two_powi_add two_powi_nat u_def)
    also have "\<dots> = two_powi (binade x)" using assms(3) by (simp add: of_nat_diff)
    finally have "two_powi (binade x) \<le> round_to p x"
      using multiple binade_bounds(1) [OF x] by metis
    moreover have "of_nat n \<le> two_powi (int p)"
      using assms(2) unfolding two_powi_nat by (metis of_nat_le_iff of_nat_numeral of_nat_power)
    moreover have "two_powi (int p) \<le> two_powi (binade x)" using False by (intro two_powi_mono) simp
    ultimately show ?thesis by linarith
  qed
qed (use assms in simp)

text \<open>Scaling by a power of two commutes with rounding.\<close>

lemma binade_unique:
  assumes "two_powi e \<le> x" "x < two_powi (e + 1)"
  shows "binade x = e"
proof -
  have "0 < x" using assms(1) two_powi_pos(1) [of e] by linarith
  note b = binade_bounds [OF this]
  have "two_powi (binade x) < two_powi (e + 1)" "two_powi e < two_powi (binade x + 1)"
    using assms b by linarith+
  then show ?thesis by (auto dest!: two_powi_less_imp)
qed

lemma binade_scale:
  assumes "0 < x"
  shows "binade (x * two_powi k) = binade x + k"
proof (rule binade_unique)
  have "two_powi (binade x) * two_powi k \<le> x * two_powi k"
    "x * two_powi k < two_powi (binade x + 1) * two_powi k"
    using binade_bounds [OF assms] by (simp_all add: mult_right_mono)
  then show "two_powi (binade x + k) \<le> x * two_powi k" "x * two_powi k < two_powi (binade x + k + 1)"
    by (simp_all only: two_powi_add) (simp_all add: ac_simps)
qed

lemma round_to_scale:
  assumes "0 \<le> x"
  shows "round_to p (x * two_powi k) = round_to p x * two_powi k"
proof (cases "x = 0")
  case False
  then have x: "0 < x" using assms by simp
  have "two_powi (binade x + k - int p + 1) = two_powi (binade x - int p + 1) * two_powi k"
    unfolding two_powi_add [symmetric] by (simp add: algebra_simps)
  with False x show ?thesis
    by (simp add: round_to_def Let_def binade_scale abs_mult)
qed simp

lemma round_to_nat_scaled: "n < 2 ^ p \<Longrightarrow> round_to p (of_nat n * two_powi k) = of_nat n * two_powi k"
  by (simp add: round_to_scale)

lemma f32_nat: "n < 16777216 \<Longrightarrow> f32 (of_nat n) = of_nat n"
  by (rule round_to_nat) simp

end
