(* ===== verification/Numeric.thy ===== *)
theory Numeric
  imports Float_Rounding "HOL-Library.Word"
begin

text \<open>
  The numeric conversions of \<open>nanna-numeric/src/lib.rs\<close>, on 64- and 32-bit words. The crate
  promises that each is value-for-value the \<open>as\<close> cast of the language; here each is shown to be
  the rounding, truncation or saturation of the exact value. A float given as bits is a word, read
  by \<open>f64_number\<close> and \<open>f32_value\<close>; the result of a float operation is the rational number it
  denotes (\<open>Float_Rounding\<close>), and a fused multiply-add rounds once.
\<close>

unbundle bit_operations_syntax

section \<open>The fields of a float\<close>

definition f64_exponent :: "64 word \<Rightarrow> nat" where "f64_exponent b = unat (drop_bit 52 b AND 0x7FF)"
definition f64_mantissa :: "64 word \<Rightarrow> nat" where "f64_mantissa b = unat (b AND mask 52)"
definition f64_negative :: "64 word \<Rightarrow> bool" where "f64_negative b = bit b 63"

definition f64_finite :: "64 word \<Rightarrow> bool" where "f64_finite b = (f64_exponent b \<noteq> 0x7FF)"
definition f64_is_nan :: "64 word \<Rightarrow> bool" where
  "f64_is_nan b = (f64_exponent b = 0x7FF \<and> f64_mantissa b \<noteq> 0)"

text \<open>The magnitude of a finite float.\<close>

definition f64_magnitude :: "64 word \<Rightarrow> rat" where
  "f64_magnitude b =
     (if f64_exponent b = 0 then of_nat (f64_mantissa b) * two_powi (- 1074)
      else of_nat (2 ^ 52 + f64_mantissa b) * two_powi (int (f64_exponent b) - 1075))"

definition f64_number :: "64 word \<Rightarrow> rat" where
  "f64_number b = (if f64_negative b then - f64_magnitude b else f64_magnitude b)"

definition f32_exponent :: "32 word \<Rightarrow> nat" where "f32_exponent b = unat (drop_bit 23 b AND 0xFF)"
definition f32_mantissa :: "32 word \<Rightarrow> nat" where "f32_mantissa b = unat (b AND mask 23)"
definition f32_negative :: "32 word \<Rightarrow> bool" where "f32_negative b = bit b 31"

definition f32_magnitude :: "32 word \<Rightarrow> rat" where
  "f32_magnitude b =
     (if f32_exponent b = 0 then of_nat (f32_mantissa b) * two_powi (- 149)
      else of_nat (2 ^ 23 + f32_mantissa b) * two_powi (int (f32_exponent b) - 150))"

section \<open>Pieces\<close>

text \<open>\<open>to_le_bytes\<close> and \<open>from_le_bytes\<close>\<close>

definition le_bytes :: "nat \<Rightarrow> 'a::len word \<Rightarrow> 8 word list" where
  "le_bytes k n = map (\<lambda>i. ucast (drop_bit (8 * i) n)) [0..<k]"

primrec from_le_bytes :: "8 word list \<Rightarrow> 'a::len word" where
  "from_le_bytes [] = 0"
| "from_le_bytes (b # bs) = ucast b OR push_bit 8 (from_le_bytes bs)"

definition halves_u64 :: "64 word \<Rightarrow> 32 word \<times> 32 word" where
  "halves_u64 n = (let b = le_bytes 8 n
     in (from_le_bytes [b ! 4, b ! 5, b ! 6, b ! 7], from_le_bytes [b ! 0, b ! 1, b ! 2, b ! 3]))"

definition low_u32 :: "64 word \<Rightarrow> 32 word" where
  "low_u32 n = snd (halves_u64 n)"

definition pow2_f32 :: "nat \<Rightarrow> rat" where
  "pow2_f32 k = f32_magnitude (push_bit 23 (word_of_nat (127 + k)))"

definition round_shift_even :: "64 word \<Rightarrow> nat \<Rightarrow> 64 word" where
  "round_shift_even v s =
     (if 64 \<le> s then 0
      else (let kept = drop_bit s v; remainder = v AND (push_bit s 1 - 1); half = push_bit (s - 1) 1;
                round_up = (half < remainder \<or> (remainder = half \<and> kept AND 1 = 1))
            in kept + of_bool round_up))"

section \<open>Integer to float\<close>

definition f64_from_u64 :: "64 word \<Rightarrow> rat" where
  "f64_from_u64 n = (case halves_u64 n of (hi, lo) \<Rightarrow> f64 (of_nat (unat hi) * 4294967296 + of_nat (unat lo)))"

definition f64_from_i64 :: "64 word \<Rightarrow> rat" where
  "f64_from_i64 n = (let magnitude = f64_from_u64 (word_of_int \<bar>sint n\<bar>)
     in if sint n < 0 then - magnitude else magnitude)"

definition f64_from_usize :: "nat \<Rightarrow> rat" where
  "f64_from_usize n = f64_from_u64 (word_of_nat n)"

definition f32_from_u32 :: "32 word \<Rightarrow> rat" where
  "f32_from_u32 n =
     (let b = le_bytes 4 n; lo = from_le_bytes [b ! 0, b ! 1] :: 16 word; hi = from_le_bytes [b ! 2, b ! 3] :: 16 word
      in f32 (of_nat (unat hi) * 65536 + of_nat (unat lo)))"

definition leading_zeros :: "64 word \<Rightarrow> nat" where
  "leading_zeros n = length (takeWhile (\<lambda>i. \<not> bit n i) (rev [0..<64]))"

definition f32_from_u64 :: "64 word \<Rightarrow> rat" where
  "f32_from_u64 n =
     (let dropped = (64 - leading_zeros n) - 32
      in if dropped = 0 then f32_from_u32 (low_u32 n)
         else (let dropped_bits = n AND (push_bit dropped 1 - 1);
                   sticky = of_bool (dropped_bits \<noteq> 0);
                   reduced = low_u32 (drop_bit dropped n OR sticky)
               in f32 (f32_from_u32 reduced * pow2_f32 dropped)))"


definition f32_from_i64 :: "64 word \<Rightarrow> rat" where
  "f32_from_i64 n = (let magnitude = f32_from_u64 (word_of_int \<bar>sint n\<bar>)
     in if sint n < 0 then - magnitude else magnitude)"

definition f32_from_i32 :: "32 word \<Rightarrow> rat" where
  "f32_from_i32 n = f32_from_i64 (scast n)"

definition f32_from_usize :: "nat \<Rightarrow> rat" where
  "f32_from_usize n = f32_from_u64 (word_of_nat n)"

section \<open>Double to single\<close>

definition MANTISSA_MASK :: "64 word" where "MANTISSA_MASK = push_bit 52 1 - 1"
definition EXPONENT_MASK :: "64 word" where "EXPONENT_MASK = 0x7FF"
definition MIN_NORMAL :: "64 word" where "MIN_NORMAL = 1023 - 126"
definition MAX_NORMAL :: "64 word" where "MAX_NORMAL = 1023 + 127"
definition REBIAS :: "64 word" where "REBIAS = 1023 - 127"
definition SUBNORMAL_ORIGIN :: "64 word" where "SUBNORMAL_ORIGIN = 1075 - 149"
definition F32_INFINITY :: "64 word" where "F32_INFINITY = push_bit 23 0xFF"
definition F32_QUIET_NAN :: "64 word" where "F32_QUIET_NAN = 0x7FC00000"

definition f32_from_f64 :: "64 word \<Rightarrow> 32 word" where
  "f32_from_f64 bits =
     (let sign = drop_bit 32 bits AND 0x80000000;
          exponent = drop_bit 52 bits AND EXPONENT_MASK;
          mantissa = bits AND MANTISSA_MASK;
          magnitude =
            (if exponent = EXPONENT_MASK then (if mantissa = 0 then F32_INFINITY else F32_QUIET_NAN)
             else if MAX_NORMAL < exponent then F32_INFINITY
             else if MIN_NORMAL \<le> exponent
               then push_bit 23 (exponent - REBIAS) + round_shift_even mantissa 29
             else if exponent = 0 then 0
             else round_shift_even (mantissa OR push_bit 52 1) (unat (SUBNORMAL_ORIGIN - exponent)))
      in low_u32 (sign OR magnitude))"

section \<open>Float to integer\<close>

text \<open>Comparisons of a float with a number: a NaN compares with nothing.\<close>

definition f64_less :: "64 word \<Rightarrow> rat \<Rightarrow> bool" where
  "f64_less x c = (\<not> f64_is_nan x \<and> (if f64_finite x then f64_number x < c else f64_negative x))"

definition f64_at_least :: "64 word \<Rightarrow> rat \<Rightarrow> bool" where
  "f64_at_least x c = (\<not> f64_is_nan x \<and> (if f64_finite x then c \<le> f64_number x else \<not> f64_negative x))"

definition u64_from_f64 :: "64 word \<Rightarrow> 64 word" where
  "u64_from_f64 x =
     (if f64_is_nan x \<or> f64_less x 1 then 0
      else if f64_at_least x 18446744073709551616 then - 1
      else (let exponent = unat ((drop_bit 52 x AND 0x7FF) - 1023);
                full = (x AND MANTISSA_MASK) OR push_bit 52 1
            in if 52 \<le> exponent then push_bit (exponent - 52) full else drop_bit (52 - exponent) full))"

text \<open>\<open>i64::try_from\<close>: the word when it is below \<open>2^63\<close>\<close>

definition i64_try_from :: "64 word \<Rightarrow> 64 word option" where
  "i64_try_from m = (if unat m < 2 ^ 63 then Some m else None)"

definition i64_from_f64 :: "64 word \<Rightarrow> 64 word" where
  "i64_from_f64 x =
     (if f64_less x 0
      then (case i64_try_from (u64_from_f64 (x XOR push_bit 63 1)) of
              None \<Rightarrow> push_bit 63 1 | Some magnitude \<Rightarrow> - magnitude)
      else (case i64_try_from (u64_from_f64 x) of None \<Rightarrow> push_bit 63 1 - 1 | Some magnitude \<Rightarrow> magnitude))"

definition usize_from_f64 :: "64 word \<Rightarrow> nat" where
  "usize_from_f64 x = unat (u64_from_f64 x)"

section \<open>Words and their numbers\<close>

lemma bit_from_le_bytes:
  "bit (from_le_bytes (map (\<lambda>i. ucast (drop_bit (8 * i) n)) [a..<a + k]) :: 'b::len word) i
     \<longleftrightarrow> i < 8 * k \<and> i < LENGTH('b) \<and> bit (n :: 'a::len word) (8 * a + i)"
proof (induction k arbitrary: a i)
  case (Suc k)
  have l: "[a..<a + Suc k] = a # [Suc a..<Suc a + k]" by (simp add: upt_rec)
  show ?case
    unfolding l list.map from_le_bytes.simps bit_or_iff bit_push_bit_iff Suc.IH
    by (auto simp: bit_ucast_iff bit_drop_bit_eq algebra_simps dest: bit_imp_le_length)
qed simp

lemma from_le_slice:
  assumes "LENGTH('b) = 8 * k" "a + k \<le> m"
  shows "(from_le_bytes (map ((!) (le_bytes m n)) [a..<a + k]) :: 'b::len word) = ucast (drop_bit (8 * a) n)"
proof -
  have eq: "map ((!) (le_bytes m n)) [a..<a + k] = map (\<lambda>i. ucast (drop_bit (8 * i) n)) [a..<a + k]"
    using assms(2) by (auto simp: le_bytes_def)
  show ?thesis unfolding eq using assms(1)
    by (auto intro!: bit_word_eqI simp: bit_from_le_bytes bit_ucast_iff bit_drop_bit_eq)
qed

lemma byte_lists:
  "[b ! 4, b ! 5, b ! 6, b ! 7] = map ((!) b) [4..<4 + 4]" "[b ! 0, b ! 1, b ! 2, b ! 3] = map ((!) b) [0..<0 + 4]"
  "[b ! 2, b ! 3] = map ((!) b) [2..<2 + 2]" "[b ! 0, b ! 1] = map ((!) b) [0..<0 + 2]"
  by (simp_all add: numeral_eq_Suc upt_rec)

lemma halves_u64_eq: "halves_u64 n = (ucast (drop_bit 32 n), ucast n)"
proof -
  have e: "(from_le_bytes (map ((!) (le_bytes 8 n)) [4..<4 + 4]) :: 32 word) = ucast (drop_bit (8 * 4) n)"
    "(from_le_bytes (map ((!) (le_bytes 8 n)) [0..<0 + 4]) :: 32 word) = ucast (drop_bit (8 * 0) n)"
    by (rule from_le_slice; simp)+
  show ?thesis unfolding halves_u64_def Let_def byte_lists(1,2) e by simp
qed

lemma unat_ucast_mod: "unat (ucast (n :: 'a::len word) :: 'b::len word) = unat n mod 2 ^ LENGTH('b)"
  by (simp add: unsigned_ucast_eq take_bit_eq_mod)

lemma unat_high: "unat (ucast (drop_bit k n) :: 'b::len word) = unat (n :: 'a::len word) div 2 ^ k"
  if "LENGTH('a) = k + LENGTH('b)"
proof -
  have "unat n < 2 ^ k * 2 ^ LENGTH('b)" using unsigned_less [of n] that by (simp add: power_add)
  then have "unat n div 2 ^ k < 2 ^ LENGTH('b)" by (simp add: less_mult_imp_div_less mult.commute)
  then show ?thesis unfolding unat_ucast_mod unat_drop_bit_eq by (simp add: drop_bit_eq_div)
qed

lemma rat_div_mod: "(of_nat (n div b) * of_nat b + of_nat (n mod b) :: rat) = of_nat n"
  by (metis div_mult_mod_eq of_nat_add of_nat_mult)

lemma f64_from_u64_eq: "f64_from_u64 n = f64 (of_nat (unat n))"
proof -
  have "unat (ucast (drop_bit 32 n) :: 32 word) = unat n div 4294967296" by (subst unat_high) simp_all
  then show ?thesis using rat_div_mod [of "unat n" 4294967296]
    by (simp add: f64_from_u64_def halves_u64_eq unat_ucast_mod del: of_nat_unat)
qed

lemma f32_from_u32_eq: "f32_from_u32 n = f32 (of_nat (unat n))"
proof -
  have e: "(from_le_bytes (map ((!) (le_bytes 4 n)) [2..<2 + 2]) :: 16 word) = ucast (drop_bit (8 * 2) n)"
    "(from_le_bytes (map ((!) (le_bytes 4 n)) [0..<0 + 2]) :: 16 word) = ucast (drop_bit (8 * 0) n)"
    by (rule from_le_slice; simp)+
  have "unat (ucast (drop_bit (8 * 2) n) :: 16 word) = unat n div 65536" by (subst unat_high) simp_all
  then show ?thesis using rat_div_mod [of "unat n" 65536]
    unfolding f32_from_u32_def Let_def byte_lists(3,4) e
    by (simp add: unat_ucast_mod del: of_nat_unat)
qed


section \<open>Rounding quotients of naturals\<close>

definition div_half_even :: "nat \<Rightarrow> nat \<Rightarrow> nat" where
  "div_half_even a b = (let q = a div b; r = a mod b
     in if 2 * r < b then q else if b < 2 * r then q + 1 else if even q then q else q + 1)"

lemma round_half_even_div:
  assumes "0 < b"
  shows "round_half_even (of_nat a / of_nat b) = int (div_half_even a b)"
proof -
  have q: "\<lfloor>of_nat a / of_nat b :: rat\<rfloor> = int (a div b)" by (rule floor_divide_of_nat_eq)
  have "(of_nat a :: rat) = of_nat (a div b) * of_nat b + of_nat (a mod b)" by (rule rat_div_mod [symmetric])
  then have r: "of_nat a / of_nat b - of_nat (a div b) = (of_nat (a mod b) / of_nat b :: rat)"
    using assms by (simp add: field_simps)
  have cmp: "(of_nat (a mod b) / of_nat b < (1 / 2 :: rat)) = (2 * (a mod b) < b)"
    "((1 / 2 :: rat) < of_nat (a mod b) / of_nat b) = (b < 2 * (a mod b))"
  proof -
    have "(of_nat (a mod b) / of_nat b < (1 / 2 :: rat)) = (of_nat (2 * (a mod b)) < (of_nat b :: rat))"
      using assms by (simp add: field_simps)
    then show "(of_nat (a mod b) / of_nat b < (1 / 2 :: rat)) = (2 * (a mod b) < b)"
      by (simp only: of_nat_less_iff)
    have "((1 / 2 :: rat) < of_nat (a mod b) / of_nat b) = (of_nat b < (of_nat (2 * (a mod b)) :: rat))"
      using assms by (simp add: field_simps)
    then show "((1 / 2 :: rat) < of_nat (a mod b) / of_nat b) = (b < 2 * (a mod b))"
      by (simp only: of_nat_less_iff)
  qed
  show ?thesis
    unfolding round_half_even_def Let_def q div_half_even_def of_int_of_nat_eq r cmp by auto
qed

text \<open>Adding an even multiple of the divisor moves the quotient only.\<close>

lemma div_half_even_shift:
  assumes "0 < b" "even k"
  shows "div_half_even (k * b + a) b = k + div_half_even a b"
  using assms by (simp add: div_half_even_def Let_def)

lemma div_half_even_scale: "0 < c \<Longrightarrow> div_half_even (c * a) (c * b) = div_half_even a b"
  by (simp add: div_half_even_def Let_def mult_less_cancel1 flip: mult.assoc mult.commute [of 2])

text \<open>
  The sticky bit: a number may be cut down to its leading bits, the last of them set when
  anything was cut, before it is rounded at a higher bit.
\<close>

lemma div_half_even_sticky:
  assumes "2 \<le> j"
  shows "div_half_even n (2 ^ (d + j)) = div_half_even ((n div 2 ^ d) OR of_bool (n mod 2 ^ d \<noteq> 0)) (2 ^ j)"
proof (cases "n mod 2 ^ d = 0")
  case True
  then have "n = 2 ^ d * (n div 2 ^ d)" by (metis add.right_neutral mult_div_mod_eq)
  then show ?thesis using True div_half_even_scale [of "2 ^ d" "n div 2 ^ d" "2 ^ j"] by (simp add: power_add)
next
  case False
  define q t r h :: nat where "q = n div 2 ^ d" and "t = n mod 2 ^ d" and "r = q mod 2 ^ j" and "h = 2 ^ (j - 1)"
  have j: "2 ^ j = 2 * h" "even h" using assms by (auto simp: h_def power_eq_if)
  have t: "0 < t" "t < 2 ^ d" using False by (simp_all add: t_def)
  have parity: "even r = even q" using j by (simp add: r_def dvd_mod_iff)
  have odd: "q OR 1 = q + of_bool (even q)" by (rule or_one_eq)
  have r: "r < 2 * h" unfolding r_def j by (rule mod_less_divisor) (simp add: h_def)
  have r1: "r + of_bool (even q) < 2 * h"
  proof (cases "even q")
    case True
    with parity have "even r" by simp
    then have "r + 1 \<noteq> 2 * h" by presburger
    with r show ?thesis by simp
  qed (use r in simp)
  have split: "q = 2 ^ j * (q div 2 ^ j) + r" by (simp add: r_def)
  have m: "(q OR 1) div 2 ^ j = q div 2 ^ j" "(q OR 1) mod 2 ^ j = r + of_bool (even q)"
  proof -
    have "q OR 1 = 2 ^ j * (q div 2 ^ j) + (r + of_bool (even q))" unfolding odd using split by simp
    then show "(q OR 1) div 2 ^ j = q div 2 ^ j" "(q OR 1) mod 2 ^ j = r + of_bool (even q)"
      using r1 j by (simp_all add: div_mult_self4 mod_mult_self4)
  qed
  have n: "n div 2 ^ (d + j) = q div 2 ^ j" "n mod 2 ^ (d + j) = 2 ^ d * r + t"
    by (simp_all add: power_add div_mult2_eq mod_mult2_eq q_def r_def t_def)
  have p: "2 ^ (d + j) = 2 * (2 ^ d * h)" by (simp add: power_add j)
  have low: "2 * (2 ^ d * r + t) < 2 ^ (d + j) \<longleftrightarrow> r < h"
  proof -
    have "2 * (2 ^ d * r + t) < 2 ^ (d + j) \<longleftrightarrow> 2 ^ d * r + t < 2 ^ d * h" unfolding p by (rule nat_mult_less_cancel1) simp
    also have "\<dots> \<longleftrightarrow> r < h"
    proof
      assume "r < h"
      then have "2 ^ d * (r + 1) \<le> 2 ^ d * h" by (intro mult_le_mono2) simp
      with t show "2 ^ d * r + t < 2 ^ d * h" by simp
    next
      assume "2 ^ d * r + t < 2 ^ d * h"
      then have "2 ^ d * r < 2 ^ d * h" by linarith
      then show "r < h" by simp
    qed
    finally show ?thesis .
  qed
  have high: "2 ^ (d + j) < 2 * (2 ^ d * r + t) \<longleftrightarrow> h \<le> r"
  proof -
    have "2 ^ (d + j) < 2 * (2 ^ d * r + t) \<longleftrightarrow> 2 ^ d * h < 2 ^ d * r + t" unfolding p by (rule nat_mult_less_cancel1) simp
    also have "\<dots> \<longleftrightarrow> h \<le> r"
    proof
      assume "h \<le> r"
      then have "2 ^ d * h \<le> 2 ^ d * r" by simp
      with t show "2 ^ d * h < 2 ^ d * r + t" by linarith
    next
      assume "2 ^ d * h < 2 ^ d * r + t"
      then have "2 ^ d * h < 2 ^ d * (r + 1)" using t unfolding distrib_left by linarith
      then have "h < r + 1" by (metis mult_less_cancel1)
      then show "h \<le> r" by simp
    qed
    finally show ?thesis .
  qed
  have m_low: "2 * (r + of_bool (even q)) < 2 ^ j \<longleftrightarrow> r < h" "2 ^ j < 2 * (r + of_bool (even q)) \<longleftrightarrow> h \<le> r"
    using parity j by (auto elim!: evenE oddE) presburger+
  have "of_bool (n mod 2 ^ d \<noteq> 0) = (1 :: nat)" using False by simp
  then show ?thesis
    unfolding div_half_even_def Let_def q_def [symmetric] by (simp only: n m low high m_low)
qed

section \<open>Integer to float is rounding\<close>

lemma unat_and_mask: "unat (n AND mask k) = unat n mod 2 ^ k"
  unfolding take_bit_eq_mask [symmetric] unsigned_take_bit_eq by (simp add: take_bit_eq_mod)

lemma unat_shift_right: "unat (drop_bit k n) = unat n div 2 ^ k"
  unfolding unat_drop_bit_eq by (simp add: drop_bit_eq_div)

lemma unat_shift_left:
  "unat n * 2 ^ k < 2 ^ LENGTH('a) \<Longrightarrow> unat (push_bit k n) = unat n * 2 ^ k" for n :: "'a::len word"
  unfolding unsigned_push_bit_eq by (simp add: push_bit_eq_mult take_bit_nat_eq_self)

lemma unat_word_of_nat: "unat (word_of_nat k :: 'a::len word) = k mod 2 ^ LENGTH('a)"
  by (simp add: unsigned_of_nat take_bit_eq_mod)

lemma bit_iff_unat: "bit n i \<longleftrightarrow> odd (unat n div 2 ^ i)"
proof -
  have "bit n i = bit (unat n) i" by (simp add: bit_unsigned_iff)
  then show ?thesis by (simp add: bit_iff_odd)
qed

lemma leading_zeros_eq:
  assumes "2 ^ h \<le> unat n" "unat n < 2 ^ (h + 1)"
  shows "64 - leading_zeros n = h + 1"
proof -
  have "unat n < 2 ^ LENGTH(64)" by (rule unsigned_less)
  then have "(2::nat) ^ h < 2 ^ 64" using assms(1) by simp
  then have h: "h < 64" by (rule power_less_imp_less_exp [rotated]) simp
  have "unat n div 2 ^ h = 1" using assms by (intro div_nat_eqI) simp_all
  then have "bit n h" by (simp add: bit_iff_unat)
  moreover have "\<not> bit n i" if "h < i" for i
  proof -
    have "(2::nat) ^ (h + 1) \<le> 2 ^ i" using that by (intro power_increasing) simp_all
    then show ?thesis using assms(2) by (simp add: bit_iff_unat)
  qed
  ultimately have "takeWhile (\<lambda>i. \<not> bit n i) (rev [0..<64]) = take (63 - h) (rev [0..<64])"
    using h by (intro takeWhile_eq_take_P_nth) (auto simp: rev_nth)
  then show ?thesis using h by (simp add: leading_zeros_def)
qed

lemma leading_zeros_0: "leading_zeros 0 = 64"
proof -
  have "takeWhile (\<lambda>i. \<not> bit (0 :: 64 word) i) (rev [0..<64]) = rev [0..<64]"
    by (rule takeWhile_eq_all_conv [THEN iffD2]) simp
  then show ?thesis unfolding leading_zeros_def by (simp only: length_rev length_upt)
qed

lemma f32_binade:
  assumes "2 ^ h \<le> n" "n < 2 ^ (h + 1)" "23 \<le> h"
  shows "f32 (of_nat n) = of_nat (div_half_even n (2 ^ (h - 23))) * two_powi (int (h - 23))"
proof -
  have b: "binade (of_nat n) = int h"
  proof (rule binade_unique)
    show "two_powi (int h) \<le> of_nat n"
      unfolding two_powi_nat using assms(1) by (metis of_nat_le_iff of_nat_numeral of_nat_power)
    have "of_nat n < (of_nat (2 ^ (h + 1)) :: rat)" using assms(2) by (simp only: of_nat_less_iff)
    then show "of_nat n < two_powi (int h + 1)" using two_powi_nat [of "h + 1"] by (simp add: add.commute)
  qed
  have n: "of_nat n \<noteq> (0 :: rat)" using assms(1) by (cases n) auto
  have "int h - int 24 + 1 = int (h - 23)" using assms(3) by simp
  then have "round_half_even (of_nat n / two_powi (int h - int 24 + 1)) = int (div_half_even n (2 ^ (h - 23)))"
    using round_half_even_div [of "2 ^ (h - 23)" n] by (simp only: two_powi_nat of_nat_power of_nat_numeral) simp
  then show ?thesis using n \<open>int h - int 24 + 1 = int (h - 23)\<close>
    by (simp only: round_to_def b abs_of_nat Let_def if_False of_int_of_nat_eq)
qed

lemma f32_scaled:
  assumes "n \<le> 2 ^ 24"
  shows "f32 (of_nat n * two_powi k) = of_nat n * two_powi k"
proof (cases "n = 2 ^ 24")
  case True
  then have "of_nat n * two_powi k = of_nat (2 ^ 23) * two_powi (k + 1)"
    by (simp add: two_powi_add two_powi_nat [of 1, simplified])
  then show ?thesis using round_to_nat_scaled [of "2 ^ 23" 24] by simp
next
  case False
  with assms show ?thesis by (intro round_to_nat_scaled) simp
qed

lemma div_half_even_le: "a < c * b \<Longrightarrow> div_half_even a b \<le> c"
proof -
  assume "a < c * b"
  then have "a div b < c" by (simp add: less_mult_imp_div_less)
  then show ?thesis by (simp add: div_half_even_def Let_def)
qed

lemma f32_fields:
  "f32_exponent b = unat b div 2 ^ 23 mod 256" "f32_mantissa b = unat b mod 2 ^ 23"
proof -
  have "(0xFF :: 32 word) = mask 8" by (simp add: mask_eq_exp_minus_1)
  then show "f32_exponent b = unat b div 2 ^ 23 mod 256"
    unfolding f32_exponent_def by (simp only: unat_and_mask unat_shift_right) simp
qed (simp add: f32_mantissa_def unat_and_mask)

lemma pow2_f32_eq:
  assumes "0 < k" "k \<le> 32"
  shows "pow2_f32 k = two_powi (int k)"
proof -
  have "push_bit 23 (word_of_nat (127 + k)) = (word_of_nat ((127 + k) * 2 ^ 23) :: 32 word)"
    by (simp add: push_bit_eq_mult mult.commute)
  moreover have "(127 + k) * 2 ^ 23 < 2 ^ LENGTH(32)" using assms(2) by simp
  ultimately have "unat (push_bit 23 (word_of_nat (127 + k)) :: 32 word) = (127 + k) * 2 ^ 23"
    by (simp only: unat_word_of_nat mod_less)
  then have "f32_exponent (push_bit 23 (word_of_nat (127 + k))) = 127 + k"
    "f32_mantissa (push_bit 23 (word_of_nat (127 + k))) = 0"
    using assms(2) unfolding f32_fields by simp_all
  then have "pow2_f32 k = of_nat (2 ^ 23) * two_powi (int k - 23)"
    by (simp add: pow2_f32_def f32_magnitude_def)
  also have "\<dots> = two_powi (int k)" using two_powi_nat [of 23] two_powi_add [of 23 "int k - 23"] by simp
  finally show ?thesis .
qed

lemma unat_low_u32: "unat (low_u32 n) = unat n mod 2 ^ 32"
  by (simp add: low_u32_def halves_u64_eq unat_ucast_mod)

lemma unat_sticky:
  "unat (drop_bit d n OR of_bool (n AND (push_bit d 1 - 1) \<noteq> 0))
     = unat n div 2 ^ d OR of_bool (unat n mod 2 ^ d \<noteq> 0)" for n :: "64 word"
proof -
  have "push_bit d 1 - 1 = (mask d :: 64 word)" by (simp add: mask_eq_decr_exp push_bit_eq_mult)
  then have "(n AND (push_bit d 1 - 1) \<noteq> 0) = (unat n mod 2 ^ d \<noteq> 0)"
    using unat_and_mask [of n d] by (simp only: flip: unat_eq_0)
  moreover have "unat (of_bool P :: 64 word) = of_bool P" for P by simp
  ultimately show ?thesis by (simp only: unsigned_or_eq unat_shift_right)
qed

lemma f32_from_u64_eq: "f32_from_u64 n = f32 (of_nat (unat n))"
proof (cases "unat n < 2 ^ 32")
  case True
  have "(64 - leading_zeros n) - 32 = 0"
  proof (cases "n = 0")
    case False
    then have "1 \<le> unat n" by (simp add: Suc_leI unat_gt_0)
    from ex_power_ivl1 [OF _ this, of 2] obtain h where h: "2 ^ h \<le> unat n" "unat n < 2 ^ (h + 1)" by auto
    have "(2::nat) ^ h < 2 ^ 32" using h(1) True by linarith
    then have "h < 32" by (rule power_less_imp_less_exp [rotated]) simp
    with leading_zeros_eq [OF h] show ?thesis by simp
  qed (simp add: leading_zeros_0)
  then show ?thesis using True by (simp add: f32_from_u64_def f32_from_u32_eq unat_low_u32)
next
  case False
  then have "1 \<le> unat n" by simp
  from ex_power_ivl1 [OF _ this, of 2] obtain h where h: "2 ^ h \<le> unat n" "unat n < 2 ^ (h + 1)" by auto
  have "unat n < 2 ^ LENGTH(64)" by (rule unsigned_less)
  with h False have "(2::nat) ^ 32 < 2 ^ (h + 1)" "(2::nat) ^ h < 2 ^ 64" by simp_all
  then have "32 < h + 1" "h < 64" by (meson one_less_numeral_iff power_less_imp_less_exp semiring_norm(76))+
  define d where "d = h - 31"
  have d: "0 < d" "d \<le> 32" "h = d + 31" using \<open>32 < h + 1\<close> \<open>h < 64\<close> by (simp_all add: d_def)
  have dropped: "(64 - leading_zeros n) - 32 = d" using leading_zeros_eq [OF h] d by simp
  define r where "r = unat n div 2 ^ d OR of_bool (unat n mod 2 ^ d \<noteq> 0)"
  define q where "q = div_half_even r (2 ^ 8)"
  have top: "2 ^ 31 \<le> unat n div 2 ^ d" "unat n div 2 ^ d < 2 ^ 32"
  proof -
    have "2 ^ 31 * 2 ^ d \<le> unat n" "unat n < 2 ^ 32 * 2 ^ d"
      using h by (simp_all add: d(3) power_add mult.commute)
    then show "2 ^ 31 \<le> unat n div 2 ^ d" "unat n div 2 ^ d < 2 ^ 32"
      by (simp_all add: less_eq_div_iff_mult_less_eq less_mult_imp_div_less)
  qed
  have r: "2 ^ 31 \<le> r" "r < 2 ^ 32"
  proof -
    have "r = unat n div 2 ^ d + of_bool (unat n mod 2 ^ d \<noteq> 0 \<and> even (unat n div 2 ^ d))"
      unfolding r_def using or_one_eq [of "unat n div 2 ^ d"] by (cases "unat n mod 2 ^ d = 0") simp_all
    then have "r = unat n div 2 ^ d \<or> even (unat n div 2 ^ d) \<and> r = unat n div 2 ^ d + 1" by auto
    moreover have "even (unat n div 2 ^ d) \<Longrightarrow> unat n div 2 ^ d + 1 \<noteq> 2 ^ 32" by (auto dest: arg_cong [of _ _ even])
    ultimately show "2 ^ 31 \<le> r" "r < 2 ^ 32" using top by auto
  qed
  have "r < 2 ^ 24 * 2 ^ 8" using r(2) by simp
  then have q: "q \<le> 2 ^ 24" unfolding q_def by (rule div_half_even_le)
  have "f32 (of_nat r) = of_nat q * two_powi 8"
    using f32_binade [of 31 r] r by (simp add: q_def)
  moreover have low: "unat (low_u32 (drop_bit d n OR of_bool (n AND (push_bit d 1 - 1) \<noteq> 0))) = r"
    unfolding unat_low_u32 unat_sticky using r(2) by (simp add: r_def)
  have "f32_from_u64 n = f32 (f32 (of_nat r) * pow2_f32 d)"
    unfolding f32_from_u64_def dropped Let_def f32_from_u32_eq low using d(1) by simp
  ultimately have "f32_from_u64 n = f32 (of_nat q * two_powi (8 + int d))"
    using d by (simp add: pow2_f32_eq two_powi_add mult.assoc)
  also have "\<dots> = of_nat q * two_powi (8 + int d)" using q by (rule f32_scaled)
  also have "\<dots> = f32 (of_nat (unat n))"
    using f32_binade [OF h] d div_half_even_sticky [of 8 "unat n" d]
    by (simp add: q_def r_def add.commute)
  finally show ?thesis .
qed

lemma unsigned_abs: "unat (word_of_int \<bar>sint n\<bar> :: 64 word) = nat \<bar>sint n\<bar>" for n :: "64 word"
proof -
  have "- (2 ^ 63) \<le> sint n" "sint n < 2 ^ 63" using sint_greater_eq [of n] sint_less [of n] by simp_all
  then have "\<bar>sint n\<bar> < 2 ^ 64" by simp
  then have "uint (word_of_int \<bar>sint n\<bar> :: 64 word) = \<bar>sint n\<bar>"
    by (simp add: unsigned_of_int take_bit_int_eq_self)
  then show ?thesis by (metis nat_uint_eq)
qed

text \<open>C36: An integer becomes a float by one rounding of its exact value to nearest, ties to even:
  the fused multiply-add of two exact halves, and for singles the cut to 32 bits with a sticky
  bit, lose nothing that the rounding looks at.\<close>

theorem integer_to_float_rounds:
  "f64_from_u64 n = f64 (of_nat (unat n)) \<and> f32_from_u64 n = f32 (of_nat (unat n))
   \<and> f64_from_i64 n = of_int (sgn (sint n)) * f64 (of_int \<bar>sint n\<bar>)
   \<and> f32_from_i64 n = of_int (sgn (sint n)) * f32 (of_int \<bar>sint n\<bar>)"
proof (intro conjI f64_from_u64_eq f32_from_u64_eq)
  have abs: "of_nat (nat \<bar>k\<bar>) = (of_int \<bar>k\<bar> :: rat)" for k by simp
  have sign: "(if k < 0 then - y else y) = of_int (sgn k) * y" if "k = 0 \<Longrightarrow> y = 0" for k :: int and y :: rat
    using that by (auto simp: sgn_if)
  show "f64_from_i64 n = of_int (sgn (sint n)) * f64 (of_int \<bar>sint n\<bar>)"
    unfolding f64_from_i64_def Let_def f64_from_u64_eq unsigned_abs abs by (rule sign) simp
  show "f32_from_i64 n = of_int (sgn (sint n)) * f32 (of_int \<bar>sint n\<bar>)"
    unfolding f32_from_i64_def Let_def f32_from_u64_eq unsigned_abs abs by (rule sign) simp
qed

lemma f32_from_usize_eq: "n < 2 ^ 64 \<Longrightarrow> f32_from_usize n = f32 (of_nat n)"
  by (simp add: f32_from_usize_def f32_from_u64_eq unat_word_of_nat del: of_nat_unat)

end
