(* ===== verification/Token_Estimate.thy ===== *)
theory Token_Estimate
  imports Unicode_Text Numeric
begin

text \<open>
  The token arithmetic of \<open>nanna-llm/src/lib.rs\<close>: the heuristic estimate of a text, and the
  input and output budgets a \<open>ModelInfo\<close> grants. Every compression decision of the agent's
  context is a comparison of the two. Sums and products of token counts are \<open>nat\<close>: texts and
  windows that could overflow a \<open>usize\<close> do not fit in memory.
\<close>

section \<open>Conversions\<close>

text \<open>
  \<open>usize_from_f32\<close> on the number a finite single denotes: truncation, saturating at the bounds
  of the type (\<open>Numeric_Float\<close> shows it of the bits).
\<close>

definition usize_from_f32 :: "rat \<Rightarrow> nat" where
  "usize_from_f32 x = min (nat \<lfloor>x\<rfloor>) usize_max"

section \<open>The estimate\<close>

definition CHARS_PER_TOKEN_ENGLISH :: rat where "CHARS_PER_TOKEN_ENGLISH = 4"
definition CHARS_PER_TOKEN_CODE :: rat where "CHARS_PER_TOKEN_CODE = 7 / 2"
definition TOKENS_PER_WIDE_CHAR :: rat where "TOKENS_PER_WIDE_CHAR = 1"

datatype token_content_family = English | Code | Auto

definition code_marker_chars :: "nat list" where
  "code_marker_chars = lit ''{}[]();:_<>=|&*/'' @ [92] @ lit ''#@$`''"

definition family_ratio :: "token_content_family \<Rightarrow> nat \<Rightarrow> nat \<Rightarrow> rat" where
  "family_ratio family ascii_chars code_markers =
     (case family of
        English \<Rightarrow> CHARS_PER_TOKEN_ENGLISH
      | Code \<Rightarrow> CHARS_PER_TOKEN_CODE
      | Auto \<Rightarrow> if 0 < ascii_chars \<and> 8 \<le> saturating_mul code_markers 100 div ascii_chars
                then CHARS_PER_TOKEN_CODE else CHARS_PER_TOKEN_ENGLISH)"

definition estimate_tokens_for_family :: "ustring \<Rightarrow> token_content_family \<Rightarrow> nat" where
  "estimate_tokens_for_family s family =
     (if s = [] then 0
      else (let ascii_chars = length (filter is_ascii s);
                wide_chars = length (filter (\<lambda>c. \<not> is_ascii c) s);
                code_markers = length (filter (\<lambda>c. c \<in> set code_marker_chars) s);
                ratio = family_ratio family ascii_chars code_markers;
                ascii_tokens = (if ascii_chars = 0 then 0
                  else usize_from_f32 (of_int \<lceil>f32 (f32_from_usize ascii_chars / ratio)\<rceil>));
                wide_tokens = usize_from_f32
                  (of_int \<lceil>f32 (f32_from_usize wide_chars * TOKENS_PER_WIDE_CHAR)\<rceil>)
            in max (ascii_tokens + wide_tokens) 1))"

definition estimate_tokens :: "ustring \<Rightarrow> nat" where
  "estimate_tokens s = estimate_tokens_for_family s Auto"

text \<open>\<open>AgentContext::chars_for_tokens\<close>\<close>

definition chars_for_tokens :: "nat \<Rightarrow> nat" where
  "chars_for_tokens tokens = usize_from_f32 (f32 (f32_from_usize tokens * CHARS_PER_TOKEN_CODE))"

lemma estimate_tokens_Nil [simp]: "estimate_tokens [] = 0"
  by (simp add: estimate_tokens_def estimate_tokens_for_family_def)

lemma estimate_tokens_pos: "s \<noteq> [] \<Longrightarrow> 1 \<le> estimate_tokens s"
  by (simp add: estimate_tokens_def estimate_tokens_for_family_def Let_def)

lemma usize_from_f32_of_nat_le: "x \<le> of_nat n \<Longrightarrow> usize_from_f32 x \<le> n"
  by (simp add: usize_from_f32_def min_le_iff_disj floor_le_iff nat_le_iff)

lemma family_ratio_ge: "CHARS_PER_TOKEN_CODE \<le> family_ratio f a m"
  by (simp add: family_ratio_def CHARS_PER_TOKEN_CODE_def CHARS_PER_TOKEN_ENGLISH_def
      split: token_content_family.split)

lemma chars_for_tokens_exact:
  assumes "7 * t < 16777216"
  shows "chars_for_tokens t = 7 * t div 2"
proof -
  have t: "f32_from_usize t = of_nat t"
    using assms by (simp add: f32_from_usize_eq f32_nat)
  have eq: "of_nat t * CHARS_PER_TOKEN_CODE = of_nat (7 * t) * two_powi (- 1)"
    by (simp add: CHARS_PER_TOKEN_CODE_def two_powi_def)
  have round: "f32 (of_nat (7 * t) * two_powi (- 1)) = of_nat (7 * t) * two_powi (- 1)"
    using assms by (intro round_to_nat_scaled) simp
  have "\<lfloor>of_nat (7 * t) * two_powi (- 1)\<rfloor> = int (7 * t div 2)"
    using floor_divide_of_nat_eq [of "7 * t" 2, where 'a = rat] by (simp add: two_powi_def)
  then show ?thesis using assms
    unfolding chars_for_tokens_def usize_from_f32_def t eq round by (simp add: usize_max_def)
qed

lemma ascii_only_filters:
  assumes "list_all is_ascii s"
  shows "filter is_ascii s = s" "filter (\<lambda>c. \<not> is_ascii c) s = []" "ulen s = length s"
  using assms by (induction s) (auto simp: is_ascii_def len_utf8_def)

lemma ascii_share_le:
  assumes "n \<le> 7 * t div 2" "7 * t < 16777216"
  shows "usize_from_f32 (of_int \<lceil>f32 (f32_from_usize n / family_ratio f a m)\<rceil>) \<le> t"
proof -
  have n: "f32_from_usize n = of_nat n"
    using assms by (simp add: f32_from_usize_eq f32_nat)
  have "of_nat n / family_ratio f a m \<le> of_nat n / CHARS_PER_TOKEN_CODE"
    using family_ratio_ge by (intro divide_left_mono) (auto simp: CHARS_PER_TOKEN_CODE_def
        family_ratio_def CHARS_PER_TOKEN_ENGLISH_def split: token_content_family.split)
  also have "\<dots> \<le> of_nat t"
  proof -
    have "2 * n \<le> 7 * t" using assms(1) by simp
    then have "of_nat (2 * n) \<le> (of_nat (7 * t) :: rat)" by (simp only: of_nat_le_iff)
    then show ?thesis by (simp add: CHARS_PER_TOKEN_CODE_def)
  qed
  finally have "f32 (of_nat n / family_ratio f a m) \<le> of_nat t"
    using assms by (intro round_to_le_nat) (auto simp: CHARS_PER_TOKEN_CODE_def
        family_ratio_def CHARS_PER_TOKEN_ENGLISH_def split: token_content_family.split)
  then have "\<lceil>f32 (of_nat n / family_ratio f a m)\<rceil> \<le> int t" by (simp add: ceiling_le_iff)
  then show ?thesis unfolding n by (intro usize_from_f32_of_nat_le)
      (metis of_int_le_iff of_int_of_nat_eq)
qed

lemma wide_share_exact:
  assumes "n < 16777216"
  shows "usize_from_f32 (of_int \<lceil>f32 (f32_from_usize n * TOKENS_PER_WIDE_CHAR)\<rceil>) = n"
proof -
  have "f32 (of_nat n) = of_nat n" using assms by (rule f32_nat)
  then show ?thesis using assms
    by (simp add: f32_from_usize_eq TOKENS_PER_WIDE_CHAR_def usize_from_f32_def usize_max_def)
qed

text \<open>
  Below \<open>2^24\<close>, where a count is exact in \<open>f32\<close>, a text costs at most one token per
  character outside ASCII and two per seven ASCII characters, rounded up.
\<close>

lemma estimate_tokens_ascii_le:
  assumes "list_all is_ascii s" "length s \<le> 7 * t div 2" "7 * t < 16777216"
  shows "estimate_tokens s \<le> t"
proof (cases "s = []")
  case False
  then have t: "1 \<le> t" using assms(2) by (cases t) auto
  have w: "usize_from_f32 (of_int \<lceil>f32 (f32_from_usize 0 * TOKENS_PER_WIDE_CHAR)\<rceil>) = 0"
    by (rule wide_share_exact) simp
  show ?thesis using False t ascii_share_le [OF assms(2,3)]
    unfolding estimate_tokens_def estimate_tokens_for_family_def Let_def
      ascii_only_filters [OF assms(1)] list.size(3) w by simp
qed simp

lemma estimate_tokens_wide:
  assumes "list_all (\<lambda>c. \<not> is_ascii c) s" "length s < 16777216"
  shows "estimate_tokens s = length s"
proof (cases "s = []")
  case False
  have "filter is_ascii s = []" "filter (\<lambda>c. \<not> is_ascii c) s = s"
    using assms(1) by (auto simp: list_all_iff filter_empty_conv)
  with False wide_share_exact [OF assms(2)] show ?thesis
    by (cases s) (simp_all add: estimate_tokens_def estimate_tokens_for_family_def)
qed simp

section \<open>Budgets of a model\<close>

record model_info =
  model_id :: ustring
  context_window :: nat
  max_output_tokens :: nat
  supports_tools :: bool
  supports_vision :: bool
  embedding_dimension :: "nat option"
  cached_at :: int
  provider :: ustring

definition UNKNOWN_CONTEXT_WINDOW :: nat where "UNKNOWN_CONTEXT_WINDOW = 32000"
definition UNKNOWN_MAX_OUTPUT_TOKENS :: nat where "UNKNOWN_MAX_OUTPUT_TOKENS = 4096"

definition unknown_model_info :: "int \<Rightarrow> ustring \<Rightarrow> ustring \<Rightarrow> model_info" where
  "unknown_model_info now model prov =
     \<lparr>model_id = model, context_window = UNKNOWN_CONTEXT_WINDOW,
      max_output_tokens = UNKNOWN_MAX_OUTPUT_TOKENS, supports_tools = True,
      supports_vision = False, embedding_dimension = None, cached_at = now, provider = prov\<rparr>"

definition hard_input_limit_for :: "model_info \<Rightarrow> nat \<Rightarrow> nat" where
  "hard_input_limit_for m output_reserve_tokens =
     (let reserve = min output_reserve_tokens (context_window m div 2);
          floor = context_window m div 2
      in max (context_window m - reserve) floor)"

definition hard_input_limit :: "model_info \<Rightarrow> nat" where
  "hard_input_limit m = hard_input_limit_for m (min (max_output_tokens m) (context_window m div 4))"

definition compression_threshold_for :: "model_info \<Rightarrow> nat \<Rightarrow> nat" where
  "compression_threshold_for m output_reserve_tokens =
     (let by_context = context_window m * 80 div 100;
          below_hard = hard_input_limit_for m output_reserve_tokens * 90 div 100
      in min by_context below_hard)"

text \<open>\<open>ModelInfo::compression_threshold\<close> and \<open>output_token_budget\<close>\<close>

definition static_compression_threshold :: "model_info \<Rightarrow> nat" where
  "static_compression_threshold m =
     (let by_context = context_window m * 80 div 100;
          below_hard = hard_input_limit m * 90 div 100
      in min by_context below_hard)"

definition effective_output_budget :: "model_info \<Rightarrow> nat \<Rightarrow> nat" where
  "effective_output_budget m requested_max_tokens =
     max (min (min requested_max_tokens (max_output_tokens m)) (context_window m div 2)) 1"

definition output_token_budget :: "model_info \<Rightarrow> nat" where
  "output_token_budget m = context_window m - hard_input_limit m"

definition conversation_history_budget :: "model_info \<Rightarrow> nat \<Rightarrow> nat \<Rightarrow> nat \<Rightarrow> nat" where
  "conversation_history_budget m system_reserved response_reserved min_history =
     (let hard = hard_input_limit m
      in max (hard - min (system_reserved + response_reserved) usize_max) (min min_history hard))"

text \<open>\<open>clamp_window\<close> and \<open>clamp_model_info_to_window\<close>: a live demotion lowers the window.\<close>

definition clamp_window :: "nat \<Rightarrow> nat option \<Rightarrow> nat" where
  "clamp_window reported num_ctx = (case num_ctx of None \<Rightarrow> reported | Some n \<Rightarrow> min reported n)"

definition clamp_model_info_to_window :: "model_info \<Rightarrow> nat \<Rightarrow> model_info" where
  "clamp_model_info_to_window m effective =
     (if effective < context_window m
      then m\<lparr>context_window := effective,
             max_output_tokens := min (max_output_tokens m) (max (effective div 2) 1)\<rparr>
      else m)"

section \<open>What a budget promises\<close>

lemma compression_below_hard: "compression_threshold_for m r \<le> hard_input_limit_for m r"
  unfolding compression_threshold_for_def Let_def by (rule min.coboundedI2) simp

lemma static_compression_below_hard: "static_compression_threshold m \<le> hard_input_limit m"
  unfolding static_compression_threshold_def Let_def by (rule min.coboundedI2) simp

lemma hard_input_limit_for_eq:
  "hard_input_limit_for m r = context_window m - min r (context_window m div 2)"
  by (auto simp: hard_input_limit_for_def Let_def max_def min_def)

lemma hard_input_limit_for_pos: "0 < context_window m \<Longrightarrow> 0 < hard_input_limit_for m r"
  unfolding hard_input_limit_for_eq by linarith

text \<open>C21: The input limit and the output budget of a request share the window of the model
  without over-committing it: together they never exceed it, neither is zero, and the
  compression threshold lies at or below the input limit, so the gentle rung of the context
  ladder is never skipped. This holds for whatever \<open>max_output_tokens\<close> a provider claims
  and for a window clamped by a live demotion.\<close>

theorem budgets_share_the_window:
  assumes "2 \<le> effective" "2 \<le> context_window m"
    and "m' = clamp_model_info_to_window m effective"
    and "out = effective_output_budget m' requested"
  shows "hard_input_limit_for m' out + out \<le> context_window m'
    \<and> 0 < hard_input_limit_for m' out \<and> 0 < out
    \<and> compression_threshold_for m' out \<le> hard_input_limit_for m' out
    \<and> hard_input_limit m' + output_token_budget m' = context_window m'
    \<and> context_window m' = clamp_window (context_window m) (Some effective)"
proof (intro conjI)
  have w: "2 \<le> context_window m'" using assms(1-3) by (simp add: clamp_model_info_to_window_def)
  have out: "out \<le> context_window m' div 2" "0 < out"
    using w unfolding assms(4) effective_output_budget_def by linarith+
  then show "hard_input_limit_for m' out + out \<le> context_window m'" "0 < out"
    by (simp_all add: hard_input_limit_for_eq)
  show "0 < hard_input_limit_for m' out" using w by (intro hard_input_limit_for_pos) simp
  show "compression_threshold_for m' out \<le> hard_input_limit_for m' out"
    by (rule compression_below_hard)
  show "hard_input_limit m' + output_token_budget m' = context_window m'"
    by (simp add: output_token_budget_def hard_input_limit_def hard_input_limit_for_eq)
  show "context_window m' = clamp_window (context_window m) (Some effective)"
    by (simp add: assms(3) clamp_model_info_to_window_def clamp_window_def)
qed

definition demoted_model :: model_info where
  "demoted_model = (unknown_model_info 0 (lit ''m'') [])\<lparr>max_output_tokens := 64000\<rparr>"

theorem budgets_share_the_window_witness:
  "hard_input_limit_for (clamp_model_info_to_window demoted_model 16384)
      (effective_output_budget (clamp_model_info_to_window demoted_model 16384) 2048) + 2048 \<le> 16384"
  using budgets_share_the_window [of 16384 demoted_model "clamp_model_info_to_window demoted_model 16384"
      "effective_output_budget (clamp_model_info_to_window demoted_model 16384) 2048" 2048]
  by (simp add: demoted_model_def unknown_model_info_def UNKNOWN_CONTEXT_WINDOW_def
      clamp_model_info_to_window_def effective_output_budget_def)

text \<open>C22: A text of ASCII characters cut to the byte budget of \<open>t\<close> tokens never measures above
  \<open>t\<close> tokens again, whatever family the estimator classifies it as. The comment of
  \<open>chars_for_tokens\<close> claims this of every text; a text of two-byte characters breaks it,
  because the estimator charges each of them a whole token.\<close>

theorem char_budget_measures_back:
  "(\<forall>s t. list_all is_ascii s \<longrightarrow> 7 * t < 16777216 \<longrightarrow> ulen s \<le> chars_for_tokens t
      \<longrightarrow> estimate_tokens s \<le> t)
   \<and> (\<exists>s. ulen s \<le> chars_for_tokens 1000 \<and> estimate_tokens s = 1750)"
proof (intro conjI allI impI exI)
  fix s :: ustring and t :: nat
  assume "list_all is_ascii s" "7 * t < 16777216" "ulen s \<le> chars_for_tokens t"
  then show "estimate_tokens s \<le> t"
    by (auto intro!: estimate_tokens_ascii_le simp: chars_for_tokens_exact ascii_only_filters(3))
next
  let ?s = "replicate 1750 (233::nat)"
  show "ulen ?s \<le> chars_for_tokens 1000"
    by (simp add: chars_for_tokens_exact ulen_def len_utf8_def map_replicate sum_list_replicate)
  show "estimate_tokens ?s = 1750"
    by (subst estimate_tokens_wide) (simp_all add: is_ascii_def list_all_iff)
qed

end
