(* ===== verification/Content_Chunks.thy ===== *)
theory Content_Chunks
  imports Token_Estimate "HOL-Library.Word"
begin

text \<open>
  Chunks of content and their hashes (\<open>nanna-agent/src/chunker.rs\<close>), and the redundancy
  analysis of the \<open>Summarizer\<close> (\<open>summarizer.rs\<close>). The context uses the hashes to replace
  text it has already summarised. The hash is computed on 64-bit words with wrap-around, as
  \<open>wrapping_mul\<close> does, over the UTF-8 bytes of the chunk.
\<close>

unbundle bit_operations_syntax

section \<open>Hashing and splitting\<close>

definition TARGET_CHUNK_SIZE :: nat where "TARGET_CHUNK_SIZE = 8192"

definition FNV_PRIME :: "64 word" where "FNV_PRIME = 1099511628211"
definition FNV_OFFSET_BASIS :: "64 word" where "FNV_OFFSET_BASIS = 14695981039346656037"

definition hash_content :: "ustring \<Rightarrow> 64 word" where
  "hash_content s = foldl (\<lambda>h byte. (h XOR word_of_nat byte) * FNV_PRIME) FNV_OFFSET_BASIS (utf8_bytes s)"

record content_chunk =
  chunk_hash :: "64 word"
  token_count :: nat
  chunk_bytes :: nat

definition new_chunk :: "ustring \<Rightarrow> content_chunk" where
  "new_chunk s = \<lparr>chunk_hash = hash_content s, token_count = estimate_tokens s, chunk_bytes = ulen s\<rparr>"

definition with_terminator :: "ustring \<Rightarrow> ustring" where
  "with_terminator sentence =
     (if sentence \<noteq> [] \<and> last sentence = 10 then sentence else sentence @ lit ''.'')"

fun pack_sentences :: "ustring \<Rightarrow> ustring list \<Rightarrow> content_chunk list" where
  "pack_sentences current [] = (if current = [] then [] else [new_chunk current])"
| "pack_sentences current (sentence # rest) =
     (let t = with_terminator sentence
      in if TARGET_CHUNK_SIZE < ulen current + ulen t \<and> current \<noteq> []
         then new_chunk current # pack_sentences t rest
         else pack_sentences (current @ t) rest)"

definition ends_chunk_sentence :: "nat \<Rightarrow> bool" where
  "ends_chunk_sentence c = (c = 46 \<or> c = 10)"

definition split_on_boundaries :: "ustring \<Rightarrow> content_chunk list" where
  "split_on_boundaries s = pack_sentences [] (usplit_terminator ends_chunk_sentence s)"

section \<open>Redundancy\<close>

record dedup_analysis =
  novel_hashes :: "64 word set"
  redundant_count :: nat
  novel_token_count :: nat
  novel_byte_count :: nat

definition analyze_chunk :: "64 word set \<Rightarrow> content_chunk \<Rightarrow> dedup_analysis \<Rightarrow> dedup_analysis" where
  "analyze_chunk known c r =
     (if chunk_hash c \<in> known then r\<lparr>redundant_count := redundant_count r + 1\<rparr>
      else r\<lparr>novel_hashes := insert (chunk_hash c) (novel_hashes r),
             novel_token_count := novel_token_count r + token_count c,
             novel_byte_count := novel_byte_count r + chunk_bytes c\<rparr>)"

definition analyze_content :: "ustring \<Rightarrow> 64 word set \<Rightarrow> dedup_analysis" where
  "analyze_content s known = fold (analyze_chunk known) (split_on_boundaries s)
     \<lparr>novel_hashes = {}, redundant_count = 0, novel_token_count = 0, novel_byte_count = 0\<rparr>"

record summarizer_config =
  threshold :: nat
  max_summary_tokens :: nat

definition default_summarizer_config :: summarizer_config where
  "default_summarizer_config = \<lparr>threshold = 50000, max_summary_tokens = 1000\<rparr>"

record summarizer =
  s_config :: summarizer_config
  known_hashes :: "64 word set"

definition new_summarizer :: "summarizer_config \<Rightarrow> summarizer" where
  "new_summarizer c = \<lparr>s_config = c, known_hashes = {}\<rparr>"

definition should_summarize :: "summarizer \<Rightarrow> ustring \<Rightarrow> bool" where
  "should_summarize z s = (threshold (s_config z) < ulen s)"

definition analyze_redundancy :: "summarizer \<Rightarrow> ustring \<Rightarrow> dedup_analysis" where
  "analyze_redundancy z s = analyze_content s (known_hashes z)"

definition register_hashes :: "64 word set \<Rightarrow> summarizer \<Rightarrow> summarizer" where
  "register_hashes hs z = z\<lparr>known_hashes := known_hashes z \<union> hs\<rparr>"

definition set_config :: "summarizer_config \<Rightarrow> summarizer \<Rightarrow> summarizer" where
  "set_config c z = z\<lparr>s_config := c\<rparr>"

section \<open>Coverage of a text by known hashes\<close>

text \<open>\<open>dedup_coverage\<close> and \<open>chunk_and_hash\<close> of \<open>context.rs\<close>\<close>

definition dedup_coverage :: "ustring \<Rightarrow> 64 word set \<Rightarrow> rat" where
  "dedup_coverage s known =
     (let chunks = split_on_boundaries s
      in if chunks = [] then 0
         else (let known_count = length (filter (\<lambda>c. chunk_hash c \<in> known) chunks)
               in f32 (f32_from_usize known_count / f32_from_usize (length chunks))))"

definition chunk_and_hash :: "ustring \<Rightarrow> 64 word list" where
  "chunk_and_hash s = map chunk_hash (split_on_boundaries s)"

section \<open>Facts\<close>

lemma pack_sentences_ne: "pack_sentences cur ss = [] \<longleftrightarrow> cur = [] \<and> ss = []"
  by (induction ss arbitrary: cur) (auto simp: Let_def with_terminator_def lit_def)

text \<open>The chunks carry every byte of the sentences, in order.\<close>

lemma pack_sentences_bytes:
  "sum_list (map chunk_bytes (pack_sentences cur ss)) = ulen cur + sum_list (map (ulen \<circ> with_terminator) ss)"
  by (induction ss arbitrary: cur) (auto simp: Let_def new_chunk_def)

lemma pack_sentences_size:
  assumes "ulen cur \<le> b" "TARGET_CHUNK_SIZE \<le> b" "\<forall>s \<in> set ss. ulen (with_terminator s) \<le> b"
    "c \<in> set (pack_sentences cur ss)"
  shows "chunk_bytes c \<le> b"
  using assms(1,3,4)
proof (induction ss arbitrary: cur)
  case (Cons s ss)
  have one: "chunk_bytes c \<le> b" if "c \<in> set (pack_sentences (with_terminator s) ss)"
    using that Cons.prems(2) by (intro Cons.IH) auto
  show ?case
  proof (cases "cur = [] \<or> ulen cur + ulen (with_terminator s) \<le> TARGET_CHUNK_SIZE")
    case True
    then have "ulen (cur @ with_terminator s) \<le> b" using Cons.prems(2) assms(2) by auto
    moreover have "c \<in> set (pack_sentences (cur @ with_terminator s) ss)"
      using True Cons.prems(3) by (auto simp: Let_def)
    ultimately show ?thesis using Cons.prems(2) by (intro Cons.IH) auto
  next
    case False
    with one Cons.prems show ?thesis by (auto simp: Let_def new_chunk_def)
  qed
qed (auto simp: new_chunk_def split: if_splits)

lemma analyze_fold:
  "redundant_count (fold (analyze_chunk known) cs r)
     = redundant_count r + length (filter (\<lambda>c. chunk_hash c \<in> known) cs)"
  "novel_hashes (fold (analyze_chunk known) cs r)
     = novel_hashes r \<union> {h \<in> chunk_hash ` set cs. h \<notin> known}"
  "novel_byte_count (fold (analyze_chunk known) cs r)
     = novel_byte_count r + sum_list (map chunk_bytes (filter (\<lambda>c. chunk_hash c \<notin> known) cs))"
  by (induction cs arbitrary: r) (auto simp: analyze_chunk_def)

lemma dedup_coverage_full:
  assumes "set (chunk_and_hash s) \<subseteq> known" "split_on_boundaries s \<noteq> []"
    "length (split_on_boundaries s) < 16777216"
  shows "dedup_coverage s known = 1"
proof -
  have "filter (\<lambda>c. chunk_hash c \<in> known) (split_on_boundaries s) = split_on_boundaries s"
    using assms(1) by (auto simp: chunk_and_hash_def intro!: filter_True)
  moreover have "f32_from_usize (length (split_on_boundaries s)) = of_nat (length (split_on_boundaries s))"
    using assms(3) by (simp add: f32_from_usize_eq f32_nat)
  moreover have "f32 1 = 1" using f32_nat [of 1] by simp
  ultimately show ?thesis using assms(2) by (simp add: dedup_coverage_def Let_def)
qed

text \<open>A line feed is hashed as a full stop: the terminator is dropped before the split looks
  for it.\<close>

lemma usplit_no_sep: "w \<in> set (usplit p s) \<Longrightarrow> c \<in> set w \<Longrightarrow> \<not> p c"
proof (induction s arbitrary: w)
  case (Cons d s)
  obtain v vs where "usplit p s = v # vs" by (cases "usplit p s") auto
  with Cons show ?case by (cases "p d") fastforce+
qed simp

lemma usplit_map:
  assumes "\<And>c. p (f c) = p c" "\<And>c. \<not> p c \<Longrightarrow> f c = c"
  shows "usplit p (map f s) = usplit p s"
  using assms by (induction s) (auto split: list.split)

lemma line_feed_hashes_as_full_stop:
  "split_on_boundaries (map (\<lambda>c. if c = 10 then 46 else c) s) = split_on_boundaries s"
  unfolding split_on_boundaries_def usplit_terminator_def
  by (subst usplit_map) (auto simp: ends_chunk_sentence_def)

text \<open>C0: Registering what an analysis found novel makes the same content fully redundant: the
  next analysis of it counts every chunk redundant and finds nothing new, and before that the
  redundant and the novel chunks together are all of its chunks.\<close>

theorem registering_makes_redundant:
  "let a = analyze_redundancy z s; z' = register_hashes (novel_hashes a) z; a' = analyze_redundancy z' s
   in novel_hashes a' = {} \<and> novel_byte_count a' = 0
    \<and> redundant_count a' = length (split_on_boundaries s)
    \<and> redundant_count a + length (filter (\<lambda>c. chunk_hash c \<in> novel_hashes a) (split_on_boundaries s))
        = length (split_on_boundaries s)"
proof -
  let ?cs = "split_on_boundaries s"
  let ?known = "known_hashes z \<union> {h \<in> chunk_hash ` set ?cs. h \<notin> known_hashes z}"
  have known: "c \<in> set ?cs \<Longrightarrow> chunk_hash c \<in> ?known" for c by auto
  have all: "filter (\<lambda>c. chunk_hash c \<in> ?known) ?cs = ?cs" "filter (\<lambda>c. chunk_hash c \<notin> ?known) ?cs = []"
    using known by (auto intro!: filter_True filter_False)
  have "filter (\<lambda>c. chunk_hash c \<in> {h \<in> chunk_hash ` set ?cs. h \<notin> known_hashes z}) ?cs
      = filter (\<lambda>c. chunk_hash c \<notin> known_hashes z) ?cs"
    by (rule filter_cong) auto
  then show ?thesis using all sum_length_filter_compl [of "\<lambda>c. chunk_hash c \<in> known_hashes z" ?cs]
    by (auto simp: Let_def analyze_redundancy_def analyze_content_def analyze_fold register_hashes_def)
qed

end
