(* ===== verification/Agent_Context.thy ===== *)
theory Agent_Context
  imports Content_Chunks
begin

text \<open>
  The conversation an agent carries and the message list operations that keep it in bounds
  (\<open>AgentContext\<close> in \<open>nanna-agent/src/context.rs\<close>, the message types in
  \<open>nanna-llm/src/lib.rs\<close>). The live request is the pinned message: \<open>pinned_request\<close> is an
  index, and every removal keeps it on the same message. The input of a tool call is kept as the
  text \<open>serde_json\<close> prints for it, the only thing the context reads of it.
\<close>

section \<open>Messages\<close>

datatype image_source = Base64 (media_type: ustring) (image_data: ustring) | Url (image_url: ustring)

datatype content_block =
    Text ustring
  | Image image_source
  | ToolUse ustring ustring ustring
  | ToolResult ustring ustring "bool option"
  | Thinking ustring "ustring option"

record anthropic_message =
  role :: ustring
  msg_content :: "content_block list"

definition user_text :: "ustring \<Rightarrow> anthropic_message" where
  "user_text t = \<lparr>role = lit ''user'', msg_content = [Text t]\<rparr>"

definition assistant_text :: "ustring \<Rightarrow> anthropic_message" where
  "assistant_text t = \<lparr>role = lit ''assistant'', msg_content = [Text t]\<rparr>"

fun block_tokens :: "content_block \<Rightarrow> nat" where
  "block_tokens (Text t) = estimate_tokens t"
| "block_tokens (ToolUse tool_id name input) = estimate_tokens_for_family input Code + 50"
| "block_tokens (ToolResult tool_use_id c is_error) = estimate_tokens c + 20"
| "block_tokens (Image source) = 1000"
| "block_tokens (Thinking thinking signature) = estimate_tokens thinking"

definition estimate_message_tokens :: "anthropic_message \<Rightarrow> nat" where
  "estimate_message_tokens m = sum_list (map block_tokens (msg_content m))"

section \<open>Growth and verified outcomes\<close>

record growth_tracker =
  last_observed_tokens :: "nat option"
  max_observed_growth :: nat

definition observe :: "nat \<Rightarrow> growth_tracker \<Rightarrow> nat \<times> growth_tracker" where
  "observe estimated_tokens g =
     (let growth = (case last_observed_tokens g of None \<Rightarrow> 0 | Some prev \<Rightarrow> estimated_tokens - prev)
      in (growth, if max_observed_growth g < growth then g\<lparr>max_observed_growth := growth\<rparr> else g))"

definition rebaseline :: "nat \<Rightarrow> growth_tracker \<Rightarrow> growth_tracker" where
  "rebaseline estimated_tokens g = g\<lparr>last_observed_tokens := Some estimated_tokens\<rparr>"

definition proactive_compression_due :: "nat \<Rightarrow> nat \<Rightarrow> nat \<Rightarrow> bool" where
  "proactive_compression_due estimated_tokens growth limit =
     (0 < growth \<and> estimated_tokens \<le> limit \<and> limit < estimated_tokens + growth)"

definition plausible_summary :: "ustring \<Rightarrow> nat \<Rightarrow> bool" where
  "plausible_summary summary source_len =
     (let len = ulen (utrim summary)
      in if source_len < 1000 then 0 < len
         else 64 \<le> len \<and> source_len \<le> saturating_mul len 1000)"

record verified_outcome =
  vo_subject :: ustring
  vo_outcome :: ustring
  verified_at :: int
  vo_times :: nat

definition VERIFIED_SUBJECT_PREVIEW_CHARS :: nat where "VERIFIED_SUBJECT_PREVIEW_CHARS = 120"

definition verified_subject_preview :: "ustring \<Rightarrow> ustring" where
  "verified_subject_preview s =
     (let shown = floor_take VERIFIED_SUBJECT_PREVIEW_CHARS (first_line s);
          hidden = ulen s - ulen shown
      in if hidden = 0 then shown
         else shown @ lit '' '' @ [8230] @ lit ''[+'' @ udec hidden @ lit '' chars]'')"

definition u32_max :: nat where "u32_max = 2 ^ 32 - 1"

fun record_outcome :: "ustring \<Rightarrow> ustring \<Rightarrow> int \<Rightarrow> verified_outcome list \<Rightarrow> verified_outcome list" where
  "record_outcome s r now [] = [\<lparr>vo_subject = s, vo_outcome = r, verified_at = now, vo_times = 1\<rparr>]"
| "record_outcome s r now (v # vs) =
     (if vo_subject v = s \<and> vo_outcome v = r
      then v\<lparr>vo_times := min (vo_times v + 1) u32_max, verified_at := max (verified_at v) now\<rparr> # vs
      else v # record_outcome s r now vs)"

section \<open>The context\<close>

record agent_context =
  session_id :: ustring
  system_prompt :: ustring
  messages :: "anthropic_message list"
  metadata :: "ustring \<rightharpoonup> ustring"
  max_messages :: nat
  compression_threshold :: nat
  hard_limit :: nat
  current_model :: "ustring option"
  parent_context_id :: "ustring option"
  isolation_mode :: "ustring option"
  context_budget :: "nat option"
  workspace_root :: "ustring option"
  workspace_context :: "ustring option"
  include_workspace_memory :: bool
  consolidated_summary :: "ustring option"
  distilled_facts :: "ustring option"
  verified_outcomes :: "verified_outcome list"
  growth :: growth_tracker
  pending_loss_notices :: "ustring list"
  summarized_content_hashes :: "64 word set"
  pinned_request :: "nat option"

definition new_context :: "ustring \<Rightarrow> agent_context" where
  "new_context sid =
     \<lparr>session_id = sid, system_prompt = [], messages = [], metadata = Map.empty, max_messages = 100,
      compression_threshold = static_compression_threshold (unknown_model_info 0 [] []),
      hard_limit = hard_input_limit (unknown_model_info 0 [] []),
      current_model = None, parent_context_id = None, isolation_mode = None, context_budget = None,
      workspace_root = None, workspace_context = None, include_workspace_memory = True,
      consolidated_summary = None, distilled_facts = None, verified_outcomes = [],
      growth = \<lparr>last_observed_tokens = None, max_observed_growth = 0\<rparr>,
      pending_loss_notices = [], summarized_content_hashes = {}, pinned_request = None\<rparr>"

definition record_verified_outcome_at :: "ustring \<Rightarrow> ustring \<Rightarrow> int \<Rightarrow> agent_context \<Rightarrow> agent_context" where
  "record_verified_outcome_at s r now x = x\<lparr>verified_outcomes := record_outcome s r now (verified_outcomes x)\<rparr>"

definition set_distilled_facts :: "ustring \<Rightarrow> agent_context \<Rightarrow> agent_context" where
  "set_distilled_facts facts x = x\<lparr>distilled_facts := Some facts\<rparr>"

definition summarization_failure_notice :: "nat \<Rightarrow> ustring \<Rightarrow> ustring" where
  "summarization_failure_notice dropped_messages reason =
     lit ''[CONTEXT NOTICE '' @ EM_DASH @ lit '' history shortened WITHOUT summarization]'' @ NL
     @ lit ''WHAT: '' @ udec dropped_messages
     @ lit '' older conversation message(s) were dropped from your in-memory context with ''
     @ lit ''no summary standing in for them.'' @ NL @ lit ''WHY: '' @ reason @ lit ''.'' @ NL
     @ lit ''Disk is unaffected: every file write and command in the dropped messages ''
     @ lit ''already ran and SUCCEEDED unless it said otherwise at the time. Files on disk ''
     @ lit ''are the ground truth '' @ EM_DASH
     @ lit '' re-read them if unsure; do NOT restart or rewrite work just because history ''
     @ lit ''looks short.''"

definition push_summarization_failure_notice :: "nat \<Rightarrow> ustring \<Rightarrow> agent_context \<Rightarrow> agent_context" where
  "push_summarization_failure_notice dropped_messages reason x =
     (if dropped_messages = 0 then x
      else x\<lparr>pending_loss_notices :=
               pending_loss_notices x @ [summarization_failure_notice dropped_messages reason]\<rparr>)"

definition take_pending_loss_notices :: "agent_context \<Rightarrow> ustring list \<times> agent_context" where
  "take_pending_loss_notices x = (pending_loss_notices x, x\<lparr>pending_loss_notices := []\<rparr>)"

section \<open>The pin and the removal of messages\<close>

definition pin_live_request :: "agent_context \<Rightarrow> agent_context" where
  "pin_live_request x =
     x\<lparr>pinned_request := (if messages x = [] then None else Some (length (messages x) - 1))\<rparr>"

definition pinned_index :: "agent_context \<Rightarrow> nat" where
  "pinned_index x =
     (if messages x = [] then 0
      else min (case pinned_request x of None \<Rightarrow> 0 | Some i \<Rightarrow> i) (length (messages x) - 1))"

definition shift_pin_after_removal :: "nat \<Rightarrow> agent_context \<Rightarrow> agent_context" where
  "shift_pin_after_removal removed_before_pin x =
     x\<lparr>pinned_request := map_option (\<lambda>i. i - removed_before_pin) (pinned_request x)\<rparr>"

definition oldest_removable :: "agent_context \<Rightarrow> nat \<Rightarrow> nat option" where
  "oldest_removable x keep_tail =
     (let pinned = pinned_index x; cutoff = length (messages x) - keep_tail
      in find (\<lambda>i. i \<noteq> pinned) [0..<cutoff])"

definition remove_nth :: "nat \<Rightarrow> 'a list \<Rightarrow> 'a list" where
  "remove_nth i xs = take i xs @ drop (Suc i) xs"

definition remove_message :: "nat \<Rightarrow> agent_context \<Rightarrow> agent_context" where
  "remove_message index x =
     (if length (messages x) \<le> index then x
      else x\<lparr>messages := remove_nth index (messages x),
             pinned_request := map_option (\<lambda>p. if index < p then p - 1 else p) (pinned_request x)\<rparr>)"

text \<open>\<open>for &idx in victims.iter().rev()\<close>: highest index first.\<close>

definition remove_victims :: "nat list \<Rightarrow> agent_context \<Rightarrow> agent_context" where
  "remove_victims victims x = fold remove_message (rev victims) x"

function trim_if_needed :: "agent_context \<Rightarrow> agent_context" where
  "trim_if_needed x =
     (if max_messages x < length (messages x)
      then (case oldest_removable x 0 of
              None \<Rightarrow> x
            | Some victim \<Rightarrow> trim_if_needed (remove_message victim x))
      else x)"
  by pat_completeness auto

definition add_message :: "anthropic_message \<Rightarrow> agent_context \<Rightarrow> agent_context" where
  "add_message m x = x\<lparr>messages := messages x @ [m]\<rparr>"

lemma oldest_removable_less: "oldest_removable x k = Some v \<Longrightarrow> v < length (messages x)"
  by (auto simp: oldest_removable_def Let_def find_Some_iff)

lemma length_remove_nth: "i < length xs \<Longrightarrow> length (remove_nth i xs) = length xs - 1"
  by (simp add: remove_nth_def)

lemma length_remove_message:
  "v < length (messages x) \<Longrightarrow> length (messages (remove_message v x)) = length (messages x) - 1"
  by (simp add: remove_message_def length_remove_nth)

termination trim_if_needed
  by (relation "measure (\<lambda>x. length (messages x))")
    (auto simp: length_remove_message dest!: oldest_removable_less)

declare trim_if_needed.simps [simp del]

definition add_user_message :: "ustring \<Rightarrow> agent_context \<Rightarrow> agent_context" where
  "add_user_message t x = trim_if_needed (add_message (user_text t) x)"

definition add_assistant_message :: "ustring \<Rightarrow> agent_context \<Rightarrow> agent_context" where
  "add_assistant_message t x = trim_if_needed (add_message (assistant_text t) x)"

end
