(* ===== verification/Context_Pin.thy ===== *)
theory Context_Pin
  imports Agent_Context
begin

text \<open>
  Facts about removing messages: what a removal leaves, and that the pin stays on the live
  request. They carry the proofs of every cut path of the context.
\<close>

named_theorems context_frame \<open>fields an operation of the context leaves alone\<close>

definition live_request :: "agent_context \<Rightarrow> anthropic_message" where
  "live_request x = messages x ! pinned_index x"

text \<open>
  A cut: it may shorten the message list and move the pin, and touches nothing else of the
  request's identity. Every field that no removal may change is collected here once.
\<close>

definition same_frame :: "agent_context \<Rightarrow> agent_context \<Rightarrow> bool" where
  "same_frame x y \<longleftrightarrow> (\<exists>ms p. y = x\<lparr>messages := ms, pinned_request := p\<rparr>)"

lemma same_frame_refl [simp]: "same_frame x x"
  unfolding same_frame_def by (rule exI [of _ "messages x"], rule exI [of _ "pinned_request x"]) simp

lemma same_frame_trans: "same_frame x y \<Longrightarrow> same_frame y z \<Longrightarrow> same_frame x z"
  unfolding same_frame_def by force

lemma same_frame_fields:
  assumes "same_frame x y"
  shows "system_prompt y = system_prompt x" "consolidated_summary y = consolidated_summary x"
    "distilled_facts y = distilled_facts x" "verified_outcomes y = verified_outcomes x"
    "hard_limit y = hard_limit x" "compression_threshold y = compression_threshold x"
    "max_messages y = max_messages x" "growth y = growth x"
    "pending_loss_notices y = pending_loss_notices x"
    "summarized_content_hashes y = summarized_content_hashes x"
  using assms by (auto simp: same_frame_def)

section \<open>One removal\<close>

lemma pinned_index_less: "messages x \<noteq> [] \<Longrightarrow> pinned_index x < length (messages x)"
  by (simp add: pinned_index_def min_def split: option.split)
    (metis Suc_pred diff_less length_greater_0_conv less_Suc_eq_le zero_less_one linorder_not_le le_imp_less_Suc)

lemma same_frame_remove_message [simp]: "same_frame x (remove_message v x)"
proof (cases "length (messages x) \<le> v")
  case False
  then show ?thesis unfolding same_frame_def remove_message_def by auto
qed (simp add: remove_message_def)

lemma nth_remove_nth:
  "i < length xs - 1 \<Longrightarrow> v < length xs \<Longrightarrow> remove_nth v xs ! i = (if i < v then xs ! i else xs ! Suc i)"
  by (auto simp: remove_nth_def nth_append min_def)

lemma pinned_index_remove:
  assumes "v < length (messages x)" "v \<noteq> pinned_index x"
  shows "pinned_index (remove_message v x) = (if v < pinned_index x then pinned_index x - 1 else pinned_index x)"
proof -
  have "messages x \<noteq> []" using assms(1) by auto
  moreover have "length (remove_nth v (messages x)) = length (messages x) - 1"
    using assms(1) by (rule length_remove_nth)
  ultimately show ?thesis using assms
    by (cases "pinned_request x") (auto simp: pinned_index_def remove_message_def min_def split: if_splits)
qed

lemma messages_remove_message:
  "v < length (messages x) \<Longrightarrow> messages (remove_message v x) = remove_nth v (messages x)"
  by (simp add: remove_message_def)

lemma live_request_remove:
  assumes "v \<noteq> pinned_index x" "messages x \<noteq> []"
  shows "live_request (remove_message v x) = live_request x \<and> messages (remove_message v x) \<noteq> []"
proof (cases "v < length (messages x)")
  case True
  have p: "pinned_index x < length (messages x)" using assms(2) by (rule pinned_index_less)
  then have "messages (remove_message v x) \<noteq> []"
    using length_remove_message [OF True] True assms(1) by (metis One_nat_def Suc_pred
        length_greater_0_conv less_Suc0 list.size(3) not_less_eq gr_implies_not0 less_antisym diff_is_0_eq leD leI nat_neq_iff)
  moreover have "live_request (remove_message v x) = live_request x"
    unfolding live_request_def messages_remove_message [OF True] pinned_index_remove [OF True assms(1)]
    using True p assms(1) by (subst nth_remove_nth) (auto split: if_splits)
  ultimately show ?thesis by simp
next
  case False
  then show ?thesis using assms(2) by (simp add: remove_message_def)
qed

lemma oldest_removable_not_pinned: "oldest_removable x k = Some v \<Longrightarrow> v \<noteq> pinned_index x"
  by (auto simp: oldest_removable_def Let_def find_Some_iff)

lemma oldest_removable_None:
  "oldest_removable x k = None \<Longrightarrow> i < length (messages x) - k \<Longrightarrow> i = pinned_index x"
  by (auto simp: oldest_removable_def Let_def find_None_iff)

text \<open>A pin set by the code points at a message; the removals keep it that way.\<close>

definition pin_ok :: "agent_context \<Rightarrow> bool" where
  "pin_ok x = (case pinned_request x of None \<Rightarrow> True | Some p \<Rightarrow> p < length (messages x))"

lemma pin_ok_cong:
  "pinned_request y = pinned_request x \<Longrightarrow> length (messages y) = length (messages x) \<Longrightarrow> pin_ok y = pin_ok x"
  by (simp add: pin_ok_def split: option.split)

lemma pin_ok_remove: "v \<noteq> pinned_index x \<Longrightarrow> pin_ok x \<Longrightarrow> pin_ok (remove_message v x)"
  by (cases "pinned_request x")
    (auto simp: pin_ok_def remove_message_def length_remove_nth pinned_index_def split: if_splits)

section \<open>Removing a list of victims\<close>

lemma remove_victims_snoc: "remove_victims (vs @ [v]) x = remove_victims vs (remove_message v x)"
  by (simp add: remove_victims_def)

lemma remove_victims_Nil [simp]: "remove_victims [] x = x"
  by (simp add: remove_victims_def)

lemma same_frame_remove_victims [simp]: "same_frame x (remove_victims vs x)"
  by (induction vs arbitrary: x rule: rev_induct)
    (auto simp: remove_victims_snoc intro: same_frame_trans [OF same_frame_remove_message])

definition victims_ok :: "nat list \<Rightarrow> agent_context \<Rightarrow> bool" where
  "victims_ok vs x \<longleftrightarrow> sorted_wrt (<) vs \<and> (\<forall>v \<in> set vs. v < length (messages x) \<and> v \<noteq> pinned_index x)"

lemma victims_ok_snoc:
  assumes "victims_ok (vs @ [v]) x"
  shows "victims_ok vs (remove_message v x)" "v < length (messages x)" "v \<noteq> pinned_index x"
    "\<forall>w \<in> set vs. w < v"
proof -
  from assms have v: "v < length (messages x)" "v \<noteq> pinned_index x" and less: "\<forall>w \<in> set vs. w < v"
    by (auto simp: victims_ok_def sorted_wrt_append)
  then show "v < length (messages x)" "v \<noteq> pinned_index x" "\<forall>w \<in> set vs. w < v" by simp_all
  show "victims_ok vs (remove_message v x)"
    using assms less unfolding victims_ok_def pinned_index_remove [OF v] length_remove_message [OF v(1)]
    by (fastforce simp: sorted_wrt_append split: if_splits)
qed

lemma live_request_remove_victims:
  "victims_ok vs x \<Longrightarrow> messages x \<noteq> [] \<Longrightarrow>
    live_request (remove_victims vs x) = live_request x \<and> messages (remove_victims vs x) \<noteq> []"
proof (induction vs arbitrary: x rule: rev_induct)
  case (snoc v vs)
  note ok = victims_ok_snoc [OF snoc.prems(1)]
  show ?case using snoc.IH [OF ok(1)] live_request_remove [OF ok(3) snoc.prems(2)]
    by (simp add: remove_victims_snoc)
qed simp

lemma pin_ok_remove_victims: "victims_ok vs x \<Longrightarrow> pin_ok x \<Longrightarrow> pin_ok (remove_victims vs x)"
proof (induction vs arbitrary: x rule: rev_induct)
  case (snoc v vs)
  note ok = victims_ok_snoc [OF snoc.prems(1)]
  show ?case using snoc.IH [OF ok(1) pin_ok_remove [OF ok(3) snoc.prems(2)]] by (simp add: remove_victims_snoc)
qed simp

lemma nths_remove_nth:
  assumes "\<forall>w \<in> A. w < v" "v < length xs"
  shows "nths (remove_nth v xs) (- A) = nths xs (- insert v A)"
proof -
  have xs: "xs = take v xs @ xs ! v # drop (Suc v) xs" using assms(2) by (rule id_take_nth_drop)
  have tail: "nths ys {j. j + v \<in> - A} = ys" for ys :: "'a list"
    using assms(1) by (intro nths_all) auto
  have tail': "nths ys {j. Suc (j + v) \<notin> A} = ys" for ys :: "'a list"
    using assms(1) by (intro nths_all) fastforce
  have head: "nths (take v xs) (- insert v A) = nths (take v xs) (- A)"
    unfolding nths_def by (intro arg_cong [of _ _ "map fst"] filter_cong) (auto dest!: set_zip_rightD)
  have "nths (remove_nth v xs) (- A) = nths (take v xs) (- A) @ drop (Suc v) xs"
    unfolding remove_nth_def nths_append using assms(2) tail by (simp add: min_def)
  also have "\<dots> = nths xs (- insert v A)"
    using assms(2) by (subst (3) xs) (simp add: nths_append nths_Cons min_def head tail')
  finally show ?thesis .
qed

lemma messages_remove_victims:
  "victims_ok vs x \<Longrightarrow> messages (remove_victims vs x) = nths (messages x) (- set vs)"
proof (induction vs arbitrary: x rule: rev_induct)
  case (snoc v vs)
  note ok = victims_ok_snoc [OF snoc.prems(1)]
  show ?case using snoc.IH [OF ok(1)] nths_remove_nth [of "set vs" v "messages x"] ok(2,4)
    by (simp add: remove_victims_snoc messages_remove_message)
qed (simp add: nths_all)

text \<open>The victims every cut path selects: the first \<open>k\<close> unpinned messages below a cutoff.\<close>

definition removable :: "nat \<Rightarrow> agent_context \<Rightarrow> nat list" where
  "removable cutoff x = filter (\<lambda>i. i \<noteq> pinned_index x) [0..<cutoff]"

lemma victims_ok_removable:
  "cutoff \<le> length (messages x) \<Longrightarrow> victims_ok (take k (removable cutoff x)) x"
  by (auto simp: victims_ok_def removable_def sorted_wrt_take sorted_wrt_filter
      dest!: in_set_takeD)

lemma victims_ok_removable_all:
  "cutoff \<le> length (messages x) \<Longrightarrow> victims_ok (removable cutoff x) x"
  using victims_ok_removable [of cutoff x "length (removable cutoff x)"] by simp

lemma nths_filter_upt: "nths xs A = map ((!) xs) (filter (\<lambda>i. i \<in> A) [0..<length xs])"
  by (induction xs rule: rev_induct) (auto simp: nths_append nth_append intro!: map_cong)

lemma messages_remove_removable:
  assumes "cutoff \<le> length (messages x)" "messages x \<noteq> []"
  shows "messages (remove_victims (removable cutoff x) x)
    = (if pinned_index x < cutoff then [live_request x] else []) @ drop cutoff (messages x)"
proof -
  have "[0..<length (messages x)] = [0..<cutoff] @ [cutoff..<length (messages x)]"
    using assms(1) by (metis le_add_diff_inverse upt_add_eq_append zero_le)
  moreover have "filter (\<lambda>i. i \<notin> set (removable cutoff x)) [0..<cutoff]
      = (if pinned_index x < cutoff then [pinned_index x] else [])"
  proof -
    have "filter (\<lambda>i. i \<notin> set (removable cutoff x)) [0..<cutoff] = filter (\<lambda>i. i = pinned_index x) [0..<cutoff]"
      by (rule filter_cong) (auto simp: removable_def)
    also have "\<dots> = (if pinned_index x < cutoff then [pinned_index x] else [])"
      by (induction cutoff) auto
    finally show ?thesis .
  qed
  moreover have "filter (\<lambda>i. i \<notin> set (removable cutoff x)) [cutoff..<length (messages x)]
      = [cutoff..<length (messages x)]"
    by (rule filter_True) (auto simp: removable_def)
  moreover have "map ((!) (messages x)) [cutoff..<length (messages x)] = drop cutoff (messages x)"
    by (rule nth_equalityI) auto
  ultimately show ?thesis
    by (simp add: messages_remove_victims [OF victims_ok_removable_all [OF assms(1)]] nths_filter_upt
        live_request_def)
qed

section \<open>Trimming and adding\<close>


lemma live_request_trim:
  "messages x \<noteq> [] \<Longrightarrow> live_request (trim_if_needed x) = live_request x \<and> messages (trim_if_needed x) \<noteq> []"
proof (induction x rule: trim_if_needed.induct)
  case (1 x)
  show ?case
  proof (cases "max_messages x < length (messages x)")
    case True
    then show ?thesis using 1
      by (cases "oldest_removable x 0")
        (auto simp: trim_if_needed.simps [of x] live_request_remove oldest_removable_not_pinned)
  qed (use 1 in \<open>simp add: trim_if_needed.simps [of x]\<close>)
qed

lemma pin_ok_trim: "pin_ok x \<Longrightarrow> pin_ok (trim_if_needed x)"
proof (induction x rule: trim_if_needed.induct)
  case (1 x)
  show ?case
  proof (cases "max_messages x < length (messages x)")
    case True
    then show ?thesis using 1
      by (cases "oldest_removable x 0")
        (auto simp: trim_if_needed.simps [of x] pin_ok_remove oldest_removable_not_pinned)
  qed (use 1 in \<open>simp add: trim_if_needed.simps [of x]\<close>)
qed

lemma same_frame_trim [simp]: "same_frame x (trim_if_needed x)"
proof (induction x rule: trim_if_needed.induct)
  case (1 x)
  show ?case
  proof (cases "max_messages x < length (messages x)")
    case True
    then show ?thesis using 1
      by (cases "oldest_removable x 0")
        (auto simp: trim_if_needed.simps [of x] intro: same_frame_trans [OF same_frame_remove_message])
  qed (simp add: trim_if_needed.simps [of x])
qed

lemma length_trim: "length (messages (trim_if_needed x)) \<le> max (max_messages x) 1"
proof (induction x rule: trim_if_needed.induct)
  case (1 x)
  have "length (messages x) \<le> 1" if "oldest_removable x 0 = None"
    using oldest_removable_None [OF that] by (metis One_nat_def Suc_leI Suc_lessD diff_zero
        le_less_linear less_numeral_extra(1) less_one nat_neq_iff zero_less_one lessI)
  moreover have "max_messages (remove_message v x) = max_messages x" for v
    by (rule same_frame_fields) simp
  ultimately show ?case using 1
    by (cases "oldest_removable x 0") (auto simp: trim_if_needed.simps [of x])
qed

end
