(* ===== verification/Context_Budget.thy ===== *)
theory Context_Budget
  imports Context_Pin
begin

text \<open>
  What a request costs and what it may cost (\<open>context.rs\<close>): the injected preamble, the token
  estimates, the thresholds of the tiers, and the two reductions that need no model, elision of
  the summary and truncation. The formatter of a timestamp (\<open>chrono\<close>) is the parameter
  \<open>tm\<close>: \<open>None\<close> for a time it cannot represent.
\<close>

type_synonym time_format = "int \<Rightarrow> ustring option"

section \<open>The preamble\<close>

definition PREAMBLE_ACK :: ustring where
  "PREAMBLE_ACK = lit ''I understand the previous context. How can I help you continue?''"

definition ELISION_NOTICE_TEMPLATE :: ustring where
  "ELISION_NOTICE_TEMPLATE =
     lit ''[999999999 chars of this summary were elided to make room for the live ''
     @ lit ''request. WHY: the summary had grown past the space the conversation itself ''
     @ lit ''needs. Everything it described already happened and SUCCEEDED '' @ EM_DASH
     @ lit '' files on disk are the ground truth.]'' @ NL"

definition ELISION_MARKER :: ustring where
  "ELISION_MARKER = NL @ lit ''[...elided...]'' @ NL"

definition verified_when :: "time_format \<Rightarrow> verified_outcome \<Rightarrow> ustring" where
  "verified_when tm v =
     (if verified_at v \<le> 0 then lit ''time not recorded''
      else (case tm (verified_at v) of None \<Rightarrow> udec (nat (verified_at v)) | Some s \<Rightarrow> s))"

definition outcome_line :: "time_format \<Rightarrow> verified_outcome \<Rightarrow> ustring" where
  "outcome_line tm v =
     lit ''- '' @ verified_subject_preview (vo_subject v) @ lit '' '' @ [8594] @ lit '' ''
     @ vo_outcome v @ lit '' ('' @ [215] @ udec (vo_times v) @ lit '', last verified ''
     @ verified_when tm v @ lit '')'' @ NL"

definition VERIFIED_HEADER :: ustring where
  "VERIFIED_HEADER =
     lit ''<verified_outcomes>'' @ NL @ lit ''Facts proven by EXECUTION during this session ''
     @ EM_DASH
     @ lit '' each line is a command that actually ran and the exit status the environment ''
     @ lit ''returned. This list is exact (not a summary), is never compressed, and ''
     @ lit ''outlives every summarization pass. Trust it over any summary above; do NOT ''
     @ lit ''re-do or rewrite work these lines already prove.'' @ NL"

definition verified_outcomes_block :: "time_format \<Rightarrow> agent_context \<Rightarrow> ustring option" where
  "verified_outcomes_block tm x =
     (if verified_outcomes x = [] then None
      else Some (VERIFIED_HEADER @ concat (map (outcome_line tm) (verified_outcomes x)) @ lit ''</verified_outcomes>''))"

definition lossy_context :: "agent_context \<Rightarrow> ustring" where
  "lossy_context x =
     (let lossy = (case consolidated_summary x of None \<Rightarrow> [] | Some summary \<Rightarrow> summary)
      in case distilled_facts x of
           None \<Rightarrow> lossy
         | Some facts \<Rightarrow> (if lossy = [] then lossy else lossy @ NL2) @ lit ''[DISTILLED FACTS]'' @ NL @ facts)"

definition previous_context :: "ustring \<Rightarrow> ustring" where
  "previous_context lossy =
     lit ''<previous_context>'' @ NL
     @ lit ''The following is a COMPRESSED SUMMARY of earlier conversation. WHY: the ''
     @ lit ''conversation grew longer than your context window can hold, so older messages ''
     @ lit ''were condensed to make room to keep working. Everything it describes already ''
     @ lit ''happened and SUCCEEDED unless it explicitly says otherwise '' @ EM_DASH
     @ lit '' no work was lost. It is lossy shorthand, not literal messages: files on disk ''
     @ lit ''and recent tool results are the ground truth over anything here.'' @ NL2 @ lossy @ NL
     @ lit ''</previous_context>''"

definition context_preamble :: "time_format \<Rightarrow> agent_context \<Rightarrow> ustring option" where
  "context_preamble tm x =
     (let lossy = lossy_context x;
          sections = (if lossy = [] then [] else [previous_context lossy])
            @ (case verified_outcomes_block tm x of None \<Rightarrow> [] | Some block \<Rightarrow> [block])
      in if sections = [] then None else Some (ujoin NL2 sections))"

section \<open>Estimates and thresholds\<close>

definition preamble_tokens :: "time_format \<Rightarrow> agent_context \<Rightarrow> nat" where
  "preamble_tokens tm x =
     (case context_preamble tm x of
        None \<Rightarrow> 0 | Some preamble \<Rightarrow> estimate_tokens preamble + estimate_tokens PREAMBLE_ACK)"

text \<open>\<open>AgentContext::estimate_tokens\<close>: the system prompt and the messages.\<close>

definition context_tokens :: "agent_context \<Rightarrow> nat" where
  "context_tokens x =
     estimate_tokens (system_prompt x) + sum_list (map estimate_message_tokens (messages x))"

definition estimate_request_tokens :: "time_format \<Rightarrow> agent_context \<Rightarrow> nat" where
  "estimate_request_tokens tm x = preamble_tokens tm x + context_tokens x"

definition message_budget :: "time_format \<Rightarrow> agent_context \<Rightarrow> nat \<Rightarrow> nat" where
  "message_budget tm x limit = limit - preamble_tokens tm x"

definition message_compression_threshold :: "time_format \<Rightarrow> agent_context \<Rightarrow> nat" where
  "message_compression_threshold tm x = message_budget tm x (compression_threshold x)"

definition message_hard_limit :: "time_format \<Rightarrow> agent_context \<Rightarrow> nat" where
  "message_hard_limit tm x = message_budget tm x (hard_limit x)"

definition step_frame_tokens :: "agent_context \<Rightarrow> nat" where
  "step_frame_tokens x =
     (if pinned_index x < length (messages x)
      then estimate_message_tokens (messages x ! pinned_index x) else 0)"

definition preamble_room_target :: "agent_context \<Rightarrow> nat" where
  "preamble_room_target x =
     hard_limit x - (estimate_tokens (system_prompt x) + step_frame_tokens x + max_observed_growth (growth x))"

definition preamble_starved :: "time_format \<Rightarrow> agent_context \<Rightarrow> bool" where
  "preamble_starved tm x = (preamble_room_target x < preamble_tokens tm x)"

definition needs_compression :: "time_format \<Rightarrow> agent_context \<Rightarrow> bool" where
  "needs_compression tm x = (message_compression_threshold tm x < context_tokens x)"

definition exceeds_hard_limit :: "time_format \<Rightarrow> agent_context \<Rightarrow> bool" where
  "exceeds_hard_limit tm x = (message_hard_limit tm x < context_tokens x)"

section \<open>Eliding the summary\<close>

definition elide_text :: "nat \<Rightarrow> ustring \<Rightarrow> ustring option" where
  "elide_text allowed_chars summary =
     (if ulen summary \<le> allowed_chars then None
      else (let notice_reserve = ulen ELISION_NOTICE_TEMPLATE + ulen ELISION_MARKER;
                body_chars = allowed_chars - notice_reserve;
                half = body_chars div 2;
                head = floor_take (min half (ulen summary)) summary;
                rest = ceil_drop (ulen summary - half) summary;
                tail = (if ulen head < ulen summary - ulen rest then rest else []);
                elided = ulen summary - ulen head - ulen tail;
                notice = lit ''['' @ udec elided
       @ lit '' chars of this summary were elided to make room for the live request. WHY: ''
       @ lit ''the summary had grown past the space the conversation itself needs. ''
       @ lit ''Everything it described already happened and SUCCEEDED '' @ EM_DASH
       @ lit '' files on disk are the ground truth.]'' @ NL;
                replacement = notice @ head @ ELISION_MARKER @ tail
            in if ulen summary \<le> ulen replacement then None else Some replacement))"

definition elide_preamble_to_fit :: "time_format \<Rightarrow> agent_context \<Rightarrow> bool \<times> agent_context" where
  "elide_preamble_to_fit tm x =
     (if \<not> preamble_starved tm x then (False, x)
      else case consolidated_summary x of
        None \<Rightarrow> (False, x)
      | Some summary \<Rightarrow>
          (let overhead = preamble_tokens tm x - estimate_tokens summary;
               allowed_tokens = preamble_room_target x - overhead
           in case elide_text (chars_for_tokens allowed_tokens) summary of
                None \<Rightarrow> (False, x)
              | Some replacement \<Rightarrow> (True, x\<lparr>consolidated_summary := Some replacement\<rparr>)))"

section \<open>Truncation\<close>

definition MIN_BLOCK_CHARS :: nat where "MIN_BLOCK_CHARS = 100"

fun oversized_block :: "content_block \<Rightarrow> bool" where
  "oversized_block (ToolResult tool_use_id c is_error) = (MIN_BLOCK_CHARS < ulen c)"
| "oversized_block (Text t) = (MIN_BLOCK_CHARS < ulen t)"
| "oversized_block b = False"

definition truncate_text :: "nat \<Rightarrow> ustring \<Rightarrow> ustring" where
  "truncate_text max_block_chars t =
     (if max_block_chars < ulen t
      then (let truncated = floor_take max_block_chars t; removed = ulen t - ulen truncated
            in truncated @ NL2 @ lit ''[... truncated '' @ udec removed @ lit '' chars to fit context limit ...]'')
      else t)"

fun truncate_block :: "nat \<Rightarrow> content_block \<Rightarrow> content_block" where
  "truncate_block n (ToolResult tool_use_id c is_error) = ToolResult tool_use_id (truncate_text n c) is_error"
| "truncate_block n (Text t) = Text (truncate_text n t)"
| "truncate_block n b = b"

definition truncate_message :: "nat \<Rightarrow> anthropic_message \<Rightarrow> anthropic_message" where
  "truncate_message n m = m\<lparr>msg_content := map (truncate_block n) (msg_content m)\<rparr>"

definition block_char_limit :: "time_format \<Rightarrow> agent_context \<Rightarrow> nat" where
  "block_char_limit tm x =
     (let budget_chars = chars_for_tokens (message_hard_limit tm x - estimate_tokens (system_prompt x));
          oversized = max (length (filter oversized_block (concat (map msg_content (messages x))))) 1
      in max (budget_chars div oversized) MIN_BLOCK_CHARS)"

definition truncate_large_content_blocks :: "time_format \<Rightarrow> agent_context \<Rightarrow> agent_context" where
  "truncate_large_content_blocks tm x =
     x\<lparr>messages := map (truncate_message (block_char_limit tm x)) (messages x)\<rparr>"

text \<open>
  One of the two loops of \<open>truncate_to_limit\<close>: the oldest removable message goes while the
  limit is exceeded and more than the pinned message and the \<open>tail_kept\<close> newest remain.
\<close>

function drop_while_over :: "time_format \<Rightarrow> nat \<Rightarrow> agent_context \<Rightarrow> nat \<times> agent_context" where
  "drop_while_over tm tail_kept x =
     (if exceeds_hard_limit tm x \<and> tail_kept + 1 < length (messages x)
      then (case oldest_removable x tail_kept of
              None \<Rightarrow> (0, x)
            | Some victim \<Rightarrow>
                (case drop_while_over tm tail_kept (remove_message victim x) of (n, y) \<Rightarrow> (n + 1, y)))
      else (0, x))"
  by pat_completeness auto
termination
  by (relation "measure (\<lambda>(tm, k, x). length (messages x))")
    (auto simp: length_remove_message dest!: oldest_removable_less)

declare drop_while_over.simps [simp del]

definition truncate_to_limit :: "time_format \<Rightarrow> agent_context \<Rightarrow> nat \<times> agent_context" where
  "truncate_to_limit tm x =
     (let x1 = (if exceeds_hard_limit tm x then snd (elide_preamble_to_fit tm x) else x);
          (n1, x2) = drop_while_over tm 1 x1;
          (n2, x3) = drop_while_over tm 0 x2;
          x4 = (if exceeds_hard_limit tm x3 \<and> messages x3 \<noteq> []
                then truncate_large_content_blocks tm x3 else x3)
      in (n1 + n2, x4))"

section \<open>Limits from a model\<close>

definition configure_for_model_with_output :: "model_info \<Rightarrow> nat \<Rightarrow> agent_context \<Rightarrow> bool \<times> agent_context" where
  "configure_for_model_with_output m requested x =
     (let reserve = effective_output_budget m requested;
          model_changed = (current_model x \<noteq> Some (model_id m))
      in (model_changed,
          x\<lparr>compression_threshold := compression_threshold_for m reserve,
            hard_limit := hard_input_limit_for m reserve,
            current_model := Some (model_id m)\<rparr>))"

definition configure_for_model :: "model_info \<Rightarrow> agent_context \<Rightarrow> bool \<times> agent_context" where
  "configure_for_model m x =
     configure_for_model_with_output m (min (max_output_tokens m) (context_window m div 4)) x"

text \<open>\<open>info\<close> is what the on-disk cache or the universal floor supplies for the name.\<close>

definition configure_for_model_name :: "(ustring \<Rightarrow> model_info) \<Rightarrow> ustring \<Rightarrow> agent_context \<Rightarrow> agent_context" where
  "configure_for_model_name info model x =
     (snd (configure_for_model (info model) x))\<lparr>current_model := Some model\<rparr>"

end
