(* ===== verification/Context_Truncation.thy ===== *)
theory Context_Truncation
  imports Context_Budget
begin

text \<open>
  What the thresholds and the model-free reductions of the context guarantee: the tiers are
  ordered, an elision shrinks the summary and keeps its ends, and truncation ends with the live
  request in place.
\<close>

section \<open>The order of the tiers\<close>

lemma exceeds_hard_limit_iff:
  "exceeds_hard_limit tm x \<longleftrightarrow> hard_limit x < estimate_request_tokens tm x \<and> 0 < context_tokens x"
  by (auto simp: exceeds_hard_limit_def message_hard_limit_def message_budget_def estimate_request_tokens_def)

lemma message_budget_mono: "a \<le> b \<Longrightarrow> message_budget tm x a \<le> message_budget tm x b"
  by (simp add: message_budget_def diff_le_mono)

lemma exceeds_imp_needs:
  "compression_threshold x \<le> hard_limit x \<Longrightarrow> exceeds_hard_limit tm x \<Longrightarrow> needs_compression tm x"
  using message_budget_mono [of "compression_threshold x" "hard_limit x" tm x]
  by (simp add: exceeds_hard_limit_def needs_compression_def message_hard_limit_def
      message_compression_threshold_def)

lemma configure_orders_limits:
  "compression_threshold (snd (configure_for_model_with_output m r x))
     \<le> hard_limit (snd (configure_for_model_with_output m r x))"
  by (simp add: configure_for_model_with_output_def Let_def compression_below_hard)

lemma new_context_orders_limits: "compression_threshold (new_context sid) \<le> hard_limit (new_context sid)"
  by (simp add: new_context_def static_compression_below_hard)

section \<open>Elision\<close>

lemma suffix_ceil_drop: "suffix (ceil_drop n s) s"
proof (induction n s rule: ceil_drop.induct)
  case (2 n c s)
  then show ?case by (auto intro: suffix_ConsI)
qed simp

lemma split_bounds: "ulen (floor_take n s) + ulen (ceil_drop n s) \<le> ulen s"
  by (induction n s rule: floor_take.induct) (auto intro: le_trans add_mono)

lemma elide_text_Some:
  assumes "elide_text n s = Some r"
  obtains head tail notice where "r = notice @ head @ ELISION_MARKER @ tail"
    "prefix head s" "suffix tail s" "ulen r < ulen s" "n < ulen s" "ulen head \<le> n div 2"
proof -
  define half where "half = (n - (ulen ELISION_NOTICE_TEMPLATE + ulen ELISION_MARKER)) div 2"
  define head where "head = floor_take (min half (ulen s)) s"
  define rest where "rest = ceil_drop (ulen s - half) s"
  define tail where "tail = (if ulen head < ulen s - ulen rest then rest else [])"
  have n: "n < ulen s" using assms by (auto simp: elide_text_def Let_def split: if_splits)
  have "\<exists>notice. r = notice @ head @ ELISION_MARKER @ tail" and r: "ulen r < ulen s"
    using assms n unfolding elide_text_def Let_def half_def [symmetric] head_def [symmetric]
      rest_def [symmetric] tail_def [symmetric]
    by (auto split: if_split_asm simp del: append_assoc)
  then obtain notice where "r = notice @ head @ ELISION_MARKER @ tail" by blast
  moreover have "prefix head s" by (simp add: head_def prefix_floor_take)
  moreover have "suffix tail s" by (simp add: tail_def rest_def suffix_ceil_drop)
  moreover have "ulen head \<le> n div 2"
    using ulen_floor_take [of "min half (ulen s)" s] div_le_mono [of _ n 2]
    unfolding head_def half_def by (meson diff_le_self le_trans min.cobounded1)
  ultimately show ?thesis using n r that by blast
qed

lemma elide_preamble_cases:
  obtains "elide_preamble_to_fit tm x = (False, x)"
  | s r n where "elide_preamble_to_fit tm x = (True, x\<lparr>consolidated_summary := Some r\<rparr>)"
      "consolidated_summary x = Some s" "elide_text n s = Some r" "preamble_starved tm x"
proof (cases "preamble_starved tm x")
  case starved: True
  show ?thesis
  proof (cases "consolidated_summary x")
    case None
    with starved show ?thesis by (intro that(1)) (simp add: elide_preamble_to_fit_def)
  next
    case (Some s)
    define n where "n = chars_for_tokens
      (preamble_room_target x - (preamble_tokens tm x - estimate_tokens s))"
    have e: "elide_preamble_to_fit tm x = (case elide_text n s of None \<Rightarrow> (False, x)
        | Some r \<Rightarrow> (True, x\<lparr>consolidated_summary := Some r\<rparr>))"
      using starved Some by (simp add: elide_preamble_to_fit_def n_def)
    show ?thesis
    proof (cases "elide_text n s")
      case None
      with e show ?thesis by (intro that(1)) simp
    next
      case (Some r)
      with e \<open>consolidated_summary x = Some s\<close> starved show ?thesis by (intro that(2)) simp_all
    qed
  qed
next
  case False
  then show ?thesis by (intro that(1)) (simp add: elide_preamble_to_fit_def)
qed

text \<open>Everything but the summary survives an elision.\<close>

lemma elide_preamble_fields [simp]:
  "messages (snd (elide_preamble_to_fit tm x)) = messages x"
  "pinned_request (snd (elide_preamble_to_fit tm x)) = pinned_request x"
  "verified_outcomes (snd (elide_preamble_to_fit tm x)) = verified_outcomes x"
  "hard_limit (snd (elide_preamble_to_fit tm x)) = hard_limit x"
  "compression_threshold (snd (elide_preamble_to_fit tm x)) = compression_threshold x"
  "max_messages (snd (elide_preamble_to_fit tm x)) = max_messages x"
  "pending_loss_notices (snd (elide_preamble_to_fit tm x)) = pending_loss_notices x"
  "summarized_content_hashes (snd (elide_preamble_to_fit tm x)) = summarized_content_hashes x"
  by (rule elide_preamble_cases [of tm x]; simp)+

lemma pinned_index_cong:
  "messages y = messages x \<Longrightarrow> pinned_request y = pinned_request x \<Longrightarrow> pinned_index y = pinned_index x"
  by (simp add: pinned_index_def)

lemma live_request_cong:
  "messages y = messages x \<Longrightarrow> pinned_request y = pinned_request x \<Longrightarrow> live_request y = live_request x"
  by (simp add: live_request_def pinned_index_def)

section \<open>Dropping\<close>

lemma drop_while_over_induct:
  assumes base: "\<And>x. \<not> (exceeds_hard_limit tm x \<and> k + 1 < length (messages x)) \<or> oldest_removable x k = None \<Longrightarrow> P x 0 x"
    and step: "\<And>x v n y. exceeds_hard_limit tm x \<Longrightarrow> oldest_removable x k = Some v
      \<Longrightarrow> P (remove_message v x) n y \<Longrightarrow> P x (Suc n) y"
  shows "P x (fst (drop_while_over tm k x)) (snd (drop_while_over tm k x))"
proof (induction x rule: measure_induct_rule [of "\<lambda>x. length (messages x)"])
  case (less x)
  show ?case
  proof (cases "exceeds_hard_limit tm x \<and> k + 1 < length (messages x)")
    case True
    show ?thesis
    proof (cases "oldest_removable x k")
      case None
      with base True show ?thesis by (simp add: drop_while_over.simps [of tm k x])
    next
      case (Some v)
      then have "length (messages (remove_message v x)) < length (messages x)"
        by (auto dest!: oldest_removable_less simp: length_remove_message)
      from step [OF _ Some less.IH [OF this]] True Some show ?thesis
        by (simp add: drop_while_over.simps [of tm k x] case_prod_beta)
    qed
  next
    case False
    then have "drop_while_over tm k x = (0, x)" by (subst drop_while_over.simps) (simp only: if_False)
    moreover have "P x 0 x" using False by (intro base) blast
    ultimately show ?thesis by simp
  qed
qed

lemma same_frame_drop [simp]: "same_frame x (snd (drop_while_over tm k x))"
  by (rule drop_while_over_induct [of tm k "\<lambda>x n y. same_frame x y"])
    (auto intro: same_frame_trans [OF same_frame_remove_message])

lemma live_request_drop:
  "messages x \<noteq> [] \<Longrightarrow> live_request (snd (drop_while_over tm k x)) = live_request x
     \<and> messages (snd (drop_while_over tm k x)) \<noteq> []"
  by (rule drop_while_over_induct [of tm k "\<lambda>x n y. messages x \<noteq> [] \<longrightarrow>
        live_request y = live_request x \<and> messages y \<noteq> []", THEN mp])
    (auto simp: live_request_remove oldest_removable_not_pinned)

lemma pin_ok_drop: "pin_ok x \<Longrightarrow> pin_ok (snd (drop_while_over tm k x))"
  by (rule drop_while_over_induct [of tm k "\<lambda>x n y. pin_ok x \<longrightarrow> pin_ok y", THEN mp])
    (auto simp: pin_ok_remove oldest_removable_not_pinned)

lemma length_drop_while_over:
  "length (messages (snd (drop_while_over tm k x))) + fst (drop_while_over tm k x) = length (messages x)"
  by (rule drop_while_over_induct [of tm k "\<lambda>x n y. length (messages y) + n = length (messages x)"])
    (auto simp: length_remove_message dest!: oldest_removable_less)

lemma drop_while_over_end:
  assumes "exceeds_hard_limit tm (snd (drop_while_over tm k x))"
  shows "length (messages (snd (drop_while_over tm k x))) \<le> k + 1"
proof -
  have none: "length (messages x) \<le> k + 1" if "oldest_removable x k = None" for x
  proof (rule ccontr)
    assume "\<not> length (messages x) \<le> k + 1"
    then have "0 < length (messages x) - k" "1 < length (messages x) - k" by linarith+
    from this [THEN oldest_removable_None [OF that]] show False by simp
  qed
  show ?thesis
    by (rule drop_while_over_induct [of tm k "\<lambda>x n y. exceeds_hard_limit tm y \<longrightarrow> length (messages y) \<le> k + 1",
          THEN mp, OF _ _ assms]) (use none in fastforce)+
qed

lemma drop_while_over_not_exceeding:
  "\<not> exceeds_hard_limit tm x \<Longrightarrow> drop_while_over tm k x = (0, x)"
  by (simp add: drop_while_over.simps [of tm k x])

section \<open>Truncation\<close>

text \<open>The stages of \<open>truncate_to_limit\<close>, and what it leaves of the messages.\<close>

lemma truncate_to_limit_stages:
  obtains x1 x2 x3 where
    "x1 = (if exceeds_hard_limit tm x then snd (elide_preamble_to_fit tm x) else x)"
    "x2 = snd (drop_while_over tm 1 x1)" "x3 = snd (drop_while_over tm 0 x2)"
    "truncate_to_limit tm x = (fst (drop_while_over tm 1 x1) + fst (drop_while_over tm 0 x2),
       if exceeds_hard_limit tm x3 \<and> messages x3 \<noteq> [] then truncate_large_content_blocks tm x3 else x3)"
  by (simp add: truncate_to_limit_def Let_def split: prod.splits)

lemma live_request_truncate_blocks:
  "messages x \<noteq> [] \<Longrightarrow> live_request (truncate_large_content_blocks tm x)
     = truncate_message (block_char_limit tm x) (live_request x)"
  using pinned_index_less [of x]
  by (simp add: live_request_def truncate_large_content_blocks_def pinned_index_def)

lemma truncate_to_limit_spec:
  assumes "truncate_to_limit tm x = (n, y)"
  shows "length (messages y) + n = length (messages x)"
    "exceeds_hard_limit tm y \<Longrightarrow> length (messages y) \<le> 1"
    "messages x \<noteq> [] \<Longrightarrow> messages y \<noteq> []
       \<and> (live_request y = live_request x
          \<or> (\<exists>limit \<ge> MIN_BLOCK_CHARS. live_request y = truncate_message limit (live_request x)))"
    "verified_outcomes y = verified_outcomes x"
    "hard_limit y = hard_limit x" "compression_threshold y = compression_threshold x"
    "pending_loss_notices y = pending_loss_notices x"
    "summarized_content_hashes y = summarized_content_hashes x"
    "pin_ok x \<Longrightarrow> pin_ok y"
proof -
  obtain x1 x2 x3 where s: "x1 = (if exceeds_hard_limit tm x then snd (elide_preamble_to_fit tm x) else x)"
    "x2 = snd (drop_while_over tm 1 x1)" "x3 = snd (drop_while_over tm 0 x2)"
    "truncate_to_limit tm x = (fst (drop_while_over tm 1 x1) + fst (drop_while_over tm 0 x2),
       if exceeds_hard_limit tm x3 \<and> messages x3 \<noteq> [] then truncate_large_content_blocks tm x3 else x3)"
    by (rule truncate_to_limit_stages)
  from assms s(4) have n: "n = fst (drop_while_over tm 1 x1) + fst (drop_while_over tm 0 x2)"
    and y: "y = (if exceeds_hard_limit tm x3 \<and> messages x3 \<noteq> [] then truncate_large_content_blocks tm x3 else x3)"
    by simp_all
  have x1: "messages x1 = messages x" "live_request x1 = live_request x"
    by (simp_all add: s(1)) (auto intro: live_request_cong)
  have "same_frame x1 x3" unfolding s(2,3) by (rule same_frame_trans [OF same_frame_drop same_frame_drop])
  note frame = same_frame_fields [OF this]
  show "length (messages y) + n = length (messages x)"
    using length_drop_while_over [of tm 1 x1] length_drop_while_over [of tm 0 x2] x1(1)
    by (simp add: y n s(2,3) truncate_large_content_blocks_def)
  show "length (messages y) \<le> 1" if "exceeds_hard_limit tm y"
  proof -
    have "exceeds_hard_limit tm x3" using that unfolding y by (auto split: if_splits)
    from drop_while_over_end [of tm 0 x2, folded s(3), OF this] show ?thesis
      by (simp add: y truncate_large_content_blocks_def)
  qed
  show "messages y \<noteq> [] \<and> (live_request y = live_request x
      \<or> (\<exists>limit \<ge> MIN_BLOCK_CHARS. live_request y = truncate_message limit (live_request x)))"
    if "messages x \<noteq> []"
  proof -
    have y3: "live_request x3 = live_request x" "messages x3 \<noteq> []"
      using that x1 live_request_drop [of x1 tm 1] live_request_drop [of x2 tm 0] by (simp_all add: s(2,3))
    show ?thesis
    proof (cases "exceeds_hard_limit tm x3")
      case True
      then have y4: "y = truncate_large_content_blocks tm x3" using y3(2) y by simp
      have "messages y \<noteq> []" using y3(2) by (simp add: y4 truncate_large_content_blocks_def)
      moreover have "live_request y = truncate_message (block_char_limit tm x3) (live_request x)"
        unfolding y4 by (simp only: live_request_truncate_blocks [OF y3(2)] y3(1))
      moreover have "MIN_BLOCK_CHARS \<le> block_char_limit tm x3"
        by (simp add: block_char_limit_def Let_def)
      ultimately show ?thesis by blast
    next
      case False
      with y y3 show ?thesis by simp
    qed
  qed
  have x1_x: "verified_outcomes x1 = verified_outcomes x" "hard_limit x1 = hard_limit x"
    "compression_threshold x1 = compression_threshold x"
    "pending_loss_notices x1 = pending_loss_notices x"
    "summarized_content_hashes x1 = summarized_content_hashes x"
    by (cases "exceeds_hard_limit tm x"; simp add: s(1))+
  have y_x3: "verified_outcomes y = verified_outcomes x3" "hard_limit y = hard_limit x3"
    "compression_threshold y = compression_threshold x3"
    "pending_loss_notices y = pending_loss_notices x3"
    "summarized_content_hashes y = summarized_content_hashes x3"
    by (cases "exceeds_hard_limit tm x3 \<and> messages x3 \<noteq> []";
        simp add: y truncate_large_content_blocks_def)+
  show "verified_outcomes y = verified_outcomes x"
    "hard_limit y = hard_limit x" "compression_threshold y = compression_threshold x"
    "pending_loss_notices y = pending_loss_notices x"
    "summarized_content_hashes y = summarized_content_hashes x"
    by (simp_all only: y_x3 frame x1_x)
  show "pin_ok y" if "pin_ok x"
  proof -
    have "pin_ok x1" using that pin_ok_cong [of x1 x] by (simp add: s(1))
    then have "pin_ok x3" unfolding s(2,3) by (intro pin_ok_drop)
    then show ?thesis using pin_ok_cong [of y x3] by (simp add: y truncate_large_content_blocks_def)
  qed
qed

end
