(* ===== verification/Context_Cuts.thy ===== *)
theory Context_Cuts
  imports Context_Truncation
begin

text \<open>
  The other reductions of the history (\<open>context.rs\<close>): dropping the oldest messages with a
  note, shortening older tool results in place, and compressing old messages into a summary
  with a model. The model's answers come from the environment: \<open>compress_with n\<close> answers the
  \<open>n\<close>-th request of a pass, and \<open>llm\<close> the prompt of a compression.
\<close>

section \<open>Dropping with a note\<close>

definition preview :: "nat \<Rightarrow> ustring \<Rightarrow> ustring" where
  "preview n t = (if n < ulen t then floor_take n t @ lit ''...'' else t)"

definition tagged :: "ustring \<Rightarrow> ustring \<Rightarrow> ustring" where
  "tagged r t = lit ''['' @ r @ lit '']: '' @ t"

fun dropped_fragment :: "ustring \<Rightarrow> content_block \<Rightarrow> ustring list" where
  "dropped_fragment r (Text t) = [tagged r (preview 100 t)]"
| "dropped_fragment r (ToolUse tool_id name input) = [tagged r (lit ''[tool call: '' @ name @ lit '']'')]"
| "dropped_fragment r (ToolResult tool_use_id c is_error) = [tagged (lit ''tool result'') (preview 80 c)]"
| "dropped_fragment r b = []"

definition dropped_parts :: "anthropic_message list \<Rightarrow> ustring list" where
  "dropped_parts ms = concat (map (\<lambda>m. concat (map (dropped_fragment (role m)) (msg_content m))) ms)"

definition drop_note :: "nat \<Rightarrow> ustring list \<Rightarrow> ustring" where
  "drop_note drop_count parts =
     lit ''['' @ udec drop_count
     @ lit '' older messages dropped to free context space. Key fragments:'' @ NL @ ujoin NL parts
     @ lit '']''"

definition join_summary :: "ustring option \<Rightarrow> ustring \<Rightarrow> ustring" where
  "join_summary old note = (case old of None \<Rightarrow> note
     | Some existing \<Rightarrow> existing @ NL2 @ lit ''---'' @ NL2 @ note)"

definition drop_oldest :: "nat \<Rightarrow> agent_context \<Rightarrow> nat \<times> agent_context" where
  "drop_oldest keep_recent x =
     (if length (messages x) \<le> keep_recent + 1 then (0, x)
      else (let victims = removable (length (messages x) - keep_recent) x;
                drop_count = length victims
            in if drop_count = 0 then (0, x)
               else (let note = drop_note drop_count (dropped_parts (map ((!) (messages x)) victims))
                     in (drop_count, remove_victims victims
                          (x\<lparr>consolidated_summary := Some (join_summary (consolidated_summary x) note)\<rparr>)))))"

section \<open>Shortening older tool results\<close>

definition COMPRESSED_RESULT_BANNER :: ustring where
  "COMPRESSED_RESULT_BANNER = lit ''[COMPRESSED SUMMARY of an older tool result''"

definition compressed_note :: "nat \<Rightarrow> ustring \<Rightarrow> ustring" where
  "compressed_note original_len compressed =
     COMPRESSED_RESULT_BANNER @ lit '' ('' @ udec original_len
     @ lit '' chars original). WHY: your context window is limited, and this older result ''
     @ lit ''was shortened to make room for current work '' @ EM_DASH
     @ lit '' the tool call itself SUCCEEDED in full. The wording below is lossy ''
     @ lit ''shorthand, NOT the literal output; trust files on disk over this.]'' @ NL
     @ compressed"

fun candidate_content :: "nat \<Rightarrow> content_block \<Rightarrow> ustring option" where
  "candidate_content min_chars (ToolResult tool_use_id c is_error) =
     (if is_error = Some True \<or> prefix COMPRESSED_RESULT_BANNER c \<or> ulen c < min_chars then None else Some c)"
| "candidate_content min_chars b = None"

definition message_candidates :: "nat \<Rightarrow> nat \<Rightarrow> anthropic_message \<Rightarrow> (nat \<times> nat \<times> ustring) list" where
  "message_candidates min_chars msg_idx m =
     concat (map (\<lambda>(block_idx, b). case candidate_content min_chars b of
         None \<Rightarrow> [] | Some c \<Rightarrow> [(msg_idx, block_idx, c)]) (enumerate 0 (msg_content m)))"

definition compression_candidates :: "nat \<Rightarrow> nat \<Rightarrow> agent_context \<Rightarrow> (nat \<times> nat \<times> ustring) list" where
  "compression_candidates min_chars last_old x =
     concat (map (\<lambda>(msg_idx, m). if msg_idx = pinned_index x then []
         else message_candidates min_chars msg_idx m) (enumerate 0 (take last_old (messages x))))"

definition rewrite_block :: "nat \<Rightarrow> nat \<Rightarrow> ustring \<Rightarrow> anthropic_message list \<Rightarrow> anthropic_message list \<times> bool" where
  "rewrite_block i j compressed ms =
     (if i < length ms \<and> j < length (msg_content (ms ! i))
      then (case msg_content (ms ! i) ! j of
              ToolResult tool_use_id slot is_error \<Rightarrow>
                (ms[i := (ms ! i)\<lparr>msg_content := (msg_content (ms ! i))
                     [j := ToolResult tool_use_id (compressed_note (ulen slot) compressed) is_error]\<rparr>], True)
            | _ \<Rightarrow> (ms, False))
      else (ms, False))"

fun compress_candidates ::
  "(nat \<Rightarrow> ustring \<Rightarrow> ustring option) \<Rightarrow> nat \<Rightarrow> (nat \<times> nat \<times> ustring) list \<Rightarrow>
   anthropic_message list \<Rightarrow> nat \<times> anthropic_message list" where
  "compress_candidates compress_with n [] ms = (0, ms)"
| "compress_candidates compress_with n ((i, j, c) # cs) ms =
     (case compress_with n c of
        None \<Rightarrow> compress_candidates compress_with (n + 1) cs ms
      | Some compressed \<Rightarrow>
          if ulen c \<le> ulen compressed then compress_candidates compress_with (n + 1) cs ms
          else (case rewrite_block i j compressed ms of (ms', written) \<Rightarrow>
            (case compress_candidates compress_with (n + 1) cs ms' of (k, ms'') \<Rightarrow>
               (if written then k + 1 else k, ms''))))"

definition compress_older_tool_results ::
  "(nat \<Rightarrow> ustring \<Rightarrow> ustring option) \<Rightarrow> nat \<Rightarrow> nat \<Rightarrow> agent_context \<Rightarrow> nat \<times> agent_context" where
  "compress_older_tool_results compress_with keep_recent min_chars x =
     (if length (messages x) \<le> keep_recent + 1 then (0, x)
      else (let last_old = length (messages x) - keep_recent
            in if last_old \<le> 1 then (0, x)
               else (case compress_candidates compress_with 0
                         (compression_candidates min_chars last_old x) (messages x) of
                       (n, ms) \<Rightarrow> (n, x\<lparr>messages := ms\<rparr>))))"

section \<open>Compressing into a summary\<close>

fun compression_line :: "ustring \<Rightarrow> content_block \<Rightarrow> ustring" where
  "compression_line r (Text t) = tagged r t @ NL"
| "compression_line r (ToolUse tool_id name input) = tagged r (lit ''[Called tool: '' @ name @ lit '']'') @ NL"
| "compression_line r (ToolResult tool_use_id c is_error) = tagged (lit ''tool result'') (preview 200 c) @ NL"
| "compression_line r (Thinking thinking signature) = tagged (lit ''thinking'') (preview 200 thinking) @ NL"
| "compression_line r (Image source) = lit ''[image]'' @ NL"

definition conversation_text_for_compression :: "anthropic_message list \<Rightarrow> ustring" where
  "conversation_text_for_compression ms =
     concat (map (\<lambda>m. concat (map (compression_line (role m)) (msg_content m))) ms)"

definition compression_prompt :: "ustring \<Rightarrow> ustring" where
  "compression_prompt conversation_text =
     lit ''Summarize this conversation concisely, preserving key facts, decisions, and ''
     @ lit ''context that would be important for continuing the conversation. Focus on:'' @ NL
     @ lit ''- Important user preferences or information shared'' @ NL
     @ lit ''- Key decisions or conclusions reached'' @ NL
     @ lit ''- Relevant context about ongoing tasks or projects'' @ NL
     @ lit ''- Any commitments or follow-ups mentioned'' @ NL2
     @ lit ''Conversation to summarize:'' @ NL @ conversation_text @ NL2
     @ lit ''Provide a concise summary (2-4 paragraphs max):''"

definition estimate_token_count :: "nat \<Rightarrow> nat" where
  "estimate_token_count char_len = (char_len * 10 + 31) div 32"

fun compressed_block_tokens :: "content_block \<Rightarrow> nat" where
  "compressed_block_tokens (Text t) = estimate_token_count (ulen t)"
| "compressed_block_tokens (ToolUse tool_id name input) = estimate_token_count (ulen input)"
| "compressed_block_tokens (ToolResult tool_use_id c is_error) = estimate_token_count (ulen c)"
| "compressed_block_tokens (Thinking thinking signature) = estimate_token_count (ulen thinking)"
| "compressed_block_tokens (Image source) = 1000"

record context_summary =
  summary_text :: ustring
  messages_compressed :: nat
  tokens_saved :: nat
  created_at :: int

definition additional_context :: "ustring option \<Rightarrow> nat \<Rightarrow> ustring \<Rightarrow> ustring" where
  "additional_context old n summary = (case old of None \<Rightarrow> summary
     | Some existing \<Rightarrow> join_summary old
         (lit ''[Additional context from '' @ udec n @ lit '' more messages:]'' @ NL @ summary))"

text \<open>The list a compression keeps: the pinned message if it is old, then the recent ones.\<close>

definition compress ::
  "(ustring \<Rightarrow> (ustring, ustring) result) \<Rightarrow> int \<Rightarrow> nat \<Rightarrow> agent_context \<Rightarrow>
   (ustring, context_summary) result \<times> agent_context" where
  "compress llm now keep_recent x =
     (if length (messages x) \<le> keep_recent
      then (Inr \<lparr>summary_text = [], messages_compressed = 0, tokens_saved = 0, created_at = now\<rparr>, x)
      else (let split_point = length (messages x) - keep_recent;
                pinned = pinned_index x;
                old_indices = removable split_point x;
                old_messages = map ((!) (messages x)) old_indices
            in case llm (compression_prompt (conversation_text_for_compression old_messages)) of
                 Inl e \<Rightarrow> (Inl e, x)
               | Inr reply \<Rightarrow>
                   (let old_tokens = sum_list (map (\<lambda>m. sum_list (map compressed_block_tokens (msg_content m))) old_messages);
                        summary = \<lparr>summary_text = reply, messages_compressed = length old_messages,
                          tokens_saved = old_tokens - estimate_token_count (ulen reply), created_at = now\<rparr>;
                        removed_before_pin = length (filter (\<lambda>i. i < pinned) old_indices);
                        kept = map snd (filter (\<lambda>(i, m). i = pinned) (enumerate 0 (take split_point (messages x))));
                        y = shift_pin_after_removal removed_before_pin
                              (x\<lparr>messages := kept @ drop split_point (messages x)\<rparr>)
                    in (Inr summary, y\<lparr>consolidated_summary :=
                          Some (additional_context (consolidated_summary x) (length old_messages) reply)\<rparr>))))"

definition enforce_limits ::
  "time_format \<Rightarrow> (ustring \<Rightarrow> (ustring, ustring) result) \<Rightarrow> int \<Rightarrow> agent_context \<Rightarrow>
   (ustring, bool) result \<times> agent_context" where
  "enforce_limits tm llm now x =
     (let (compressed, y) =
        (if needs_compression tm x \<and> 10 < length (messages x)
         then (case compress llm now 10 x of
                 (Inl e, z) \<Rightarrow> (Inl e, z) | (Inr s, z) \<Rightarrow> (Inr True, z))
         else (Inr False, x))
      in case compressed of
           Inl e \<Rightarrow> (Inl e, y)
         | Inr b \<Rightarrow> (Inr b, if exceeds_hard_limit tm y then snd (truncate_to_limit tm y) else y))"

definition get_full_context :: "agent_context \<Rightarrow> ustring" where
  "get_full_context x = (case consolidated_summary x of None \<Rightarrow> []
     | Some summary \<Rightarrow> lit ''## Previous Conversation Summary'' @ NL @ summary @ NL2 @ lit ''---'' @ NL2
       @ lit ''## Current Conversation'' @ NL)"

end
