(* ===== verification/Context_Summary.thy ===== *)
theory Context_Summary
  imports Context_Cuts
begin

text \<open>
  Recursive summarisation of a context (\<open>context.rs\<close>): extraction of the oldest messages,
  chunking to a summariser's window at message boundaries, the fallback over the configured
  models, and the replacement of what was read. The models are the environment: \<open>completion\<close> and
  \<open>model_limits\<close> answer the \<open>n\<close>-th call, so the same question may get different
  answers, and the clock \<open>n\<close> is threaded through every function that asks.
\<close>

section \<open>Extraction\<close>

fun summary_text_of :: "content_block \<Rightarrow> ustring" where
  "summary_text_of (Text t) = t"
| "summary_text_of (ToolUse tool_id name input) =
     lit ''[Tool call: '' @ name @ lit '' with input: '' @ input @ lit '']''"
| "summary_text_of (ToolResult tool_use_id c is_error) = c"
| "summary_text_of (Thinking thinking signature) =
     lit ''[Thinking: '' @ floor_take (min (ulen thinking) 200) thinking @ lit '']''"
| "summary_text_of (Image source) = lit ''[Image]''"

datatype extraction = Going ustring nat | Full ustring

fun extract_blocks :: "nat \<Rightarrow> ustring \<Rightarrow> content_block list \<Rightarrow> ustring \<Rightarrow> nat \<Rightarrow> extraction" where
  "extract_blocks max_chars r [] content collected = Going content collected"
| "extract_blocks max_chars r (b # bs) content collected =
     (let block_text = summary_text_of b
      in if max_chars < collected + ulen block_text
         then Full (if content = [] then floor_take (min max_chars (ulen block_text)) block_text else content)
         else extract_blocks max_chars r bs (content @ tagged r block_text @ NL) (collected + ulen block_text))"

fun extract_messages ::
  "nat \<Rightarrow> nat \<Rightarrow> (nat \<times> anthropic_message) list \<Rightarrow> ustring \<Rightarrow> nat \<Rightarrow> ustring \<times> nat list" where
  "extract_messages max_chars pinned [] content collected = (content, [])"
| "extract_messages max_chars pinned ((i, m) # ms) content collected =
     (if i = pinned then extract_messages max_chars pinned ms content collected
      else (case extract_blocks max_chars (role m) (msg_content m) content collected of
              Full content' \<Rightarrow> (content', [])
            | Going content' collected' \<Rightarrow>
                (case extract_messages max_chars pinned ms content' collected' of
                   (final, ends) \<Rightarrow> (final, ulen content' # ends))))"

definition extract_content_for_summarization :: "nat \<Rightarrow> agent_context \<Rightarrow> ustring \<times> nat list" where
  "extract_content_for_summarization max_chars x =
     (if 2 < length (messages x)
      then extract_messages max_chars (pinned_index x)
             (enumerate 0 (take (length (messages x) - 2) (messages x))) [] 0
      else ([], []))"

section \<open>Chunks at message boundaries\<close>

fun boundary_loop :: "ustring \<Rightarrow> nat \<Rightarrow> nat \<Rightarrow> nat \<Rightarrow> nat list \<Rightarrow> (ustring \<times> nat) list" where
  "boundary_loop content budget start last_end [] =
     (if start < last_end then [(byte_slice start last_end content, last_end)] else [])"
| "boundary_loop content budget start last_end (e # ends) =
     (if e \<le> start then boundary_loop content budget start last_end ends
      else if budget < e - start
      then (let (flushed, start1) = (if start < last_end
                  then ([(byte_slice start last_end content, last_end)], last_end) else ([], start));
                (own, start2) = (if budget < e - start1
                  then ([(byte_slice start1 e content, e)], e) else ([], start1))
            in flushed @ own @ boundary_loop content budget start2 e ends)
      else boundary_loop content budget start e ends)"

definition chunk_at_message_boundaries :: "ustring \<Rightarrow> nat list \<Rightarrow> nat \<Rightarrow> (ustring \<times> nat) list" where
  "chunk_at_message_boundaries content covered_ends budget_chars =
     boundary_loop content (max budget_chars 1) 0 0 covered_ends"

definition splice_summaries :: "ustring list \<Rightarrow> ustring" where
  "splice_summaries parts =
     (if length parts = 1 then parts ! 0
      else ujoin NL2 (map (\<lambda>(i, p). lit ''[Part '' @ udec (i + 1) @ lit '' of '' @ udec (length parts) @ lit '']'' @ NL
       @ utrim p) (enumerate 0 parts)))"

section \<open>Asking the models\<close>

record summarization_config =
  model_priority :: "ustring list"
  max_iterations :: nat
  clients :: "(ustring \<Rightarrow> (ustring, ustring) result) option"

record summarizer_env =
  model_limits :: "nat \<Rightarrow> ustring \<Rightarrow> ustring \<Rightarrow> model_info"
  completion :: "nat \<Rightarrow> ustring \<Rightarrow> ustring \<Rightarrow> ustring \<Rightarrow> nat \<Rightarrow> (ustring, content_block list) result"

definition new_summarization_config :: "ustring list \<Rightarrow> summarization_config" where
  "new_summarization_config specs = \<lparr>model_priority = specs, max_iterations = 20, clients = None\<rparr>"

definition with_clients ::
  "(ustring \<Rightarrow> (ustring, ustring) result) \<Rightarrow> summarization_config \<Rightarrow> summarization_config" where
  "with_clients c config = config\<lparr>clients := Some c\<rparr>"

text \<open>\<open>summarizer::resolve_summarizer\<close>: the client is the one that serves the spec.\<close>

definition create_client_for_model :: "ustring \<Rightarrow> summarization_config \<Rightarrow> (ustring, ustring) result" where
  "create_client_for_model spec config =
     (case clients config of
        None \<Rightarrow> Inl (lit ''no summarization provider is attached to this agent, so `'' @ spec
       @ lit ''` cannot be reached'')
      | Some resolve \<Rightarrow> resolve spec)"

definition input_chars :: "model_info \<Rightarrow> nat" where
  "input_chars m = saturating_mul (hard_input_limit m - 512) 4"

definition resolve_summarizer ::
  "summarizer_env \<Rightarrow> nat \<Rightarrow> ustring \<Rightarrow> summarization_config \<Rightarrow> (ustring, ustring \<times> nat) result \<times> nat" where
  "resolve_summarizer env n spec config =
     (case create_client_for_model spec config of
        Inl e \<Rightarrow> (Inl e, n)
      | Inr model \<Rightarrow> (Inr (model, max (input_chars (model_limits env n spec model)) 1), n + 1))"

definition summarize_prompt :: "ustring \<Rightarrow> ustring" where
  "summarize_prompt truncated =
     lit ''Summarize the following conversation history concisely. Preserve key facts, ''
     @ lit ''decisions, file paths, code snippets, and important context needed to ''
     @ lit ''continue the conversation.'' @ NL2 @ lit ''---'' @ NL @ truncated @ NL @ lit ''---''
     @ NL2 @ lit ''Provide a concise summary:''"

fun text_of_block :: "content_block \<Rightarrow> ustring" where
  "text_of_block (Text t) = t"
| "text_of_block b = []"

definition summarize_chunk ::
  "summarizer_env \<Rightarrow> nat \<Rightarrow> ustring \<Rightarrow> ustring \<Rightarrow> ustring \<Rightarrow> (ustring, ustring) result \<times> nat" where
  "summarize_chunk env n spec model content =
     (let info = model_limits env n spec model;
          truncated = (if input_chars info < ulen content then floor_take (input_chars info) content else content)
      in case completion env (n + 1) spec model (summarize_prompt truncated) (min (max_output_tokens info) 2048) of
           Inl e \<Rightarrow> (Inl e, n + 2)
         | Inr blocks \<Rightarrow>
             (let summary = concat (map text_of_block blocks)
              in (if plausible_summary summary (ulen truncated) then Inr summary
                  else Inl (lit ''Implausible summary returned ('' @ udec (ulen (utrim summary))
               @ lit '' chars for '' @ udec (ulen truncated) @ lit '' chars of input)''), n + 2)))"

fun summarize_chunks ::
  "summarizer_env \<Rightarrow> nat \<Rightarrow> ustring \<Rightarrow> ustring \<Rightarrow> (ustring \<times> nat) list \<Rightarrow> nat \<Rightarrow>
   (ustring list \<times> nat) option \<times> nat" where
  "summarize_chunks env n spec model [] consumed = (Some ([], consumed), n)"
| "summarize_chunks env n spec model ((chunk, e) # chunks) consumed =
     (case summarize_chunk env n spec model chunk of
        (Inl err, n') \<Rightarrow> (None, n')
      | (Inr summary, n') \<Rightarrow>
          (case summarize_chunks env n' spec model chunks e of
             (None, n'') \<Rightarrow> (None, n'')
           | (Some (parts, c), n'') \<Rightarrow> (Some (summary # parts, c), n'')))"

fun summarize_with_specs ::
  "summarizer_env \<Rightarrow> summarization_config \<Rightarrow> nat \<Rightarrow> ustring \<Rightarrow> nat list \<Rightarrow> ustring list \<Rightarrow>
   (ustring, ustring \<times> nat) result \<times> nat" where
  "summarize_with_specs env config n content covered_ends [] =
     (Inl (lit ''All summarization models failed''), n)"
| "summarize_with_specs env config n content covered_ends (spec # specs) =
     (case resolve_summarizer env n spec config of
        (Inl e, n1) \<Rightarrow> summarize_with_specs env config n1 content covered_ends specs
      | (Inr (model, budget), n1) \<Rightarrow>
          (let chunks = chunk_at_message_boundaries content covered_ends budget
           in if chunks = [] then summarize_with_specs env config n1 content covered_ends specs
              else (case summarize_chunks env n1 spec model chunks 0 of
                      (None, n2) \<Rightarrow> summarize_with_specs env config n2 content covered_ends specs
                    | (Some (parts, consumed), n2) \<Rightarrow> (Inr (splice_summaries parts, consumed), n2))))"

definition summarize_content_with_fallback ::
  "summarizer_env \<Rightarrow> summarization_config \<Rightarrow> nat \<Rightarrow> ustring \<Rightarrow> nat list \<Rightarrow>
   (ustring, ustring \<times> nat) result \<times> nat" where
  "summarize_content_with_fallback env config n content covered_ends =
     summarize_with_specs env config n content covered_ends (model_priority config)"

section \<open>Re-condensing the preamble\<close>

fun line_ends :: "nat \<Rightarrow> ustring \<Rightarrow> nat list" where
  "line_ends off [] = []"
| "line_ends off (c # s) =
     (if c = 10 then (off + len_utf8 c) # line_ends (off + len_utf8 c) s else line_ends (off + len_utf8 c) s)"

definition summary_cut_points :: "ustring \<Rightarrow> nat list" where
  "summary_cut_points summary =
     (let ends = line_ends 0 summary
      in if ends \<noteq> [] \<and> last ends = ulen summary then ends else ends @ [ulen summary])"

definition recondensed :: "ustring \<Rightarrow> ustring" where
  "recondensed condensed =
     lit ''[This summary has itself been re-condensed to make room for current work. ''
     @ lit ''Earlier wording is gone; nothing it described was undone.]'' @ NL @ condensed"

definition compact_preamble ::
  "time_format \<Rightarrow> summarizer_env \<Rightarrow> summarization_config \<Rightarrow> nat \<Rightarrow> agent_context \<Rightarrow>
   bool \<times> agent_context \<times> nat" where
  "compact_preamble tm env config n x =
     (if \<not> preamble_starved tm x then (False, x, n)
      else case consolidated_summary x of
        None \<Rightarrow> (False, x, n)
      | Some summary \<Rightarrow>
          (let elided = elide_preamble_to_fit tm x; ends = summary_cut_points summary
           in if model_priority config = [] \<or> length ends < 2 then (fst elided, snd elided, n)
              else (case summarize_content_with_fallback env config n summary ends of
                      (Inr (condensed, _), n') \<Rightarrow>
                        if ulen condensed < ulen summary
                        then (True, snd (elide_preamble_to_fit tm
                               (x\<lparr>consolidated_summary := Some (recondensed condensed)\<rparr>)), n')
                        else (fst elided, snd elided, n')
                    | (Inl e, n') \<Rightarrow> (fst elided, snd elided, n'))))"

section \<open>Replacing what was read\<close>

definition DEDUP_MIN_SIZE :: nat where "DEDUP_MIN_SIZE = 4000"

fun summarized_hashes :: "content_block \<Rightarrow> 64 word set" where
  "summarized_hashes (Text t) = (if DEDUP_MIN_SIZE \<le> ulen t then set (chunk_and_hash t) else {})"
| "summarized_hashes (ToolResult tool_use_id c is_error) =
     (if DEDUP_MIN_SIZE \<le> ulen c then set (chunk_and_hash c) else {})"
| "summarized_hashes b = {}"

definition replace_with_summary :: "nat \<Rightarrow> ustring \<Rightarrow> agent_context \<Rightarrow> nat \<times> agent_context" where
  "replace_with_summary covered_messages summary x =
     (let keep_count = min 2 (length (messages x));
          cutoff = length (messages x) - keep_count;
          victims = take covered_messages (removable cutoff x);
          remove_count = length victims
      in if 0 < remove_count
         then (remove_count, remove_victims victims
                (x\<lparr>summarized_content_hashes := summarized_content_hashes x
                     \<union> (\<Union>m \<in> (!) (messages x) ` set victims. \<Union>b \<in> set (msg_content m). summarized_hashes b),
                   consolidated_summary :=
                     Some (additional_context (consolidated_summary x) remove_count summary)\<rparr>))
         else (0, x))"

definition apply_pass_summary ::
  "time_format \<Rightarrow> ustring \<Rightarrow> nat \<Rightarrow> nat list \<Rightarrow> agent_context \<Rightarrow> bool \<times> agent_context" where
  "apply_pass_summary tm summary consumed covered_ends x =
     (let covered_messages = length (takeWhile (\<lambda>e. e \<le> consumed) covered_ends)
      in if covered_messages = 0
         then (let (dropped, y) = truncate_to_limit tm x
               in (False, push_summarization_failure_notice dropped
                    (lit ''the summarization model's window is too small to read even one whole message'') y))
         else (let (removed, y) = replace_with_summary covered_messages summary x
               in if removed = 0
                  then (False, push_summarization_failure_notice 0
                    (lit ''the summarized messages were all pinned or reserved'') y)
                  else (True, y)))"

section \<open>The loop\<close>

datatype summarization_target = CompressionThreshold | HardLimit

definition over_target :: "time_format \<Rightarrow> summarization_target \<Rightarrow> agent_context \<Rightarrow> bool" where
  "over_target tm target x =
     (case target of CompressionThreshold \<Rightarrow> needs_compression tm x | HardLimit \<Rightarrow> exceeds_hard_limit tm x)"

definition truncate_announced :: "time_format \<Rightarrow> ustring \<Rightarrow> agent_context \<Rightarrow> agent_context" where
  "truncate_announced tm reason x =
     (let (dropped, y) = truncate_to_limit tm x in push_summarization_failure_notice dropped reason y)"

text \<open>One iteration: whether the loop goes on, the context and the clock.\<close>

definition summarization_pass ::
  "time_format \<Rightarrow> summarizer_env \<Rightarrow> summarization_config \<Rightarrow> summarization_target \<Rightarrow> nat \<Rightarrow> nat \<Rightarrow>
   agent_context \<Rightarrow> bool \<times> agent_context \<times> nat" where
  "summarization_pass tm env config target max_chars n x =
     (let (preamble_shrunk, x1, n1) = compact_preamble tm env config n x
      in if preamble_shrunk \<and> \<not> over_target tm target x1 then (False, x1, n1)
         else (let (content_to_summarize, covered_ends) = extract_content_for_summarization max_chars x1
               in if content_to_summarize = []
                  then (False, truncate_announced tm
                    (lit ''the remaining history has no summarizable middle (only the pinned request and ''
     @ lit ''the live tail)'') x1, n1)
                  else (case summarize_content_with_fallback env config n1 content_to_summarize covered_ends of
                          (Inr (summary, consumed), n2) \<Rightarrow>
                            (let (go, x2) = apply_pass_summary tm summary consumed covered_ends x1
                             in (go, x2, n2))
                        | (Inl e, n2) \<Rightarrow> (False, truncate_announced tm
                            (lit ''every summarization model failed ('' @ e @ lit '')'') x1, n2))))"

fun summarization_loop ::
  "time_format \<Rightarrow> summarizer_env \<Rightarrow> summarization_config \<Rightarrow> summarization_target \<Rightarrow> nat \<Rightarrow> nat \<Rightarrow> nat \<Rightarrow>
   nat \<Rightarrow> agent_context \<Rightarrow> nat \<times> agent_context" where
  "summarization_loop tm env config target max_chars 0 iterations n x = (iterations, x)"
| "summarization_loop tm env config target max_chars (Suc left) iterations n x =
     (if over_target tm target x
      then (case summarization_pass tm env config target max_chars n x of
              (go, y, n') \<Rightarrow>
                if go then summarization_loop tm env config target max_chars left (iterations + 1) n' y
                else (iterations + 1, y))
      else (iterations, x))"

definition enforce_limits_with_summarization ::
  "time_format \<Rightarrow> summarizer_env \<Rightarrow> summarization_config \<Rightarrow> summarization_target \<Rightarrow> agent_context \<Rightarrow>
   nat \<times> agent_context" where
  "enforce_limits_with_summarization tm env config target x =
     (if model_priority config = []
      then (0, if exceeds_hard_limit tm x
               then truncate_announced tm
                 (lit ''no summarization models are configured, so nothing could stand in for the ''
     @ lit ''dropped messages'') x
               else x)
      else (case summarization_loop tm env config target (saturating_mul (hard_limit x) 4)
                   (max_iterations config) 0 0 x of
              (iterations, y) \<Rightarrow>
                (iterations, if max_iterations config \<le> iterations \<and> exceeds_hard_limit tm y
                   then truncate_announced tm
                     (lit ''summarization spent its whole '' @ udec iterations
     @ lit ''-pass budget and the context still exceeded the hard input limit'') y
                   else y)))"

end
