(* ===== verification/Context_Kept.thy ===== *)
theory Context_Kept
  imports Context_Summary
begin

text \<open>
  What every reduction of a context keeps. \<open>kept x y\<close> says that \<open>y\<close> still carries the live
  request of \<open>x\<close>, at most shortened in place, with the verified outcomes and the limits
  untouched. It is a preorder, so a pass built from several reductions keeps what each keeps.
\<close>

section \<open>The relation\<close>

definition shortened :: "anthropic_message \<Rightarrow> anthropic_message \<Rightarrow> bool" where
  "shortened m m' \<longleftrightarrow> (\<exists>limit \<ge> MIN_BLOCK_CHARS. m' = truncate_message limit m)"

definition kept :: "agent_context \<Rightarrow> agent_context \<Rightarrow> bool" where
  "kept x y \<longleftrightarrow>
     (messages x \<noteq> [] \<longrightarrow> messages y \<noteq> [] \<and> shortened\<^sup>*\<^sup>* (live_request x) (live_request y))
     \<and> (pin_ok x \<longrightarrow> pin_ok y)
     \<and> verified_outcomes y = verified_outcomes x \<and> hard_limit y = hard_limit x
     \<and> compression_threshold y = compression_threshold x"

lemma kept_refl [simp, intro]: "kept x x"
  by (simp add: kept_def)

lemma kept_trans [trans]: "kept x y \<Longrightarrow> kept y z \<Longrightarrow> kept x z"
  by (auto simp: kept_def)

lemma keptI:
  assumes "messages x \<noteq> [] \<Longrightarrow> messages y \<noteq> [] \<and> live_request y = live_request x"
    "verified_outcomes y = verified_outcomes x" "hard_limit y = hard_limit x"
    "compression_threshold y = compression_threshold x" "pin_ok x \<Longrightarrow> pin_ok y"
  shows "kept x y"
  using assms by (simp add: kept_def)

text \<open>An update that leaves the list, the pin, the outcomes and the limits alone.\<close>

lemma kept_update:
  assumes "messages y = messages x" "pinned_request y = pinned_request x"
    "verified_outcomes y = verified_outcomes x" "hard_limit y = hard_limit x"
    "compression_threshold y = compression_threshold x"
  shows "kept x y"
  using assms live_request_cong [OF assms(1,2)] pin_ok_cong [OF assms(2)] by (simp add: kept_def)

lemma kept_remove_victims:
  assumes "victims_ok vs x"
  shows "kept x (remove_victims vs x)"
  using live_request_remove_victims [OF assms] pin_ok_remove_victims [OF assms]
    same_frame_fields [OF same_frame_remove_victims [of x vs]]
  by (intro keptI) auto

section \<open>The contract of a reduction\<close>

text \<open>
  Every cut path of the context provides this contract, and the ladder that runs them relies on
  nothing else of them.
\<close>

locale context_reducer =
  fixes reduce :: "agent_context \<Rightarrow> agent_context"
  assumes keeps: "kept x (reduce x)"
begin

lemma outcomes: "verified_outcomes (reduce x) = verified_outcomes x"
  using keeps [of x] by (simp add: kept_def)

lemma limits:
  "hard_limit (reduce x) = hard_limit x" "compression_threshold (reduce x) = compression_threshold x"
  using keeps [of x] by (simp_all add: kept_def)

lemma pinned: "pin_ok x \<Longrightarrow> pin_ok (reduce x)"
  using keeps [of x] by (simp add: kept_def)

lemma request:
  "messages x \<noteq> [] \<Longrightarrow> messages (reduce x) \<noteq> [] \<and> shortened\<^sup>*\<^sup>* (live_request x) (live_request (reduce x))"
  using keeps [of x] by (simp add: kept_def)

lemma iterated: "kept x ((reduce ^^ n) x)"
  by (induction n) (auto intro: kept_trans [OF _ keeps])

end

section \<open>The reductions that need no model\<close>

lemma kept_truncate: "kept x (snd (truncate_to_limit tm x))"
proof -
  obtain n y where t: "truncate_to_limit tm x = (n, y)" by force
  note spec = truncate_to_limit_spec [OF t]
  show ?thesis unfolding kept_def t snd_conv
    using spec(3-6,9) r_into_rtranclp [of shortened "live_request x" "live_request y"]
    by (metis rtranclp.rtrancl_refl shortened_def)
qed

interpretation truncation: context_reducer "\<lambda>x. snd (truncate_to_limit tm x)"
  by unfold_locales (rule kept_truncate)

interpretation trimming: context_reducer trim_if_needed
  by unfold_locales (intro keptI, auto simp: live_request_trim pin_ok_trim same_frame_fields [OF same_frame_trim])

interpretation elision: context_reducer "\<lambda>x. snd (elide_preamble_to_fit tm x)"
  by unfold_locales (rule kept_update; simp)

lemma kept_push [intro]: "kept x (push_summarization_failure_notice n r x)"
  by (rule kept_update) (simp_all add: push_summarization_failure_notice_def)

lemma kept_drop_oldest: "kept x (snd (drop_oldest k x))"
proof -
  have "kept x (remove_victims (removable (length (messages x) - k) x) (x\<lparr>consolidated_summary := s\<rparr>))" for s
  proof (rule kept_trans)
    show "kept x (x\<lparr>consolidated_summary := s\<rparr>)" by (rule kept_update) simp_all
    have "pinned_index (x\<lparr>consolidated_summary := s\<rparr>) = pinned_index x" by (simp add: pinned_index_def)
    then have "removable (length (messages x) - k) x = removable (length (messages x) - k) (x\<lparr>consolidated_summary := s\<rparr>)"
      by (simp add: removable_def)
    then show "kept (x\<lparr>consolidated_summary := s\<rparr>)
        (remove_victims (removable (length (messages x) - k) x) (x\<lparr>consolidated_summary := s\<rparr>))"
      by (auto intro!: kept_remove_victims victims_ok_removable_all)
  qed
  then show ?thesis by (simp add: drop_oldest_def Let_def)
qed

interpretation dropping: context_reducer "\<lambda>x. snd (drop_oldest k x)"
  by unfold_locales (rule kept_drop_oldest)

section \<open>Shortening older tool results\<close>

definition block_at :: "anthropic_message list \<Rightarrow> nat \<Rightarrow> nat \<Rightarrow> content_block" where
  "block_at ms i j = msg_content (ms ! i) ! j"

text \<open>A rewritten block was a successful result, and carries the banner and its old length.\<close>

definition rewritten :: "nat \<Rightarrow> content_block \<Rightarrow> content_block \<Rightarrow> bool" where
  "rewritten min_chars b b' \<longleftrightarrow> (\<exists>tool_use_id c is_error c'. b = ToolResult tool_use_id c is_error
     \<and> candidate_content min_chars b = Some c \<and> ulen c' < ulen c
     \<and> b' = ToolResult tool_use_id (compressed_note (ulen c) c') is_error)"

definition same_shape :: "anthropic_message list \<Rightarrow> anthropic_message list \<Rightarrow> bool" where
  "same_shape ms ms' \<longleftrightarrow> length ms' = length ms \<and>
     (\<forall>i < length ms. role (ms' ! i) = role (ms ! i) \<and> length (msg_content (ms' ! i)) = length (msg_content (ms ! i)))"

definition positions_ok :: "nat \<Rightarrow> (nat \<times> nat \<times> ustring) list \<Rightarrow> anthropic_message list \<Rightarrow> bool" where
  "positions_ok min_chars cs ms \<longleftrightarrow> distinct (map (\<lambda>(i, j, c). (i, j)) cs) \<and>
     (\<forall>(i, j, c) \<in> set cs. i < length ms \<and> j < length (msg_content (ms ! i))
        \<and> candidate_content min_chars (block_at ms i j) = Some c)"

lemma candidate_content_Some:
  "candidate_content min_chars b = Some c \<Longrightarrow> \<exists>tool_use_id is_error. b = ToolResult tool_use_id c is_error"
  by (cases b) (auto split: if_splits)

lemma rewrite_block_spec:
  assumes "i < length ms" "j < length (msg_content (ms ! i))" "block_at ms i j = ToolResult t c e"
  shows "rewrite_block i j c' ms = (fst (rewrite_block i j c' ms), True)"
    "same_shape ms (fst (rewrite_block i j c' ms))"
    "block_at (fst (rewrite_block i j c' ms)) i j = ToolResult t (compressed_note (ulen c) c') e"
    "(i', j') \<noteq> (i, j) \<Longrightarrow> i' < length ms \<Longrightarrow>
       block_at (fst (rewrite_block i j c' ms)) i' j' = block_at ms i' j'"
  using assms by (auto simp: rewrite_block_def same_shape_def block_at_def nth_list_update)

lemma same_shape_trans: "same_shape a b \<Longrightarrow> same_shape b c \<Longrightarrow> same_shape a c"
  by (simp add: same_shape_def)

lemma same_shape_refl [simp]: "same_shape a a"
  by (simp add: same_shape_def)

lemma compress_candidates_spec:
  assumes "positions_ok min_chars cs ms" "compress_candidates f n cs ms = (k, ms')"
  shows "same_shape ms ms' \<and> (\<forall>i j. i < length ms \<longrightarrow> block_at ms' i j = block_at ms i j
     \<or> (i, j) \<in> (\<lambda>(i, j, c). (i, j)) ` set cs \<and> rewritten min_chars (block_at ms i j) (block_at ms' i j))"
  using assms
proof (induction f n cs ms arbitrary: k ms' rule: compress_candidates.induct)
  case (2 f n i j c cs ms)
  have rest: "positions_ok min_chars cs ms" using "2.prems"(1) by (auto simp: positions_ok_def)
  show ?case
  proof (cases "f n c")
    case None
    then show ?thesis using "2.IH"(1) [OF None rest] "2.prems"(2) by auto
  next
    case (Some c')
    show ?thesis
    proof (cases "ulen c \<le> ulen c'")
      case True
      then show ?thesis using "2.IH"(2) [OF Some True rest] "2.prems"(2) Some by auto
    next
      case False
      have ij: "i < length ms" "j < length (msg_content (ms ! i))"
        "candidate_content min_chars (block_at ms i j) = Some c"
        and fresh: "(i, j) \<notin> (\<lambda>(i, j, c). (i, j)) ` set cs"
        using "2.prems"(1) by (auto simp: positions_ok_def)
      obtain t e where b: "block_at ms i j = ToolResult t c e" using candidate_content_Some [OF ij(3)] by blast
      define ms1 where "ms1 = fst (rewrite_block i j c' ms)"
      note w = rewrite_block_spec [OF ij(1,2) b, where c' = c', folded ms1_def]
      have other: "block_at ms1 i' j' = block_at ms i' j'" if "(i', j') \<noteq> (i, j)" "i' < length ms" for i' j'
        using w(4) [OF that] .
      have shape: "length ms1 = length ms" "i' < length ms \<Longrightarrow> length (msg_content (ms1 ! i')) = length (msg_content (ms ! i'))" for i'
        using w(2) by (auto simp: same_shape_def)
      have "positions_ok min_chars cs ms1"
        unfolding positions_ok_def
      proof (intro conjI ballI)
        show "distinct (map (\<lambda>(i, j, c). (i, j)) cs)" using rest by (simp add: positions_ok_def)
        fix p assume p: "p \<in> set cs"
        obtain i' j' d where p': "p = (i', j', d)" by (cases p)
        then have "(i', j') \<noteq> (i, j)" using fresh p by force
        with rest p p' show "case p of (i', j', d) \<Rightarrow> i' < length ms1 \<and> j' < length (msg_content (ms1 ! i'))
            \<and> candidate_content min_chars (block_at ms1 i' j') = Some d"
          using shape other by (auto simp: positions_ok_def)
      qed
      moreover obtain k1 where "compress_candidates f (n + 1) cs ms1 = (k1, ms')"
        using "2.prems"(2) Some False w(1) by (auto split: prod.splits)
      ultimately have IH: "same_shape ms1 ms'" "\<And>i' j'. i' < length ms \<Longrightarrow> block_at ms' i' j' = block_at ms1 i' j'
          \<or> (i', j') \<in> (\<lambda>(i, j, c). (i, j)) ` set cs \<and> rewritten min_chars (block_at ms1 i' j') (block_at ms' i' j')"
        using "2.IH"(3) [OF Some False w(1) [symmetric]] shape(1) by auto
      have "rewritten min_chars (block_at ms i j) (block_at ms' i j)"
        using IH(2) [OF ij(1), of j] fresh w(3) ij(3) False b
        by (auto simp: rewritten_def not_le intro: exI [of _ c'])
      then show ?thesis using same_shape_trans [OF w(2) IH(1)] IH(2) other by (metis (no_types, lifting)
            image_insert insertI1 insertI2 list.simps(15) case_prod_conv)
    qed
  qed
qed simp

lemma enumerate_upt: "enumerate 0 xs = map (\<lambda>i. (i, xs ! i)) [0..<length xs]"
  by (rule nth_equalityI) (auto simp: nth_enumerate_eq)

lemma concat_map_option:
  "concat (map (\<lambda>x. case f x of None \<Rightarrow> [] | Some y \<Rightarrow> [g x y]) xs)
     = map (\<lambda>x. g x (the (f x))) (filter (\<lambda>x. f x \<noteq> None) xs)"
  by (induction xs) (auto split: option.split)

lemma distinct_pairs:
  "distinct xs \<Longrightarrow> (\<And>i. distinct (S i)) \<Longrightarrow> distinct (concat (map (\<lambda>i. map (Pair i) (S i)) xs))"
  by (induction xs) (auto simp: distinct_map inj_on_def)

definition candidate_positions :: "nat \<Rightarrow> agent_context \<Rightarrow> nat \<Rightarrow> nat list" where
  "candidate_positions n x i = (if i = pinned_index x then []
     else filter (\<lambda>j. candidate_content n (block_at (messages x) i j) \<noteq> None)
            [0..<length (msg_content (messages x ! i))])"

lemma compression_candidates_eq:
  assumes "last_old \<le> length (messages x)"
  shows "compression_candidates n last_old x
    = concat (map (\<lambda>i. map (\<lambda>j. (i, j, the (candidate_content n (block_at (messages x) i j))))
        (candidate_positions n x i)) [0..<last_old])"
proof -
  have "message_candidates n i m = map (\<lambda>j. (i, j, the (candidate_content n (msg_content m ! j))))
      (filter (\<lambda>j. candidate_content n (msg_content m ! j) \<noteq> None) [0..<length (msg_content m)])" for i m
    unfolding message_candidates_def enumerate_upt map_map comp_def prod.case
    by (rule concat_map_option)
  then show ?thesis using assms
    by (auto simp: compression_candidates_def enumerate_upt candidate_positions_def block_at_def min_def
        intro!: arg_cong [of _ _ concat])
qed

lemma compression_candidates_spec:
  assumes "last_old \<le> length (messages x)"
  shows "positions_ok n (compression_candidates n last_old x) (messages x)"
    "(i, j, c) \<in> set (compression_candidates n last_old x) \<Longrightarrow> i \<noteq> pinned_index x \<and> i < last_old"
proof -
  have "map (\<lambda>(i, j, c). (i, j)) (compression_candidates n last_old x)
      = concat (map (\<lambda>i. map (Pair i) (candidate_positions n x i)) [0..<last_old])"
    unfolding compression_candidates_eq [OF assms] map_concat map_map comp_def prod.case ..
  then have "distinct (map (\<lambda>(i, j, c). (i, j)) (compression_candidates n last_old x))"
    by (simp only:) (rule distinct_pairs; simp add: candidate_positions_def)
  moreover have "\<forall>(i, j, c) \<in> set (compression_candidates n last_old x). i \<noteq> pinned_index x \<and> i < last_old
      \<and> j < length (msg_content (messages x ! i)) \<and> candidate_content n (block_at (messages x) i j) = Some c"
    unfolding compression_candidates_eq [OF assms]
    by (auto simp: candidate_positions_def split: if_splits)
  ultimately show "positions_ok n (compression_candidates n last_old x) (messages x)"
    "(i, j, c) \<in> set (compression_candidates n last_old x) \<Longrightarrow> i \<noteq> pinned_index x \<and> i < last_old"
    using assms by (fastforce simp: positions_ok_def)+
qed

lemma compress_older_spec:
  assumes "compress_older_tool_results f keep n x = (k, y)"
  shows "y = x\<lparr>messages := messages y\<rparr>" "same_shape (messages x) (messages y)"
    "i < length (messages x) \<Longrightarrow> block_at (messages y) i j = block_at (messages x) i j
      \<or> i \<noteq> pinned_index x \<and> i < length (messages x) - keep
        \<and> rewritten n (block_at (messages x) i j) (block_at (messages y) i j)"
proof -
  have *: "y = x\<lparr>messages := messages y\<rparr> \<and> same_shape (messages x) (messages y)
    \<and> (i < length (messages x) \<longrightarrow> block_at (messages y) i j = block_at (messages x) i j
      \<or> i \<noteq> pinned_index x \<and> i < length (messages x) - keep
        \<and> rewritten n (block_at (messages x) i j) (block_at (messages y) i j))"
  proof (cases "length (messages x) \<le> keep + 1 \<or> length (messages x) - keep \<le> 1")
    case True
    then have "y = x" using assms unfolding compress_older_tool_results_def Let_def
      by (metis prod.inject)
    then show ?thesis by simp
  next
    case False
    let ?last = "length (messages x) - keep"
    obtain ms where c: "compress_candidates f 0 (compression_candidates n ?last x) (messages x) = (k, ms)"
      and y: "y = x\<lparr>messages := ms\<rparr>"
      using assms False by (auto simp: compress_older_tool_results_def Let_def split: prod.splits)
    have "?last \<le> length (messages x)" by simp
    note cs = compression_candidates_spec [OF this, where n = n]
    have "i \<noteq> pinned_index x \<and> i < ?last"
      if "(i, j) \<in> (\<lambda>(i, j, c). (i, j)) ` set (compression_candidates n ?last x)"
      using that cs(2) by fastforce
    with compress_candidates_spec [OF cs(1) c] show ?thesis by (auto simp: y)
  qed
  then show "y = x\<lparr>messages := messages y\<rparr>" "same_shape (messages x) (messages y)"
    "i < length (messages x) \<Longrightarrow> block_at (messages y) i j = block_at (messages x) i j
      \<or> i \<noteq> pinned_index x \<and> i < length (messages x) - keep
        \<and> rewritten n (block_at (messages x) i j) (block_at (messages y) i j)" by blast+
qed

lemma message_eqI:
  "role m' = role m \<Longrightarrow> msg_content m' = msg_content m \<Longrightarrow> m' = (m :: anthropic_message)"
  by simp

lemma compress_older_keeps_message:
  assumes "compress_older_tool_results f keep n x = (k, y)" "i < length (messages x)"
    "i = pinned_index x \<or> length (messages x) - keep \<le> i"
  shows "messages y ! i = messages x ! i"
proof (rule message_eqI)
  note spec = compress_older_spec [OF assms(1)]
  show "role (messages y ! i) = role (messages x ! i)" using spec(2) assms(2) by (simp add: same_shape_def)
  have "block_at (messages y) i j = block_at (messages x) i j" for j
    using spec(3) [OF assms(2), of j] assms(3) by auto
  then show "msg_content (messages y ! i) = msg_content (messages x ! i)"
    using spec(2) assms(2) by (intro nth_equalityI) (auto simp: same_shape_def block_at_def)
qed

lemma kept_compress_older: "kept x (snd (compress_older_tool_results f keep n x))"
proof -
  obtain k y where c: "compress_older_tool_results f keep n x = (k, y)" by force
  note spec = compress_older_spec(1,2) [OF c]
  have len: "length (messages y) = length (messages x)" using spec(2) by (simp add: same_shape_def)
  have y: "pinned_request y = pinned_request x" "verified_outcomes y = verified_outcomes x"
    "hard_limit y = hard_limit x" "compression_threshold y = compression_threshold x"
    by (subst spec(1), simp)+
  then have "pinned_index y = pinned_index x" using len by (auto simp: pinned_index_def)
  moreover have "messages y ! pinned_index x = messages x ! pinned_index x" if "messages x \<noteq> []"
    using that by (intro compress_older_keeps_message [OF c] pinned_index_less) auto
  ultimately have "messages x \<noteq> [] \<Longrightarrow> messages y \<noteq> [] \<and> live_request y = live_request x"
    using len by (auto simp: live_request_def)
  with y pin_ok_cong [OF y(1) len] show ?thesis unfolding c snd_conv by (intro keptI) simp_all
qed

interpretation shrinking: context_reducer "\<lambda>x. snd (compress_older_tool_results f keep n x)"
  by unfold_locales (rule kept_compress_older)

end
