(* ===== verification/Context_Passes.thy ===== *)
theory Context_Passes
  imports Context_Kept
begin

text \<open>
  The reductions that ask a model keep the live request too, whatever the model answers, and
  the summarisation loop stays within its budget of passes.
\<close>

section \<open>Compression into a summary\<close>

lemma kept_pinned:
  "map snd (filter (\<lambda>(i, m). i = p) (enumerate 0 (take n ms))) = (if p < min n (length ms) then [ms ! p] else [])"
proof -
  have "filter (\<lambda>i. i = p) [0..<k] = (if p < k then [p] else [])" for k by (induction k) auto
  then show ?thesis by (simp add: enumerate_upt filter_map comp_def)
qed

lemma removed_before_pin:
  "length (filter (\<lambda>i. i < pinned_index x) (removable n x)) = min n (pinned_index x)"
proof -
  have "filter (\<lambda>i. i < pinned_index x) (removable n x) = filter (\<lambda>i. i < pinned_index x) [0..<n]"
    unfolding removable_def filter_filter by (rule filter_cong) auto
  moreover have "length (filter (\<lambda>i. i < p) [0..<n]) = min n p" for p by (induction n) auto
  ultimately show ?thesis by simp
qed

lemma live_request_compressed:
  assumes "0 < n" "n \<le> length (messages x)"
    and "messages y = (if pinned_index x < n then [live_request x] else []) @ drop n (messages x)"
    and "pinned_request y = map_option (\<lambda>i. i - min n (pinned_index x)) (pinned_request x)"
  shows "messages y \<noteq> [] \<and> live_request y = live_request x \<and> (pin_ok x \<longrightarrow> pin_ok y)"
proof -
  have ne: "messages x \<noteq> []" using assms(1,2) by auto
  note p = pinned_index_less [OF ne]
  show ?thesis
  proof (cases "pinned_index x < n")
    case True
    have "pinned_index y = 0" using True assms ne
      by (cases "pinned_request x") (auto simp: pinned_index_def min_def split: if_splits)
    moreover have "pin_ok y" if "pin_ok x"
      using that True assms(2-4) by (cases "pinned_request x") (auto simp: pin_ok_def pinned_index_def min_def split: if_splits)
    ultimately show ?thesis using True assms(3) by (simp add: live_request_def)
  next
    case False
    then have "n < length (messages x)" using p by simp
    moreover have "pinned_index y = pinned_index x - n" using False assms ne p
      by (cases "pinned_request x") (auto simp: pinned_index_def min_def split: if_splits)
    moreover have "pin_ok y" if "pin_ok x"
      using that False assms(1-4) ne p by (cases "pinned_request x") (auto simp: pin_ok_def pinned_index_def min_def split: if_splits)
    ultimately show ?thesis using False assms(3) p by (simp add: live_request_def)
  qed
qed

text \<open>The two outcomes of a compression that has something to compress.\<close>

lemma compress_cases:
  obtains "snd (compress llm now keep x) = x"
    "length (messages x) \<le> keep \<or> (\<exists>e. fst (compress llm now keep x) = Inl e)"
  | s where "fst (compress llm now keep x) = Inr s" "keep < length (messages x)"
    "messages (snd (compress llm now keep x))
      = (if pinned_index x < length (messages x) - keep then [live_request x] else [])
        @ drop (length (messages x) - keep) (messages x)"
    "pinned_request (snd (compress llm now keep x))
      = map_option (\<lambda>i. i - min (length (messages x) - keep) (pinned_index x)) (pinned_request x)"
    "verified_outcomes (snd (compress llm now keep x)) = verified_outcomes x"
    "hard_limit (snd (compress llm now keep x)) = hard_limit x"
    "compression_threshold (snd (compress llm now keep x)) = compression_threshold x"
    "consolidated_summary (snd (compress llm now keep x))
      = Some (additional_context (consolidated_summary x)
          (length (removable (length (messages x) - keep) x)) (summary_text s))"
    "messages_compressed s = length (removable (length (messages x) - keep) x)"
proof (cases "length (messages x) \<le> keep")
  case True
  then show ?thesis using that(1) by (simp add: compress_def)
next
  case False
  let ?n = "length (messages x) - keep"
  let ?prompt = "compression_prompt (conversation_text_for_compression (map ((!) (messages x)) (removable ?n x)))"
  show ?thesis
  proof (cases "llm ?prompt")
    case (Inl e)
    with False show ?thesis by (intro that(1)) (simp_all add: compress_def Let_def)
  next
    case (Inr reply)
    have l: "min ?n (length (messages x)) = ?n" by simp
    show ?thesis
      using that(2) [of "\<lparr>summary_text = reply, messages_compressed = length (removable ?n x),
          tokens_saved = sum_list (map (\<lambda>m. sum_list (map compressed_block_tokens (msg_content m)))
              (map ((!) (messages x)) (removable ?n x))) - estimate_token_count (ulen reply),
          created_at = now\<rparr>"] False Inr
      by (simp add: compress_def Let_def kept_pinned removed_before_pin l shift_pin_after_removal_def
          live_request_def)
  qed
qed

lemma kept_compress: "kept x (snd (compress llm now keep x))"
proof (rule compress_cases [of llm now keep x])
  fix s assume a: "keep < length (messages x)"
    "messages (snd (compress llm now keep x))
      = (if pinned_index x < length (messages x) - keep then [live_request x] else [])
        @ drop (length (messages x) - keep) (messages x)"
    "pinned_request (snd (compress llm now keep x))
      = map_option (\<lambda>i. i - min (length (messages x) - keep) (pinned_index x)) (pinned_request x)"
    "verified_outcomes (snd (compress llm now keep x)) = verified_outcomes x"
    "hard_limit (snd (compress llm now keep x)) = hard_limit x"
    "compression_threshold (snd (compress llm now keep x)) = compression_threshold x"
  have "0 < length (messages x) - keep" "length (messages x) - keep \<le> length (messages x)"
    using a(1) by simp_all
  note live = live_request_compressed [OF this a(2,3)]
  show ?thesis by (rule keptI) (simp_all only: live a(4-6) simp_thms)
qed simp

lemma kept_truncate_if: "kept x y \<Longrightarrow> kept x (if b then snd (truncate_to_limit tm y) else y)"
  using kept_trans [OF _ kept_truncate] by simp

lemma kept_enforce_limits: "kept x (snd (enforce_limits tm llm now x))"
proof (cases "needs_compression tm x \<and> 10 < length (messages x)")
  case True
  obtain r z where c: "compress llm now 10 x = (r, z)" by force
  have "kept x z" using kept_compress [of x llm now 10] by (simp add: c)
  with True c kept_truncate_if show ?thesis by (cases r) (simp_all add: enforce_limits_def)
next
  case False
  then have "enforce_limits tm llm now x
      = (Inr False, if exceeds_hard_limit tm x then snd (truncate_to_limit tm x) else x)"
    unfolding enforce_limits_def by (simp only: if_False Let_def prod.case sum.case)
  with kept_truncate_if [OF kept_refl] show ?thesis by simp
qed

section \<open>Summarisation passes\<close>

lemma kept_compact_preamble: "kept x (fst (snd (compact_preamble tm env cfg n x)))"
proof -
  have "kept x (snd (elide_preamble_to_fit tm (x\<lparr>consolidated_summary := s\<rparr>)))" for s
    by (rule kept_trans [OF _ elision.keeps]) (rule kept_update; simp)
  then show ?thesis using elision.keeps [of x tm]
    by (auto simp: compact_preamble_def Let_def split: option.splits prod.splits sum.splits)
qed

lemma kept_replace_with_summary: "kept x (snd (replace_with_summary k s x))"
proof -
  define c where "c = length (messages x) - min 2 (length (messages x))"
  have "kept x (remove_victims (take k (removable c x)) (x\<lparr>summarized_content_hashes := h, consolidated_summary := t\<rparr>))"
    for h t
  proof (rule kept_trans)
    let ?x = "x\<lparr>summarized_content_hashes := h, consolidated_summary := t\<rparr>"
    show "kept x ?x" by (rule kept_update) simp_all
    have "removable c x = removable c ?x" by (simp add: removable_def pinned_index_def)
    then show "kept ?x (remove_victims (take k (removable c x)) ?x)"
      by (simp only:) (auto intro!: kept_remove_victims victims_ok_removable simp: c_def)
  qed
  then show ?thesis by (simp add: replace_with_summary_def Let_def c_def [symmetric])
qed

lemma kept_truncate_announced: "kept x (truncate_announced tm reason x)"
  using kept_truncate [of x tm] unfolding truncate_announced_def
  by (auto split: prod.split intro: kept_trans [OF _ kept_push])

lemma kept_apply_pass: "kept x (snd (apply_pass_summary tm s c ends x))"
proof -
  obtain d y where t: "truncate_to_limit tm x = (d, y)" by force
  obtain k z where r: "replace_with_summary (length (takeWhile (\<lambda>e. e \<le> c) ends)) s x = (k, z)" by force
  have "kept x y" "kept x z"
    using kept_truncate [of x tm] kept_replace_with_summary [of x _ s] t r by (metis snd_conv)+
  then have "kept x (push_summarization_failure_notice i u y)" "kept x (push_summarization_failure_notice i u z)" for i u
    by (auto intro: kept_trans [OF _ kept_push])
  then show ?thesis using \<open>kept x z\<close> by (simp add: apply_pass_summary_def Let_def t r)
qed

lemma kept_pass: "kept x (fst (snd (summarization_pass tm env cfg target m n x)))"
proof -
  obtain b x1 n1 where c: "compact_preamble tm env cfg n x = (b, x1, n1)" by (metis prod_cases3)
  have x1: "kept x x1" using kept_compact_preamble [of x tm env cfg n] by (simp add: c)
  have "kept x (truncate_announced tm r x1)" for r by (rule kept_trans [OF x1 kept_truncate_announced])
  moreover have "kept x (snd (apply_pass_summary tm s u ends x1))" for s u ends
    by (rule kept_trans [OF x1 kept_apply_pass])
  ultimately show ?thesis using x1
    by (auto simp: summarization_pass_def c Let_def split: prod.splits sum.splits) (metis snd_conv)+
qed

lemma kept_loop: "kept x (snd (summarization_loop tm env cfg target m left it n x))"
proof (induction left arbitrary: it n x)
  case (Suc left)
  obtain go y n' where p: "summarization_pass tm env cfg target m n x = (go, y, n')" by (metis prod_cases3)
  have "kept x y" using kept_pass [of x tm env cfg target m n] by (simp add: p)
  then show ?case using kept_trans [OF _ Suc.IH] by (simp add: p)
qed simp

lemma kept_enforce_with_summarization: "kept x (snd (enforce_limits_with_summarization tm env cfg target x))"
proof -
  obtain it y where l: "summarization_loop tm env cfg target (saturating_mul (hard_limit x) 4)
      (max_iterations cfg) 0 0 x = (it, y)" by force
  have "kept x y" using kept_loop [of x tm env cfg target "saturating_mul (hard_limit x) 4" "max_iterations cfg" 0 0]
    by (simp add: l)
  then show ?thesis using kept_trans [OF _ kept_truncate_announced] kept_truncate_announced
    by (simp add: enforce_limits_with_summarization_def l)
qed

interpretation compression: context_reducer "\<lambda>x. snd (compress llm now keep x)"
  by unfold_locales (rule kept_compress)

interpretation limiting: context_reducer "\<lambda>x. snd (enforce_limits tm llm now x)"
  by unfold_locales (rule kept_enforce_limits)

interpretation summarization: context_reducer
  "\<lambda>x. snd (enforce_limits_with_summarization tm env cfg target x)"
  by unfold_locales (rule kept_enforce_with_summarization)

section \<open>The budget of passes\<close>

lemma loop_iterations: "fst (summarization_loop tm env cfg target m left it n x) \<le> it + left"
proof (induction left arbitrary: it n x)
  case (Suc left)
  obtain go y n' where p: "summarization_pass tm env cfg target m n x = (go, y, n')" by (metis prod_cases3)
  then show ?case using Suc.IH [of "it + 1" n' y] by (simp add: p)
qed simp

end
