(* ===== verification/Context_Extract.thy ===== *)
theory Context_Extract
  imports Context_Passes
begin

text \<open>
  What a summarisation pass reads and what it may replace. The extraction is the text of the
  oldest removable messages in order, the chunks handed to the models are that text cut at
  message boundaries, and the messages replaced are exactly the ones whose text was handed over.
\<close>

section \<open>The extraction\<close>

definition message_text :: "anthropic_message \<Rightarrow> ustring" where
  "message_text m = concat (map (\<lambda>b. tagged (role m) (summary_text_of b) @ NL) (msg_content m))"

lemma extract_blocks_Going:
  "extract_blocks k r bs content col = Going content' col' \<Longrightarrow>
     content' = content @ concat (map (\<lambda>b. tagged r (summary_text_of b) @ NL) bs)"
  by (induction k r bs content col rule: extract_blocks.induct) (auto simp: Let_def split: if_splits)

lemma extract_blocks_Full:
  "extract_blocks k r bs content col = Full content' \<Longrightarrow> prefix content content'"
  by (induction k r bs content col rule: extract_blocks.induct)
    (auto simp: Let_def split: if_splits dest: append_prefixD)

definition unpinned :: "nat \<Rightarrow> (nat \<times> anthropic_message) list \<Rightarrow> anthropic_message list" where
  "unpinned p ms = map snd (filter (\<lambda>(i, m). i \<noteq> p) ms)"

lemma extract_messages_spec:
  assumes "extract_messages k p ms content col = (final, ends)"
  shows "length ends \<le> length (unpinned p ms)
    \<and> (\<forall>j < length ends. ends ! j = ulen (content @ concat (map message_text (take (Suc j) (unpinned p ms)))))
    \<and> prefix (content @ concat (map message_text (take (length ends) (unpinned p ms)))) final"
  using assms
proof (induction k p ms content col arbitrary: ends rule: extract_messages.induct)
  case (2 k p i m ms content col)
  show ?case
  proof (cases "i = p")
    case True
    with 2 show ?thesis by (simp add: unpinned_def)
  next
    case False
    then have u: "unpinned p ((i, m) # ms) = m # unpinned p ms" by (simp add: unpinned_def)
    show ?thesis
    proof (cases "extract_blocks k (role m) (msg_content m) content col")
      case (Full content')
      with False "2.prems" show ?thesis by (auto dest: extract_blocks_Full)
    next
      case (Going content' col')
      then have c': "content' = content @ message_text m"
        by (auto simp: message_text_def dest!: extract_blocks_Going)
      obtain ends' where e: "extract_messages k p ms content' col' = (final, ends')" "ends = ulen content' # ends'"
        using "2.prems" False Going by (auto split: prod.splits)
      from "2.IH"(2) [OF False Going e(1)] show ?thesis
        unfolding e(2) u c' by (auto simp: nth_Cons' less_Suc_eq_0_disj)
    qed
  qed
qed (simp add: unpinned_def)

lemma unpinned_removable:
  assumes "c \<le> length (messages x)"
  shows "unpinned (pinned_index x) (enumerate 0 (take c (messages x))) = map ((!) (messages x)) (removable c x)"
  using assms by (simp add: unpinned_def enumerate_upt filter_map comp_def removable_def min_def)

lemma extraction_spec:
  assumes "extract_content_for_summarization k x = (content, ends)"
  defines "old \<equiv> map ((!) (messages x)) (removable (length (messages x) - 2) x)"
  shows "length ends \<le> length old"
    "j < length ends \<Longrightarrow> ends ! j = ulen (concat (map message_text (take (Suc j) old)))"
    "prefix (concat (map message_text (take (length ends) old))) content"
proof -
  have "length ends \<le> length old
    \<and> (\<forall>j < length ends. ends ! j = ulen (concat (map message_text (take (Suc j) old))))
    \<and> prefix (concat (map message_text (take (length ends) old))) content"
  proof (cases "2 < length (messages x)")
    case True
    then have "extract_messages k (pinned_index x)
        (enumerate 0 (take (length (messages x) - 2) (messages x))) [] 0 = (content, ends)"
      using assms(1) by (simp add: extract_content_for_summarization_def)
    from extract_messages_spec [OF this] show ?thesis
      by (simp add: unpinned_removable old_def)
  qed (use assms(1) in \<open>simp add: extract_content_for_summarization_def\<close>)
  then show "length ends \<le> length old"
    "j < length ends \<Longrightarrow> ends ! j = ulen (concat (map message_text (take (Suc j) old)))"
    "prefix (concat (map message_text (take (length ends) old))) content" by simp_all
qed

section \<open>The chunks\<close>

definition boundary :: "ustring \<Rightarrow> nat \<Rightarrow> bool" where
  "boundary s n \<longleftrightarrow> (\<exists>a b. s = a @ b \<and> ulen a = n)"

lemma boundary_slice:
  assumes "boundary s a" "boundary s b" "a \<le> b"
  obtains p m r where "s = p @ m @ r" "ulen p = a" "ulen (p @ m) = b" "byte_slice a b s = m"
proof -
  obtain p q where p: "s = p @ q" "ulen p = a" using assms(1) by (auto simp: boundary_def)
  obtain u v where u: "s = u @ v" "ulen u = b" using assms(2) by (auto simp: boundary_def)
  have "prefix p u \<or> prefix u p" using p(1) u(1) by (metis prefix_same_cases prefixI)
  moreover have "u = p" if "prefix u p" using that assms(3) p(2) u(2) by (auto simp: prefix_def)
  ultimately obtain m where m: "u = p @ m" by (auto simp: prefix_def)
  then have "byte_slice a b s = m" using p(2) u byte_slice_middle [of p m v] by simp
  then show ?thesis using that m u p(2) by simp
qed

lemma byte_slice_empty [simp]: "byte_slice a a s = []"
  by (cases "ceil_drop a s") (simp_all add: byte_slice_def)

lemma byte_slice_join:
  assumes "boundary s a" "boundary s b" "boundary s c" "a \<le> b" "b \<le> c"
  shows "byte_slice a b s @ byte_slice b c s = byte_slice a c s"
proof -
  obtain p m r where pm: "s = p @ m @ r" "ulen p = a" "ulen (p @ m) = b" "byte_slice a b s = m"
    using boundary_slice [OF assms(1,2,4)] .
  obtain p' m' r' where pm': "s = p' @ m' @ r'" "ulen p' = b" "ulen (p' @ m') = c" "byte_slice b c s = m'"
    using boundary_slice [OF assms(2,3,5)] .
  have "ceil_drop b s = r" using pm(1,3) ceil_drop_append [of "p @ m" r] by simp
  moreover have "ceil_drop b s = m' @ r'" using pm'(1,2) ceil_drop_append [of p' "m' @ r'"] by simp
  ultimately have "s = p @ (m @ m') @ r'" using pm(1) by simp
  moreover have "ulen p + ulen (m @ m') = c" using pm(3) pm'(2,3) by simp
  ultimately have "byte_slice a c s = m @ m'"
    using byte_slice_middle [of p "m @ m'" r'] pm(2) by simp
  with pm(4) pm'(4) show ?thesis by simp
qed

lemma ulen_byte_slice:
  assumes "boundary s a" "boundary s b" "a \<le> b"
  shows "ulen (byte_slice a b s) = b - a"
  using boundary_slice [OF assms] by (metis add_diff_cancel_left' ulen_append)

text \<open>A chunk fits the budget, or is one message that does not.\<close>

definition fits_or_single :: "ustring \<Rightarrow> nat \<Rightarrow> nat list \<Rightarrow> ustring \<times> nat \<Rightarrow> bool" where
  "fits_or_single content budget es ch \<longleftrightarrow> ulen (fst ch) \<le> budget
     \<or> (\<exists>k. Suc k < length es \<and> ch = (byte_slice (es ! k) (es ! Suc k) content, es ! Suc k))"

lemma fits_or_single_Cons: "fits_or_single content budget es ch \<Longrightarrow> fits_or_single content budget (e # es) ch"
  unfolding fits_or_single_def by (metis Suc_less_eq length_Cons nth_Cons_Suc)

definition chunks_cover ::
  "ustring \<Rightarrow> nat \<Rightarrow> nat \<Rightarrow> nat list \<Rightarrow> (ustring \<times> nat) list \<Rightarrow> bool" where
  "chunks_cover content budget start es chunks \<longleftrightarrow>
     concat (map fst chunks) = byte_slice start (last es) content
     \<and> (chunks = [] \<longleftrightarrow> start = last es)
     \<and> (chunks \<noteq> [] \<longrightarrow> snd (last chunks) = last es)
     \<and> (\<forall>ch \<in> set chunks. fits_or_single content budget es ch)"

text \<open>One more chunk in front: it ends where the others start.\<close>

lemma chunks_cover_Cons:
  assumes "chunks_cover content budget m es chunks" "boundary content s" "boundary content m"
    "boundary content (last es)" "s < m" "m \<le> last es"
    and "fits_or_single content budget es (byte_slice s m content, m)"
  shows "chunks_cover content budget s es ((byte_slice s m content, m) # chunks)"
  using assms byte_slice_join [OF assms(2-4)] by (auto simp: chunks_cover_def)

lemma chunks_cover_shift:
  "chunks_cover content budget s es chunks \<Longrightarrow> es \<noteq> [] \<Longrightarrow> chunks_cover content budget s (e # es) chunks"
  by (auto simp: chunks_cover_def intro: fits_or_single_Cons)

lemma boundary_loop_cover:
  assumes "sorted (last_end # ends)" "start \<le> last_end" "last_end - start \<le> budget"
    and "\<forall>e \<in> set (start # last_end # ends). boundary content e"
  shows "chunks_cover content budget start (last_end # ends)
           (boundary_loop content budget start last_end ends)"
  using assms
proof (induction ends arbitrary: start last_end)
  case Nil
  then show ?case by (auto simp: chunks_cover_def fits_or_single_def ulen_byte_slice)
next
  case (Cons e ends)
  let ?loop = "boundary_loop content budget"
  let ?cover = "chunks_cover content budget"
  have e: "last_end \<le> e" "sorted (e # ends)" "sorted (last_end # ends)" "e \<le> last (e # ends)"
    "boundary content start" "boundary content last_end" "boundary content e"
    "boundary content (last (e # ends))"
    using Cons.prems(1,4) by (auto simp: last_in_set)
  have single: "fits_or_single content budget (last_end # e # ends) (byte_slice last_end e content, e)"
    unfolding fits_or_single_def by (rule disjI2, rule exI [of _ 0]) simp
  have flush: "fits_or_single content budget es (byte_slice start last_end content, last_end)" for es
    using Cons.prems(2,3) e by (simp add: fits_or_single_def ulen_byte_slice)
  have next_e: "?cover e (last_end # e # ends) (?loop e e ends)"
    by (rule chunks_cover_shift) (use Cons.IH [of e e] e Cons.prems(4) in auto)
  show ?case
  proof (cases "e \<le> start")
    case True
    then have "start = last_end" "e = last_end" using e(1) Cons.prems(2) by simp_all
    moreover have "?cover start (last_end # ends) (?loop start last_end ends)"
      using Cons.IH [of last_end start] e(3) Cons.prems by simp
    ultimately show ?thesis using chunks_cover_shift [of content budget last_end "last_end # ends"] by simp
  next
    case False
    show ?thesis
    proof (cases "budget < e - start")
      case fits: False
      then have "?cover start (e # ends) (?loop start e ends)"
        using Cons.IH [of e start] e Cons.prems False by simp
      then show ?thesis using fits False by (simp add: chunks_cover_shift)
    next
      case big: True
      have own: "?cover last_end (last_end # e # ends)
          ((byte_slice last_end e content, e) # ?loop e e ends)" if "last_end < e"
        using chunks_cover_Cons [OF next_e] e single that by simp
      show ?thesis
      proof (cases "start < last_end")
        case flushed: True
        have "?cover last_end (last_end # e # ends)
            (if budget < e - last_end then (byte_slice last_end e content, e) # ?loop e e ends
             else ?loop last_end e ends)"
        proof (cases "budget < e - last_end")
          case True
          with own show ?thesis by simp
        next
          case False
          have "?cover last_end (e # ends) (?loop last_end e ends)"
            using Cons.IH [of e last_end] e Cons.prems(4) False by simp
          with False show ?thesis by (simp add: chunks_cover_shift)
        qed
        from chunks_cover_Cons [OF this e(5,6) _ flushed _ flush] e big False flushed show ?thesis
          by (auto simp: Let_def)
      next
        case False
        then have "start = last_end" using Cons.prems(2) by simp
        with own big False \<open>\<not> e \<le> start\<close> show ?thesis by simp
      qed
    qed
  qed
qed

lemma chunk_cover:
  assumes "sorted ends" "ends \<noteq> []" "\<forall>e \<in> set ends. boundary content e"
  shows "chunks_cover content (max budget 1) 0 (0 # ends) (chunk_at_message_boundaries content ends budget)"
  unfolding chunk_at_message_boundaries_def
proof (rule boundary_loop_cover)
  have "boundary content 0" by (auto simp: boundary_def)
  with assms(3) show "\<forall>e \<in> set (0 # 0 # ends). boundary content e" by simp
qed (use assms in simp_all)

end
