(* ===== verification/Context_Replacement.thy ===== *)
theory Context_Replacement
  imports Context_Extract
begin

text \<open>
  A successful summarisation pass replaces exactly the messages whose text it handed to the
  model, and which those are.
\<close>

section \<open>What the fallback returns\<close>

lemma summarize_chunks_Some:
  "summarize_chunks env n spec model chunks c = (Some (parts, c'), n') \<Longrightarrow>
     length parts = length chunks \<and> c' = (if chunks = [] then c else snd (last chunks))"
  by (induction env n spec model chunks c arbitrary: parts n' rule: summarize_chunks.induct)
    (auto split: prod.splits sum.splits option.splits)

lemma summarize_with_specs_Inr:
  "summarize_with_specs env cfg n content ends specs = (Inr (s, c), n') \<Longrightarrow>
     \<exists>budget. chunk_at_message_boundaries content ends budget \<noteq> []
       \<and> c = snd (last (chunk_at_message_boundaries content ends budget))"
proof (induction env cfg n content ends specs rule: summarize_with_specs.induct)
  case (2 env cfg n content ends spec specs)
  obtain r n1 where res: "resolve_summarizer env n spec cfg = (r, n1)" by force
  show ?case
  proof (cases r)
    case (Inl e)
    with res 2 show ?thesis by simp
  next
    case (Inr mb)
    obtain model budget where mb: "mb = (model, budget)" by force
    let ?chunks = "chunk_at_message_boundaries content ends budget"
    obtain o' n2 where ch: "summarize_chunks env n1 spec model ?chunks 0 = (o', n2)" by force
    show ?thesis
    proof (cases "?chunks = [] \<or> o' = None")
      case True
      with "2.prems" res Inr mb ch have "summarize_with_specs env cfg (if ?chunks = [] then n1 else n2) content ends specs
          = (Inr (s, c), n')" by (auto simp: Let_def)
      then show ?thesis using "2.IH"(2,3) res Inr mb ch True by (auto split: if_splits)
    next
      case False
      then obtain parts c' where "o' = Some (parts, c')" by auto
      with summarize_chunks_Some [of env n1 spec model ?chunks 0 parts c' n2] ch False "2.prems" res Inr mb
      show ?thesis by (auto simp: Let_def)
    qed
  qed
qed simp

section \<open>What the extraction measures\<close>

lemma extraction_ends:
  assumes "extract_content_for_summarization k x = (content, ends)"
  shows "sorted ends" "\<forall>e \<in> set ends. boundary content e"
    "ends \<noteq> [] \<Longrightarrow> last ends = ulen (concat (map message_text
       (take (length ends) (map ((!) (messages x)) (removable (length (messages x) - 2) x)))))"
proof -
  define old where "old = map ((!) (messages x)) (removable (length (messages x) - 2) x)"
  note spec = extraction_spec [OF assms, folded old_def]
  have pre: "prefix (concat (map message_text (take i old))) (concat (map message_text (take j old)))" if "i \<le> j" for i j
    using that by (metis concat_append le_add_diff_inverse map_append prefixI take_add)
  have pre_len: "ulen (concat (map message_text (take i old))) \<le> ulen (concat (map message_text (take j old)))"
    if "i \<le> j" for i j using pre [OF that] by (auto simp: prefix_def)
  show "sorted ends"
    unfolding sorted_iff_nth_mono
  proof (intro allI impI)
    fix i j assume "i \<le> j" "j < length ends"
    then show "ends ! i \<le> ends ! j" using spec(2) [of i] spec(2) [of j] pre_len [of "Suc i" "Suc j"] by simp
  qed
  show "\<forall>e \<in> set ends. boundary content e"
  proof
    fix e assume "e \<in> set ends"
    then obtain j where j: "j < length ends" "e = ends ! j" by (auto simp: in_set_conv_nth)
    have "prefix (concat (map message_text (take (Suc j) old))) content"
      by (rule prefix_order.trans [OF pre spec(3)]) (use j(1) in simp)
    with spec(2) [OF j(1)] j(2) show "boundary content e" by (auto simp: boundary_def prefix_def)
  qed
  show "last ends = ulen (concat (map message_text (take (length ends) old)))" if "ends \<noteq> []"
    using that spec(2) [of "length ends - 1"] by (simp add: last_conv_nth)
qed

lemma takeWhile_le_last: "sorted ends \<Longrightarrow> ends \<noteq> [] \<Longrightarrow> takeWhile (\<lambda>e. e \<le> last ends) ends = ends"
  by (intro takeWhile_eq_all_conv [THEN iffD2] ballI) (auto simp: sorted_iff_nth_mono in_set_conv_nth last_conv_nth)

lemma removable_nth: "map ((!) xs) (take k js) = take k (map ((!) xs) js)"
  by (simp add: take_map)

section \<open>The pass\<close>

lemma successful_pass:
  assumes "extract_content_for_summarization k x = (content, ends)"
    and "summarize_content_with_fallback env cfg n content ends = (Inr (summary, consumed), n')"
  shows "ends \<noteq> []" "consumed = last ends" "length (takeWhile (\<lambda>e. e \<le> consumed) ends) = length ends"
    "2 < length (messages x)" "length ends \<le> length (removable (length (messages x) - 2) x)"
    "\<exists>budget. consumed = snd (last (chunk_at_message_boundaries content ends budget))
       \<and> concat (map fst (chunk_at_message_boundaries content ends budget))
          = concat (map message_text (map ((!) (messages x)) (take (length ends) (removable (length (messages x) - 2) x))))
       \<and> (\<forall>ch \<in> set (chunk_at_message_boundaries content ends budget).
            fits_or_single content (max budget 1) (0 # ends) ch)"
proof -
  obtain budget where b: "chunk_at_message_boundaries content ends budget \<noteq> []"
    "consumed = snd (last (chunk_at_message_boundaries content ends budget))"
    using assms(2) summarize_with_specs_Inr unfolding summarize_content_with_fallback_def by blast
  show ne: "ends \<noteq> []" using b(1) by (auto simp: chunk_at_message_boundaries_def)
  note e = extraction_ends [OF assms(1)]
  note cover = chunk_cover [OF e(1) ne e(2), of budget, unfolded chunks_cover_def]
  show c: "consumed = last ends" using cover b ne by auto
  show "length (takeWhile (\<lambda>e. e \<le> consumed) ends) = length ends"
    by (simp only: takeWhile_le_last [OF e(1) ne] c)
  show "2 < length (messages x)" using assms(1) ne
    by (auto simp: extract_content_for_summarization_def split: if_splits)
  show "length ends \<le> length (removable (length (messages x) - 2) x)"
    using extraction_spec(1) [OF assms(1)] by simp
  have "prefix (concat (map message_text (map ((!) (messages x)) (take (length ends) (removable (length (messages x) - 2) x))))) content"
    using extraction_spec(3) [OF assms(1)] by (simp only: removable_nth)
  then have "byte_slice 0 (last ends) content
      = concat (map message_text (map ((!) (messages x)) (take (length ends) (removable (length (messages x) - 2) x))))"
    using e(3) [OF ne] by (auto simp: prefix_def byte_slice_def removable_nth)
  then show "\<exists>budget. consumed = snd (last (chunk_at_message_boundaries content ends budget))
       \<and> concat (map fst (chunk_at_message_boundaries content ends budget))
          = concat (map message_text (map ((!) (messages x)) (take (length ends) (removable (length (messages x) - 2) x))))
       \<and> (\<forall>ch \<in> set (chunk_at_message_boundaries content ends budget).
            fits_or_single content (max budget 1) (0 # ends) ch)"
    using cover b(2) ne by (intro exI [of _ budget]) auto
qed

lemma replace_messages:
  assumes "2 < length (messages x)" "0 < k" "k \<le> length (removable (length (messages x) - 2) x)"
  shows "fst (replace_with_summary k s x) = k"
    "messages (snd (replace_with_summary k s x))
       = nths (messages x) (- set (take k (removable (length (messages x) - 2) x)))"
    "consolidated_summary (snd (replace_with_summary k s x)) = Some (additional_context (consolidated_summary x) k s)"
proof -
  let ?v = "take k (removable (length (messages x) - 2) x)"
  have m: "min 2 (length (messages x)) = 2" using assms(1) by simp
  have len: "length ?v = k" using assms(3) by simp
  define h where "h = summarized_content_hashes x
    \<union> (\<Union>m \<in> (!) (messages x) ` set ?v. \<Union>b \<in> set (msg_content m). summarized_hashes b)"
  have r: "replace_with_summary k s x = (k, remove_victims ?v (x\<lparr>summarized_content_hashes := h,
      consolidated_summary := Some (additional_context (consolidated_summary x) k s)\<rparr>))"
    using assms(2) len unfolding replace_with_summary_def Let_def m h_def by simp
  let ?x = "x\<lparr>summarized_content_hashes := h, consolidated_summary := Some (additional_context (consolidated_summary x) k s)\<rparr>"
  have "removable (length (messages x) - 2) ?x = removable (length (messages x) - 2) x"
    by (simp add: removable_def pinned_index_def)
  then have ok: "victims_ok ?v ?x"
    using victims_ok_removable [of "length (messages x) - 2" ?x k] by simp
  show "fst (replace_with_summary k s x) = k" by (simp add: r)
  show "messages (snd (replace_with_summary k s x)) = nths (messages x) (- set ?v)"
    using messages_remove_victims [OF ok] by (simp add: r)
  show "consolidated_summary (snd (replace_with_summary k s x)) = Some (additional_context (consolidated_summary x) k s)"
    using same_frame_fields(2) [OF same_frame_remove_victims [of ?x ?v]] by (simp add: r)
qed


end
