(* ===== verification/Context_Request.thy ===== *)
theory Context_Request
  imports Context_Replacement
begin

text \<open>
  The request a context sends (\<open>messages_for_request\<close> in \<open>context.rs\<close>): large blocks that were
  already summarised are replaced by a note, the preamble goes first, tool results whose call was
  cut away become plain text, and empty text blocks are dropped.
\<close>

section \<open>Orphaned results\<close>

definition orphan_note :: "bool option \<Rightarrow> ustring \<Rightarrow> ustring" where
  "orphan_note is_error c =
    (let verdict = (if is_error = Some True then lit ''FAILED'' else lit ''SUCCEEDED'')
     in lit ''[Result of an earlier tool call whose request was compressed out of this ''
     @ lit ''context '' @ EM_DASH @ lit '' the call itself '' @ verdict
     @ lit '' and its output is preserved verbatim below ('' @ udec (ulen c) @ lit '' chars).]''
     @ NL @ c)"

text \<open>
  The code collects the positions of the orphans in one forward pass and rewrites them after it;
  a rewritten block issues no id, so rewriting during the pass is the same.
\<close>

fun repair_blocks :: "ustring set \<Rightarrow> content_block list \<Rightarrow> ustring set \<times> content_block list" where
  "repair_blocks seen [] = (seen, [])"
| "repair_blocks seen (b # bs) =
     (let (seen', b') = (case b of
            ToolUse tool_id name input \<Rightarrow> (insert tool_id seen, b)
          | ToolResult tool_use_id c is_error \<Rightarrow>
              (seen, if tool_use_id \<in> seen then b else Text (orphan_note is_error c))
          | _ \<Rightarrow> (seen, b));
          (seen'', bs') = repair_blocks seen' bs
      in (seen'', b' # bs'))"

fun repair_messages :: "ustring set \<Rightarrow> anthropic_message list \<Rightarrow> anthropic_message list" where
  "repair_messages seen [] = []"
| "repair_messages seen (m # ms) =
     (let (seen', bs) = repair_blocks seen (msg_content m)
      in m\<lparr>msg_content := bs\<rparr> # repair_messages seen' ms)"

definition repair_orphan_tool_results :: "anthropic_message list \<Rightarrow> anthropic_message list" where
  "repair_orphan_tool_results ms = repair_messages {} ms"

section \<open>Empty blocks and duplicates\<close>

definition sanitize_message :: "anthropic_message \<Rightarrow> anthropic_message" where
  "sanitize_message m =
     (let bs = filter (\<lambda>b. b \<noteq> Text []) (msg_content m)
      in m\<lparr>msg_content := if bs = [] then [Text (lit ''[No content]'')] else bs\<rparr>)"

definition sanitize_messages :: "anthropic_message list \<Rightarrow> anthropic_message list" where
  "sanitize_messages ms = map sanitize_message ms"

definition DEDUP_THRESHOLD :: rat where "DEDUP_THRESHOLD = f32 (7 / 10)"

text \<open>\<open>{:.0}\<close> of \<open>coverage * 100.0\<close>\<close>

definition percent :: "rat \<Rightarrow> ustring" where
  "percent coverage = udec (nat (round_half_even (f32 (coverage * 100))))"

fun deduplicate_block :: "64 word set \<Rightarrow> content_block \<Rightarrow> content_block" where
  "deduplicate_block known (Text t) =
     (if DEDUP_MIN_SIZE \<le> ulen t
      then (let coverage = dedup_coverage t known
            in if DEDUP_THRESHOLD \<le> coverage
               then Text (lit ''[Content ('' @ percent coverage
                   @ lit ''% duplicate) already included in previous context summary]'')
               else Text t)
      else Text t)"
| "deduplicate_block known (ToolResult tool_use_id c is_error) =
     (if DEDUP_MIN_SIZE \<le> ulen c
      then (let coverage = dedup_coverage c known
            in if DEDUP_THRESHOLD \<le> coverage
               then ToolResult tool_use_id (lit ''[Output ('' @ percent coverage
                   @ lit ''% duplicate) already included in previous context summary]'') is_error
               else ToolResult tool_use_id c is_error)
      else ToolResult tool_use_id c is_error)"
| "deduplicate_block known b = b"

definition deduplicate_messages :: "agent_context \<Rightarrow> anthropic_message list" where
  "deduplicate_messages x = map (\<lambda>m. \<lparr>role = role m,
     msg_content = map (deduplicate_block (summarized_content_hashes x)) (msg_content m)\<rparr>) (messages x)"

section \<open>The request\<close>

definition messages_for_request :: "time_format \<Rightarrow> agent_context \<Rightarrow> anthropic_message list" where
  "messages_for_request tm x =
     (let deduped = (if summarized_content_hashes x = {} then messages x else deduplicate_messages x);
          raw = (case context_preamble tm x of
                   None \<Rightarrow> deduped
                 | Some preamble \<Rightarrow> user_text preamble # assistant_text PREAMBLE_ACK # deduped)
      in sanitize_messages (repair_orphan_tool_results raw))"

section \<open>Facts\<close>

text \<open>A provider accepts a list of blocks when each result follows a call with its id.\<close>

fun results_answered :: "ustring set \<Rightarrow> content_block list \<Rightarrow> bool" where
  "results_answered seen [] = True"
| "results_answered seen (ToolUse tool_id name input # bs) = results_answered (insert tool_id seen) bs"
| "results_answered seen (ToolResult tool_use_id c is_error # bs) =
     (tool_use_id \<in> seen \<and> results_answered seen bs)"
| "results_answered seen (b # bs) = results_answered seen bs"

definition request_blocks :: "anthropic_message list \<Rightarrow> content_block list" where
  "request_blocks ms = concat (map msg_content ms)"

fun issued :: "content_block list \<Rightarrow> ustring set" where
  "issued [] = {}"
| "issued (ToolUse tool_id name input # bs) = insert tool_id (issued bs)"
| "issued (b # bs) = issued bs"

lemma results_answered_append:
  "results_answered seen (as @ bs) \<longleftrightarrow> results_answered seen as \<and> results_answered (seen \<union> issued as) bs"
  by (induction seen as rule: results_answered.induct) (auto simp: insert_commute Un_commute)

lemma repair_blocks_spec:
  "results_answered seen (snd (repair_blocks seen bs)) \<and> fst (repair_blocks seen bs) = seen \<union> issued (snd (repair_blocks seen bs))
   \<and> length (snd (repair_blocks seen bs)) = length bs"
  by (induction seen bs rule: repair_blocks.induct) (auto simp: Let_def split: content_block.splits prod.splits)

lemma repair_messages_answered: "results_answered seen (request_blocks (repair_messages seen ms))"
proof (induction seen ms rule: repair_messages.induct)
  case (2 seen m ms)
  obtain seen' bs where r: "repair_blocks seen (msg_content m) = (seen', bs)" by force
  show ?case using "2.IH" [OF r [symmetric]] repair_blocks_spec [of seen "msg_content m"] r
    by (simp add: request_blocks_def results_answered_append)
qed (simp add: request_blocks_def)

lemma results_answered_filter:
  "results_answered seen bs \<Longrightarrow> results_answered seen (filter (\<lambda>b. b \<noteq> Text []) bs)"
  by (induction seen bs rule: results_answered.induct) auto

lemma issued_filter: "issued (filter (\<lambda>b. b \<noteq> Text []) bs) = issued bs"
  by (induction bs rule: issued.induct) auto

lemma sanitize_answered:
  "results_answered seen (request_blocks ms) \<Longrightarrow> results_answered seen (request_blocks (sanitize_messages ms))"
proof (induction ms arbitrary: seen)
  case (Cons m ms)
  have same: "results_answered seen (msg_content (sanitize_message m)) \<and> issued (msg_content (sanitize_message m)) = issued (msg_content m)"
    using Cons.prems results_answered_filter [of seen "msg_content m"] issued_filter [of "msg_content m"]
    by (auto simp: sanitize_message_def Let_def request_blocks_def results_answered_append)
  then show ?case using Cons
    by (simp add: request_blocks_def results_answered_append sanitize_messages_def)
qed (simp add: sanitize_messages_def request_blocks_def)

lemma length_repair: "length (repair_messages seen ms) = length ms"
  by (induction seen ms rule: repair_messages.induct) (auto split: prod.splits)

lemma role_repair: "map role (repair_messages seen ms) = map role ms"
  by (induction seen ms rule: repair_messages.induct) (auto split: prod.splits)

lemma role_sanitize: "map role (sanitize_messages ms) = map role ms"
  by (simp add: sanitize_messages_def sanitize_message_def Let_def)

lemma sanitize_blocks: "m \<in> set (sanitize_messages ms) \<Longrightarrow> msg_content m \<noteq> [] \<and> Text [] \<notin> set (msg_content m)"
  by (auto simp: sanitize_messages_def sanitize_message_def Let_def lit_def split: if_splits)

lemma preamble_ne: "context_preamble tm x = Some t \<Longrightarrow> t \<noteq> []"
  by (auto simp: context_preamble_def Let_def previous_context_def verified_outcomes_block_def VERIFIED_HEADER_def lit_def
      ujoin_def split: if_splits option.splits)

end
