(* ===== verification/Context_Contracts.thy ===== *)
theory Context_Contracts
  imports Context_Request
begin

text \<open>
  The properties of the agent's context over every sequence of its operations. A step is one
  public operation of \<open>AgentContext\<close> that the agent runs while it works on a request, with
  whatever the models, the clock and the caller supply.
\<close>

section \<open>The steps\<close>

inductive context_step :: "time_format \<Rightarrow> agent_context \<Rightarrow> agent_context \<Rightarrow> bool" for tm where
  adds_user: "context_step tm x (add_user_message t x)"
| adds_assistant: "context_step tm x (add_assistant_message t x)"
| truncates: "context_step tm x (snd (truncate_to_limit tm x))"
| drops: "context_step tm x (snd (drop_oldest keep x))"
| shrinks: "context_step tm x (snd (compress_older_tool_results answer keep min_chars x))"
| compresses: "context_step tm x (snd (compress llm now keep x))"
| enforces: "context_step tm x (snd (enforce_limits tm llm now x))"
| summarizes: "context_step tm x (snd (enforce_limits_with_summarization tm env config target x))"
| records: "context_step tm x (record_verified_outcome_at s r now x)"
| distills: "context_step tm x (set_distilled_facts facts x)"
| announces: "context_step tm x (push_summarization_failure_notice n reason x)"
| takes_notices: "context_step tm x (snd (take_pending_loss_notices x))"
| configures: "context_step tm x (snd (configure_for_model_with_output m requested x))"

section \<open>The live request\<close>

definition carries :: "agent_context \<Rightarrow> agent_context \<Rightarrow> bool" where
  "carries x y \<longleftrightarrow> messages y \<noteq> [] \<and> pin_ok y \<and> shortened\<^sup>*\<^sup>* (live_request x) (live_request y)"

lemma carries_trans: "carries x y \<Longrightarrow> carries y z \<Longrightarrow> carries x z"
  by (auto simp: carries_def)

lemma carries_kept: "kept x y \<Longrightarrow> messages x \<noteq> [] \<Longrightarrow> pin_ok x \<Longrightarrow> carries x y"
  by (simp add: kept_def carries_def)

lemma carries_add:
  assumes "messages x \<noteq> []" "pin_ok x"
  shows "carries x (trim_if_needed (add_message m x))"
proof -
  have "pinned_index (add_message m x) = pinned_index x"
    using assms by (cases "pinned_request x") (auto simp: pinned_index_def add_message_def pin_ok_def)
  then have "live_request (add_message m x) = live_request x"
    using pinned_index_less [OF assms(1)] by (simp add: live_request_def add_message_def nth_append)
  moreover have "pin_ok (add_message m x)"
    using assms by (cases "pinned_request x") (auto simp: pin_ok_def add_message_def)
  moreover have "messages (add_message m x) \<noteq> []" by (simp add: add_message_def)
  ultimately show ?thesis
    using live_request_trim [of "add_message m x"] pin_ok_trim [of "add_message m x"]
    by (simp add: carries_def)
qed

lemma carries_same:
  assumes "messages y = messages x" "pinned_request y = pinned_request x" "messages x \<noteq> []" "pin_ok x"
  shows "carries x y"
  using assms live_request_cong [OF assms(1,2)] pin_ok_cong [OF assms(2)] by (simp add: carries_def)

lemma context_step_carries:
  "context_step tm x y \<Longrightarrow> messages x \<noteq> [] \<Longrightarrow> pin_ok x \<Longrightarrow> carries x y"
proof (induction rule: context_step.induct)
  case (adds_user x t)
  then show ?case by (simp add: add_user_message_def carries_add)
next
  case (adds_assistant x t)
  then show ?case by (simp add: add_assistant_message_def carries_add)
next
  case (truncates x)
  then show ?case by (intro carries_kept truncation.keeps)
next
  case (drops x keep)
  then show ?case by (intro carries_kept dropping.keeps)
next
  case (shrinks x answer keep min_chars)
  then show ?case by (intro carries_kept shrinking.keeps)
next
  case (compresses x llm now keep)
  then show ?case by (intro carries_kept compression.keeps)
next
  case (enforces x llm now)
  then show ?case by (intro carries_kept limiting.keeps)
next
  case (summarizes x env config target)
  then show ?case by (intro carries_kept summarization.keeps)
next
  case (records x s r now)
  then show ?case by (intro carries_same) (simp_all add: record_verified_outcome_at_def)
next
  case (distills x facts)
  then show ?case by (intro carries_same) (simp_all add: set_distilled_facts_def)
next
  case (announces x n reason)
  then show ?case by (intro carries_same) (simp_all add: push_summarization_failure_notice_def)
next
  case (takes_notices x)
  then show ?case by (intro carries_same) (simp_all add: take_pending_loss_notices_def)
next
  case (configures x m requested)
  then show ?case by (intro carries_same) (simp_all add: configure_for_model_with_output_def Let_def)
qed

text \<open>C15: The live request survives every cut. However the operations of the context are
  interleaved, whatever the summarisation models answer and however small the limits, the
  context still holds the message the user pinned, the pin still points at it, and the message
  differs from the original at most by text blocks truncated in place, each with its marker,
  to a length of at least 100 bytes.\<close>

theorem live_request_survives:
  assumes "(context_step tm)\<^sup>*\<^sup>* x y" "messages x \<noteq> []" "pin_ok x"
  shows "messages y \<noteq> [] \<and> pin_ok y \<and> shortened\<^sup>*\<^sup>* (live_request x) (live_request y)"
  using assms(1)
proof (induction rule: rtranclp_induct)
  case base
  with assms(2,3) show ?case by simp
next
  case (step y z)
  then have "carries x y" by (simp add: carries_def)
  moreover have "carries y z" using step by (intro context_step_carries) auto
  ultimately show ?case using carries_trans unfolding carries_def by blast
qed

definition sample_context :: agent_context where
  "sample_context = pin_live_request (add_user_message (lit ''question'')
     (add_message (assistant_text (lit ''history'')) (new_context [])))"

lemma sample_context_pin:
  "messages sample_context = [assistant_text (lit ''history''), user_text (lit ''question'')]"
  "pinned_request sample_context = Some 1"
  by (simp_all add: sample_context_def pin_live_request_def add_user_message_def add_message_def
      new_context_def trim_if_needed.simps)

theorem live_request_survives_witness:
  "let y = add_assistant_message (lit ''answer'') (snd (drop_oldest 0 (snd (truncate_to_limit (\<lambda>_. None) sample_context))))
   in messages y \<noteq> [] \<and> shortened\<^sup>*\<^sup>* (user_text (lit ''question'')) (live_request y)"
proof -
  let ?y = "add_assistant_message (lit ''answer'') (snd (drop_oldest 0 (snd (truncate_to_limit (\<lambda>_. None) sample_context))))"
  let ?x1 = "snd (truncate_to_limit (\<lambda>_. None) sample_context)"
  have "context_step (\<lambda>_. None) sample_context ?x1" by (rule truncates)
  moreover have "context_step (\<lambda>_. None) ?x1 (snd (drop_oldest 0 ?x1))" by (rule drops)
  moreover have "context_step (\<lambda>_. None) (snd (drop_oldest 0 ?x1)) ?y" by (rule adds_assistant)
  ultimately have "(context_step (\<lambda>_. None))\<^sup>*\<^sup>* sample_context ?y"
    by (meson converse_rtranclp_into_rtranclp r_into_rtranclp)
  then have "messages ?y \<noteq> [] \<and> pin_ok ?y \<and> shortened\<^sup>*\<^sup>* (live_request sample_context) (live_request ?y)"
    by (rule live_request_survives) (simp_all add: sample_context_pin pin_ok_def)
  moreover have "live_request sample_context = user_text (lit ''question'')"
    by (simp add: live_request_def pinned_index_def sample_context_pin)
  ultimately show ?thesis by (simp add: Let_def)
qed

section \<open>Verified outcomes\<close>

definition outcome_key :: "verified_outcome \<Rightarrow> ustring \<times> ustring" where
  "outcome_key v = (vo_subject v, vo_outcome v)"

text \<open>A later list represents every outcome of an earlier one, never older or rarer.\<close>

definition refreshes :: "verified_outcome \<Rightarrow> verified_outcome \<Rightarrow> bool" where
  "refreshes v w \<longleftrightarrow> outcome_key w = outcome_key v \<and> verified_at v \<le> verified_at w
     \<and> (vo_times v \<le> u32_max \<longrightarrow> vo_times v \<le> vo_times w \<and> vo_times w \<le> u32_max)"

definition outcomes_grow :: "verified_outcome list \<Rightarrow> verified_outcome list \<Rightarrow> bool" where
  "outcomes_grow vs ws \<longleftrightarrow> (\<forall>v \<in> set vs. \<exists>w \<in> set ws. refreshes v w)
     \<and> (distinct (map outcome_key vs) \<longrightarrow> distinct (map outcome_key ws))"

lemma refreshes_refl [simp]: "refreshes v v"
  by (simp add: refreshes_def)

lemma refreshes_trans: "refreshes u v \<Longrightarrow> refreshes v w \<Longrightarrow> refreshes u w"
  by (auto simp: refreshes_def)

lemma outcomes_grow_refl [simp]: "outcomes_grow vs vs"
  unfolding outcomes_grow_def using refreshes_refl by blast

lemma outcomes_grow_trans: "outcomes_grow us vs \<Longrightarrow> outcomes_grow vs ws \<Longrightarrow> outcomes_grow us ws"
  unfolding outcomes_grow_def using refreshes_trans by blast

lemma record_outcome_keys:
  "outcome_key ` set (record_outcome s r now vs) = insert (s, r) (outcome_key ` set vs)"
  by (induction s r now vs rule: record_outcome.induct) (auto simp: outcome_key_def)

lemma outcomes_grow_Cons:
  assumes "outcomes_grow vs ws" "outcome_key ` set ws \<subseteq> insert k (outcome_key ` set vs)" "outcome_key v \<noteq> k"
  shows "outcomes_grow (v # vs) (v # ws)"
  unfolding outcomes_grow_def
proof (intro conjI ballI impI)
  fix u assume "u \<in> set (v # vs)"
  then show "\<exists>w \<in> set (v # ws). refreshes u w"
    using assms(1) refreshes_refl [of v] unfolding outcomes_grow_def by (metis list.set_intros set_ConsD)
next
  assume "distinct (map outcome_key (v # vs))"
  then have "distinct (map outcome_key vs)" "outcome_key v \<notin> outcome_key ` set vs" by simp_all
  moreover from this(1) have "distinct (map outcome_key ws)" using assms(1) by (simp add: outcomes_grow_def)
  moreover have "outcome_key v \<notin> outcome_key ` set ws" using calculation(2) assms(2,3) by blast
  ultimately show "distinct (map outcome_key (v # ws))" by simp
qed

lemma outcomes_grow_record: "outcomes_grow vs (record_outcome s r now vs)"
proof (induction vs)
  case Nil
  then show ?case by (simp add: outcomes_grow_def)
next
  case (Cons v vs)
  show ?case
  proof (cases "vo_subject v = s \<and> vo_outcome v = r")
    case True
    let ?w = "v\<lparr>vo_times := min (vo_times v + 1) u32_max, verified_at := max (verified_at v) now\<rparr>"
    have "refreshes v ?w" "outcome_key ?w = outcome_key v"
      by (auto simp: refreshes_def outcome_key_def u32_max_def)
    moreover have "\<forall>u \<in> set vs. \<exists>w \<in> set vs. refreshes u w" using refreshes_refl by blast
    ultimately show ?thesis using True by (auto simp: outcomes_grow_def)
  next
    case False
    then have "outcome_key v \<noteq> (s, r)" by (auto simp: outcome_key_def)
    then have "outcomes_grow (v # vs) (v # record_outcome s r now vs)"
      using outcomes_grow_Cons [OF Cons] record_outcome_keys [of s r now vs] by blast
    moreover have "record_outcome s r now (v # vs) = v # record_outcome s r now vs"
      using False by (simp only: record_outcome.simps if_False)
    ultimately show ?thesis by (simp only:)
  qed
qed

lemma verified_outcomes_add: "verified_outcomes (trim_if_needed (add_message m x)) = verified_outcomes x"
  using same_frame_fields(4) [OF same_frame_trim [of "add_message m x"]] by (simp add: add_message_def)

lemma context_step_outcomes: "context_step tm x y \<Longrightarrow> outcomes_grow (verified_outcomes x) (verified_outcomes y)"
  by (induction rule: context_step.induct)
    (simp_all add: add_user_message_def add_assistant_message_def verified_outcomes_add truncation.outcomes
      dropping.outcomes shrinking.outcomes compression.outcomes limiting.outcomes summarization.outcomes
      record_verified_outcome_at_def outcomes_grow_record set_distilled_facts_def
      push_summarization_failure_notice_def take_pending_loss_notices_def
      configure_for_model_with_output_def Let_def)

lemma context_steps_outcomes:
  "(context_step tm)\<^sup>*\<^sup>* x y \<Longrightarrow> outcomes_grow (verified_outcomes x) (verified_outcomes y)"
  by (induction rule: rtranclp_induct) (auto intro: outcomes_grow_trans context_step_outcomes)

lemma outcome_line_in_preamble:
  assumes "v \<in> set (verified_outcomes x)"
  obtains t where "context_preamble tm x = Some t" "sublist (outcome_line tm v) t"
proof -
  obtain as bs where vs: "verified_outcomes x = as @ v # bs" using split_list [OF assms] by blast
  have "verified_outcomes_block tm x = Some ((VERIFIED_HEADER @ concat (map (outcome_line tm) as))
      @ outcome_line tm v @ (concat (map (outcome_line tm) bs) @ lit ''</verified_outcomes>''))"
    by (simp add: verified_outcomes_block_def vs)
  then obtain b where b: "verified_outcomes_block tm x = Some b" "sublist (outcome_line tm v) b"
    using sublist_appendI by metis
  show ?thesis
  proof (cases "lossy_context x = []")
    case True
    with b show ?thesis by (intro that) (simp_all add: context_preamble_def)
  next
    case False
    with b have "context_preamble tm x = Some (previous_context (lossy_context x) @ NL2 @ b)"
      by (simp add: context_preamble_def Let_def ujoin_def)
    moreover have "sublist (outcome_line tm v) (previous_context (lossy_context x) @ NL2 @ b)"
      using b(2) by (simp add: sublist_append)
    ultimately show ?thesis by (rule that)
  qed
qed

lemma request_with_preamble:
  assumes "context_preamble tm x = Some t"
  obtains rest where "messages_for_request tm x = user_text t # assistant_text PREAMBLE_ACK # rest"
proof -
  have "sanitize_message ((user_text t)\<lparr>msg_content := [Text t]\<rparr>) = user_text t"
    "sanitize_message ((assistant_text PREAMBLE_ACK)\<lparr>msg_content := [Text PREAMBLE_ACK]\<rparr>) = assistant_text PREAMBLE_ACK"
    using preamble_ne [OF assms]
    by (simp_all add: sanitize_message_def user_text_def assistant_text_def PREAMBLE_ACK_def lit_def)
  moreover have "msg_content (user_text t) = [Text t]" "msg_content (assistant_text u) = [Text u]" for u
    by (simp_all add: user_text_def assistant_text_def)
  ultimately show ?thesis
    by (intro that) (simp add: messages_for_request_def assms repair_orphan_tool_results_def
        sanitize_messages_def Let_def)
qed

text \<open>C16: A fact proven by execution is never lost. After any sequence of operations, every
  verified outcome recorded before is still represented, with the same command and verdict, a
  time that never moves backwards and a count that never falls; each pair has one entry; and
  every request the context can then send opens with a message that contains the rendered line
  of that entry.\<close>

theorem verified_outcomes_reach_the_request:
  assumes "(context_step tm)\<^sup>*\<^sup>* x y" "v \<in> set (verified_outcomes x)"
  shows "\<exists>w \<in> set (verified_outcomes y). vo_subject w = vo_subject v \<and> vo_outcome w = vo_outcome v
     \<and> verified_at v \<le> verified_at w \<and> (vo_times v \<le> u32_max \<longrightarrow> vo_times v \<le> vo_times w)
     \<and> (\<exists>t rest. messages_for_request tm y = user_text t # rest \<and> sublist (outcome_line tm w) t)"
proof -
  obtain w where w: "w \<in> set (verified_outcomes y)" "refreshes v w"
    using context_steps_outcomes [OF assms(1)] assms(2) unfolding outcomes_grow_def by blast
  obtain t where t: "context_preamble tm y = Some t" "sublist (outcome_line tm w) t"
    by (rule outcome_line_in_preamble [OF w(1)])
  obtain rest where "messages_for_request tm y = user_text t # assistant_text PREAMBLE_ACK # rest"
    by (rule request_with_preamble [OF t(1)])
  with w t show ?thesis by (intro bexI [OF _ w(1)]) (auto simp: refreshes_def outcome_key_def)
qed

theorem verified_outcomes_reach_the_request_witness:
  "let x = record_verified_outcome_at (lit ''cargo test'') (lit ''passed'') 7 sample_context;
       y = record_verified_outcome_at (lit ''cargo test'') (lit ''passed'') 9 (snd (drop_oldest 0 x))
   in \<exists>w \<in> set (verified_outcomes y). vo_subject w = lit ''cargo test'' \<and> 7 \<le> verified_at w
     \<and> (\<exists>t rest. messages_for_request (\<lambda>_. None) y = user_text t # rest
          \<and> sublist (outcome_line (\<lambda>_. None) w) t)"
proof -
  let ?x = "record_verified_outcome_at (lit ''cargo test'') (lit ''passed'') 7 sample_context"
  let ?d = "snd (drop_oldest 0 ?x)"
  let ?y = "record_verified_outcome_at (lit ''cargo test'') (lit ''passed'') 9 ?d"
  let ?v = "\<lparr>vo_subject = lit ''cargo test'', vo_outcome = lit ''passed'', verified_at = 7, vo_times = 1\<rparr>"
  have "context_step (\<lambda>_. None) ?x ?d" by (rule drops)
  moreover have "context_step (\<lambda>_. None) ?d ?y" by (rule records)
  ultimately have steps: "(context_step (\<lambda>_. None))\<^sup>*\<^sup>* ?x ?y"
    by (meson converse_rtranclp_into_rtranclp r_into_rtranclp)
  have "verified_outcomes sample_context = []"
    by (simp add: sample_context_def pin_live_request_def add_user_message_def add_message_def
        new_context_def trim_if_needed.simps)
  then have "?v \<in> set (verified_outcomes ?x)" by (simp add: record_verified_outcome_at_def)
  from verified_outcomes_reach_the_request [OF steps this] show ?thesis by (auto simp: Let_def)
qed

end
