(* ===== verification/Context_Properties.thy ===== *)
theory Context_Properties
  imports Context_Contracts
begin

text \<open>
  Properties of the single operations of the agent's context: the order of the tiers, what
  truncation and the shortening of tool results leave, the form of the request, and two places
  where the code departs from its comments.
\<close>

section \<open>The ladder\<close>

lemma step_orders_limits:
  "context_step tm x y \<Longrightarrow> compression_threshold x \<le> hard_limit x \<Longrightarrow> compression_threshold y \<le> hard_limit y"
proof (induction rule: context_step.induct)
  case (adds_user x t)
  then show ?case using same_frame_fields [OF same_frame_trim [of "add_message (user_text t) x"]]
    by (simp add: add_user_message_def add_message_def)
next
  case (adds_assistant x t)
  then show ?case using same_frame_fields [OF same_frame_trim [of "add_message (assistant_text t) x"]]
    by (simp add: add_assistant_message_def add_message_def)
next
  case (configures x m requested)
  show ?case by (rule configure_orders_limits)
qed (simp_all add: truncation.limits dropping.limits shrinking.limits compression.limits limiting.limits
    summarization.limits record_verified_outcome_at_def set_distilled_facts_def
    push_summarization_failure_notice_def take_pending_loss_notices_def)


definition tiny_model :: model_info where
  "tiny_model = (unknown_model_info 0 (lit ''tiny'') [])\<lparr>context_window := 2\<rparr>"

definition crowded_context :: agent_context where
  "crowded_context = snd (configure_for_model_with_output tiny_model 1
     (add_user_message (replicate 400 233) (new_context [])))"

lemma crowded_context_fields:
  "messages crowded_context = [user_text (replicate 400 233)]" "hard_limit crowded_context = 1"
  "system_prompt crowded_context = []" "consolidated_summary crowded_context = None"
  "distilled_facts crowded_context = None" "verified_outcomes crowded_context = []"
  by (simp_all add: crowded_context_def configure_for_model_with_output_def Let_def add_user_message_def
      add_message_def new_context_def trim_if_needed.simps tiny_model_def unknown_model_info_def
      hard_input_limit_for_def effective_output_budget_def)

lemma crowded_context_tokens: "context_tokens crowded_context = 400" "message_hard_limit tm crowded_context = 1"
proof -
  have "estimate_tokens (replicate 400 233) = 400"
    by (subst estimate_tokens_wide) (simp_all add: is_ascii_def list_all_iff)
  then show "context_tokens crowded_context = 400"
    by (simp add: context_tokens_def crowded_context_fields estimate_message_tokens_def user_text_def)
  show "message_hard_limit tm crowded_context = 1"
    by (simp add: message_hard_limit_def message_budget_def preamble_tokens_def context_preamble_def
        lossy_context_def verified_outcomes_block_def crowded_context_fields)
qed

lemma crowded_context_exceeds: "exceeds_hard_limit tm crowded_context"
  by (simp add: exceeds_hard_limit_def crowded_context_tokens)


section \<open>Truncation\<close>

text \<open>C20: Truncation always ends, and it destroys as little as it can. It removes no message when
  the request fits, or when shortening the summary makes it fit; the count it returns is the
  number of messages gone; the live request stays; and if the request still exceeds the limit
  afterwards, the live request is the only message left, cut down to the block limit.\<close>

theorem truncation_spends_history_last:
  assumes "truncate_to_limit tm x = (n, y)" "messages x \<noteq> []"
  shows "length (messages y) + n = length (messages x)
    \<and> (\<not> exceeds_hard_limit tm x \<longrightarrow> y = x)
    \<and> (\<not> exceeds_hard_limit tm (snd (elide_preamble_to_fit tm x)) \<longrightarrow> messages y = messages x)
    \<and> (\<exists>limit \<ge> MIN_BLOCK_CHARS. live_request y \<in> {live_request x, truncate_message limit (live_request x)}
        \<and> (exceeds_hard_limit tm y \<longrightarrow> messages y = [live_request y]))"
proof (intro conjI impI)
  note spec = truncate_to_limit_spec [OF assms(1)]
  show "length (messages y) + n = length (messages x)" by (rule spec(1))
  show "y = x" if "\<not> exceeds_hard_limit tm x"
    using that assms(1) by (simp add: truncate_to_limit_def drop_while_over_not_exceeding)
  show "messages y = messages x" if "\<not> exceeds_hard_limit tm (snd (elide_preamble_to_fit tm x))"
    using that assms(1)
    by (cases "exceeds_hard_limit tm x") (auto simp: truncate_to_limit_def drop_while_over_not_exceeding)
  have ne: "messages y \<noteq> []" and live: "live_request y = live_request x
      \<or> (\<exists>limit \<ge> MIN_BLOCK_CHARS. live_request y = truncate_message limit (live_request x))"
    using spec(3) assms(2) by simp_all
  have "messages y = [live_request y]" if "exceeds_hard_limit tm y"
  proof -
    have "length (messages y) = 1" using spec(2) [OF that] ne by (cases "messages y") auto
    then show ?thesis using pinned_index_less [OF ne] by (cases "messages y") (auto simp: live_request_def)
  qed
  with live show "\<exists>limit \<ge> MIN_BLOCK_CHARS. live_request y \<in> {live_request x, truncate_message limit (live_request x)}
        \<and> (exceeds_hard_limit tm y \<longrightarrow> messages y = [live_request y])" by blast
qed

theorem truncation_spends_history_last_witness:
  "length (messages (snd (truncate_to_limit (\<lambda>_. None) crowded_context)))
     + fst (truncate_to_limit (\<lambda>_. None) crowded_context) = 1"
  using truncation_spends_history_last [of "\<lambda>_. None" crowded_context
      "fst (truncate_to_limit (\<lambda>_. None) crowded_context)" "snd (truncate_to_limit (\<lambda>_. None) crowded_context)"]
  by (simp add: crowded_context_fields)

section \<open>Older tool results\<close>

lemma rewritten_announces:
  assumes "rewritten n b b'"
  shows "\<exists>tool_use_id c is_error c'. b = ToolResult tool_use_id c is_error \<and> is_error \<noteq> Some True
     \<and> n \<le> ulen c \<and> \<not> prefix COMPRESSED_RESULT_BANNER c
     \<and> b' = ToolResult tool_use_id (compressed_note (ulen c) c') is_error \<and> ulen c' < ulen c
     \<and> prefix COMPRESSED_RESULT_BANNER (compressed_note (ulen c) c')"
proof -
  have "prefix COMPRESSED_RESULT_BANNER (compressed_note l c')" for l c' by (simp add: compressed_note_def)
  with assms show ?thesis by (auto simp: rewritten_def split: if_splits)
qed

lemma ulen_lit: "list_all (\<lambda>c. of_char c < (128::nat)) s \<Longrightarrow> ulen (lit s) = length s"
  by (induction s) (auto simp: lit_def len_utf8_def)

text \<open>The notice alone is longer than 300 bytes, so a result shortened by less grows.\<close>

lemma compressed_note_length: "300 + ulen c' < ulen (compressed_note l c')"
proof -
  have "300 < ulen (COMPRESSED_RESULT_BANNER @ lit '' ('' @ lit '' chars original). WHY: your context window is limited, and this older result ''
     @ lit ''was shortened to make room for current work '' @ EM_DASH
     @ lit '' the tool call itself SUCCEEDED in full. The wording below is lossy ''
     @ lit ''shorthand, NOT the literal output; trust files on disk over this.]'' @ NL)"
    unfolding COMPRESSED_RESULT_BANNER_def
    by (simp add: ulen_lit EM_DASH_def NL_def len_utf8_def)
  then show ?thesis by (simp add: compressed_note_def)
qed

text \<open>C19: Shortening the older tool results never touches the live request or the recent tail,
  keeps every message, role, block and id in place, and rewrites only successful results of at
  least the minimal size that no earlier pass rewrote; the new text opens with the banner that
  announces it, so a second pass leaves it alone. The comment also claims that a block is only
  rewritten when it shrinks: the banner is added after that comparison, and a result the model
  shortens by less than the banner grows.\<close>

theorem older_results_announce_themselves:
  assumes "compress_older_tool_results answer keep min_chars x = (n, y)" "i < length (messages x)"
    "j < length (msg_content (messages x ! i))"
  shows "length (messages y) = length (messages x) \<and> role (messages y ! i) = role (messages x ! i)
    \<and> length (msg_content (messages y ! i)) = length (msg_content (messages x ! i))
    \<and> (i = pinned_index x \<or> length (messages x) - keep \<le> i \<longrightarrow> messages y ! i = messages x ! i)
    \<and> (msg_content (messages y ! i) ! j = msg_content (messages x ! i) ! j
      \<or> (\<exists>tool_use_id c is_error c'. msg_content (messages x ! i) ! j = ToolResult tool_use_id c is_error
          \<and> is_error \<noteq> Some True \<and> min_chars \<le> ulen c \<and> \<not> prefix COMPRESSED_RESULT_BANNER c
          \<and> msg_content (messages y ! i) ! j = ToolResult tool_use_id (compressed_note (ulen c) c') is_error
          \<and> prefix COMPRESSED_RESULT_BANNER (compressed_note (ulen c) c') \<and> ulen c' < ulen c
          \<and> (ulen c \<le> ulen c' + 300 \<longrightarrow> ulen c < ulen (compressed_note (ulen c) c'))))"
proof (intro conjI impI)
  note spec = compress_older_spec [OF assms(1)]
  show "length (messages y) = length (messages x)" "role (messages y ! i) = role (messages x ! i)"
    "length (msg_content (messages y ! i)) = length (msg_content (messages x ! i))"
    using spec(2) assms(2) by (simp_all add: same_shape_def)
  show "messages y ! i = messages x ! i" if "i = pinned_index x \<or> length (messages x) - keep \<le> i"
    using compress_older_keeps_message [OF assms(1,2) that] .
  have grows: "ulen c < ulen (compressed_note (ulen c) c')" if "ulen c \<le> ulen c' + 300" for c c'
    using compressed_note_length [of c' "ulen c"] that by simp
  show "msg_content (messages y ! i) ! j = msg_content (messages x ! i) ! j
      \<or> (\<exists>tool_use_id c is_error c'. msg_content (messages x ! i) ! j = ToolResult tool_use_id c is_error
          \<and> is_error \<noteq> Some True \<and> min_chars \<le> ulen c \<and> \<not> prefix COMPRESSED_RESULT_BANNER c
          \<and> msg_content (messages y ! i) ! j = ToolResult tool_use_id (compressed_note (ulen c) c') is_error
          \<and> prefix COMPRESSED_RESULT_BANNER (compressed_note (ulen c) c') \<and> ulen c' < ulen c
          \<and> (ulen c \<le> ulen c' + 300 \<longrightarrow> ulen c < ulen (compressed_note (ulen c) c')))"
    using spec(3) [OF assms(2), of j] rewritten_announces [of min_chars "block_at (messages x) i j" "block_at (messages y) i j"] grows
    unfolding block_at_def by blast
qed

definition tool_history :: agent_context where
  "tool_history = (new_context [])\<lparr>messages :=
     [\<lparr>role = lit ''user'', msg_content = [ToolResult (lit ''t1'') (replicate 400 97) None]\<rparr>,
      user_text (lit ''question''), assistant_text (lit ''answer'')], pinned_request := Some 1\<rparr>"

definition shorten_a_little :: "nat \<Rightarrow> ustring \<Rightarrow> ustring option" where
  "shorten_a_little n c = Some (replicate 399 97)"

lemma ulen_replicate: "ulen (replicate n c) = n * len_utf8 c"
  by (induction n) simp_all

lemma banner_not_prefix_replicate: "\<not> prefix COMPRESSED_RESULT_BANNER (replicate n 97)"
  by (cases n) (simp_all add: COMPRESSED_RESULT_BANNER_def lit_def)

lemma tool_history_run:
  "compress_older_tool_results shorten_a_little 1 100 tool_history
     = (1, tool_history\<lparr>messages := [\<lparr>role = lit ''user'', msg_content =
          [ToolResult (lit ''t1'') (compressed_note 400 (replicate 399 97)) None]\<rparr>,
        user_text (lit ''question''), assistant_text (lit ''answer'')]\<rparr>)"
  by (simp add: compress_older_tool_results_def tool_history_def compression_candidates_def
      pinned_index_def message_candidates_def user_text_def banner_not_prefix_replicate ulen_replicate
      len_utf8_def shorten_a_little_def rewrite_block_def)

lemma compressed_note_inj: "compressed_note l a = compressed_note l b \<longleftrightarrow> a = b"
  by (simp add: compressed_note_def)

lemma compressed_note_not_replicate: "compressed_note l a \<noteq> replicate n 97"
  by (cases n) (simp_all add: compressed_note_def COMPRESSED_RESULT_BANNER_def lit_def)

section \<open>The request\<close>

text \<open>C18: The request that is sent is one a provider accepts, whatever history was cut away. Every
  tool result in it follows a call with its id; every message has at least one block and no
  empty text; and it is the preamble, when there is one, followed by one message per message of
  the context with its role.\<close>

theorem request_is_well_formed:
  "let ms = messages_for_request tm x
   in results_answered {} (request_blocks ms)
    \<and> (\<forall>m \<in> set ms. msg_content m \<noteq> [] \<and> Text [] \<notin> set (msg_content m))
    \<and> map role ms = (if context_preamble tm x = None then [] else [lit ''user'', lit ''assistant'']) @ map role (messages x)"
  unfolding messages_for_request_def Let_def repair_orphan_tool_results_def
proof (intro conjI sanitize_answered repair_messages_answered ballI)
  have "map role (deduplicate_messages x) = map role (messages x)" by (simp add: deduplicate_messages_def)
  then show "map role (sanitize_messages (repair_messages {}
      (case context_preamble tm x of None \<Rightarrow> if summarized_content_hashes x = {} then messages x else deduplicate_messages x
       | Some preamble \<Rightarrow> user_text preamble # assistant_text PREAMBLE_ACK #
           (if summarized_content_hashes x = {} then messages x else deduplicate_messages x))))
    = (if context_preamble tm x = None then [] else [lit ''user'', lit ''assistant'']) @ map role (messages x)"
    unfolding role_sanitize role_repair by (auto simp: user_text_def assistant_text_def split: option.split)
qed (use sanitize_blocks in blast)+

text \<open>A history whose call was cut away and whose last message is empty.\<close>

definition orphaned_context :: agent_context where
  "orphaned_context = (new_context [])\<lparr>messages :=
     [\<lparr>role = lit ''user'', msg_content = [ToolResult (lit ''t1'') (lit ''ok'') None]\<rparr>, user_text []]\<rparr>"

theorem request_is_well_formed_witness:
  "let ms = messages_for_request (\<lambda>_. None) orphaned_context
   in results_answered {} (request_blocks ms) \<and> length ms = 2 \<and> msg_content (ms ! 1) \<noteq> [Text []]"
proof -
  let ?ms = "messages_for_request (\<lambda>_. None) orphaned_context"
  have "context_preamble (\<lambda>_. None) orphaned_context = None"
    by (simp add: orphaned_context_def new_context_def context_preamble_def lossy_context_def
        verified_outcomes_block_def)
  then have r: "results_answered {} (request_blocks ?ms)"
    "\<forall>m \<in> set ?ms. msg_content m \<noteq> [] \<and> Text [] \<notin> set (msg_content m)"
    "map role ?ms = map role (messages orphaned_context)"
    using request_is_well_formed [of "\<lambda>_. None" orphaned_context] by (simp_all add: Let_def)
  from r(3) have "length ?ms = 2" by (auto dest: map_eq_imp_length_eq simp: orphaned_context_def)
  with r(2) have "Text [] \<notin> set (msg_content (?ms ! 1))" by simp
  with r(1) \<open>length ?ms = 2\<close> show ?thesis by (auto simp: Let_def)
qed

section \<open>Where the comments and the code part\<close>

text \<open>C40: When compression is due and the model call fails, \<open>enforce_limits\<close> returns the error
  with the context unchanged, over the hard limit or not. Its comment says that truncation will
  still be attempted.\<close>

theorem failed_compression_skips_truncation:
  assumes "needs_compression tm x" "10 < length (messages x)" "\<And>prompt. llm prompt = Inl e"
  shows "enforce_limits tm llm now x = (Inl e, x)"
  using assms by (simp add: enforce_limits_def compress_def Let_def)

definition long_history :: agent_context where
  "long_history = crowded_context\<lparr>messages := replicate 11 (user_text (replicate 400 233))\<rparr>"

end
