(* ===== verification/Context_Unread.thy ===== *)
theory Context_Unread
  imports Context_Properties
begin

text \<open>
  A concrete summarisation pass: the witness of the replacement property, and the case in which
  a message larger than the summariser's window is retired on a summary of its beginning.
\<close>

section \<open>A small summariser\<close>

definition small_summarizer :: model_info where
  "small_summarizer = (unknown_model_info 0 (lit ''s'') [])\<lparr>context_window := 1040, max_output_tokens := 100\<rparr>"

lemma small_summarizer_chars: "input_chars small_summarizer = 1712"
  by (simp add: input_chars_def small_summarizer_def unknown_model_info_def hard_input_limit_def
      hard_input_limit_for_def saturating_mul_def usize_max_def)

definition book :: anthropic_message where "book = user_text (replicate 5000 97)"

definition book_context :: agent_context where
  "book_context = (new_context [])\<lparr>messages :=
     [book, user_text (lit ''question''), assistant_text (lit ''answer'')], pinned_request := Some 1\<rparr>"

text \<open>Its only answer is to the prompt that holds the first 1712 bytes of the book.\<close>

definition first_pages :: ustring where "first_pages = floor_take 1712 (message_text book)"

definition reader :: summarizer_env where
  "reader = \<lparr>model_limits = (\<lambda>_ _ _. small_summarizer),
     completion = (\<lambda>n spec model prompt k.
       if prompt = summarize_prompt first_pages then Inr [Text (replicate 100 98)] else Inl [])\<rparr>"

definition reader_config :: summarization_config where
  "reader_config = with_clients Inr (new_summarization_config [lit ''s''])"

lemma floor_take_ascii: "list_all is_ascii s \<Longrightarrow> floor_take n s = take n s"
proof (induction s arbitrary: n)
  case (Cons c s)
  then show ?case by (cases n) (simp_all add: is_ascii_def len_utf8_def)
qed simp

lemma ulen_ascii: "list_all is_ascii s \<Longrightarrow> ulen s = length s"
  by (induction s) (simp_all add: is_ascii_def len_utf8_def)

lemma book_text:
  "message_text book = lit ''[user]: '' @ replicate 5000 97 @ NL"
  "list_all is_ascii (message_text book)" "ulen (message_text book) = 5009"
proof -
  show eq: "message_text book = lit ''[user]: '' @ replicate 5000 97 @ NL"
    by (simp add: message_text_def book_def user_text_def tagged_def lit_def)
  show ascii: "list_all is_ascii (message_text book)"
    unfolding eq by (auto simp: list_all_iff is_ascii_def lit_def NL_def)
  show "ulen (message_text book) = 5009"
    unfolding ulen_ascii [OF ascii] by (simp add: eq lit_def NL_def)
qed

lemma first_pages_length: "ulen first_pages = 1712"
proof -
  have "list_all is_ascii first_pages" using book_text(2) prefix_floor_take [of 1712 "message_text book"]
    by (auto simp: first_pages_def list_all_iff dest: set_mono_prefix)
  from ulen_ascii [OF this] show ?thesis
    using book_text(2,3) by (simp add: first_pages_def floor_take_ascii ulen_ascii)
qed

lemma book_extract: "extract_content_for_summarization 20000 book_context = (message_text book, [5009])"
proof -
  have p: "pinned_index book_context = 1" "messages book_context = [book, user_text (lit ''question''), assistant_text (lit ''answer'')]"
    by (simp_all add: book_context_def pinned_index_def)
  have "extract_blocks 20000 (role book) (msg_content book) [] 0 = Going (message_text book) 5000"
    by (simp add: book_def user_text_def message_text_def ulen_replicate len_utf8_def)
  then show ?thesis by (simp add: extract_content_for_summarization_def p book_text(3))
qed

lemma book_chunks: "chunk_at_message_boundaries (message_text book) [5009] 1712 = [(message_text book, 5009)]"
proof -
  have "byte_slice 0 5009 (message_text book) = message_text book"
    using book_text(3) by (simp add: byte_slice_def)
  then show ?thesis by (simp add: chunk_at_message_boundaries_def)
qed

lemma utrim_replicate: "utrim (replicate n 98) = replicate n 98"
proof -
  have "dropWhile is_uwhite (replicate n 98) = replicate n 98" by (cases n) (simp_all add: is_uwhite_def)
  then show ?thesis by (simp add: utrim_def)
qed

lemma book_summary:
  "summarize_content_with_fallback reader reader_config 0 (message_text book) [5009]
     = (Inr (replicate 100 98, 5009), 3)"
proof -
  have "resolve_summarizer reader 0 (lit ''s'') reader_config = (Inr (lit ''s'', 1712), 1)"
    by (simp add: resolve_summarizer_def create_client_for_model_def reader_config_def with_clients_def
        new_summarization_config_def reader_def small_summarizer_chars)
  moreover have "summarize_chunk reader 1 (lit ''s'') (lit ''s'') (message_text book) = (Inr (replicate 100 98), 3)"
    using first_pages_length
    by (simp add: summarize_chunk_def reader_def small_summarizer_chars book_text(3) first_pages_def [symmetric]
        plausible_summary_def utrim_replicate ulen_replicate len_utf8_def saturating_mul_def usize_max_def)
  ultimately show ?thesis
    by (simp add: summarize_content_with_fallback_def reader_config_def with_clients_def
        new_summarization_config_def book_chunks splice_summaries_def)
qed

lemma book_removable: "removable 1 book_context = [0]"
  by (simp add: removable_def book_context_def pinned_index_def)


text \<open>C40: A message larger than the summariser's window is retired although the model read only
  its beginning. Here the only prompt the model answers holds the first 1712 bytes of a message
  of 5009; the pass still counts the whole message as read, removes it from the context and
  reports success. The comment of \<open>apply_pass_summary\<close> says that only messages the
  summariser actually read may be dropped, and that of \<open>chunk_at_message_boundaries\<close>
  that the caller decides whether a partial reading may retire a message: no caller asks.\<close>

theorem oversized_message_retired_unread:
  "\<exists>env config x content consumed n y.
     ulen (message_text (messages x ! 0)) = 5009
     \<and> (\<forall>i spec model prompt k. prompt = summarize_prompt (floor_take 1712 (message_text (messages x ! 0)))
          \<or> completion env i spec model prompt k = Inl [])
     \<and> extract_content_for_summarization 20000 x = (content, [consumed])
     \<and> summarize_content_with_fallback env config 0 content [consumed] = (Inr (replicate 100 98, consumed), n)
     \<and> apply_pass_summary (\<lambda>_. None) (replicate 100 98) consumed [consumed] x = (True, y)
     \<and> messages y = tl (messages x)"
proof -
  have m: "messages book_context = [book, user_text (lit ''question''), assistant_text (lit ''answer'')]"
    by (simp add: book_context_def)
  have answers: "prompt = summarize_prompt (floor_take 1712 (message_text (messages book_context ! 0)))
      \<or> completion reader i spec model prompt k = Inl []" for i spec model prompt k
    by (simp add: reader_def m first_pages_def)
  obtain y where r: "replace_with_summary 1 (replicate 100 98) book_context = (1, y)"
    "messages y = tl (messages book_context)"
    using replace_messages [of book_context 1 "replicate 100 98"] book_removable
    by (intro that [of "snd (replace_with_summary 1 (replicate 100 98) book_context)"])
      (simp_all add: m nths_Cons prod_eq_iff)
  then have "apply_pass_summary (\<lambda>_. None) (replicate 100 98) 5009 [5009] book_context = (True, y)"
    by (simp add: apply_pass_summary_def)
  with r(2) answers book_extract book_summary book_text(3) m show ?thesis
    by (intro exI [of _ reader] exI [of _ reader_config] exI [of _ book_context]
        exI [of _ "message_text book"] exI [of _ 5009] exI [of _ 3] exI [of _ y]) simp
qed

end
