(* ===== verification/Numeric_Float.thy ===== *)
theory Numeric_Float
  imports Numeric
begin

text \<open>
  The conversions of \<open>nanna-numeric/src/lib.rs\<close> that start from the bits of a double
  are the casts of the language: to a single by rounding to nearest, to an integer by truncation.
\<close>

section \<open>Rounding a shift\<close>

lemma round_shift_even_eq:
  assumes "0 < k" "unat v < 2 ^ 53"
  shows "unat (round_shift_even v k) = div_half_even (unat v) (2 ^ k)"
proof (cases "64 \<le> k")
  case True
  then have "(2::nat) ^ 64 \<le> 2 ^ k" by (intro power_increasing) simp_all
  then have "2 * unat v < 2 ^ k" using assms(2) by simp
  then show ?thesis using True by (simp add: round_shift_even_def div_half_even_def)
next
  case False
  define q r where "q = unat v div 2 ^ k" and "r = unat v mod 2 ^ k"
  have half: "unat (push_bit (k - 1) 1 :: 64 word) = 2 ^ (k - 1)" "2 ^ k = 2 * (2::nat) ^ (k - 1)"
    using False assms(1) by (simp_all add: push_bit_eq_mult unat_word_of_nat [of "2 ^ (k - 1)", simplified] power_eq_if)
  have mask: "push_bit k 1 - 1 = (mask k :: 64 word)" by (simp add: mask_eq_decr_exp push_bit_eq_mult)
  have up: "push_bit (k - 1) 1 < v AND (push_bit k 1 - 1) \<longleftrightarrow> 2 ^ k < 2 * r"
    "v AND (push_bit k 1 - 1) = push_bit (k - 1) 1 \<longleftrightarrow> 2 ^ k = 2 * r"
    unfolding mask word_less_nat_alt word_unat_eq_iff unat_and_mask half r_def by auto
  have odd: "drop_bit k v AND 1 = 1 \<longleftrightarrow> odd q"
  proof -
    have "drop_bit k v AND 1 = of_bool (odd (drop_bit k v))" by (simp add: and_one_eq odd_iff_mod_2_eq_one)
    moreover have "odd (drop_bit k v) = bit v k" by (simp add: bit_iff_odd_drop_bit)
    ultimately show ?thesis by (simp add: bit_iff_unat q_def)
  qed
  have "unat (drop_bit k v) = q" by (simp only: unat_shift_right q_def)
  moreover have "q < 2 ^ 53" using assms(2) div_le_dividend [of "unat v" "2 ^ k"] unfolding q_def by linarith
  ultimately have kept: "unat (drop_bit k v + of_bool b) = q + of_bool b" for b
    by (simp add: unat_word_ariths)
  show ?thesis using False kept
    unfolding round_shift_even_def Let_def up odd div_half_even_def q_def [symmetric] r_def [symmetric]
    by auto
qed

section \<open>Double to single is rounding\<close>

definition f32_nearest :: "rat \<Rightarrow> rat" where
  "f32_nearest v =
     (if v = 0 then 0
      else (let u = two_powi (max (binade v - 23) (- 149)) in of_int (round_half_even (v / u)) * u))"

text \<open>The number a pattern of exponent and mantissa stands for, whatever field it carries into.\<close>

definition f32_pattern :: "nat \<Rightarrow> rat" where
  "f32_pattern m =
     (if m div 2 ^ 23 = 0 then of_nat m * two_powi (- 149)
      else of_nat (2 ^ 23 + m mod 2 ^ 23) * two_powi (int (m div 2 ^ 23) - 150))"

lemma f32_pattern_carry:
  assumes "0 < k" "r \<le> 2 ^ 23"
  shows "f32_pattern (k * 2 ^ 23 + r) = of_nat (2 ^ 23 + r) * two_powi (int k - 150)"
proof (cases "r = 2 ^ 23")
  case True
  have "(k * 2 ^ 23 + r) div 2 ^ 23 = k + 1" "(k * 2 ^ 23 + r) mod 2 ^ 23 = 0" using True by simp_all
  moreover have "two_powi (int (k + 1) - 150) = 2 * two_powi (int k - 150)"
    using two_powi_add [of 1 "int k - 150"] two_powi_nat [of 1] by (simp add: algebra_simps)
  ultimately show ?thesis using True by (simp add: f32_pattern_def)
next
  case False
  with assms have "(k * 2 ^ 23 + r) div 2 ^ 23 = k" "(k * 2 ^ 23 + r) mod 2 ^ 23 = r" by simp_all
  then show ?thesis using assms(1) by (simp add: f32_pattern_def)
qed

lemma f32_pattern_subnormal:
  assumes "r \<le> 2 ^ 23"
  shows "f32_pattern r = of_nat r * two_powi (- 149)"
proof (cases "r = 2 ^ 23")
  case True
  then show ?thesis by (simp add: f32_pattern_def)
next
  case False
  with assms show ?thesis by (simp add: f32_pattern_def)
qed

lemma double_fields:
  "f64_exponent b = unat b div 2 ^ 52 mod 2 ^ 11" "f64_mantissa b = unat b mod 2 ^ 52"
  "f64_exponent b < 2048" "f64_mantissa b < 2 ^ 52"
proof -
  have "(0x7FF :: 64 word) = mask 11" by (simp add: mask_eq_exp_minus_1)
  then show "f64_exponent b = unat b div 2 ^ 52 mod 2 ^ 11"
    unfolding f64_exponent_def by (simp only: unat_and_mask unat_shift_right)
  then show "f64_exponent b < 2048" by simp
  show m: "f64_mantissa b = unat b mod 2 ^ 52" by (simp add: f64_mantissa_def unat_and_mask)
  show "f64_mantissa b < 2 ^ 52" unfolding m by (rule mod_less_divisor) simp
qed

lemma f64_binade:
  assumes "f64_exponent b \<noteq> 0"
  shows "binade (f64_magnitude b) = int (f64_exponent b) - 1023"
proof (rule binade_unique)
  let ?e = "int (f64_exponent b)"
  have m: "f64_magnitude b = of_nat (2 ^ 52 + f64_mantissa b) * two_powi (?e - 1075)"
    using assms by (simp add: f64_magnitude_def)
  have lo: "two_powi (?e - 1023) = of_nat (2 ^ 52) * two_powi (?e - 1075)"
    using two_powi_add [of 52 "?e - 1075"] two_powi_nat [of 52] by (simp add: algebra_simps)
  have hi: "two_powi (?e - 1023 + 1) = of_nat (2 ^ 53) * two_powi (?e - 1075)"
    using two_powi_add [of 53 "?e - 1075"] two_powi_nat [of 53] by (simp add: algebra_simps)
  show "two_powi (?e - 1023) \<le> f64_magnitude b"
    unfolding m lo by (intro mult_right_mono) (simp_all only: of_nat_le_iff, simp_all)
  show "f64_magnitude b < two_powi (?e - 1023 + 1)"
    unfolding m hi using double_fields(4) [of b]
    by (intro mult_strict_right_mono) (simp_all only: of_nat_less_iff, simp_all)
qed

lemma two_powi_quotient:
  assumes "j = i + int k"
  shows "of_nat a * two_powi i / two_powi j = of_nat a / of_nat (2 ^ k)"
proof -
  have "two_powi j = two_powi i * of_nat (2 ^ k)"
    unfolding assms two_powi_add two_powi_nat by simp
  then show ?thesis by simp
qed

lemma f64_magnitude_pos: "f64_exponent b \<noteq> 0 \<Longrightarrow> 0 < f64_magnitude b"
  unfolding f64_magnitude_def by (simp add: add_pos_nonneg)

lemma f32_nearest_normal:
  assumes "897 \<le> f64_exponent b"
  shows "f32_nearest (f64_magnitude b)
    = of_nat (2 ^ 23 + div_half_even (f64_mantissa b) (2 ^ 29)) * two_powi (int (f64_exponent b) - 1046)"
proof -
  let ?e = "int (f64_exponent b)"
  have e: "f64_exponent b \<noteq> 0" using assms by simp
  have u: "max (binade (f64_magnitude b) - 23) (- 149) = ?e - 1046"
    unfolding f64_binade [OF e] using assms by simp
  have "f64_magnitude b / two_powi (?e - 1046) = of_nat (2 ^ 52 + f64_mantissa b) / of_nat (2 ^ 29)"
    using e by (simp only: f64_magnitude_def if_False) (rule two_powi_quotient, simp)
  also have "2 ^ 52 + f64_mantissa b = 2 ^ 23 * 2 ^ 29 + f64_mantissa b" by simp
  finally have eq: "f64_magnitude b / two_powi (?e - 1046)
      = of_nat (2 ^ 23 * 2 ^ 29 + f64_mantissa b) / of_nat (2 ^ 29)" .
  have "div_half_even (2 ^ 23 * 2 ^ 29 + f64_mantissa b) (2 ^ 29) = 2 ^ 23 + div_half_even (f64_mantissa b) (2 ^ 29)"
    by (rule div_half_even_shift) simp_all
  then have "round_half_even (f64_magnitude b / two_powi (?e - 1046))
      = int (2 ^ 23 + div_half_even (f64_mantissa b) (2 ^ 29))"
    unfolding eq by (simp only: round_half_even_div zero_less_power zero_less_numeral)
  then show ?thesis using f64_magnitude_pos [OF e]
    by (simp only: f32_nearest_def u Let_def of_int_of_nat_eq) simp
qed

lemma f32_nearest_subnormal:
  assumes "0 < f64_exponent b" "f64_exponent b \<le> 896"
  shows "f32_nearest (f64_magnitude b)
    = of_nat (div_half_even (2 ^ 52 + f64_mantissa b) (2 ^ (926 - f64_exponent b))) * two_powi (- 149)"
proof -
  let ?e = "int (f64_exponent b)"
  have e: "f64_exponent b \<noteq> 0" using assms by simp
  have u: "max (binade (f64_magnitude b) - 23) (- 149) = - 149"
    unfolding f64_binade [OF e] using assms by simp
  have "f64_magnitude b / two_powi (- 149)
      = of_nat (2 ^ 52 + f64_mantissa b) / of_nat (2 ^ (926 - f64_exponent b))"
    using e assms by (simp only: f64_magnitude_def if_False) (rule two_powi_quotient, simp)
  then have "round_half_even (f64_magnitude b / two_powi (- 149))
      = int (div_half_even (2 ^ 52 + f64_mantissa b) (2 ^ (926 - f64_exponent b)))"
    by (simp only: round_half_even_div zero_less_power zero_less_numeral)
  then show ?thesis using f64_magnitude_pos [OF e]
    by (simp only: f32_nearest_def u Let_def of_int_of_nat_eq) simp
qed

lemma f32_nearest_tiny:
  assumes "f64_exponent b = 0"
  shows "f32_nearest (f64_magnitude b) = 0"
proof (cases "f64_mantissa b = 0")
  case True
  then show ?thesis using assms by (simp add: f64_magnitude_def f32_nearest_def)
next
  case False
  have pos: "0 < f64_magnitude b" using False assms by (simp add: f64_magnitude_def)
  have m: "f64_magnitude b = of_nat (f64_mantissa b) * two_powi (- 1074)"
    using assms by (simp add: f64_magnitude_def)
  have "f64_magnitude b < of_nat (2 ^ 52) * two_powi (- 1074)"
    unfolding m using double_fields(4) [of b]
    by (intro mult_strict_right_mono) (simp_all only: of_nat_less_iff, simp_all)
  also have "\<dots> = two_powi (- 1022)" using two_powi_add [of 52 "- 1074"] two_powi_nat [of 52] by simp
  finally have "two_powi (binade (f64_magnitude b)) < two_powi (- 1022)"
    using binade_bounds(1) [OF pos] by linarith
  then have "binade (f64_magnitude b) < - 1022" by (rule two_powi_less_imp)
  then have u: "max (binade (f64_magnitude b) - 23) (- 149) = - 149" by simp
  have q: "f64_magnitude b / two_powi (- 149) = of_nat (f64_mantissa b) / of_nat (2 ^ 925)"
    unfolding m by (rule two_powi_quotient) simp
  have "2 * f64_mantissa b < 2 ^ 925"
  proof -
    have "2 * f64_mantissa b < 2 ^ 53" using double_fields(4) [of b] by simp
    also have "(2 :: nat) ^ 53 \<le> 2 ^ 925" by (rule power_increasing) simp_all
    finally show ?thesis .
  qed
  then have "div_half_even (f64_mantissa b) (2 ^ 925) = 0" by (simp add: div_half_even_def del: power_numeral)
  then have "round_half_even (f64_magnitude b / two_powi (- 149)) = 0"
    unfolding q by (simp only: round_half_even_div zero_less_power zero_less_numeral of_nat_0)
  then show ?thesis by (simp only: f32_nearest_def u Let_def of_int_0) simp
qed

lemma sign_and_magnitude:
  assumes "unat mag < 2 ^ 31"
  shows "f32_negative (low_u32 ((drop_bit 32 x AND 0x80000000) OR mag)) = f64_negative x"
    "f32_exponent (low_u32 ((drop_bit 32 x AND 0x80000000) OR mag)) = unat mag div 2 ^ 23"
    "f32_mantissa (low_u32 ((drop_bit 32 x AND 0x80000000) OR mag)) = unat mag mod 2 ^ 23"
proof -
  let ?w = "(drop_bit 32 x AND 0x80000000) OR mag" and ?r = "low_u32 ((drop_bit 32 x AND 0x80000000) OR mag)"
  have "(0x80000000 :: 64 word) = push_bit 31 1" by simp
  then have sign: "bit (0x80000000 :: 64 word) i \<longleftrightarrow> i = 31" for i
    by (simp only: bit_push_bit_iff bit_1_iff) auto
  have mag: "i < 31" if "bit mag i" for i
  proof (rule ccontr)
    assume "\<not> i < 31"
    then have "(2 :: nat) ^ 31 \<le> 2 ^ i" by (intro power_increasing) simp_all
    then show False using that assms by (simp add: bit_iff_unat)
  qed
  have low: "bit ?r i \<longleftrightarrow> i < 32 \<and> (i = 31 \<and> bit x 63 \<or> bit mag i)" for i
    unfolding low_u32_def halves_u64_eq snd_conv bit_ucast_iff bit_or_iff bit_and_iff sign bit_drop_bit_eq
    by auto
  show "f32_negative ?r = f64_negative x" using mag [of 31] by (auto simp add: f32_negative_def f64_negative_def low)
  have "?r AND mask 31 = ucast mag"
    by (rule bit_word_eqI) (auto simp: bit_and_iff bit_mask_iff bit_ucast_iff low dest: mag)
  then have "unat ?r mod 2 ^ 31 = unat mag"
    using unat_and_mask [of ?r 31] assms by (simp add: unat_ucast_mod)
  moreover have "unat ?r mod (2 ^ 23 * 2 ^ 8) = 2 ^ 23 * (unat ?r div 2 ^ 23 mod 2 ^ 8) + unat ?r mod 2 ^ 23"
    by (rule mod_mult2_eq)
  ultimately have "unat mag = 2 ^ 23 * f32_exponent ?r + f32_mantissa ?r"
    unfolding f32_fields by simp
  moreover have "f32_mantissa ?r < 2 ^ 23" unfolding f32_fields by simp
  ultimately show "f32_exponent ?r = unat mag div 2 ^ 23" "f32_mantissa ?r = unat mag mod 2 ^ 23"
    by simp_all
qed

text \<open>What the magnitude computed from the fields must be: the pattern of the nearest value, or
  that of the infinity from \<open>2 ^ 128\<close> on.\<close>

definition single_pattern :: "rat \<Rightarrow> nat \<Rightarrow> bool" where
  "single_pattern q m = (m < 2 ^ 31 \<and> (if q < 2 ^ 128 then m div 2 ^ 23 < 255 \<and> f32_pattern m = q else m = 255 * 2 ^ 23))"

lemma single_pattern_normal:
  assumes "897 \<le> f64_exponent b" "f64_exponent b \<le> 1150"
  shows "single_pattern (f32_nearest (f64_magnitude b))
    ((f64_exponent b - 896) * 2 ^ 23 + div_half_even (f64_mantissa b) (2 ^ 29))"
proof -
  define k r where "k = f64_exponent b - 896" and "r = div_half_even (f64_mantissa b) (2 ^ 29)"
  have "f64_mantissa b < 2 ^ 23 * 2 ^ 29" using double_fields(4) [of b] by simp
  then have r: "r \<le> 2 ^ 23" unfolding r_def by (rule div_half_even_le)
  have k: "0 < k" "k \<le> 254" "int (f64_exponent b) - 1046 = int k - 150" using assms by (simp_all add: k_def)
  have q: "f32_nearest (f64_magnitude b) = of_nat (2 ^ 23 + r) * two_powi (int k - 150)"
    using f32_nearest_normal [OF assms(1)] by (simp add: r_def k(3))
  have top: "two_powi (254 - 150) = 2 ^ 104" using two_powi_nat [of 104] by simp
  have "single_pattern (f32_nearest (f64_magnitude b)) (k * 2 ^ 23 + r)"
  proof (cases "k = 254 \<and> r = 2 ^ 23")
    case True
    have "(2 ^ 128 :: rat) = of_nat (2 ^ 23 + 2 ^ 23) * 2 ^ 104" by simp
    then show ?thesis using True q top by (simp add: single_pattern_def)
  next
    case False
    have "f32_nearest (f64_magnitude b) < 2 ^ 128"
    proof (cases "k = 254")
      case True
      with False r have "2 ^ 23 + r < 2 ^ 24" by simp
      then have "of_nat (2 ^ 23 + r) < (of_nat (2 ^ 24) :: rat)" by (simp only: of_nat_less_iff)
      then have "of_nat (2 ^ 23 + r) * 2 ^ 104 < (of_nat (2 ^ 24) * 2 ^ 104 :: rat)" by (rule mult_strict_right_mono) simp
      then show ?thesis using True q top by simp
    next
      case False
      with k have "two_powi (int k - 150) \<le> two_powi 103" by (intro two_powi_mono) simp
      moreover have "two_powi 103 = 2 ^ 103" using two_powi_nat [of 103] by simp
      moreover have "of_nat (2 ^ 23 + r) \<le> (of_nat (2 ^ 24) :: rat)" using r unfolding of_nat_le_iff by simp
      ultimately have "of_nat (2 ^ 23 + r) * two_powi (int k - 150) \<le> of_nat (2 ^ 24) * 2 ^ 103"
        by (intro mult_mono) simp_all
      then show ?thesis using q by simp
    qed
    moreover have "k * 2 ^ 23 + r < 255 * 2 ^ 23" using False k(2) r by (cases "k = 254") simp_all
    then have "(k * 2 ^ 23 + r) div 2 ^ 23 < 255" by (rule less_mult_imp_div_less)
    moreover have "k * 2 ^ 23 + r < 2 ^ 31" using k(2) r by simp
    ultimately show ?thesis using f32_pattern_carry [OF k(1) r] q
      by (simp add: single_pattern_def)
  qed
  then show ?thesis by (simp only: k_def r_def)
qed

lemma single_pattern_overflow:
  assumes "1151 \<le> f64_exponent b"
  shows "single_pattern (f32_nearest (f64_magnitude b)) (255 * 2 ^ 23)"
proof -
  have "two_powi 105 \<le> two_powi (int (f64_exponent b) - 1046)" using assms by (intro two_powi_mono) simp
  moreover have "two_powi 105 = 2 ^ 105" using two_powi_nat [of 105] by simp
  moreover have "(of_nat (2 ^ 23) :: rat) \<le> of_nat (2 ^ 23 + div_half_even (f64_mantissa b) (2 ^ 29))"
    unfolding of_nat_le_iff by simp
  ultimately have "of_nat (2 ^ 23) * 2 ^ 105
      \<le> of_nat (2 ^ 23 + div_half_even (f64_mantissa b) (2 ^ 29)) * two_powi (int (f64_exponent b) - 1046)"
    by (intro mult_mono) simp_all
  also have "\<dots> = f32_nearest (f64_magnitude b)" using assms by (intro f32_nearest_normal [symmetric]) simp
  finally show ?thesis by (simp add: single_pattern_def)
qed

lemma single_pattern_small:
  assumes "m \<le> 2 ^ 23" "q = of_nat m * two_powi (- 149)"
  shows "single_pattern q m"
proof -
  have "(of_nat m :: rat) \<le> of_nat (2 ^ 23)" unfolding of_nat_le_iff by (rule assms(1))
  moreover have "two_powi (- 149) \<le> 1" using two_powi_mono [of "- 149" 0] two_powi_nat [of 0] by simp
  ultimately have "q \<le> of_nat (2 ^ 23) * 1" unfolding assms(2) by (intro mult_mono) simp_all
  moreover have "m div 2 ^ 23 < 255" "m < 2 ^ 31" using assms(1) by (simp_all add: less_mult_imp_div_less)
  ultimately show ?thesis using f32_pattern_subnormal [OF assms(1)] assms(2)
    by (simp add: single_pattern_def)
qed

lemma word_fields:
  "unat (drop_bit 52 b AND EXPONENT_MASK) = f64_exponent b" "unat (b AND MANTISSA_MASK) = f64_mantissa b"
  "unat ((b AND MANTISSA_MASK) OR push_bit 52 1) = 2 ^ 52 + f64_mantissa b"
proof -
  have mask: "MANTISSA_MASK = mask 52" by (simp add: MANTISSA_MASK_def mask_eq_decr_exp push_bit_eq_mult)
  show "unat (drop_bit 52 b AND EXPONENT_MASK) = f64_exponent b"
    by (simp only: f64_exponent_def EXPONENT_MASK_def)
  show m: "unat (b AND MANTISSA_MASK) = f64_mantissa b" by (simp only: f64_mantissa_def mask)
  have "(b AND MANTISSA_MASK) OR push_bit 52 1 = (b AND MANTISSA_MASK) + push_bit 52 1"
    unfolding mask
    by (rule disjunctive_add [symmetric]) (unfold bit_and_iff bit_mask_iff bit_push_bit_iff bit_1_iff, simp)
  moreover have "unat (push_bit 52 1 :: 64 word) = 2 ^ 52" by simp
  ultimately show "unat ((b AND MANTISSA_MASK) OR push_bit 52 1) = 2 ^ 52 + f64_mantissa b"
    using m double_fields(4) [of b] by (simp add: unat_word_ariths)
qed

lemma f32_from_f64_pattern:
  assumes "f64_finite b"
  obtains mag where "f32_from_f64 b = low_u32 ((drop_bit 32 b AND 0x80000000) OR mag)"
    "single_pattern (f32_nearest (f64_magnitude b)) (unat mag)"
proof -
  let ?e = "f64_exponent b" and ?E = "drop_bit 52 b AND EXPONENT_MASK" and ?m = "b AND MANTISSA_MASK"
  have finite: "?E \<noteq> EXPONENT_MASK"
    using assms word_fields(1) [of b] by (auto simp: f64_finite_def EXPONENT_MASK_def)
  have cmp: "MAX_NORMAL < ?E \<longleftrightarrow> 1150 < ?e" "MIN_NORMAL \<le> ?E \<longleftrightarrow> 897 \<le> ?e" "?E = 0 \<longleftrightarrow> ?e = 0"
    unfolding word_less_nat_alt word_le_nat_alt unat_eq_0 [symmetric] word_fields
    by (simp_all add: MAX_NORMAL_def MIN_NORMAL_def)
  define mag where "mag = (if MAX_NORMAL < ?E then F32_INFINITY
     else if MIN_NORMAL \<le> ?E then push_bit 23 (?E - REBIAS) + round_shift_even ?m 29
     else if ?E = 0 then 0 else round_shift_even (?m OR push_bit 52 1) (unat (SUBNORMAL_ORIGIN - ?E)))"
  have "f32_from_f64 b = low_u32 ((drop_bit 32 b AND 0x80000000) OR mag)"
    unfolding f32_from_f64_def Let_def mag_def using finite by simp
  moreover have "single_pattern (f32_nearest (f64_magnitude b)) (unat mag)"
  proof (cases "1150 < ?e")
    case True
    then have "unat mag = 255 * 2 ^ 23" by (simp add: mag_def cmp F32_INFINITY_def)
    with True show ?thesis using single_pattern_overflow by simp
  next
    case over: False
    show ?thesis
    proof (cases "897 \<le> ?e")
      case True
      have "REBIAS \<le> ?E" unfolding word_le_nat_alt word_fields using True by (simp add: REBIAS_def)
      then have "unat (?E - REBIAS) = ?e - 896" using word_fields(1) [of b] by (simp add: unat_sub REBIAS_def)
      then have k: "unat (push_bit 23 (?E - REBIAS)) = (?e - 896) * 2 ^ 23"
        using over by (subst unat_shift_left) simp_all
      have "unat ?m < 2 ^ 53" using double_fields(4) [of b] by (simp add: word_fields)
      then have r: "unat (round_shift_even ?m 29) = div_half_even (f64_mantissa b) (2 ^ 29)"
        using round_shift_even_eq [of 29 ?m] by (simp add: word_fields)
      have pattern: "single_pattern (f32_nearest (f64_magnitude b))
          ((?e - 896) * 2 ^ 23 + div_half_even (f64_mantissa b) (2 ^ 29))"
        using True over by (intro single_pattern_normal) simp_all
      then have "(?e - 896) * 2 ^ 23 + div_half_even (f64_mantissa b) (2 ^ 29) < 2 ^ 31"
        by (simp add: single_pattern_def)
      then have "unat mag = (?e - 896) * 2 ^ 23 + div_half_even (f64_mantissa b) (2 ^ 29)"
        using True over k r by (simp add: mag_def cmp unat_word_ariths)
      with pattern show ?thesis by simp
    next
      case False
      show ?thesis
      proof (cases "?e = 0")
        case True
        then have "unat mag = 0" by (simp add: mag_def cmp)
        with True show ?thesis using single_pattern_small [of 0 0] by (simp add: f32_nearest_tiny)
      next
        case nz: False
        have "?E \<le> SUBNORMAL_ORIGIN"
          unfolding word_le_nat_alt word_fields using False by (simp add: SUBNORMAL_ORIGIN_def)
        then have shift: "unat (SUBNORMAL_ORIGIN - ?E) = 926 - ?e"
          using word_fields(1) [of b] by (simp add: unat_sub SUBNORMAL_ORIGIN_def)
        have full: "unat (?m OR push_bit 52 1) < 2 ^ 53"
          using double_fields(4) [of b] unfolding word_fields by simp
        have "0 < 926 - ?e" using False by simp
        note r = round_shift_even_eq [OF this full, unfolded word_fields]
        have "unat mag = div_half_even (2 ^ 52 + f64_mantissa b) (2 ^ (926 - ?e))"
          using False nz over unfolding mag_def cmp shift r [symmetric] by simp
        moreover have "div_half_even (2 ^ 52 + f64_mantissa b) (2 ^ (926 - ?e)) \<le> 2 ^ 23"
        proof (rule div_half_even_le)
          have "(2 :: nat) ^ 53 \<le> 2 ^ (23 + (926 - ?e))" using False by (intro power_increasing) simp_all
          then show "2 ^ 52 + f64_mantissa b < 2 ^ 23 * 2 ^ (926 - ?e)"
            using double_fields(4) [of b] by (simp add: power_add)
        qed
        ultimately show ?thesis using f32_nearest_subnormal [of b] False nz
          by (intro single_pattern_small) simp_all
      qed
    qed
  qed
  ultimately show ?thesis by (rule that)
qed

lemma f32_from_f64_special:
  assumes "\<not> f64_finite b"
  shows "f32_from_f64 b = low_u32 ((drop_bit 32 b AND 0x80000000) OR
     (if f64_mantissa b = 0 then F32_INFINITY else F32_QUIET_NAN))"
proof -
  have "drop_bit 52 b AND EXPONENT_MASK = EXPONENT_MASK"
    using assms word_fields(1) [of b] by (simp add: f64_finite_def EXPONENT_MASK_def word_unat_eq_iff)
  moreover have "b AND MANTISSA_MASK = 0 \<longleftrightarrow> f64_mantissa b = 0"
    by (simp only: unat_eq_0 [symmetric] word_fields)
  ultimately show ?thesis unfolding f32_from_f64_def Let_def by simp
qed

text \<open>C37: The conversion of a double to a single is the language's cast on every input: a finite
  number becomes the nearest single, ties to even, subnormals and the carry into the next
  exponent included; from halfway past the largest single on it becomes the infinity; NaN stays
  NaN, an infinity an infinity; and the sign is kept, on zeros and NaN too.\<close>

theorem f32_from_f64_rounds:
  "let r = f32_from_f64 b; q = f32_nearest (f64_magnitude b)
   in f32_negative r = f64_negative b
    \<and> (if f64_finite b \<and> q < 2 ^ 128 then f32_exponent r < 255 \<and> f32_magnitude r = q
       else f32_exponent r = 255 \<and> (f32_mantissa r = 0) = (\<not> f64_is_nan b))"
proof (cases "f64_finite b")
  case True
  then obtain mag where m: "f32_from_f64 b = low_u32 ((drop_bit 32 b AND 0x80000000) OR mag)"
    "single_pattern (f32_nearest (f64_magnitude b)) (unat mag)" by (rule f32_from_f64_pattern)
  then have "unat mag < 2 ^ 31" by (simp add: single_pattern_def)
  note f = sign_and_magnitude [OF this, of b, folded m(1)]
  have "f32_magnitude (f32_from_f64 b) = f32_pattern (unat mag)"
    using f by (auto simp: f32_magnitude_def f32_pattern_def div_eq_0_iff)
  moreover have "\<not> f64_is_nan b" using True by (simp add: f64_is_nan_def f64_finite_def)
  ultimately show ?thesis using m(2) f True by (auto simp: Let_def single_pattern_def)
next
  case False
  let ?m = "if f64_mantissa b = 0 then F32_INFINITY else F32_QUIET_NAN"
  have u: "unat F32_INFINITY = 255 * 2 ^ 23" "unat F32_QUIET_NAN = 255 * 2 ^ 23 + 2 ^ 22"
    by (simp_all add: F32_INFINITY_def F32_QUIET_NAN_def)
  then have "unat ?m < 2 ^ 31" by simp
  note f = sign_and_magnitude [OF this, of b, folded f32_from_f64_special [OF False]]
  have "f64_is_nan b = (f64_mantissa b \<noteq> 0)"
    using False by (simp add: f64_is_nan_def f64_finite_def)
  then show ?thesis using f False u by (simp add: Let_def)
qed

section \<open>Float to integer is truncation\<close>

lemma f64_magnitude_nonneg: "0 \<le> f64_magnitude b"
  by (simp add: f64_magnitude_def)

lemma u64_from_f64_middle:
  assumes "f64_finite x" "1 \<le> f64_number x" "f64_number x < 2 ^ 64"
  shows "unat (u64_from_f64 x) = nat \<lfloor>f64_number x\<rfloor>"
proof -
  define e where "e = f64_exponent x - 1023"
  have nan: "\<not> f64_is_nan x" using assms(1) by (simp add: f64_is_nan_def f64_finite_def)
  have pos: "f64_number x = f64_magnitude x" "1 \<le> f64_magnitude x"
    using assms(2) f64_magnitude_nonneg [of x] by (auto simp: f64_number_def split: if_splits)
  have nz: "f64_exponent x \<noteq> 0"
  proof
    assume z: "f64_exponent x = 0"
    have "(of_nat (f64_mantissa x) :: rat) \<le> of_nat (2 ^ 52)"
      unfolding of_nat_le_iff using double_fields(4) [of x] by simp
    moreover have "two_powi (- 1074) \<le> two_powi (- 53)" by (intro two_powi_mono) simp
    moreover have "f64_magnitude x = of_nat (f64_mantissa x) * two_powi (- 1074)"
      using z by (simp add: f64_magnitude_def)
    ultimately have "f64_magnitude x \<le> of_nat (2 ^ 52) * two_powi (- 53)"
      by (simp only:) (intro mult_mono, simp_all)
    with pos(2) show False by (simp add: two_powi_def)
  qed
  have b: "binade (f64_magnitude x) = int (f64_exponent x) - 1023" by (rule f64_binade [OF nz])
  have "0 < f64_magnitude x" using pos(2) by linarith
  note bb = binade_bounds [OF this]
  have "two_powi 0 < two_powi (binade (f64_magnitude x) + 1)"
    using bb(2) pos(2) two_powi_nat [of 0] by simp
  moreover have "two_powi (binade (f64_magnitude x)) < two_powi 64"
    using bb(1) assms(3) pos(1) two_powi_nat [of 64] by simp
  ultimately have e: "f64_exponent x = e + 1023" "e < 64"
    using b by (auto dest!: two_powi_less_imp simp: e_def)
  have F: "unat ((x AND MANTISSA_MASK) OR push_bit 52 1) = 2 ^ 52 + f64_mantissa x" by (rule word_fields)
  have exponent: "unat ((drop_bit 52 x AND 0x7FF) - 1023) = e"
  proof -
    have "unat (drop_bit 52 x AND 0x7FF) = e + 1023" using word_fields(1) [of x] e by (simp add: EXPONENT_MASK_def)
    then show ?thesis by (simp add: unat_sub word_le_nat_alt)
  qed
  have unfold: "u64_from_f64 x = (if 52 \<le> e then push_bit (e - 52) ((x AND MANTISSA_MASK) OR push_bit 52 1)
      else drop_bit (52 - e) ((x AND MANTISSA_MASK) OR push_bit 52 1))"
    unfolding u64_from_f64_def Let_def exponent using nan assms
    by (simp add: f64_less_def f64_at_least_def)
  have mag: "f64_magnitude x = of_nat (2 ^ 52 + f64_mantissa x) * two_powi (int e - 52)"
    using nz e by (simp add: f64_magnitude_def)
  show ?thesis
  proof (cases "52 \<le> e")
    case True
    then have "int e - 52 = int (e - 52)" by simp
    then have v: "f64_magnitude x = of_nat ((2 ^ 52 + f64_mantissa x) * 2 ^ (e - 52))"
      unfolding mag by (simp only: two_powi_nat of_nat_mult of_nat_power of_nat_numeral)
    have "of_nat ((2 ^ 52 + f64_mantissa x) * 2 ^ (e - 52)) < (of_nat (2 ^ 64) :: rat)"
      using assms(3) pos(1) v by simp
    then have "(2 ^ 52 + f64_mantissa x) * 2 ^ (e - 52) < 2 ^ 64" by (simp only: of_nat_less_iff)
    then have "unat (u64_from_f64 x) = (2 ^ 52 + f64_mantissa x) * 2 ^ (e - 52)"
      unfolding unfold using True F by (simp only: if_True) (subst unat_shift_left, simp_all)
    then show ?thesis unfolding pos(1) v by (simp only: floor_of_nat nat_int)
  next
    case False
    then have "f64_magnitude x = of_nat (2 ^ 52 + f64_mantissa x) / of_nat (2 ^ (52 - e))"
      unfolding mag using two_powi_quotient [of 0 "int e - 52" "52 - e" "2 ^ 52 + f64_mantissa x"] two_powi_nat [of 0]
      by simp
    then have "\<lfloor>f64_magnitude x\<rfloor> = int ((2 ^ 52 + f64_mantissa x) div 2 ^ (52 - e))"
      by (simp only: floor_divide_of_nat_eq)
    then show ?thesis unfolding unfold pos(1) using False F by (simp only: if_False unat_shift_right nat_int)
  qed
qed

lemma unat_ones: "unat (- 1 :: 64 word) = 18446744073709551615"
  by (simp add: unsigned_minus_1_eq_mask mask_eq_exp_minus_1)

lemma u64_from_f64_eq:
  "unat (u64_from_f64 x) =
     (if f64_is_nan x then 0
      else if f64_finite x then min (nat \<lfloor>f64_number x\<rfloor>) (2 ^ 64 - 1)
      else if f64_negative x then 0 else 2 ^ 64 - 1)"
proof (cases "f64_finite x")
  case True
  then have nan: "\<not> f64_is_nan x" by (simp add: f64_is_nan_def f64_finite_def)
  consider "f64_number x < 1" | "1 \<le> f64_number x" "f64_number x < 2 ^ 64" | "2 ^ 64 \<le> f64_number x" by linarith
  then show ?thesis
  proof cases
    case 1
    then have "\<lfloor>f64_number x\<rfloor> \<le> 0" by (simp add: floor_le_iff)
    then show ?thesis using 1 True nan by (simp add: u64_from_f64_def f64_less_def)
  next
    case 2
    then have "\<lfloor>f64_number x\<rfloor> \<le> 2 ^ 64 - 1" by (simp add: floor_le_iff)
    then have "nat \<lfloor>f64_number x\<rfloor> \<le> 2 ^ 64 - 1" unfolding nat_le_iff by simp
    then show ?thesis using u64_from_f64_middle [OF True 2] True nan by (simp only: if_True if_False min_absorb1)
  next
    case 3
    then have "2 ^ 64 \<le> \<lfloor>f64_number x\<rfloor>" by (simp add: le_floor_iff)
    moreover have "u64_from_f64 x = - 1"
      using 3 True nan by (simp add: u64_from_f64_def f64_less_def f64_at_least_def)
    ultimately have "nat \<lfloor>f64_number x\<rfloor> \<ge> 2 ^ 64" "unat (u64_from_f64 x) = 2 ^ 64 - 1"
      by (simp_all add: unat_ones le_nat_iff)
    then show ?thesis using True nan by simp
  qed
next
  case False
  then show ?thesis by (simp add: u64_from_f64_def f64_less_def f64_at_least_def unat_ones)
qed

definition truncated :: "rat \<Rightarrow> int" where
  "truncated v = (if v < 0 then \<lceil>v\<rceil> else \<lfloor>v\<rfloor>)"

lemma f64_negate:
  "f64_is_nan (x XOR push_bit 63 1) = f64_is_nan x" "f64_finite (x XOR push_bit 63 1) = f64_finite x"
  "f64_negative (x XOR push_bit 63 1) = (\<not> f64_negative x)"
  "f64_number (x XOR push_bit 63 1) = - f64_number x"
proof -
  have e: "drop_bit 52 (x XOR push_bit 63 1) AND 0x7FF = drop_bit 52 x AND 0x7FF"
  proof -
    have "(0x7FF :: 64 word) = mask 11" by (simp add: mask_eq_exp_minus_1)
    then show ?thesis
      by (simp only:) (rule bit_word_eqI, unfold bit_and_iff bit_mask_iff bit_drop_bit_eq comp_def bit_xor_iff
          bit_push_bit_iff bit_1_iff, auto)
  qed
  have m: "(x XOR push_bit 63 1) AND mask 52 = x AND mask 52"
    by (rule bit_word_eqI) (unfold bit_and_iff bit_mask_iff bit_xor_iff bit_push_bit_iff bit_1_iff, auto)
  have f: "f64_exponent (x XOR push_bit 63 1) = f64_exponent x" "f64_mantissa (x XOR push_bit 63 1) = f64_mantissa x"
    by (simp_all only: f64_exponent_def f64_mantissa_def e m)
  show n: "f64_negative (x XOR push_bit 63 1) = (\<not> f64_negative x)"
    unfolding f64_negative_def bit_xor_iff bit_push_bit_iff bit_1_iff by simp
  show "f64_is_nan (x XOR push_bit 63 1) = f64_is_nan x" "f64_finite (x XOR push_bit 63 1) = f64_finite x"
    by (simp_all only: f64_is_nan_def f64_finite_def f)
  show "f64_number (x XOR push_bit 63 1) = - f64_number x"
    unfolding f64_number_def n f64_magnitude_def f by simp
qed

lemma sint_small:
  fixes w :: "64 word"
  assumes "unat w < 2 ^ 63"
  shows "sint w = int (unat w)" "sint (- w) = - int (unat w)"
proof -
  have sint_int: "sint (word_of_int k :: 64 word) = k" if "- (2 ^ 63) \<le> k" "k < 2 ^ 63" for k
    using that by (simp add: signed_of_int signed_take_bit_int_eq_self)
  define k where "k = unat w"
  have w: "w = word_of_int (int k)" "- w = word_of_int (- int k)" by (simp_all add: k_def)
  have "k < 2 ^ 63" using assms by (simp only: k_def)
  then have "sint (word_of_int (int k) :: 64 word) = int k" "sint (word_of_int (- int k) :: 64 word) = - int k"
    by (intro sint_int; simp)+
  then show "sint w = int (unat w)" "sint (- w) = - int (unat w)" using w k_def by metis+
qed

lemma i64_bounds:
  "sint (push_bit 63 1 :: 64 word) = - (2 ^ 63)" "sint (push_bit 63 1 - 1 :: 64 word) = 2 ^ 63 - 1"
  by simp_all

lemma i64_cases:
  "f64_less x 0 \<Longrightarrow> i64_from_f64 x =
     (if unat (u64_from_f64 (x XOR push_bit 63 1)) < 2 ^ 63 then - u64_from_f64 (x XOR push_bit 63 1)
      else push_bit 63 1)"
  "\<not> f64_less x 0 \<Longrightarrow> i64_from_f64 x =
     (if unat (u64_from_f64 x) < 2 ^ 63 then u64_from_f64 x else push_bit 63 1 - 1)"
  by (simp only: i64_from_f64_def i64_try_from_def if_True if_False, simp)+

lemma i64_from_f64_negative:
  assumes "\<not> f64_is_nan x" "f64_finite x" "f64_number x < 0"
  shows "sint (i64_from_f64 x) = max (- (2 ^ 63)) (- \<lfloor>- f64_number x\<rfloor>)"
proof -
  let ?y = "x XOR push_bit 63 1"
  have "0 \<le> \<lfloor>- f64_number x\<rfloor>" using assms(3) by simp
  then obtain k where k: "\<lfloor>- f64_number x\<rfloor> = int k" by (rule nonneg_int_cases)
  then have uy: "unat (u64_from_f64 ?y) = min k (2 ^ 64 - 1)"
    using u64_from_f64_eq [of ?y, unfolded f64_negate] assms by simp
  have "f64_less x 0" using assms by (simp add: f64_less_def)
  note below = i64_cases(1) [OF this]
  show ?thesis unfolding k
  proof (cases "unat (u64_from_f64 ?y) < 2 ^ 63")
    case True
    then have "sint (i64_from_f64 x) = - int (unat (u64_from_f64 ?y))"
      unfolding below by (simp only: if_True sint_small)
    with True show "sint (i64_from_f64 x) = max (- (2 ^ 63)) (- int k)" unfolding uy by simp
  next
    case False
    then have "2 ^ 63 \<le> k" unfolding uy by simp
    then have "max (- (2 ^ 63)) (- int k) = - (2 ^ 63)" by simp
    then show "sint (i64_from_f64 x) = max (- (2 ^ 63)) (- int k)"
      unfolding below using False i64_bounds by (simp only: if_False)
  qed
qed

lemma i64_from_f64_nonneg:
  assumes "\<not> f64_is_nan x" "f64_finite x" "0 \<le> f64_number x"
  shows "sint (i64_from_f64 x) = min \<lfloor>f64_number x\<rfloor> (2 ^ 63 - 1)"
proof -
  have "0 \<le> \<lfloor>f64_number x\<rfloor>" using assms(3) by simp
  then obtain k where k: "\<lfloor>f64_number x\<rfloor> = int k" by (rule nonneg_int_cases)
  then have ux: "unat (u64_from_f64 x) = min k (2 ^ 64 - 1)" using u64_from_f64_eq [of x] assms by simp
  have "\<not> f64_less x 0" using assms by (simp add: f64_less_def)
  note above = i64_cases(2) [OF this]
  show ?thesis unfolding k
  proof (cases "unat (u64_from_f64 x) < 2 ^ 63")
    case True
    then have "sint (i64_from_f64 x) = int (unat (u64_from_f64 x))"
      unfolding above by (simp only: if_True sint_small)
    with True show "sint (i64_from_f64 x) = min (int k) (2 ^ 63 - 1)" unfolding ux by simp
  next
    case False
    then have "2 ^ 63 \<le> k" unfolding ux by simp
    then have "min (int k) (2 ^ 63 - 1) = 2 ^ 63 - 1" by simp
    then show "sint (i64_from_f64 x) = min (int k) (2 ^ 63 - 1)"
      unfolding above using False i64_bounds by (simp only: if_False)
  qed
qed

lemma i64_from_f64_infinite:
  assumes "\<not> f64_is_nan x" "\<not> f64_finite x"
  shows "sint (i64_from_f64 x) = (if f64_negative x then - (2 ^ 63) else 2 ^ 63 - 1)"
proof (cases "f64_negative x")
  case True
  then have "f64_less x 0" "\<not> unat (u64_from_f64 (x XOR push_bit 63 1)) < 2 ^ 63"
    using assms u64_from_f64_eq [of "x XOR push_bit 63 1", unfolded f64_negate] by (simp_all add: f64_less_def)
  with True show ?thesis by (simp only: i64_cases(1) i64_bounds(1) if_False if_True)
next
  case False
  then have "\<not> f64_less x 0" "\<not> unat (u64_from_f64 x) < 2 ^ 63"
    using assms u64_from_f64_eq [of x] by (simp_all add: f64_less_def)
  with False show ?thesis by (simp only: i64_cases(2) i64_bounds(2) if_False not_False_eq_True)
qed

text \<open>A double is turned into an integer by truncation towards zero, saturating at the bounds of
  the type, with NaN at zero: the shift of the significand in the direction of the exponent is
  exact for every finite input, for unsigned and signed targets.\<close>

theorem float_to_integer_truncates:
  "if f64_is_nan x then u64_from_f64 x = 0 \<and> i64_from_f64 x = 0
   else if f64_finite x
   then int (unat (u64_from_f64 x)) = max 0 (min (truncated (f64_number x)) (2 ^ 64 - 1))
      \<and> sint (i64_from_f64 x) = max (- (2 ^ 63)) (min (truncated (f64_number x)) (2 ^ 63 - 1))
   else if f64_negative x then u64_from_f64 x = 0 \<and> sint (i64_from_f64 x) = - (2 ^ 63)
   else int (unat (u64_from_f64 x)) = 2 ^ 64 - 1 \<and> sint (i64_from_f64 x) = 2 ^ 63 - 1"
proof -
  note u = u64_from_f64_eq [of x]
  consider (nan) "f64_is_nan x" | (inf) "\<not> f64_is_nan x" "\<not> f64_finite x"
    | (neg) "\<not> f64_is_nan x" "f64_finite x" "f64_number x < 0"
    | (pos) "\<not> f64_is_nan x" "f64_finite x" "0 \<le> f64_number x" by linarith
  then show ?thesis
  proof cases
    case nan
    then have "u64_from_f64 x = 0" by (simp add: u64_from_f64_def)
    with nan show ?thesis by (simp add: i64_from_f64_def f64_less_def i64_try_from_def)
  next
    case inf
    then show ?thesis using u i64_from_f64_infinite [OF inf] by (auto simp: unat_eq_0)
  next
    case neg
    have "\<lfloor>f64_number x\<rfloor> < 0" using neg by simp
    then have "unat (u64_from_f64 x) = 0" using u neg by simp
    moreover have "truncated (f64_number x) = - \<lfloor>- f64_number x\<rfloor>"
      using neg by (simp add: truncated_def ceiling_def)
    moreover have "0 \<le> \<lfloor>- f64_number x\<rfloor>" using neg by simp
    then obtain k where "\<lfloor>- f64_number x\<rfloor> = int k" by (rule nonneg_int_cases)
    ultimately show ?thesis using neg i64_from_f64_negative [OF neg] by simp
  next
    case pos
    have "0 \<le> \<lfloor>f64_number x\<rfloor>" using pos by simp
    then obtain k where "\<lfloor>f64_number x\<rfloor> = int k" by (rule nonneg_int_cases)
    moreover from this have "truncated (f64_number x) = int k" using pos by (simp add: truncated_def)
    ultimately show ?thesis using pos u i64_from_f64_nonneg [OF pos] by simp
  qed
qed

end
