(* ===== verification/Json.thy ===== *)
theory Json
  imports Prelude "HOL-Library.Word"
begin

text \<open>
  The values of \<open>serde_json\<close> the program stores and inspects. The crate is third-party code:
  only its data type and the accessors the program calls are here. Its parser and its printer are
  parameters of the definitions that call them (\<open>jp\<close> for \<open>from_str\<close>,
  \<open>ser\<close> for \<open>to_string\<close>).

  A number keeps the crate's three representations, an \<open>f64\<close> by its IEEE-754 bits. An object
  is its entries in key order, as the crate's default map iterates them, so that equality of
  values is equality of terms.
\<close>

datatype jnum = PosInt nat | NegInt int | Float "64 word"

datatype json =
    JNull
  | JBool bool
  | JNum jnum
  | JStr string
  | JArr "json list"
  | JObj "(string \<times> json) list"

type_synonym json_parser = "string \<Rightarrow> json option"
type_synonym json_printer = "json \<Rightarrow> string"

fun is_object :: "json \<Rightarrow> bool" where
  "is_object (JObj _) = True"
| "is_object _ = False"

fun as_str :: "json \<Rightarrow> string option" where
  "as_str (JStr s) = Some s"
| "as_str _ = None"

fun is_u64 :: "json \<Rightarrow> bool" where
  "is_u64 (JNum (PosInt _)) = True"
| "is_u64 _ = False"

text \<open>\<open>Value::get(key)\<close>: \<open>None\<close> for anything but an object that has the key.\<close>

fun jget :: "json \<Rightarrow> string \<Rightarrow> json option" where
  "jget (JObj kvs) k = map_of kvs k"
| "jget _ _ = None"

definition get_str :: "json \<Rightarrow> string \<Rightarrow> string option" where
  "get_str v k = Option.bind (jget v k) as_str"

text \<open>Assignment through \<open>get_mut\<close>: the entry of a key that is present.\<close>

fun jset :: "(string \<times> json) list \<Rightarrow> string \<Rightarrow> json \<Rightarrow> (string \<times> json) list" where
  "jset [] k v = []"
| "jset ((k', v') # kvs) k v = (if k' = k then (k', v) # kvs else (k', v') # jset kvs k v)"

lemma map_of_jset:
  "map_of (jset kvs k v) k' =
     (if k' = k \<and> map_of kvs k \<noteq> None then Some v else map_of kvs k')"
  by (induction kvs) auto

lemma is_object_iff: "is_object v \<longleftrightarrow> (\<exists>kvs. v = JObj kvs)"
  by (cases v) auto

definition jstr_opt :: "string option \<Rightarrow> json" where
  "jstr_opt so = (case so of None \<Rightarrow> JNull | Some s \<Rightarrow> JStr s)"

definition jint :: "int \<Rightarrow> json" where
  "jint i = JNum (if 0 \<le> i then PosInt (nat i) else NegInt i)"

definition jint_opt :: "int option \<Rightarrow> json" where
  "jint_opt io = (case io of None \<Rightarrow> JNull | Some i \<Rightarrow> jint i)"

end
