(* ===== verification/Task_Model.thy ===== *)
theory Task_Model
  imports Json
begin

text \<open>
  The data of the task store: \<open>models.rs\<close>, \<open>task_events.rs\<close>, the row types of
  \<open>members.rs\<close>, and the state the repositories share.

  Ids and the other \<open>i64\<close> columns are \<open>int\<close>: the store never computes with them
  beyond comparison, and \<open>AUTOINCREMENT\<close> hands out ids in order. JSON columns hold their
  decoded value. A timestamp is the string the database holds; the clock is an argument
  \<open>now\<close> of every operation that reads it.
\<close>

section \<open>Tasks\<close>

record task =
  t_id :: int
  t_parent :: "int option"
  t_scope :: string
  t_scope_id :: "string option"
  t_project :: "string option"
  t_title :: string
  t_description :: "string option"
  t_status :: string
  t_priority :: int
  t_labels :: "string list"
  t_tool_scope :: "string list"
  t_due_at :: "string option"
  t_deadline_at :: "string option"
  t_recurrence :: "string option"
  t_depends_on :: "int list"
  t_acceptance :: "json option"
  t_assignee :: "string option"
  t_sort_order :: int
  t_created_at :: string
  t_updated_at :: string
  t_completed_at :: "string option"
  t_blocked :: bool
  t_due_announced :: "string option"
  t_overdue_announced :: "string option"

record new_task =
  n_parent :: "int option"
  n_scope :: string
  n_scope_id :: "string option"
  n_project :: "string option"
  n_title :: string
  n_description :: "string option"
  n_priority :: int
  n_labels :: "string list"
  n_tool_scope :: "string list"
  n_due_at :: "string option"
  n_deadline_at :: "string option"
  n_recurrence :: "string option"
  n_depends_on :: "int list"
  n_acceptance :: "json option"
  n_assignee :: "string option"
  n_sort_order :: int

definition new_task_default :: new_task where
  "new_task_default = \<lparr>n_parent = None, n_scope = [], n_scope_id = None, n_project = None,
     n_title = [], n_description = None, n_priority = 0, n_labels = [], n_tool_scope = [],
     n_due_at = None, n_deadline_at = None, n_recurrence = None, n_depends_on = [],
     n_acceptance = None, n_assignee = None, n_sort_order = 0\<rparr>"

record task_patch =
  p_parent :: "int option option"
  p_project :: "string option option"
  p_title :: "string option"
  p_description :: "string option option"
  p_status :: "string option"
  p_priority :: "int option"
  p_labels :: "string list option"
  p_tool_scope :: "string list option"
  p_due_at :: "string option option"
  p_deadline_at :: "string option option"
  p_recurrence :: "string option option"
  p_depends_on :: "int list option"
  p_acceptance :: "json option option"
  p_assignee :: "string option option"
  p_sort_order :: "int option"

definition task_patch_default :: task_patch where
  "task_patch_default = \<lparr>p_parent = None, p_project = None, p_title = None,
     p_description = None, p_status = None, p_priority = None, p_labels = None,
     p_tool_scope = None, p_due_at = None, p_deadline_at = None, p_recurrence = None,
     p_depends_on = None, p_acceptance = None, p_assignee = None, p_sort_order = None\<rparr>"

section \<open>The thread and the activity log\<close>

datatype task_note_kind = Comment | Progress | Question | Verdict_note

fun note_kind_as_str :: "task_note_kind \<Rightarrow> string" where
  "note_kind_as_str Comment = ''comment''"
| "note_kind_as_str Progress = ''progress''"
| "note_kind_as_str Question = ''question''"
| "note_kind_as_str Verdict_note = ''verdict''"

definition note_kind_parse :: "string \<Rightarrow> task_note_kind option" where
  "note_kind_parse token =
     (if token = ''comment'' then Some Comment
      else if token = ''progress'' then Some Progress
      else if token = ''question'' then Some Question
      else if token = ''verdict'' then Some Verdict_note
      else None)"

record task_note =
  note_id :: int
  note_task :: int
  note_author :: "string option"
  note_author_member :: "string option"
  note_kind :: task_note_kind
  note_content :: string
  note_created_at :: string

record task_activity_entry =
  act_id :: int
  act_task :: int
  act_actor :: "string option"
  act_action :: string
  act_detail :: "json option"
  act_created_at :: string

section \<open>Lifecycle events\<close>

datatype task_event_kind =
    Created | Assigned | StatusChanged | Blocked | Unblocked | Posted | Due | Overdue | Verdict

fun event_kind_as_str :: "task_event_kind \<Rightarrow> string" where
  "event_kind_as_str Created = ''created''"
| "event_kind_as_str Assigned = ''assigned''"
| "event_kind_as_str StatusChanged = ''status_changed''"
| "event_kind_as_str Blocked = ''blocked''"
| "event_kind_as_str Unblocked = ''unblocked''"
| "event_kind_as_str Posted = ''posted''"
| "event_kind_as_str Due = ''due''"
| "event_kind_as_str Overdue = ''overdue''"
| "event_kind_as_str Verdict = ''verdict''"

record task_event =
  ev_kind :: task_event_kind
  ev_task :: int
  ev_scope :: string
  ev_scope_id :: "string option"
  ev_actor :: "string option"
  ev_detail :: json

section \<open>Members\<close>

datatype member_kind = MHuman | MAgent
datatype member_owner = OWorkspace | OHuman
datatype member_status = Idle | Busy | Offline

fun member_kind_as_str :: "member_kind \<Rightarrow> string" where
  "member_kind_as_str MHuman = ''human''"
| "member_kind_as_str MAgent = ''agent''"

definition member_kind_parse :: "string \<Rightarrow> member_kind option" where
  "member_kind_parse token =
     (if token = ''human'' then Some MHuman
      else if token = ''agent'' then Some MAgent else None)"

fun member_owner_as_str :: "member_owner \<Rightarrow> string" where
  "member_owner_as_str OWorkspace = ''workspace''"
| "member_owner_as_str OHuman = ''human''"

definition member_owner_parse :: "string \<Rightarrow> member_owner option" where
  "member_owner_parse token =
     (if token = ''workspace'' then Some OWorkspace
      else if token = ''human'' then Some OHuman else None)"

fun member_status_as_str :: "member_status \<Rightarrow> string" where
  "member_status_as_str Idle = ''idle''"
| "member_status_as_str Busy = ''busy''"
| "member_status_as_str Offline = ''offline''"

definition member_status_parse :: "string \<Rightarrow> member_status option" where
  "member_status_parse token =
     (if token = ''idle'' then Some Idle
      else if token = ''busy'' then Some Busy
      else if token = ''offline'' then Some Offline else None)"

record member =
  m_id :: string
  m_name :: string
  m_avatar :: "string option"
  m_kind :: member_kind
  m_owner_kind :: member_owner
  m_owner_id :: "string option"
  m_status :: member_status
  m_profile :: json
  m_created_at :: string
  m_updated_at :: string

record new_member =
  nm_id :: string
  nm_name :: string
  nm_avatar :: "string option"
  nm_kind :: member_kind
  nm_owner_kind :: member_owner
  nm_owner_id :: "string option"
  nm_status :: member_status
  nm_profile :: json

record member_patch =
  mp_name :: "string option"
  mp_avatar :: "string option option"
  mp_owner_id :: "string option option"
  mp_status :: "member_status option"
  mp_profile :: "json option"

section \<open>Errors\<close>

text \<open>
  \<open>StorageError\<close>. The code's messages are text for a person or a model; here each
  \<open>format!\<close> is a constructor that carries the values it prints. Failures of the database
  itself are not modelled: every statement the code issues succeeds.
\<close>

datatype filter_atom =
    Priority int
  | Label string
  | Project string
  | Is_Overdue
  | Is_Today
  | NoDate
  | NoDeadline
  | NoLabel
  | Subtask
  | DueBefore string
  | DueAfter string
  | DeadlineBefore string
  | DeadlineAfter string
  | Search string
  | Status string
  | Is_Blocked

datatype token = TAmp | TPipe | TBang | TLParen | TRParen | TAtom filter_atom

text \<open>The lexer reports a character it cannot start a word with and the parser a token, both
  through \<open>UnexpectedToken\<close>; the model keeps the two payloads apart.\<close>

datatype filter_error =
    FEmpty
  | FTooLong nat
  | FTooDeep
  | FUnexpectedChar string
  | FUnexpectedToken token
  | FUnexpectedEnd string
  | FInvalidDate string
  | FUnknownKeyword string

datatype acceptance_error =
    NotAnObject
  | StringNotObject
  | StringNotJson
  | KindMissing
  | FieldMissing string string
  | TimeoutNotU64
  | RegexNoTarget
  | UnknownKind string

datatype invalid =
    UnknownScope string
  | ScopeNeedsId string
  | GlobalWithId
  | TitleEmpty
  | TitleTooLong nat
  | PriorityRange int
  | DeadlineBeforeDefer string string
  | TooManyDeps nat
  | BadAcceptance acceptance_error
  | ScopeFull
  | ParentMissing int
  | ClosedParent string int
  | DepthLimit
  | DepthExceeded int
  | DepMissing int
  | AncestorDep int
  | NotAMember string string
  | StatusIsVerdict
  | StatusIsDerived
  | UnknownStatus string
  | SelfDependency int
  | DependencyCycle int
  | SelfParent int
  | MoveUnderClosed string int
  | ParentCycle int
  | ParentChainTooLong
  | ReparentTooDeep
  | OpenChildren int "int list"
  | NoteEmpty
  | NoteTooLong nat
  | BadFilter filter_error
  | MemberIdEmpty
  | MemberIdTooLong nat
  | MemberNameEmpty
  | MemberNameTooLong nat
  | AvatarTooLong nat
  | ProfileTooLong nat
  | MemberLimit
  | MemberExists string
  | ProtectedMember string

datatype missing = NoTask int | NoMember string | NotReadBack

datatype storage_error = Invalid invalid | NotFound missing

section \<open>The shared state\<close>

text \<open>
  One connection, so one state. \<open>next_*\<close> are the sequences of the \<open>AUTOINCREMENT\<close>
  columns; \<open>events\<close> is \<open>None\<close> when no sink is attached, and otherwise what the sink
  received, oldest first.
\<close>

record db =
  tasks :: "task list"
  task_notes :: "task_note list"
  task_activity :: "task_activity_entry list"
  members :: "member list"
  next_task :: int
  next_note :: int
  next_activity :: int
  events :: "task_event list option"

definition empty_db :: db where
  "empty_db = \<lparr>tasks = [], task_notes = [], task_activity = [], members = [],
     next_task = 1, next_note = 1, next_activity = 1, events = None\<rparr>"

type_synonym 'a op = "db \<Rightarrow> (storage_error, 'a) result \<times> db"

section \<open>Status and blocking\<close>

definition is_closed_status :: "string \<Rightarrow> bool" where
  "is_closed_status status = (status = ''done'' \<or> status = ''cancelled'')"

abbreviation is_open :: "task \<Rightarrow> bool" where
  "is_open t \<equiv> \<not> is_closed_status (t_status t)"

text \<open>
  The \<open>HashMap<i64, &Task>\<close> the walks use is the list of the scope's rows with lookup by id:
  the ids are a primary key, so no entry shadows another.
\<close>

definition lookup_task :: "task list \<Rightarrow> int \<Rightarrow> task option" where
  "lookup_task by_id i = find (\<lambda>t. t_id t = i) by_id"

definition is_blocked :: "task list \<Rightarrow> task \<Rightarrow> bool" where
  "is_blocked by_id t = list_ex (\<lambda>dep. case lookup_task by_id dep of
       None \<Rightarrow> False | Some d \<Rightarrow> \<not> is_closed_status (t_status d)) (t_depends_on t)"

definition blocked_ids :: "task list \<Rightarrow> int list" where
  "blocked_ids ts =
     (let open_ids = map t_id (filter (\<lambda>t. \<not> is_closed_status (t_status t)) ts)
      in map t_id (filter (\<lambda>t. list_ex (\<lambda>dep. dep \<in> set open_ids) (t_depends_on t)) ts))"

definition day_of :: "string \<Rightarrow> string" where
  "day_of at = take 10 at"

section \<open>Facts\<close>

lemma is_closed_status_simps [simp]:
  "is_closed_status ''done''" "is_closed_status ''cancelled''"
  "\<not> is_closed_status ''pending''" "\<not> is_closed_status ''in_progress''"
  by (simp_all add: is_closed_status_def)

lemma lookup_task_Some: "lookup_task ts i = Some t \<Longrightarrow> t \<in> set ts \<and> t_id t = i"
  by (auto simp: lookup_task_def find_Some_iff)

lemma lookup_task_None: "lookup_task ts i = None \<longleftrightarrow> i \<notin> t_id ` set ts"
  by (auto simp: lookup_task_def find_None_iff)

lemma lookup_task_distinct:
  "distinct (map t_id ts) \<Longrightarrow> t \<in> set ts \<Longrightarrow> lookup_task ts (t_id t) = Some t"
  by (induction ts) (auto simp: lookup_task_def)

lemma lookup_task_eq_Some:
  "distinct (map t_id ts) \<Longrightarrow> lookup_task ts i = Some t \<longleftrightarrow> t \<in> set ts \<and> t_id t = i"
  using lookup_task_Some lookup_task_distinct by fastforce

lemma is_blocked_iff:
  "is_blocked ts t \<longleftrightarrow>
     (\<exists>dep d. dep \<in> set (t_depends_on t) \<and> lookup_task ts dep = Some d \<and> is_open d)"
  by (auto simp: is_blocked_def list_ex_iff split: option.splits)

lemma set_blocked_ids:
  "set (blocked_ids ts) = t_id ` {t \<in> set ts. \<exists>dep \<in> set (t_depends_on t).
     dep \<in> t_id ` {d \<in> set ts. is_open d}}"
  by (simp add: blocked_ids_def Let_def list_ex_iff)

lemma blocked_ids_iff:
  assumes dist: "distinct (map t_id ts)" and t: "t \<in> set ts"
  shows "t_id t \<in> set (blocked_ids ts) \<longleftrightarrow> is_blocked ts t"
proof -
  have inj: "inj_on t_id (set ts)"
    using dist by (simp add: distinct_map)
  have "t_id t \<in> set (blocked_ids ts) \<longleftrightarrow>
      (\<exists>dep \<in> set (t_depends_on t). dep \<in> t_id ` {d \<in> set ts. is_open d})"
    unfolding set_blocked_ids using inj t by (auto simp: inj_on_def)
  then show ?thesis
    using dist by (auto simp: is_blocked_iff lookup_task_eq_Some image_iff)
qed

lemma note_kind_roundtrip: "note_kind_parse (note_kind_as_str k) = Some k"
  by (cases k) (simp_all add: note_kind_parse_def)

lemma note_kind_parse_Some: "note_kind_parse s = Some k \<longleftrightarrow> s = note_kind_as_str k"
  by (cases k) (auto simp: note_kind_parse_def split: if_splits)

end
