(* ===== verification/Acceptance.thy ===== *)
theory Acceptance
  imports Complex_Main Task_Model
begin

text \<open>
  The write boundary of acceptance checks (\<open>tasks.rs\<close>, from \<open>canonicalize_acceptance\<close> to
  \<open>looks_like_path\<close>): which payloads the store admits, the one object shape it keeps, and the
  paths such an object names.
\<close>

unbundle bit_operations_syntax

section \<open>Integral timeouts\<close>

text \<open>
  \<open>exact_u64_below_2_pow_53\<close>, on the bits of the \<open>f64\<close>, with the code's masks and shifts.
\<close>

definition exact_u64_below_2_pow_53 :: "64 word \<Rightarrow> 64 word option" where
  "exact_u64_below_2_pow_53 bits =
     (if bits AND mask 63 = 0 then Some 0
      else if bit bits 63 then None
      else (let biased = unat (drop_bit 52 bits) in
        if biased < 1023 then None
        else (let exponent = biased - 1023 in
          if 52 < exponent then None
          else (let significand = (bits AND mask 52) OR push_bit 52 1;
                    fraction_shift = 52 - exponent
                in if significand AND mask fraction_shift = 0
                   then Some (drop_bit fraction_shift significand) else None))))"

fun normalize_integral_timeout :: "json \<Rightarrow> json" where
  "normalize_integral_timeout (JObj kvs) =
     (case map_of kvs ''timeout_secs'' of
        Some (JNum (Float f)) \<Rightarrow>
          (case exact_u64_below_2_pow_53 f of
             Some whole \<Rightarrow> JObj (jset kvs ''timeout_secs'' (JNum (PosInt (unat whole))))
           | None \<Rightarrow> JObj kvs)
      | _ \<Rightarrow> JObj kvs)"
| "normalize_integral_timeout v = v"

section \<open>The JavaScript object literal dialect\<close>

abbreviation (input) dquote :: char where "dquote \<equiv> CHR 0x22"
abbreviation (input) squote :: char where "squote \<equiv> CHR 0x27"
abbreviation (input) backslash :: char where "backslash \<equiv> CHR 0x5C"
abbreviation (input) underscore :: char where "underscore \<equiv> CHR 0x5F"
abbreviation (input) colon :: char where "colon \<equiv> CHR 0x3A"

text \<open>The inner loops: what they push, and what is left to read; \<open>None\<close> at the end of input.\<close>

fun copy_double :: "string \<Rightarrow> (string \<times> string) option" where
  "copy_double [] = None"
| "copy_double (c # cs) =
     (if c = backslash then
        (case cs of
           [] \<Rightarrow> None
         | e # cs' \<Rightarrow> map_option (\<lambda>(out, rest). (c # e # out, rest)) (copy_double cs'))
      else if c = dquote then Some ([c], cs)
      else map_option (\<lambda>(out, rest). (c # out, rest)) (copy_double cs))"

fun copy_single :: "string \<Rightarrow> (string \<times> string) option" where
  "copy_single [] = None"
| "copy_single (c # cs) =
     (if c = backslash then
        (case cs of
           [] \<Rightarrow> None
         | e # cs' \<Rightarrow> map_option (\<lambda>(out, rest).
             ((if e = squote then [squote] else [backslash, e]) @ out, rest)) (copy_single cs'))
      else if c = squote then Some ([], cs)
      else map_option (\<lambda>(out, rest).
        ((if c = dquote then [backslash, dquote] else [c]) @ out, rest)) (copy_single cs))"

lemma copy_double_shrinks: "copy_double s = Some (out, rest) \<Longrightarrow> length rest < length s"
  by (induction s arbitrary: out rest rule: copy_double.induct)
     (fastforce split: if_splits list.splits)+

lemma copy_single_shrinks: "copy_single s = Some (out, rest) \<Longrightarrow> length rest < length s"
  by (induction s arbitrary: out rest rule: copy_single.induct)
     (fastforce split: if_splits list.splits)+

definition is_word_char :: "char \<Rightarrow> bool" where
  "is_word_char c = (is_alphanumeric c \<or> c = underscore)"

definition colon_follows :: "string \<Rightarrow> bool" where
  "colon_follows s = (case dropWhile is_whitespace s of [] \<Rightarrow> False | c # _ \<Rightarrow> c = colon)"

function repair_js_object_literal :: "string \<Rightarrow> string option" where
  "repair_js_object_literal [] = Some []"
| "repair_js_object_literal (c # cs) =
     (if c = dquote then
        (case copy_double cs of
           None \<Rightarrow> None
         | Some (out, rest) \<Rightarrow>
             map_option (\<lambda>more. dquote # out @ more) (repair_js_object_literal rest))
      else if c = squote then
        (case copy_single cs of
           None \<Rightarrow> None
         | Some (out, rest) \<Rightarrow>
             map_option (\<lambda>more. dquote # out @ dquote # more) (repair_js_object_literal rest))
      else if is_alphabetic c \<or> c = underscore then
        (let token = c # takeWhile is_word_char cs; rest = dropWhile is_word_char cs in
         if colon_follows rest then
           map_option (\<lambda>more. dquote # token @ dquote # more) (repair_js_object_literal rest)
         else if token = ''true'' \<or> token = ''false'' \<or> token = ''null'' then
           map_option (\<lambda>more. token @ more) (repair_js_object_literal rest)
         else None)
      else map_option (\<lambda>more. c # more) (repair_js_object_literal cs))"
  by pat_completeness auto
termination
  by (relation "measure length")
     (auto dest: copy_double_shrinks copy_single_shrinks
           intro: le_imp_less_Suc length_dropWhile_le less_SucI)

section \<open>Canonical form\<close>

definition parse_stringified_acceptance ::
  "json_parser \<Rightarrow> string \<Rightarrow> (acceptance_error, json) result" where
  "parse_stringified_acceptance jp text =
     (case jp text of
        Some v \<Rightarrow> Inr v
      | None \<Rightarrow>
          (case Option.bind (repair_js_object_literal text) jp of
             Some v \<Rightarrow> Inr v
           | None \<Rightarrow> Inl StringNotJson))"

definition canonicalize_acceptance ::
  "json_parser \<Rightarrow> json \<Rightarrow> (acceptance_error, json) result" where
  "canonicalize_acceptance jp v =
     (if is_object v then Inr (normalize_integral_timeout v)
      else (case as_str v of
          None \<Rightarrow> Inl NotAnObject
        | Some text \<Rightarrow> bind_res (parse_stringified_acceptance jp text) (\<lambda>decoded.
            if is_object decoded then Inr (normalize_integral_timeout decoded)
            else Inl StringNotObject)))"

definition require_str :: "json \<Rightarrow> string \<Rightarrow> string \<Rightarrow> (acceptance_error, unit) result" where
  "require_str v kind field =
     (case get_str v field of
        None \<Rightarrow> Inl (FieldMissing kind field)
      | Some s \<Rightarrow> require (s \<noteq> []) (FieldMissing kind field))"

definition validate_acceptance :: "json \<Rightarrow> (acceptance_error, unit) result" where
  "validate_acceptance v =
     (case get_str v ''kind'' of
        None \<Rightarrow> Inl KindMissing
      | Some kind \<Rightarrow>
          bind_res (case jget v ''timeout_secs'' of
                      None \<Rightarrow> Inr ()
                    | Some timeout \<Rightarrow> require (is_u64 timeout) TimeoutNotU64) (\<lambda>_.
            if kind = ''command'' then require_str v kind ''command''
            else if kind = ''file_exists'' then require_str v kind ''path''
            else if kind = ''regex'' then
              bind_res (require_str v kind ''pattern'') (\<lambda>_.
                require (get_str v ''path'' \<noteq> None \<or> get_str v ''command'' \<noteq> None) RegexNoTarget)
            else Inl (UnknownKind kind)))"

definition admit_acceptance :: "json_parser \<Rightarrow> json \<Rightarrow> (acceptance_error, json) result" where
  "admit_acceptance jp v =
     bind_res (canonicalize_acceptance jp v) (\<lambda>canonical.
       bind_res (validate_acceptance canonical) (\<lambda>_. Inr canonical))"

section \<open>The paths a check names\<close>

definition trim_path_token :: "string \<Rightarrow> string" where
  "trim_path_token token =
     (let trimmed = trim_matches (\<lambda>c. c \<in> set ''`()[]{},:'' \<or> c = dquote \<or> c = squote
                                        \<or> is_whitespace c) token
      in if trimmed \<noteq> [] \<and> last trimmed = CHR ''.'' then butlast trimmed else trimmed)"

text \<open>\<open>rsplit('/').next()\<close> and \<open>rsplit_once('.')\<close>\<close>

definition last_component :: "string \<Rightarrow> string" where
  "last_component s = rev (takeWhile (\<lambda>c. c \<noteq> CHR ''/'') (rev s))"

definition rsplit_dot :: "string \<Rightarrow> (string \<times> string) option" where
  "rsplit_dot s =
     (if CHR ''.'' \<in> set s
      then Some (rev (tl (dropWhile (\<lambda>c. c \<noteq> CHR ''.'') (rev s))),
                 rev (takeWhile (\<lambda>c. c \<noteq> CHR ''.'') (rev s)))
      else None)"

definition looks_like_path :: "string \<Rightarrow> bool" where
  "looks_like_path token =
     (if token = [] \<or> str_contains token ''://'' \<or> starts_with token ''-'' then False
      else (let normalized = replace_char backslash (CHR ''/'') token in
        if ends_with normalized ''/'' then True
        else if CHR ''*'' \<in> set normalized then True
        else (case rsplit_dot (last_component normalized) of
            None \<Rightarrow> False
          | Some (stem, ext) \<Rightarrow>
              stem \<noteq> [] \<and> 2 \<le> byte_len ext \<and> list_all is_ascii_alphanumeric ext
              \<and> list_ex is_ascii_alphabetic ext)))"

definition push_path_token :: "string \<Rightarrow> string list \<Rightarrow> string list" where
  "push_path_token candidate paths =
     (let cleaned = trim_path_token candidate in
      if cleaned \<noteq> [] \<and> looks_like_path cleaned \<and> cleaned \<notin> set paths
      then paths @ [cleaned] else paths)"

definition acceptance_evidence_paths :: "json \<Rightarrow> string list" where
  "acceptance_evidence_paths acceptance =
     (case get_str acceptance ''command'' of
        None \<Rightarrow> []
      | Some command \<Rightarrow>
          fold push_path_token
            (split_on (\<lambda>c. is_whitespace c \<or> c \<in> set ''|;&'') command) [])"

definition acceptance_referenced_paths :: "json \<Rightarrow> string list" where
  "acceptance_referenced_paths acceptance =
     fold push_path_token (acceptance_evidence_paths acceptance)
       (case get_str acceptance ''path'' of
          None \<Rightarrow> [] | Some path \<Rightarrow> push_path_token path [])"

section \<open>Which floats are whole seconds\<close>

text \<open>The number an IEEE-754 double denotes; infinities and NaN denote none.\<close>

definition f64_value :: "64 word \<Rightarrow> rat option" where
  "f64_value bits =
     (let e = unat (take_bit 11 (drop_bit 52 bits)); m = unat (take_bit 52 bits);
          magnitude = (if e = 0 then of_nat m / 2 ^ 1074
                       else of_nat (2 ^ 52 + m) * 2 ^ e / 2 ^ 1075)
      in if e = 2047 then None
         else Some (if bit bits 63 then - magnitude else magnitude))"

lemma f64_fields:
  fixes w :: "64 word"
  assumes "\<not> bit w 63"
  shows "take_bit 11 (drop_bit 52 w) = drop_bit 52 w" and "unat (drop_bit 52 w) < 2048"
proof -
  have high: "\<not> bit w n" if "63 \<le> n" for n
    using that assms by (cases "n = 63") (auto dest: bit_imp_le_length)
  show *: "take_bit 11 (drop_bit 52 w) = drop_bit 52 w"
  proof (rule bit_word_eqI)
    fix n assume "n < LENGTH(64)"
    show "bit (take_bit 11 (drop_bit 52 w)) n = bit (drop_bit 52 w) n"
      using high [of "52 + n"] by (cases "n < 11") (auto simp: bit_take_bit_iff bit_drop_bit_eq)
  qed
  have "unat (take_bit 11 (drop_bit 52 w)) < 2 ^ 11"
    by (simp only: unsigned_take_bit_eq) (rule take_bit_nat_less_exp)
  with * show "unat (drop_bit 52 w) < 2048" by simp
qed

lemma significand_unat:
  fixes w :: "64 word"
  shows "unat ((w AND mask 52) OR push_bit 52 1) = 2 ^ 52 + unat (take_bit 52 w)"
proof -
  have disj: "take_bit 52 w AND push_bit 52 1 = 0"
    by (rule bit_word_eqI) (simp only: bit_and_iff bit_take_bit_iff bit_push_bit_iff bit_0_eq bot_apply, auto)
  have lt: "unat (take_bit 52 w) < 2 ^ 52"
    by (simp only: unsigned_take_bit_eq) (rule take_bit_nat_less_exp)
  have p: "unat (push_bit 52 (1 :: 64 word)) = 2 ^ 52" by simp
  have "(w AND mask 52) OR push_bit 52 1 = take_bit 52 w + push_bit 52 1"
    using disj by (simp only: take_bit_eq_mask [symmetric] disjunctive_add_eq_or)
  then have "unat ((w AND mask 52) OR push_bit 52 1)
      = (unat (take_bit 52 w) + 2 ^ 52) mod 2 ^ 64"
    by (simp only: unat_word_ariths p) simp
  also have "\<dots> = unat (take_bit 52 w) + 2 ^ 52" using lt by simp
  finally show ?thesis by simp
qed

lemma nat_quotient_iff:
  "(of_nat s / 2 ^ k :: rat) = of_nat n \<longleftrightarrow> s mod 2 ^ k = 0 \<and> n = s div 2 ^ k"
proof -
  have "(of_nat s / 2 ^ k :: rat) = of_nat n \<longleftrightarrow> (of_nat s :: rat) = of_nat (n * 2 ^ k)"
    by (simp add: field_simps)
  also have "\<dots> \<longleftrightarrow> s = n * 2 ^ k" by (simp only: of_nat_eq_iff)
  also have "\<dots> \<longleftrightarrow> s mod 2 ^ k = 0 \<and> n = s div 2 ^ k" by auto
  finally show ?thesis .
qed

lemma bit63_high: "\<not> bit w 63 \<Longrightarrow> take_bit 63 w = (w :: 64 word)"
proof (rule bit_word_eqI)
  fix n assume "\<not> bit w 63" and "n < LENGTH(64)"
  then show "bit (take_bit 63 w) n = bit w n"
    by (cases "n = 63") (auto simp: bit_take_bit_iff)
qed

lemma unat_split52: "unat (w :: 64 word) = 2 ^ 52 * unat (drop_bit 52 w) + unat (take_bit 52 w)"
  by (simp only: unat_drop_bit_eq unsigned_take_bit_eq)
     (simp only: drop_bit_eq_div take_bit_eq_mod mult_div_mod_eq)

lemma proper_fraction: "s < 2 ^ k \<Longrightarrow> s \<noteq> 0 \<Longrightarrow> (of_nat s / 2 ^ k :: rat) \<noteq> of_nat n"
  by (simp add: nat_quotient_iff)

lemma magnitude_pos:
  "e \<noteq> 0 \<or> m \<noteq> 0 \<Longrightarrow>
     0 < (if e = 0 then of_nat m / 2 ^ 1074 else of_nat (2 ^ 52 + m) * 2 ^ e / 2 ^ 1075 :: rat)"
  by (cases "e = 0") (simp_all add: add_pos_nonneg del: of_nat_add)

text \<open>The magnitude of a positive double by the range of its exponent.\<close>

lemma small_exponent:
  assumes "e < 1023" and "m < 2 ^ 52" and "e \<noteq> 0 \<or> m \<noteq> 0"
  shows "(if e = 0 then of_nat m / 2 ^ 1074 else of_nat (2 ^ 52 + m) * 2 ^ e / 2 ^ 1075 :: rat)
    \<noteq> of_nat n"
proof -
  let ?s = "if e = 0 then 2 * m else (2 ^ 52 + m) * 2 ^ e"
  have "(if e = 0 then of_nat m / 2 ^ 1074 else of_nat (2 ^ 52 + m) * 2 ^ e / 2 ^ 1075 :: rat)
      = of_nat ?s / 2 ^ 1075"
    by (simp add: power_Suc [of 2 1074, simplified, symmetric] del: of_nat_add)
  moreover have small: "?s < 2 ^ 1075"
  proof (cases "e = 0")
    case True
    have "2 * m < 2 ^ 53" using assms(2) by simp
    also have "(2 :: nat) ^ 53 \<le> 2 ^ 1075" by (rule power_increasing) simp_all
    finally show ?thesis using True by simp
  next
    case False
    have "(2 ^ 52 + m) * 2 ^ e < 2 ^ 53 * 2 ^ e" using assms(2) by simp
    also have "\<dots> \<le> 2 ^ 53 * 2 ^ 1022" using assms(1) by (intro mult_left_mono power_increasing) simp_all
    also have "\<dots> = 2 ^ 1075" by (simp flip: power_add)
    finally show ?thesis using False by simp
  qed
  moreover have "?s \<noteq> 0" using assms(3) by (cases "e = 0") auto
  from proper_fraction [OF small this] have "(of_nat ?s / 2 ^ 1075 :: rat) \<noteq> of_nat n" .
  ultimately show ?thesis by argo
qed

lemma shifted_exponent:
  assumes "1023 \<le> e" and "e \<le> 1075"
  shows "(of_nat s * 2 ^ e / 2 ^ 1075 :: rat) = of_nat s / 2 ^ (1075 - e)"
  using assms power_add [of "2 :: rat" "1075 - e" e] by (simp add: field_simps)

lemma magnitude_fields:
  fixes w :: "64 word"
  shows "drop_bit 52 (take_bit 63 w) = take_bit 11 (drop_bit 52 w)"
    and "take_bit 52 (take_bit 63 w) = take_bit 52 w"
  by (simp_all add: drop_bit_take_bit)

lemma magnitude_zero_iff:
  fixes w :: "64 word"
  shows "w AND mask 63 = 0 \<longleftrightarrow>
    unat (take_bit 11 (drop_bit 52 w)) = 0 \<and> unat (take_bit 52 w) = 0"
proof -
  have "w AND mask 63 = 0 \<longleftrightarrow> unat (take_bit 63 w) = 0"
    by (simp only: take_bit_eq_mask [symmetric] unat_eq_zero)
  also have "unat (take_bit 63 w)
      = 2 ^ 52 * unat (take_bit 11 (drop_bit 52 w)) + unat (take_bit 52 w)"
    using unat_split52 [of "take_bit 63 w"] by (simp only: magnitude_fields)
  finally show ?thesis by simp
qed

abbreviation exp_of :: "64 word \<Rightarrow> nat" where
  "exp_of bits \<equiv> unat (take_bit 11 (drop_bit 52 bits))"

abbreviation man_of :: "64 word \<Rightarrow> nat" where
  "man_of bits \<equiv> unat (take_bit 52 bits)"

abbreviation coerces_exactly :: "64 word \<Rightarrow> 64 word \<Rightarrow> bool" where
  "coerces_exactly bits n \<equiv> exact_u64_below_2_pow_53 bits = Some n \<longleftrightarrow>
     f64_value bits = Some (of_nat (unat n)) \<and> unat n < 2 ^ 53"

lemma man_bound: "man_of bits < 2 ^ 52"
  by (simp only: unsigned_take_bit_eq) (rule take_bit_nat_less_exp)

lemma exact_zero:
  assumes "bits AND mask 63 = 0"
  shows "coerces_exactly bits n"
proof -
  from assms have "exp_of bits = 0 \<and> man_of bits = 0" by (simp only: magnitude_zero_iff)
  then have "f64_value bits = Some 0" by (simp add: f64_value_def)
  moreover have "exact_u64_below_2_pow_53 bits = Some 0"
    using assms by (simp only: exact_u64_below_2_pow_53_def simp_thms if_True)
  moreover have "of_nat (unat n) = (0 :: rat) \<longleftrightarrow> n = 0"
    by (simp only: of_nat_eq_0_iff unat_eq_zero)
  ultimately show ?thesis by auto
qed

lemma exact_negative:
  assumes "bits AND mask 63 \<noteq> 0" and "bit bits 63"
  shows "coerces_exactly bits n"
proof -
  from assms(1) have "exp_of bits \<noteq> 0 \<or> man_of bits \<noteq> 0" by (auto simp only: magnitude_zero_iff)
  from magnitude_pos [OF this] have "f64_value bits = Some x \<Longrightarrow> x < 0" for x
    using assms(2) unfolding f64_value_def Let_def by (simp only: if_True split: if_split_asm) auto
  then have "f64_value bits \<noteq> Some (of_nat (unat n))"
    by (metis of_nat_less_0_iff)
  moreover have "exact_u64_below_2_pow_53 bits = None"
    using assms by (simp only: exact_u64_below_2_pow_53_def if_False if_True)
  ultimately show ?thesis by simp
qed

text \<open>The significand with its implicit bit, and the code's branches on a positive value.\<close>

abbreviation significand :: "64 word \<Rightarrow> 64 word" where
  "significand bits \<equiv> bits AND mask 52 OR push_bit 52 1"

lemma exact_positive:
  assumes "bits AND mask 63 \<noteq> 0" and "\<not> bit bits 63"
  shows "exact_u64_below_2_pow_53 bits =
    (if exp_of bits < 1023 then None else if 52 < exp_of bits - 1023 then None
     else if significand bits AND mask (52 - (exp_of bits - 1023)) = 0
     then Some (drop_bit (52 - (exp_of bits - 1023)) (significand bits)) else None)"
  using assms by (simp only: exact_u64_below_2_pow_53_def Let_def if_False f64_fields(1) [OF assms(2)])

lemma exact_low:
  assumes "bits AND mask 63 \<noteq> 0" and "\<not> bit bits 63" and lo: "exp_of bits < 1023"
  shows "coerces_exactly bits n"
proof -
  have "exp_of bits \<noteq> 0 \<or> man_of bits \<noteq> 0" using assms(1) by (auto simp only: magnitude_zero_iff)
  then have "f64_value bits \<noteq> Some (of_nat (unat n))"
    using small_exponent [OF lo man_bound, of bits "unat n"] assms(2)
    by (simp only: f64_value_def Let_def if_False option.inject not_False_eq_True
          split: if_split) simp
  with lo exact_positive [OF assms(1,2)] show ?thesis by simp
qed

lemma exact_high:
  assumes "bits AND mask 63 \<noteq> 0" and "\<not> bit bits 63" and hi: "1075 < exp_of bits"
  shows "coerces_exactly bits n"
proof -
  let ?e = "exp_of bits" and ?S = "2 ^ 52 + man_of bits"
  have "2 ^ 53 \<le> unat n" if "f64_value bits = Some (of_nat (unat n))"
  proof -
    from that have "(of_nat ?S * 2 ^ ?e / 2 ^ 1075 :: rat) = of_nat (unat n)"
      using hi assms(2) by (auto simp: f64_value_def Let_def split: if_splits)
    then have "(of_nat (?S * 2 ^ ?e) / 2 ^ 1075 :: rat) = of_nat (unat n)"
      by (simp only: of_nat_mult of_nat_power of_nat_numeral)
    then have n: "unat n = ?S * 2 ^ ?e div 2 ^ 1075" by (simp only: nat_quotient_iff)
    have "2 ^ 53 * 2 ^ 1075 = (2 ^ 52 * 2 ^ 1076 :: nat)" by (simp only: power_add [symmetric]) simp
    also have "\<dots> \<le> ?S * 2 ^ ?e" using hi by (intro mult_mono power_increasing) auto
    finally show ?thesis unfolding n
      by (metis div_le_mono nonzero_mult_div_cancel_right power_not_zero zero_neq_numeral)
  qed
  moreover have "52 < ?e - 1023" using hi by simp
  ultimately show ?thesis using exact_positive [OF assms(1,2)] hi by auto
qed

lemma exact_middle:
  assumes "bits AND mask 63 \<noteq> 0" and "\<not> bit bits 63" and mid: "1023 \<le> exp_of bits" "exp_of bits \<le> 1075"
  shows "coerces_exactly bits n"
proof -
  let ?e = "exp_of bits" and ?W = "significand bits" and ?S = "2 ^ 52 + man_of bits"
  let ?k = "1075 - ?e"
  have k: "52 - (?e - 1023) = ?k" using mid by simp
  have W: "unat ?W = ?S" by (rule significand_unat)
  have "unat (take_bit ?k ?W) = ?S mod 2 ^ ?k"
    by (simp only: unsigned_take_bit_eq W) (simp only: take_bit_eq_mod)
  then have rem: "?W AND mask ?k = 0 \<longleftrightarrow> ?S mod 2 ^ ?k = 0"
    by (metis take_bit_eq_mask unat_eq_zero)
  have quo: "unat (drop_bit ?k ?W) = ?S div 2 ^ ?k"
    by (simp only: unat_drop_bit_eq W) (simp only: drop_bit_eq_div)
  have ne: "?e \<noteq> 2047" "?e \<noteq> 0" using mid by auto
  have val: "f64_value bits = Some (of_nat (unat n)) \<longleftrightarrow>
      ?S mod 2 ^ ?k = 0 \<and> unat n = ?S div 2 ^ ?k"
    by (simp only: f64_value_def Let_def ne assms(2) if_False option.inject
          shifted_exponent [OF mid] nat_quotient_iff)
  have bound: "?S div 2 ^ ?k < 2 ^ 53"
    by (rule le_less_trans [OF div_le_dividend]) (use man_bound [of bits] in simp)
  have "exact_u64_below_2_pow_53 bits =
      (if ?S mod 2 ^ ?k = 0 then Some (drop_bit ?k ?W) else None)"
    using mid by (simp only: exact_positive [OF assms(1,2)] k rem if_False) auto
  then show ?thesis
    unfolding val using quo bound by (auto simp: word_unat_eq_iff)
qed

text \<open>
  A \<open>timeout_secs\<close> that arrives as a float is coerced exactly when it denotes a whole
  number of seconds below 2 to the 53, and then to that number: reading the IEEE-754 bits with the
  code's masks and shifts agrees with the value the bits denote, for every bit pattern, the
  subnormals, negatives, infinities and NaNs included.
\<close>

theorem exact_u64_denotes:
  "exact_u64_below_2_pow_53 bits = Some n \<longleftrightarrow>
     f64_value bits = Some (of_nat (unat n)) \<and> unat n < 2 ^ 53"
proof -
  consider "bits AND mask 63 = 0" | "bits AND mask 63 \<noteq> 0" "bit bits 63"
    | "bits AND mask 63 \<noteq> 0" "\<not> bit bits 63" "exp_of bits < 1023"
    | "bits AND mask 63 \<noteq> 0" "\<not> bit bits 63" "1075 < exp_of bits"
    | "bits AND mask 63 \<noteq> 0" "\<not> bit bits 63" "1023 \<le> exp_of bits" "exp_of bits \<le> 1075" by linarith
  then show ?thesis
    by cases (rule exact_zero exact_negative exact_low exact_high exact_middle; assumption)+
qed

section \<open>Facts on the canonical form\<close>

lemma normalize_is_object [simp]: "is_object (normalize_integral_timeout v) = is_object v"
  by (cases v) (auto split: option.splits json.splits jnum.splits)

lemma get_normalize:
  "k \<noteq> ''timeout_secs'' \<Longrightarrow> jget (normalize_integral_timeout v) k = jget v k"
  by (cases v) (auto simp: map_of_jset split: option.splits json.splits jnum.splits)

lemma normalize_u64:
  "jget v ''timeout_secs'' = Some t \<Longrightarrow> is_u64 t \<Longrightarrow> normalize_integral_timeout v = v"
  by (cases v; cases t rule: is_u64.cases) auto

lemma normalize_no_timeout:
  "jget v ''timeout_secs'' = None \<Longrightarrow> normalize_integral_timeout v = v"
  by (cases v) auto

lemma admit_ok:
  "admit_acceptance jp v = Inr c \<longleftrightarrow>
     canonicalize_acceptance jp v = Inr c \<and> validate_acceptance c = Inr ()"
  by (auto simp: admit_acceptance_def bind_res_eq_Inr)

lemma canonicalize_object: "canonicalize_acceptance jp v = Inr c \<Longrightarrow> is_object c"
  by (auto simp: canonicalize_acceptance_def bind_res_eq_Inr split: if_splits option.splits)

lemma validate_normal:
  assumes "validate_acceptance c = Inr ()"
  shows "normalize_integral_timeout c = c"
proof (cases "jget c ''timeout_secs''")
  case None
  then show ?thesis by (rule normalize_no_timeout)
next
  case (Some t)
  with assms have "is_u64 t"
    by (auto simp: validate_acceptance_def bind_res_eq_Inr split: option.splits)
  with Some show ?thesis by (rule normalize_u64)
qed


definition float_command_check :: json where
  "float_command_check = JObj [(''command'', JStr ''cargo test''), (''kind'', JStr ''command''),
     (''timeout_secs'', JNum (Float 0x404E000000000000))]"

definition stored_command_check :: json where
  "stored_command_check = JObj [(''command'', JStr ''cargo test''), (''kind'', JStr ''command''),
     (''timeout_secs'', JNum (PosInt 60))]"

lemma exact_sixty: "exact_u64_below_2_pow_53 0x404E000000000000 = Some 60"
  by (simp add: exact_u64_below_2_pow_53_def mask_eq_decr_exp)

lemma float_check_admitted:
  "admit_acceptance (\<lambda>_. None) float_command_check = Inr stored_command_check"
  by (simp add: admit_ok canonicalize_acceptance_def float_command_check_def exact_sixty
        stored_command_check_def validate_acceptance_def require_str_def get_str_def require_def)


section \<open>Facts on the paths\<close>

lemma no_empty_path [simp]: "\<not> looks_like_path []"
  by (simp add: looks_like_path_def)

lemma push_path_token_set:
  "set (push_path_token c paths) =
     set paths \<union> (if looks_like_path (trim_path_token c) then {trim_path_token c} else {})"
  by (auto simp: push_path_token_def Let_def)

lemma push_path_token_distinct: "distinct paths \<Longrightarrow> distinct (push_path_token c paths)"
  by (simp add: push_path_token_def Let_def)

lemma fold_push_set:
  "set (fold push_path_token cs paths) =
     set paths \<union> {p \<in> trim_path_token ` set cs. looks_like_path p}"
  by (induction cs arbitrary: paths) (auto simp: push_path_token_set)

lemma fold_push_distinct: "distinct paths \<Longrightarrow> distinct (fold push_path_token cs paths)"
  by (induction cs arbitrary: paths) (simp_all add: push_path_token_distinct)

text \<open>
  The paths a check is watched for are, each once, the cleaned subject path and the
  cleaned words of its command that look like a path, and nothing else: no bare word, URL, flag or
  version number is ever watched, and no path the command names is missed.
\<close>

theorem acceptance_paths_exact:
  "distinct (acceptance_referenced_paths a)
   \<and> set (acceptance_referenced_paths a) =
       {p \<in> trim_path_token ` (set_option (get_str a ''path'') \<union> set (acceptance_evidence_paths a)).
          looks_like_path p}
   \<and> distinct (acceptance_evidence_paths a)
   \<and> set (acceptance_evidence_paths a) =
       {p \<in> trim_path_token ` \<Union> (set ` split_on (\<lambda>c. is_whitespace c \<or> c \<in> set ''|;&'')
             ` set_option (get_str a ''command'')). looks_like_path p}"
proof (intro conjI)
  show "distinct (acceptance_evidence_paths a)"
    by (simp add: acceptance_evidence_paths_def fold_push_distinct split: option.split)
  show "set (acceptance_evidence_paths a) =
       {p \<in> trim_path_token ` \<Union> (set ` split_on (\<lambda>c. is_whitespace c \<or> c \<in> set ''|;&'')
             ` set_option (get_str a ''command'')). looks_like_path p}"
    by (cases "get_str a ''command''")
       (simp_all only: acceptance_evidence_paths_def option.case fold_push_set, auto)
  show "distinct (acceptance_referenced_paths a)"
    by (simp add: acceptance_referenced_paths_def fold_push_distinct push_path_token_distinct
          split: option.split)
  show "set (acceptance_referenced_paths a) =
       {p \<in> trim_path_token ` (set_option (get_str a ''path'') \<union> set (acceptance_evidence_paths a)).
          looks_like_path p}"
    by (cases "get_str a ''path''")
       (simp_all only: acceptance_referenced_paths_def option.case fold_push_set push_path_token_set,
        auto)
qed

end
