(* ===== verification/Harness_World.thy ===== *)
theory Harness_World
  imports Unicode_Text Acceptance "HOL-Library.State_Monad"
begin

text \<open>
  What the long-horizon harness (\<open>nanna-agent/src/harness.rs\<close>) talks to, and how its
  \<open>async\<close> functions are read here. The harness is orchestration over two traits,
  \<open>TaskSource\<close> and \<open>StepRunner\<close>, a shell, the file system, a clock and a cancel token.
  None of them is under its control, and other tasks may act on them at any time. So the
  environment is a strategy: it is shown the whole journal of questions and answers and gives the
  next answer. A theorem about every environment is then one about every interleaving.

  A function of the code is a program of the state monad over the journal and, in the later
  theories, the ledgers of the run. \<open>wp\<close> is the weakest precondition of such a program, with
  one rule per construct.
\<close>

section \<open>Programs and their weakest preconditions\<close>

named_theorems wp_simps \<open>weakest preconditions of the constructs and primitives\<close>

definition wp :: "('s, 'a) state \<Rightarrow> ('a \<Rightarrow> 's \<Rightarrow> bool) \<Rightarrow> 's \<Rightarrow> bool" where
  "wp m Q s = (case run_state m s of (a, t) \<Rightarrow> Q a t)"

definition gets :: "('s \<Rightarrow> 'a) \<Rightarrow> ('s, 'a) state" where
  "gets f = State (\<lambda>s. (f s, s))"

definition modify :: "('s \<Rightarrow> 's) \<Rightarrow> ('s, unit) state" where
  "modify f = State (\<lambda>s. ((), f s))"

definition only_if :: "bool \<Rightarrow> ('s, unit) state \<Rightarrow> ('s, unit) state" where
  "only_if b m = (if b then m else State_Monad.return ())"

lemma wp_pure [wp_simps]:
  "wp (State_Monad.return a) Q s = Q a s"
  "wp (gets g) Q s = Q (g s) s"
  by (simp_all add: wp_def gets_def)

lemma wp_modify [wp_simps]: "wp (modify u) Q s = Q () (u s)"
  by (simp add: wp_def modify_def)

lemma wp_bind [wp_simps]: "wp (State_Monad.bind m f) Q s = wp m (\<lambda>a. wp (f a) Q) s"
  by (auto simp: wp_def split: prod.splits)

lemma wp_only_if [wp_simps]: "wp (only_if b m) Q s = (if b then wp m Q s else Q () s)"
  by (simp add: wp_def only_if_def)

lemma wp_branch [wp_simps]:
  "wp (if b then m else n) Q s = (if b then wp m Q s else wp n Q s)"
  "wp (case x of None \<Rightarrow> m | Some a \<Rightarrow> f a) Q s = (case x of None \<Rightarrow> wp m Q s | Some a \<Rightarrow> wp (f a) Q s)"
  "wp (case y of Inl e \<Rightarrow> g e | Inr b \<Rightarrow> h b) Q s = (case y of Inl e \<Rightarrow> wp (g e) Q s | Inr b \<Rightarrow> wp (h b) Q s)"
  "wp (case z of (c, d) \<Rightarrow> k c d) Q s = (case z of (c, d) \<Rightarrow> wp (k c d) Q s)"
  "wp (let v = u in j v) Q s = (let v = u in wp (j v) Q s)"
  by (auto split: option.splits sum.splits prod.splits)

lemma wp_mono: "wp m P s \<Longrightarrow> (\<And>a t. P a t \<Longrightarrow> Q a t) \<Longrightarrow> wp m Q s"
  by (auto simp: wp_def split: prod.splits)

lemma wp_conj: "wp m (\<lambda>a t. P a t \<and> Q a t) s \<longleftrightarrow> wp m P s \<and> wp m Q s"
  by (auto simp: wp_def split: prod.splits)

lemma wp_run_state: "wp m Q s \<longleftrightarrow> Q (fst (run_state m s)) (snd (run_state m s))"
  by (auto simp: wp_def split: prod.splits)

text \<open>What a program keeps: a relation between its states before and after.\<close>

definition related :: "('s \<Rightarrow> 's \<Rightarrow> bool) \<Rightarrow> ('s, 'a) state \<Rightarrow> bool" where
  "related R m = (\<forall>s. wp m (\<lambda>_. R s) s)"

section \<open>Acceptance checks and verdicts\<close>

text \<open>The texts of a check are those of the store; what a command prints or a model says is a
  \<open>ustring\<close>, and \<open>lit\<close> embeds the former in the latter. Durations are in nanoseconds.\<close>

datatype acceptance_check =
    Command (ck_command: string) (ck_timeout_secs: "nat option")
  | FileExists (ck_path: string)
  | Regex (ck_pattern: string) (ck_opt_path: "string option") (ck_opt_command: "string option")
      (ck_timeout_secs: "nat option")

record acceptance_verdict =
  v_passed :: bool
  v_detail :: ustring
  v_timed_out :: bool
  v_evidence_changed :: bool
  v_output_head :: "ustring option"

datatype shell_run_error = Timeout nat | Other ustring

section \<open>The traits\<close>

record task_step =
  st_id :: int
  st_title :: ustring
  st_description :: "ustring option"
  st_acceptance :: "acceptance_check option"
  st_tool_scope :: "ustring list"
  st_notes_tail :: "ustring list"

datatype step_kind = Plan | Execute | Verify

record step_request =
  rq_item_id :: int
  rq_step_index :: nat
  rq_step_kind :: step_kind
  rq_item_title :: ustring
  rq_prompt :: ustring
  rq_tool_scope :: "ustring list"
  rq_token_budget :: "nat option"
  rq_max_iterations :: "nat option"
  rq_max_wall_clock :: "nat option"

record step_tool_call =
  tc_name :: ustring
  tc_input_digest :: ustring
  tc_output_digest :: ustring
  tc_success :: bool

record step_outcome =
  so_text :: ustring
  so_input_tokens :: nat
  so_output_tokens :: nat
  so_tool_calls :: "step_tool_call list"
  so_touched_paths :: "ustring list"
  so_degenerate_loop :: bool

text \<open>The \<open>json!\<close> documents the harness logs, with the texts of the model in them.\<close>

datatype document =
    DNull
  | DBool bool
  | DNum int
  | DText ustring
  | DArray "document list"
  | DObject "(string \<times> document) list"

record long_horizon_config =
  max_wall_clock :: nat
  max_total_tokens :: "nat option"
  max_steps_per_item :: nat
  max_replans_per_item :: nat
  step_token_budget :: "nat option"
  max_consecutive_errors :: nat
  precheck_acceptance_items :: "int set"
  actor :: ustring

definition default_config :: long_horizon_config where
  "default_config = \<lparr>max_wall_clock = 4 * 3600 * 10 ^ 9, max_total_tokens = None,
     max_steps_per_item = 5, max_replans_per_item = 2, step_token_budget = None,
     max_consecutive_errors = 3, precheck_acceptance_items = {}, actor = lit ''harness''\<rparr>"

section \<open>The journal and the environment\<close>

datatype event =
    Asked_Cancelled bool
  | Read_Clock nat
  | Interjected "ustring + nat"
  | Asked_Next "ustring + task_step option"
  | Started int "ustring + unit"
  | Completed int document "ustring + unit"
  | Noted int ustring "ustring + unit"
  | Logged int string document "ustring + unit"
  | Abandoned int ustring "ustring + unit"
  | Reopened int ustring "ustring + unit"
  | Counted_Subtasks int "ustring + nat option"
  | Ran_Step step_request "ustring + step_outcome"
  | Ran_Shell string nat "shell_run_error + int option \<times> ustring"
  | Asked_Exists string bool
  | Asked_Metadata string "(bool \<times> nat \<times> ustring option) option"
  | Read_File string "ustring + ustring"

text \<open>A journal is newest first. The inputs of a run are its goal and configuration, the answers
  of the environment, and the functions of the crates the harness calls: the hasher, the JSON
  printer, the regex engine and the display of a path resolved in the working directory.\<close>

record inputs =
  run_goal :: ustring
  cfg :: long_horizon_config
  ask_cancelled :: "event list \<Rightarrow> bool"
  ask_clock :: "event list \<Rightarrow> nat"
  ask_interject :: "(event list \<Rightarrow> ustring + nat) option"
  ask_next :: "event list \<Rightarrow> ustring + task_step option"
  ask_start :: "event list \<Rightarrow> int \<Rightarrow> ustring + unit"
  ask_complete :: "event list \<Rightarrow> int \<Rightarrow> document \<Rightarrow> ustring + unit"
  ask_note :: "event list \<Rightarrow> int \<Rightarrow> ustring \<Rightarrow> ustring + unit"
  ask_log :: "event list \<Rightarrow> int \<Rightarrow> string \<Rightarrow> document \<Rightarrow> ustring + unit"
  ask_abandon :: "event list \<Rightarrow> int \<Rightarrow> ustring \<Rightarrow> ustring + unit"
  ask_reopen :: "event list \<Rightarrow> int \<Rightarrow> ustring \<Rightarrow> ustring + unit"
  ask_subtasks :: "event list \<Rightarrow> int \<Rightarrow> ustring + nat option"
  ask_step :: "event list \<Rightarrow> step_request \<Rightarrow> ustring + step_outcome"
  ask_shell :: "event list \<Rightarrow> string \<Rightarrow> nat \<Rightarrow> shell_run_error + int option \<times> ustring"
  ask_exists :: "event list \<Rightarrow> string \<Rightarrow> bool"
  ask_metadata :: "event list \<Rightarrow> string \<Rightarrow> (bool \<times> nat \<times> ustring option) option"
  ask_file :: "event list \<Rightarrow> string \<Rightarrow> ustring + ustring"
  hash_str :: "ustring list \<Rightarrow> 64 word"
  ser_check :: json_printer
  regex_new :: "string \<Rightarrow> ustring + (ustring \<Rightarrow> bool)"
  display_path :: "string \<Rightarrow> ustring"

record journal =
  history :: "event list"

definition consult :: "(event list \<Rightarrow> 'b) \<Rightarrow> ('b \<Rightarrow> event) \<Rightarrow> ('a journal_scheme, 'b) state" where
  "consult strategy entry =
     State (\<lambda>s. let b = strategy (history s) in (b, s\<lparr>history := entry b # history s\<rparr>))"

lemma wp_consult [wp_simps]:
  "wp (consult f e) Q s = (let b = f (history s) in Q b (s\<lparr>history := e b # history s\<rparr>))"
  by (simp add: wp_def consult_def Let_def)

definition is_cancelled :: "inputs \<Rightarrow> ('a journal_scheme, bool) state" where
  "is_cancelled E = consult (ask_cancelled E) Asked_Cancelled"

definition now :: "inputs \<Rightarrow> ('a journal_scheme, nat) state" where
  "now E = consult (ask_clock E) Read_Clock"

text \<open>\<open>since.elapsed()\<close>, which saturates at zero.\<close>

definition elapsed :: "inputs \<Rightarrow> nat \<Rightarrow> ('a journal_scheme, nat) state" where
  "elapsed E since = do { t \<leftarrow> now E; State_Monad.return (t - since) }"

definition src_start :: "inputs \<Rightarrow> int \<Rightarrow> ('a journal_scheme, unit) state" where
  "src_start E i = do { _ \<leftarrow> consult (\<lambda>h. ask_start E h i) (Started i); State_Monad.return () }"

definition src_complete :: "inputs \<Rightarrow> int \<Rightarrow> document \<Rightarrow> ('a journal_scheme, ustring + unit) state" where
  "src_complete E i d = consult (\<lambda>h. ask_complete E h i d) (Completed i d)"

definition src_add_note :: "inputs \<Rightarrow> int \<Rightarrow> ustring \<Rightarrow> ('a journal_scheme, unit) state" where
  "src_add_note E i t = do { _ \<leftarrow> consult (\<lambda>h. ask_note E h i t) (Noted i t); State_Monad.return () }"

definition log_event :: "inputs \<Rightarrow> int \<Rightarrow> string \<Rightarrow> document \<Rightarrow> ('a journal_scheme, unit) state" where
  "log_event E i action d = do {
     _ \<leftarrow> consult (\<lambda>h. ask_log E h i action d) (Logged i action d); State_Monad.return () }"

definition src_abandon :: "inputs \<Rightarrow> int \<Rightarrow> ustring \<Rightarrow> ('a journal_scheme, ustring + unit) state" where
  "src_abandon E i reason = consult (\<lambda>h. ask_abandon E h i reason) (Abandoned i reason)"

definition src_reopen :: "inputs \<Rightarrow> int \<Rightarrow> ustring \<Rightarrow> ('a journal_scheme, ustring + unit) state" where
  "src_reopen E i reason = consult (\<lambda>h. ask_reopen E h i reason) (Reopened i reason)"

definition src_open_subtasks :: "inputs \<Rightarrow> int \<Rightarrow> ('a journal_scheme, ustring + nat option) state" where
  "src_open_subtasks E i = consult (\<lambda>h. ask_subtasks E h i) (Counted_Subtasks i)"

definition runner_step :: "inputs \<Rightarrow> step_request \<Rightarrow> ('a journal_scheme, ustring + step_outcome) state" where
  "runner_step E r = consult (\<lambda>h. ask_step E h r) (Ran_Step r)"

definition run_shell :: "inputs \<Rightarrow> string \<Rightarrow> nat \<Rightarrow>
    ('a journal_scheme, shell_run_error + int option \<times> ustring) state" where
  "run_shell E command timeout = consult (\<lambda>h. ask_shell E h command timeout) (Ran_Shell command timeout)"

definition path_exists :: "inputs \<Rightarrow> string \<Rightarrow> ('a journal_scheme, bool) state" where
  "path_exists E p = consult (\<lambda>h. ask_exists E h p) (Asked_Exists p)"

definition metadata :: "inputs \<Rightarrow> string \<Rightarrow> ('a journal_scheme, (bool \<times> nat \<times> ustring option) option) state" where
  "metadata E p = consult (\<lambda>h. ask_metadata E h p) (Asked_Metadata p)"

definition read_bounded :: "inputs \<Rightarrow> string \<Rightarrow> ('a journal_scheme, ustring + ustring) state" where
  "read_bounded E p = consult (\<lambda>h. ask_file E h p) (Read_File p)"

text \<open>Every primitive but the clock is one entry of the journal.\<close>

lemmas primitives = is_cancelled_def now_def elapsed_def src_start_def src_complete_def src_add_note_def
  log_event_def src_abandon_def src_reopen_def src_open_subtasks_def runner_step_def run_shell_def
  path_exists_def metadata_def read_bounded_def

end
