(* ===== verification/Harness_Check.thy ===== *)
theory Harness_Check
  imports Harness_World
begin

text \<open>
  The judge of the harness: acceptance checks and how they are run, verdicts, and the guard that
  fingerprints what a check reads (\<open>AcceptanceCheck\<close>, \<open>AcceptanceVerdict\<close> and
  \<open>EvidenceGuard\<close> of \<open>nanna-agent/src/harness.rs\<close>). A verdict is a pass, a failure or
  unknown: a check that hung or whose evidence moved says nothing about the work.
\<close>

section \<open>Bounds and texts\<close>

definition ACCEPTANCE_TIMEOUT_SECS_DEFAULT :: nat where "ACCEPTANCE_TIMEOUT_SECS_DEFAULT = 120"
definition ACCEPTANCE_TIMEOUT_SECS_MAX :: nat where "ACCEPTANCE_TIMEOUT_SECS_MAX = 600"
definition STEP_RESULT_TAIL_MAX_BYTES :: nat where "STEP_RESULT_TAIL_MAX_BYTES = 2000"
definition ACCEPTANCE_OUTPUT_EXCERPT_CHARS :: nat where "ACCEPTANCE_OUTPUT_EXCERPT_CHARS = 400"

abbreviation secs :: "nat \<Rightarrow> nat" where "secs n \<equiv> n * 1000000000"

definition idec :: "int \<Rightarrow> ustring" where
  "idec i = (if i < 0 then lit ''-'' @ udec (nat (- i)) else udec (nat i))"

definition hex16 :: "64 word \<Rightarrow> ustring" where
  "hex16 w = map (\<lambda>i. let d = unat (drop_bit (4 * i) w AND 15) in if d < 10 then 48 + d else 87 + d) (rev [0..<16])"

definition text_tail :: "ustring \<Rightarrow> nat \<Rightarrow> ustring" where
  "text_tail t max_bytes =
     (let trimmed = utrim t
      in if ulen trimmed \<le> max_bytes then trimmed else ceil_drop (ulen trimmed - max_bytes) trimmed)"

definition text_head :: "ustring \<Rightarrow> nat \<Rightarrow> ustring" where
  "text_head t max_bytes = (if ulen t \<le> max_bytes then t else floor_take max_bytes t)"

text \<open>The components of a path, and the last that is not empty.\<close>

definition path_components :: "ustring \<Rightarrow> ustring list" where
  "path_components p = usplit (\<lambda>c. c = 47) (map (\<lambda>c. if c = 92 then 47 else c) p)"

definition last_nonempty :: "ustring list \<Rightarrow> ustring option" where
  "last_nonempty ps = (case filter (\<lambda>c. c \<noteq> []) (rev ps) of [] \<Rightarrow> None | c # _ \<Rightarrow> Some c)"

definition final_component :: "ustring \<Rightarrow> ustring" where
  "final_component p = (case last_nonempty (path_components p) of None \<Rightarrow> [] | Some c \<Rightarrow> c)"

fun ucontains :: "ustring \<Rightarrow> ustring \<Rightarrow> bool" where
  "ucontains [] p = (p = [])"
| "ucontains (c # s) p = (prefix p (c # s) \<or> ucontains s p)"

section \<open>Verdicts\<close>

definition pass_verdict :: "ustring \<Rightarrow> acceptance_verdict" where
  "pass_verdict detail = \<lparr>v_passed = True, v_detail = detail, v_timed_out = False,
     v_evidence_changed = False, v_output_head = None\<rparr>"

definition fail_verdict :: "ustring \<Rightarrow> acceptance_verdict" where
  "fail_verdict detail = \<lparr>v_passed = False, v_detail = detail, v_timed_out = False,
     v_evidence_changed = False, v_output_head = None\<rparr>"

definition timeout_verdict :: "ustring \<Rightarrow> acceptance_verdict" where
  "timeout_verdict detail = \<lparr>v_passed = False, v_detail = detail, v_timed_out = True,
     v_evidence_changed = False, v_output_head = None\<rparr>"

definition with_output_head :: "ustring \<Rightarrow> acceptance_verdict \<Rightarrow> acceptance_verdict" where
  "with_output_head combined v =
     (let head = utrim (text_head (dropWhile is_uwhite combined) ACCEPTANCE_OUTPUT_EXCERPT_CHARS)
      in if head = [] then v else v\<lparr>v_output_head := Some head\<rparr>)"

definition is_unknown :: "acceptance_verdict \<Rightarrow> bool" where
  "is_unknown v = (v_timed_out v \<or> v_evidence_changed v)"

definition with_evidence_drift :: "ustring \<Rightarrow> acceptance_verdict \<Rightarrow> acceptance_verdict" where
  "with_evidence_drift sentence v =
     (let v = v\<lparr>v_detail := v_detail v @ NL @ sentence\<rparr>
      in if v_passed v then v\<lparr>v_passed := False, v_evidence_changed := True\<rparr> else v)"

section \<open>What a check says of itself\<close>

fun describe :: "acceptance_check \<Rightarrow> ustring" where
  "describe (Command c _) = lit ''command `'' @ lit c @ lit ''` must exit 0''"
| "describe (FileExists p) = lit ''file `'' @ lit p @ lit ''` must exist''"
| "describe (Regex r (Some p) _ _) = lit ''file `'' @ lit p @ lit ''` must match /'' @ lit r @ lit ''/''"
| "describe (Regex r None (Some c) _) = lit ''output of `'' @ lit c @ lit ''` must match /'' @ lit r @ lit ''/''"
| "describe (Regex r None None _) = lit ''output must match /'' @ lit r @ lit ''/''"

fun self_check_command :: "acceptance_check \<Rightarrow> string option" where
  "self_check_command (Command c _) = Some c"
| "self_check_command (FileExists _) = None"
| "self_check_command (Regex _ _ c _) = c"

definition text_mentions :: "ustring \<Rightarrow> string \<Rightarrow> bool" where
  "text_mentions file_name s = ucontains (map (\<lambda>c. if c = 92 then 47 else c) (lit s)) file_name"

definition references_path :: "acceptance_check \<Rightarrow> ustring \<Rightarrow> bool" where
  "references_path check touched =
     (case last_nonempty (path_components touched) of
        None \<Rightarrow> False
      | Some file_name \<Rightarrow>
         (case check of
            Command c _ \<Rightarrow> text_mentions file_name c
          | FileExists p \<Rightarrow> text_mentions file_name p
          | Regex _ p c _ \<Rightarrow> (case p of None \<Rightarrow> False | Some s \<Rightarrow> text_mentions file_name s)
              \<or> (case c of None \<Rightarrow> False | Some s \<Rightarrow> text_mentions file_name s)))"

text \<open>The typed check as \<open>serde\<close> writes it: the tag first, absent options left out.\<close>

definition timeout_entry :: "nat option \<Rightarrow> (string \<times> json) list" where
  "timeout_entry t = (case t of None \<Rightarrow> [] | Some n \<Rightarrow> [(''timeout_secs'', JNum (PosInt n))])"

definition text_entry :: "string \<Rightarrow> string option \<Rightarrow> (string \<times> json) list" where
  "text_entry k v = (case v of None \<Rightarrow> [] | Some s \<Rightarrow> [(k, JStr s)])"

fun check_json :: "acceptance_check \<Rightarrow> json" where
  "check_json (Command c t) =
     JObj ([(''kind'', JStr ''command''), (''command'', JStr c)] @ timeout_entry t)"
| "check_json (FileExists p) = JObj [(''kind'', JStr ''file_exists''), (''path'', JStr p)]"
| "check_json (Regex r p c t) =
     JObj ([(''kind'', JStr ''regex''), (''pattern'', JStr r)] @ text_entry ''path'' p
       @ text_entry ''command'' c @ timeout_entry t)"

definition referenced_paths :: "acceptance_check \<Rightarrow> string list" where
  "referenced_paths check = acceptance_referenced_paths (check_json check)"

definition evidence_paths :: "acceptance_check \<Rightarrow> string list" where
  "evidence_paths check = acceptance_evidence_paths (check_json check)"

definition check_identity :: "inputs \<Rightarrow> acceptance_check \<Rightarrow> 64 word" where
  "check_identity E check = hash_str E [lit (ser_check E (check_json check))]"

section \<open>Running a check\<close>

definition effective_timeout :: "nat option \<Rightarrow> nat" where
  "effective_timeout t = secs (max 1 (min (case t of None \<Rightarrow> ACCEPTANCE_TIMEOUT_SECS_DEFAULT | Some n \<Rightarrow> n)
     ACCEPTANCE_TIMEOUT_SECS_MAX))"

definition capped_timeout :: "nat option \<Rightarrow> nat \<Rightarrow> nat \<times> bool" where
  "capped_timeout cap configured =
     (case cap of None \<Rightarrow> (configured, False)
      | Some c \<Rightarrow> (let floored = max c (secs 1) in (min configured floored, floored < configured)))"

definition timeout_detail :: "string \<Rightarrow> nat \<Rightarrow> bool \<Rightarrow> ustring" where
  "timeout_detail command n capped =
     lit ''`'' @ lit command @ lit ''` ran '' @ udec n
     @ lit ''s without finishing and was killed '' @ EM_DASH @ lit '' no verdict''
     @ (if capped then lit '' (re-run capped at this run's measured work cost '' @ EM_DASH
        @ lit '' the full ceiling was already spent once on this check without an answer)''
        else [])"

definition run_command_check :: "inputs \<Rightarrow> string \<Rightarrow> nat \<Rightarrow> bool \<Rightarrow> ('a journal_scheme, acceptance_verdict) state" where
  "run_command_check E command timeout capped = do {
     answer \<leftarrow> run_shell E command timeout;
     State_Monad.return (case answer of
       Inr (exit_code, combined) \<Rightarrow>
         (let tail = drop (length combined - ACCEPTANCE_OUTPUT_EXCERPT_CHARS) combined;
              detail = lit ''`'' @ lit command @ lit ''` exited ''
                @ (case exit_code of None \<Rightarrow> lit ''signal'' | Some c \<Rightarrow> idec c) @ lit '' '' @ EM_DASH @ lit '' '' @ utrim tail
          in with_output_head combined (if exit_code = Some 0 then pass_verdict detail else fail_verdict detail))
     | Inl (Timeout n) \<Rightarrow> timeout_verdict (timeout_detail command n capped)
     | Inl (Other e) \<Rightarrow> fail_verdict (lit ''`'' @ lit command @ lit ''` failed to run: '' @ e)) }"

definition match_haystack :: "string \<Rightarrow> (ustring \<Rightarrow> bool) \<Rightarrow> ustring \<Rightarrow> acceptance_verdict" where
  "match_haystack pat is_match haystack = with_output_head haystack
     (if is_match haystack then pass_verdict (lit ''pattern /'' @ lit pat @ lit ''/ matched'')
      else fail_verdict (lit ''pattern /'' @ lit pat @ lit ''/ did not match ('' @ udec (ulen haystack)
      @ lit '' bytes searched)''))"

definition run_with_timeout_cap :: "inputs \<Rightarrow> acceptance_check \<Rightarrow> nat option \<Rightarrow> ('a journal_scheme, acceptance_verdict) state" where
  "run_with_timeout_cap E check cap = (case check of
     Command c t \<Rightarrow> (case capped_timeout cap (effective_timeout t) of (timeout, capped) \<Rightarrow>
        run_command_check E c timeout capped)
   | FileExists p \<Rightarrow> do {
        there \<leftarrow> path_exists E p;
        State_Monad.return (if there then pass_verdict (lit ''file exists: '' @ display_path E p)
          else fail_verdict (lit ''file does not exist: '' @ display_path E p)) }
   | Regex pat path command t \<Rightarrow> (case regex_new E pat of
        Inl e \<Rightarrow> State_Monad.return (fail_verdict (lit ''invalid regex /'' @ lit pat @ lit ''/: '' @ e))
      | Inr is_match \<Rightarrow> (case path of
          Some p \<Rightarrow> do {
            content \<leftarrow> read_bounded E p;
            State_Monad.return (case content of
              Inl e \<Rightarrow> fail_verdict (lit ''cannot read '' @ display_path E p @ lit '': '' @ e)
            | Inr haystack \<Rightarrow> match_haystack pat is_match haystack) }
        | None \<Rightarrow> (case command of
            Some c \<Rightarrow> (case capped_timeout cap (effective_timeout t) of (timeout, capped) \<Rightarrow> do {
              answer \<leftarrow> run_shell E c timeout;
              State_Monad.return (case answer of
                Inr (_, combined) \<Rightarrow> match_haystack pat is_match combined
              | Inl (Timeout n) \<Rightarrow> timeout_verdict (timeout_detail c n capped)
              | Inl (Other e) \<Rightarrow> fail_verdict (lit ''command failed: '' @ e)) })
          | None \<Rightarrow> State_Monad.return (fail_verdict (lit ''regex check has neither path nor command''))))))"

section \<open>The evidence guard\<close>

record evidence_file =
  ef_path :: string
  ef_hash :: "64 word"
  ef_len :: nat
  ef_modified :: ustring

record evidence_guard =
  baselines :: "64 word \<Rightarrow> evidence_file list option"
  session_touched :: "ustring set"

definition fingerprint_file :: "inputs \<Rightarrow> string \<Rightarrow> ('a journal_scheme, evidence_file list) state" where
  "fingerprint_file E p = do {
     meta \<leftarrow> metadata E p;
     case meta of
       None \<Rightarrow> State_Monad.return []
     | Some m \<Rightarrow> (case m of (is_file, rest) \<Rightarrow>
         if \<not> is_file then State_Monad.return []
         else do {
           content \<leftarrow> read_bounded E p;
           State_Monad.return (case content of
             Inl _ \<Rightarrow> []
           | Inr c \<Rightarrow> [\<lparr>ef_path = p, ef_hash = hash_str E [c], ef_len = fst rest,
                        ef_modified = (case snd rest of None \<Rightarrow> [] | Some t \<Rightarrow> t)\<rparr>]) }) }"

primrec fingerprint_files :: "inputs \<Rightarrow> string list \<Rightarrow> ('a journal_scheme, evidence_file list) state" where
  "fingerprint_files E [] = State_Monad.return []"
| "fingerprint_files E (p # ps) = do {
     here \<leftarrow> fingerprint_file E p;
     rest \<leftarrow> fingerprint_files E ps;
     State_Monad.return (here @ rest) }"

definition fingerprint_paths :: "inputs \<Rightarrow> string list \<Rightarrow> ('a journal_scheme, evidence_file list) state" where
  "fingerprint_paths E paths = do {
     files \<leftarrow> fingerprint_files E paths;
     State_Monad.return (sort_key ef_path files) }"

definition note_touched :: "ustring list \<Rightarrow> evidence_guard \<Rightarrow> evidence_guard" where
  "note_touched paths g =
     g\<lparr>session_touched := session_touched g \<union> set (filter (\<lambda>c. c \<noteq> []) (map final_component paths))\<rparr>"

definition ensure_baseline :: "inputs \<Rightarrow> acceptance_check \<Rightarrow> evidence_guard \<Rightarrow> ('a journal_scheme, evidence_guard) state" where
  "ensure_baseline E check g =
     (let i = check_identity E check
      in if baselines g i \<noteq> None then State_Monad.return g
         else do {
           files \<leftarrow> fingerprint_paths E (evidence_paths check);
           State_Monad.return (g\<lparr>baselines := (baselines g)(i \<mapsto> files)\<rparr>) })"

definition attribution :: "ustring set \<Rightarrow> evidence_file \<Rightarrow> ustring" where
  "attribution touched f =
     (if ef_modified f = [] then []
      else if final_component (lit (ef_path f)) \<in> touched
      then lit '', modified by this session at '' @ ef_modified f
      else lit '', last modified '' @ ef_modified f)"

definition drift_clause :: "ustring set \<Rightarrow> evidence_file list \<Rightarrow> evidence_file \<Rightarrow> ustring list" where
  "drift_clause touched previous now_f =
     (case find (\<lambda>old. ef_path old = ef_path now_f) previous of
        None \<Rightarrow> []
      | Some old \<Rightarrow>
          if ef_hash old = ef_hash now_f then []
          else [lit ''`'' @ lit (ef_path now_f) @ lit ''` content '' @ hex16 (ef_hash old) @ lit '' ''
        @ [8594] @ lit '' '' @ hex16 (ef_hash now_f) @ lit '' ('' @ udec (ef_len now_f)
        @ lit '' bytes now'' @ attribution touched now_f @ lit '')''])"

definition drift_sentence :: "ustring list \<Rightarrow> ustring option" where
  "drift_sentence clauses = (if clauses = [] then None else Some (
     lit ''EVIDENCE CHANGED SINCE THIS CHECK WAS LAST BASELINED: '' @ ujoin (lit ''; '') clauses
     @ lit ''. This check renders its verdict THROUGH the file(s) named there, so a ''
     @ lit ''verdict reached over new content is UNKNOWN rather than a pass '' @ EM_DASH
     @ lit '' it is not counted toward any budget, it completes nothing, and it earns no ''
     @ lit ''progress credit. The new content is now the baseline, so the very next run of ''
     @ lit ''this check decides. If you changed what the check runs in order to make it ''
     @ lit ''pass, change the artifact instead and re-run the check.''))"

definition observe_evidence :: "inputs \<Rightarrow> acceptance_check \<Rightarrow> evidence_guard \<Rightarrow>
    ('a journal_scheme, ustring option \<times> evidence_guard) state" where
  "observe_evidence E check g = do {
     current \<leftarrow> fingerprint_paths E (evidence_paths check);
     let i = check_identity E check; g' = g\<lparr>baselines := (baselines g)(i \<mapsto> current)\<rparr>
     in State_Monad.return (case baselines g i of
          None \<Rightarrow> (None, g')
        | Some previous \<Rightarrow>
            (drift_sentence (concat (map (drift_clause (session_touched g) previous) current)), g')) }"

section \<open>Artifacts and findings\<close>

definition artifact_document :: "evidence_file \<Rightarrow> document" where
  "artifact_document f = DObject [(''path'', DText (lit (ef_path f))), (''bytes'', DNum (int (ef_len f))),
     (''modified'', DText (ef_modified f))]"

definition verdict_artifacts :: "inputs \<Rightarrow> acceptance_check \<Rightarrow> ('a journal_scheme, document list) state" where
  "verdict_artifacts E check = do {
     files \<leftarrow> fingerprint_paths E (referenced_paths check);
     State_Monad.return (map artifact_document files) }"

fun doc_get :: "document \<Rightarrow> string \<Rightarrow> document option" where
  "doc_get (DObject kvs) k = map_of kvs k"
| "doc_get _ _ = None"

fun doc_str :: "document option \<Rightarrow> ustring option" where
  "doc_str (Some (DText t)) = Some t"
| "doc_str _ = None"

fun doc_u64 :: "document option \<Rightarrow> nat option" where
  "doc_u64 (Some (DNum n)) = (if 0 \<le> n then Some (nat n) else None)"
| "doc_u64 _ = None"

definition artifact_name :: "document \<Rightarrow> ustring list" where
  "artifact_name a = (case (doc_str (doc_get a ''path''), doc_u64 (doc_get a ''bytes'')) of
     (Some path, Some bytes) \<Rightarrow>
       (let modified = (case doc_str (doc_get a ''modified'') of None \<Rightarrow> [] | Some t \<Rightarrow> t)
        in [if modified = [] then path @ lit '' ('' @ udec bytes @ lit '' bytes)''
            else path @ lit '' ('' @ udec bytes @ lit '' bytes, modified '' @ modified @ lit '')''])
   | _ \<Rightarrow> [])"

definition verified_detail :: "acceptance_verdict \<Rightarrow> document list \<Rightarrow> ustring" where
  "verified_detail v artifacts =
     (let named = concat (map artifact_name artifacts)
      in text_head (v_detail v) 240
         @ (if named = [] then [] else lit '' '' @ EM_DASH @ lit '' on disk: '' @ ujoin (lit '', '') named))"

definition hanging_check_finding :: "acceptance_check \<Rightarrow> acceptance_verdict \<Rightarrow> nat \<Rightarrow> ustring" where
  "hanging_check_finding check v consecutive =
     lit ''ACCEPTANCE CHECK HUNG (no verdict '' @ EM_DASH
     @ lit '' this does NOT mean the work failed): '' @ v_detail v
     @ (if 1 < consecutive then NL @ lit ''That is '' @ udec consecutive @ lit '' consecutive hangs of this same check.'' else [])
     @ NL @ lit ''Treat the hang itself as a FINDING about the artifact: something this command ''
     @ lit ''runs blocks forever and never exits. Do not just re-run it '' @ EM_DASH
     @ lit '' reproduce the hang with a short timeout, find the blocking code path, fix ''
     @ lit ''it, and only then re-run the check.''
     @ (case self_check_command check of None \<Rightarrow> []
        | Some command \<Rightarrow> NL @ lit ''The hanging command is: `'' @ lit command
        @ lit ''` (wrap it, e.g. `timeout 10 '' @ lit command
        @ lit ''`, to see where it sticks).'')"

definition evidence_changed_finding :: "acceptance_check \<Rightarrow> acceptance_verdict \<Rightarrow> ustring" where
  "evidence_changed_finding check v =
     lit ''ACCEPTANCE VERDICT NOT COUNTED (its evidence moved '' @ EM_DASH
     @ lit '' this does NOT mean the work failed): '' @ v_detail v
     @ (case self_check_command check of None \<Rightarrow> []
        | Some command \<Rightarrow> NL @ lit ''The check is: `'' @ lit command @ lit ''` '' @ EM_DASH
        @ lit '' run it again now that the changed files are the baseline, and the next ''
        @ lit ''verdict counts.'')"

definition failed_acceptance_result :: "acceptance_check \<Rightarrow> acceptance_verdict \<Rightarrow> bool \<Rightarrow> ustring" where
  "failed_acceptance_result check v repeated =
     lit ''Done-condition NOT met: ''
     @ (if ulen (v_detail v) \<le> STEP_RESULT_TAIL_MAX_BYTES then v_detail v
        else lit ''[showing last '' @ udec STEP_RESULT_TAIL_MAX_BYTES @ lit '' of ''
        @ udec (ulen (v_detail v)) @ lit '' bytes '' @ EM_DASH
        @ lit '' full verdict is in the acceptance_checked run log] ''
        @ text_tail (v_detail v) STEP_RESULT_TAIL_MAX_BYTES)
     @ (if repeated then lit '' (you repeated the exact same tool calls as last step '' @ EM_DASH
        @ lit '' change approach)'' else [])
     @ (case self_check_command check of None \<Rightarrow> []
        | Some command \<Rightarrow> NL @ lit ''That verdict came from the harness running: `'' @ lit command @ lit ''`'' @ NL
        @ lit ''Before changing anything, read the file(s) this command runs (use read_file), ''
        @ lit ''understand every assertion, then make them pass. Do not guess.'')"

text \<open>\<open>lines()\<close> and \<open>split_whitespace()\<close>.\<close>

definition strip_cr :: "ustring \<Rightarrow> ustring" where
  "strip_cr l = (if l \<noteq> [] \<and> last l = 13 then butlast l else l)"

definition ulines :: "ustring \<Rightarrow> ustring list" where
  "ulines t = (let ls = usplit (\<lambda>c. c = 10) t
     in map strip_cr (butlast ls) @ (if last ls = [] then [] else [last ls]))"

definition uwords :: "ustring \<Rightarrow> ustring list" where
  "uwords t = filter (\<lambda>w. w \<noteq> []) (usplit is_uwhite t)"

definition failure_signature :: "inputs \<Rightarrow> ustring \<Rightarrow> 64 word" where
  "failure_signature E detail =
     (let line = (case filter (\<lambda>l. l \<noteq> []) (map utrim (ulines detail)) of [] \<Rightarrow> [] | l # _ \<Rightarrow> l)
      in hash_str E [ujoin [32] (uwords line)])"

end
