(* ===== verification/Harness_Text.thy ===== *)
theory Harness_Text
  imports Harness_Check
begin

text \<open>
  The texts of the harness: the step and replan prompts, the digest of what is verified, the
  notices that ride in a prompt, and the pure tests that read a step's outcome
  (\<open>nanna-agent/src/harness.rs\<close>).
\<close>

section \<open>What a run records\<close>

record run_outcome =
  vo_id :: int
  vo_title :: ustring
  vo_detail :: ustring
  vo_already_satisfied :: bool

record abandoned_unmet =
  au_id :: int
  au_title :: ustring
  au_detail :: ustring

record abandoned_unverifiable =
  av_id :: int
  av_title :: ustring
  av_reason :: ustring
  av_last_result :: "ustring option"

type_synonym closed_item = "int \<times> ustring \<times> acceptance_check"

section \<open>Prompts\<close>

text \<open>The lines that fit, in order, and how many did not.\<close>

fun fit_lines :: "nat \<Rightarrow> ustring \<Rightarrow> nat \<Rightarrow> ustring list \<Rightarrow> ustring \<times> nat" where
  "fit_lines reserve t omitted [] = (t, omitted)"
| "fit_lines reserve t omitted (l # ls) =
     (if ulen t + ulen l + reserve > STEP_RESULT_TAIL_MAX_BYTES then fit_lines reserve t (omitted + 1) ls
      else fit_lines reserve (t @ l) omitted ls)"

definition digest_header :: ustring where
  "digest_header = lit ''These are VERIFIED WORKING right now '' @ EM_DASH
     @ lit '' each one's done-condition was run by the harness and PASSED, and the verdict ''
     @ lit ''names the artifact state the environment confirmed. A rewrite that loses any ''
     @ lit ''of these is a regression, not progress: if your change must drop one, say ''
     @ lit ''which and why before you make it. Otherwise preserve them '' @ EM_DASH
     @ lit '' read the file and extend it, do not reconstruct it.'' @ NL"

definition verified_digest :: "run_outcome list \<Rightarrow> ustring option" where
  "verified_digest verified =
     (if verified = [] then None
      else (case fit_lines 0 digest_header 0
              (map (\<lambda>v. lit ''- #'' @ idec (vo_id v) @ lit '' '' @ vo_title v @ lit '': '' @ vo_detail v
                @ NL) (rev verified)) of
        (t, omitted) \<Rightarrow> Some (t @ (if 0 < omitted then
          lit ''- '' @ [8230] @ lit ''and '' @ udec omitted
          @ lit '' more verified item(s) not shown here '' @ EM_DASH
          @ lit '' they are equally established; ask the task store for the full list before a ''
          @ lit ''wide rewrite.'' @ NL else []))))"

definition stable_prefix :: "ustring \<Rightarrow> ustring" where
  "stable_prefix goal =
     lit ''== GOAL (immutable '' @ EM_DASH @ lit '' this is the whole point of the run) =='' @ NL
     @ goal @ NL2 @ lit ''== HOW TO WORK =='' @ NL
     @ lit ''You are executing one step of a long-running plan. You do not need to ''
     @ lit ''remember anything between steps '' @ EM_DASH
     @ lit '' the plan and everything you have already done are kept for you.'' @ NL
     @ lit ''- Advance the CURRENT TASK below by exactly one concrete action.'' @ NL
     @ lit ''- SAY WHAT YOU ARE DOING: open with ONE short sentence naming the action you ''
     @ lit ''are about to take and why it follows from the last result. Someone is ''
     @ lit ''watching this run and that sentence is all they see.'' @ NL
     @ lit ''- GET THE RIGHT TOOL FIRST. You start each run able to see only one tool, for ''
     @ lit ''discovering the others. Everything you need '' @ EM_DASH
     @ lit '' running commands, reading, writing and editing files, searching your memory ''
     @ EM_DASH
     @ lit '' exists and is waiting behind it. Ask for what the task needs, then use the ''
     @ lit ''real tool.'' @ NL
     @ lit ''Do not improvise around a tool you cannot see: writing a file by shell ''
     @ lit ''redirection instead of the file tool, or piping a heredoc instead of editing, ''
     @ lit ''skips the checks that keep this run alive and is how work gets silently lost.'' @ NL
     @ lit ''- Use the tools you have; do not narrate actions you did not take. Describe ''
     @ lit ''what actually happened, including failures '' @ EM_DASH
     @ lit '' a wrong result reported honestly is worth more than a confident guess.'' @ NL
     @ lit ''- ONE artifact per job: change the real file in place. Do not build a ''
     @ lit ''parallel copy (`thing_v2`, `thing.new`, `thing.backup`) '' @ EM_DASH
     @ lit '' whatever reads the real file keeps reading the original, so work in a copy ''
     @ lit ''never reaches the person who asked for it. This applies to shell redirects ''
     @ lit ''too, not just the file tools.'' @ NL
     @ lit ''- Never mark work done yourself: the harness verifies the task's ''
     @ lit ''done-condition and records completion.'' @ NL2"

definition task_line :: "task_step \<Rightarrow> ustring" where
  "task_line step = lit ''== CURRENT TASK =='' @ NL @ lit ''Task #'' @ idec (st_id step) @ lit '': ''
     @ st_title step @ NL
     @ (case st_description step of None \<Rightarrow> [] | Some d \<Rightarrow> if d = [] then [] else d @ NL)"

definition condition_lines :: "acceptance_check option \<Rightarrow> ustring" where
  "condition_lines acceptance = (case acceptance of
     Some check \<Rightarrow>
       lit ''Done when (checked by the harness, not by you): '' @ describe check @ NL
       @ (case self_check_command check of None \<Rightarrow> []
          | Some command \<Rightarrow> lit ''Before you finish this step, RUN THAT CHECK YOURSELF: exec `'' @ lit command
          @ lit ''`. Read its output, fix what it reports, and run it again until it passes. Do ''
          @ lit ''not end the step on an unverified guess.'' @ NL)
   | None \<Rightarrow> lit ''No machine check exists for this task. When it is genuinely finished, say ''
       @ lit ''TASK COMPLETE on its own line.'' @ NL)"

definition build_step_prompt :: "ustring \<Rightarrow> task_step \<Rightarrow> ustring option \<Rightarrow> ustring option \<Rightarrow> ustring \<Rightarrow> ustring" where
  "build_step_prompt goal step last_result digest line =
     stable_prefix goal @ task_line step @ condition_lines (st_acceptance step)
     @ (if st_notes_tail step = [] then []
        else lit ''Working notes so far:'' @ NL
          @ concat (map (\<lambda>note. lit ''- '' @ note @ NL) (st_notes_tail step)))
     @ (case last_result of None \<Rightarrow> []
        | Some r \<Rightarrow> if r = [] then [] else NL @ lit ''== LAST RESULT =='' @ NL @ r @ NL)
     @ (case digest of None \<Rightarrow> []
        | Some d \<Rightarrow> if d = [] then [] else NL @ lit ''== VERIFIED WORKING (do not regress) =='' @ NL @ d)
     @ NL @ line @ NL"

definition build_replan_prompt :: "ustring \<Rightarrow> task_step \<Rightarrow> ustring \<Rightarrow> ustring" where
  "build_replan_prompt goal step stall_summary =
     stable_prefix goal
     @ lit ''== REPLAN REQUIRED =='' @ NL @ lit ''Task #'' @ idec (st_id step) @ lit '': ''
     @ st_title step @ lit '' has made no verifiable progress ('' @ stall_summary @ lit '').''
     @ NL
     @ lit ''Break it into 2-5 smaller subtasks, added to the task store as children of ''
     @ lit ''task #'' @ idec (st_id step) @ lit '' '' @ EM_DASH
     @ lit '' discover the task-management tool if you do not already have it. Each ''
     @ lit ''subtask needs a machine-checkable acceptance condition (a command to run, a ''
     @ lit ''file that must exist, or a pattern that must match) wherever possible. Make ''
     @ lit ''the first subtask small enough to finish in one step. Do not attempt the work ''
     @ lit ''itself in this step '' @ EM_DASH @ lit '' only decompose.'' @ NL"

definition budget_line :: "nat \<Rightarrow> nat \<Rightarrow> nat \<Rightarrow> nat option \<Rightarrow> nat \<Rightarrow> nat \<Rightarrow> ustring" where
  "budget_line steps completed tokens max_tokens elapsed_ns max_ns =
     (let token_part = (case max_tokens of None \<Rightarrow> udec tokens @ lit '' tokens used''
        | Some m \<Rightarrow> udec tokens @ lit '' of '' @ udec m @ lit '' tokens used'')
      in lit ''== BUDGET == step '' @ udec (steps + 1) @ lit ''; '' @ udec completed
      @ lit '' items completed; '' @ token_part @ lit ''; '' @ udec (elapsed_ns div secs 60)
      @ lit '' of '' @ udec (max_ns div secs 60) @ lit '' minutes elapsed'')"

section \<open>Notices\<close>

definition narration_steering_text :: "nat \<Rightarrow> ustring" where
  "narration_steering_text level =
     (if level = 1 then lit ''NOTE: your previous step produced only narration '' @ EM_DASH
      @ lit '' it described work but called no tool, so nothing happened. Start this step ''
      @ lit ''with a tool call.''
      else if level = 2 then lit ''IMPORTANT: two steps in a row have produced prose and ZERO tool calls. Text ''
      @ lit ''does not change the world. Do not describe what you would do '' @ EM_DASH
      @ lit '' CALL A TOOL as your very first action.''
      else lit ''STOP NARRATING. Every step that emits only text is discarded. Your first ''
      @ lit ''output this step MUST be a tool call (read_file, exec, write_file '' @ EM_DASH
      @ lit '' whichever the task needs). If you cannot decide, run the task's check ''
      @ lit ''command with exec and act on its output.'')"

definition stalled_escalation_text :: "nat \<Rightarrow> nat \<Rightarrow> ustring" where
  "stalled_escalation_text fruitless_steps check_timeouts =
     lit ''STALLED '' @ EM_DASH @ lit '' READ THIS BEFORE ACTING. '' @ udec fruitless_steps
     @ lit '' steps on this task have gone by without its done-condition flipping, and the ''
     @ lit ''plan-it-into-smaller-pieces step that followed produced no new tasks. You are ''
     @ lit ''not being asked to plan again.'' @ NL
     @ lit ''Take ONE concrete action this step, chosen from the result above: the ''
     @ lit ''smallest thing that would make that verdict come out differently. Name it in ''
     @ lit ''one sentence, do it with a tool, then re-run the check.''
     @ (if 0 < check_timeouts then NL @ lit ''The check has also hung '' @ udec check_timeouts
        @ lit '' consecutive time(s) with no verdict, so the one action to take is finding ''
        @ lit ''what it blocks on '' @ EM_DASH
        @ lit '' reproduce it under a short timeout first.'' else [])
     @ NL @ lit ''If the task truly cannot be advanced here, say exactly what blocks it and ''
     @ lit ''what you tried '' @ EM_DASH
     @ lit '' that is a useful answer; another description of the plan is not.''"

definition notice_header :: ustring where
  "notice_header = lit ''== VERIFIED WORK UN-DONE =='' @ NL
     @ lit ''The harness re-ran done-conditions that had already PASSED. Your recent ''
     @ lit ''changes broke them:'' @ NL"

definition notice_footer :: ustring where
  "notice_footer = lit ''Disk is truth: those items are reopened and their checks FAIL right now. ''
     @ lit ''Restore them with the smallest edit that makes the checks pass again before ''
     @ lit ''doing anything else '' @ EM_DASH @ lit '' do not rewrite whole files.''"

definition regression_notice_text :: "(int \<times> ustring \<times> ustring) list \<Rightarrow> ustring" where
  "regression_notice_text regressions =
     (case fit_lines (ulen notice_footer + 80) notice_header 0
        (map (\<lambda>(i, title, detail). lit ''- you un-did verified work #'' @ idec i @ lit '' ('' @ title @ lit ''): ''
          @ detail @ NL) regressions) of
        (t, omitted) \<Rightarrow> t
          @ (if 0 < omitted then lit ''- '' @ [8230] @ lit ''and '' @ udec omitted
          @ lit '' more (each reopened task carries its failing verdict)'' @ NL else [])
          @ notice_footer)"

definition abandonment_headline :: "nat \<Rightarrow> nat \<Rightarrow> nat \<Rightarrow> ustring" where
  "abandonment_headline steps_run fruitless_charges replans =
     lit ''abandoned after '' @ udec steps_run @ lit '' steps ('' @ udec replans
     @ lit '' of them replans) made no verifiable progress; '' @ udec fruitless_charges
     @ lit '' no-progress charges spent (a step repeating the last one is charged twice)''"

section \<open>Reading a step\<close>

definition ascii_lower :: "nat \<Rightarrow> nat" where
  "ascii_lower c = (if 65 \<le> c \<and> c \<le> 90 then c + 32 else c)"

definition step_claims_completion :: "ustring \<Rightarrow> bool" where
  "step_claims_completion t =
     list_ex (\<lambda>line. map ascii_lower (utrim line) = map ascii_lower (lit ''TASK COMPLETE'')) (ulines t)"

definition steps_repeat :: "step_tool_call list \<Rightarrow> step_tool_call list \<Rightarrow> bool" where
  "steps_repeat previous current = (current \<noteq> [] \<and> previous = current)"

definition tool_free_answer_fingerprint :: "inputs \<Rightarrow> step_outcome \<Rightarrow> 64 word option" where
  "tool_free_answer_fingerprint E outcome =
     (if so_tool_calls outcome \<noteq> [] \<or> so_degenerate_loop outcome then None
      else (let ws = uwords (so_text outcome) in if 0 < length ws then Some (hash_str E ws) else None))"

definition answer_converged :: "64 word option \<Rightarrow> 64 word option \<Rightarrow> bool" where
  "answer_converged previous current = (current \<noteq> None \<and> previous = current)"

definition is_write_tool :: "ustring \<Rightarrow> bool" where
  "is_write_tool name = (name \<in> lit ` {''write_file'', ''write'', ''Write'', ''create_tool'', ''file_buffer''})"

definition is_work_evidence_tool :: "ustring \<Rightarrow> bool" where
  "is_work_evidence_tool name = (is_write_tool name
     \<or> name \<in> lit ` {''edit_file'', ''edit'', ''Edit'', ''exec'', ''bash'', ''Bash''})"

definition touched_path_of :: "string \<Rightarrow> json \<Rightarrow> string option" where
  "touched_path_of name input =
     (if name \<notin> {''write_file'', ''write'', ''Write'', ''edit_file'', ''edit'', ''Edit'', ''file_buffer''} then None
      else (case get_str input ''file_path'' of Some p \<Rightarrow> Some p | None \<Rightarrow> get_str input ''path''))"

definition resweep_due :: "nat \<Rightarrow> nat \<Rightarrow> nat \<Rightarrow> bool" where
  "resweep_due sweep_cost_paid check_cost_paid estimated = (sweep_cost_paid + estimated \<le> check_cost_paid)"

definition select_resweep_targets :: "closed_item list \<Rightarrow> bool \<Rightarrow> ustring list \<Rightarrow> closed_item list" where
  "select_resweep_targets eligible full_sweep_due touched_paths =
     (if full_sweep_due then eligible
      else if touched_paths = [] then []
      else filter (\<lambda>(_, _, check). list_ex (references_path check) touched_paths) eligible)"

definition note_check_outcome :: "inputs \<Rightarrow> (64 word \<Rightarrow> bool option) \<Rightarrow> acceptance_check \<Rightarrow> bool \<Rightarrow>
    (64 word \<Rightarrow> bool option) \<times> bool" where
  "note_check_outcome E outcomes check passed =
     (let i = check_identity E check
      in (outcomes(i \<mapsto> passed), passed \<and> outcomes i = Some False))"

text \<open>The digests of the step's own successful work, and the item's with them.\<close>

definition success_digests :: "inputs \<Rightarrow> step_tool_call list \<Rightarrow> 64 word list" where
  "success_digests E calls =
     map (\<lambda>c. hash_str E [tc_name c, tc_input_digest c, tc_output_digest c])
       (filter (\<lambda>c. tc_success c \<and> is_work_evidence_tool (tc_name c)) calls)"

definition novel_success_evidence :: "inputs \<Rightarrow> 64 word set \<Rightarrow> step_tool_call list \<Rightarrow> 64 word set \<times> bool" where
  "novel_success_evidence E seen calls =
     fold (\<lambda>d (seen, novel). (insert d seen, novel \<or> d \<notin> seen)) (success_digests E calls) (seen, False)"

end
