(* ===== verification/Harness.thy ===== *)
theory Harness
  imports Harness_Text
begin

text \<open>
  The long-horizon runner (\<open>HarnessRun\<close> of \<open>nanna-agent/src/harness.rs\<close>): its ledgers, and
  one pass of its loop, phase by phase. A phase either hands its result on (\<open>Inr\<close>) or ends the
  pass (\<open>Inl\<close>), as the code's \<open>ControlFlow\<close> does. The log lines of \<open>tracing\<close> are left
  out.
\<close>

section \<open>The ledgers of a run\<close>

definition ITEM_RUNNER_ERRORS_MAX :: nat where "ITEM_RUNNER_ERRORS_MAX = 2"
definition NARRATION_LADDER_STEPS :: nat where "NARRATION_LADDER_STEPS = 3"

record item_progress =
  it_steps_without_progress :: nat
  it_replans :: nat
  it_dry_replans :: nat
  it_escalated_asks :: nat
  it_tokens_spent :: nat
  it_last_result :: "ustring option"
  it_last_tool_calls :: "step_tool_call list"
  it_last_answer_fingerprint :: "64 word option"
  it_steps_run :: nat
  it_runner_errors :: nat
  it_consecutive_check_timeouts :: nat
  it_narration_steps :: nat
  it_seen_success_digests :: "64 word set"
  it_seen_failure_signatures :: "64 word set"
  it_acceptance_prechecked :: bool

definition new_item :: item_progress where
  "new_item = \<lparr>it_steps_without_progress = 0, it_replans = 0, it_dry_replans = 0,
     it_escalated_asks = 0, it_tokens_spent = 0, it_last_result = None, it_last_tool_calls = [],
     it_last_answer_fingerprint = None, it_steps_run = 0, it_runner_errors = 0,
     it_consecutive_check_timeouts = 0, it_narration_steps = 0, it_seen_success_digests = {},
     it_seen_failure_signatures = {}, it_acceptance_prechecked = False\<rparr>"

datatype stop_reason =
    AllTasksDone
  | WallClockExhausted
  | TokenBudgetExhausted
  | Cancelled
  | SourceError ustring
  | RunnerErrors ustring

datatype iteration_end = Next | Stop stop_reason

record harness_run = journal +
  started :: nat
  interjected_items :: nat
  steps_taken :: nat
  tool_calls_total :: nat
  side_effect_tool_calls :: nat
  items_completed :: nat
  items_completed_unverified :: nat
  items_already_satisfied :: nat
  items_abandoned :: nat
  items_revived :: nat
  items_regressed_reopened :: nat
  verified_this_run :: "closed_item list"
  abandoned_this_run :: "closed_item list"
  unmet :: "abandoned_unmet list"
  unverifiable :: "abandoned_unverifiable list"
  reopened_once :: "int set"
  check_cost_paid :: nat
  check_runs :: nat
  sweep_cost_paid :: nat
  regression_notice :: "ustring option"
  precheck_ids :: "int set"
  check_outcomes :: "64 word \<Rightarrow> bool option"
  verified_outcomes :: "run_outcome list"
  acceptance_unknown :: nat
  hung_checks :: "64 word set"
  longest_step :: nat
  longest_decided_check :: nat
  run_replans :: nat
  false_success_claims :: nat
  input_tokens :: nat
  output_tokens :: nat
  consecutive_errors :: nat
  last_runner_error :: "ustring option"
  progress :: "int \<Rightarrow> item_progress option"
  failure_owners :: "64 word \<Rightarrow> int list"
  guard :: evidence_guard

definition new_run :: "inputs \<Rightarrow> event list \<Rightarrow> harness_run" where
  "new_run E h = \<lparr>history = Read_Clock (ask_clock E h) # h, started = ask_clock E h,
     interjected_items = 0, steps_taken = 0, tool_calls_total = 0, side_effect_tool_calls = 0,
     items_completed = 0, items_completed_unverified = 0, items_already_satisfied = 0,
     items_abandoned = 0, items_revived = 0, items_regressed_reopened = 0, verified_this_run = [],
     abandoned_this_run = [], unmet = [], unverifiable = [], reopened_once = {},
     check_cost_paid = 0, check_runs = 0, sweep_cost_paid = 0, regression_notice = None,
     precheck_ids = precheck_acceptance_items (cfg E), check_outcomes = (\<lambda>_. None),
     verified_outcomes = [], acceptance_unknown = 0, hung_checks = {}, longest_step = 0,
     longest_decided_check = 0, run_replans = 0, false_success_claims = 0, input_tokens = 0,
     output_tokens = 0, consecutive_errors = 0, last_runner_error = None, progress = (\<lambda>_. None),
     failure_owners = (\<lambda>_. []), guard = \<lparr>baselines = (\<lambda>_. None), session_touched = {}\<rparr>\<rparr>"

section \<open>Phases\<close>

type_synonym 'a flow = "(harness_run, iteration_end + 'a) state"

definition continue :: "'a \<Rightarrow> 'a flow" where
  "continue a = State_Monad.return (Inr a)"

definition next_iteration :: "'a flow" where
  "next_iteration = State_Monad.return (Inl Next)"

definition stop :: "stop_reason \<Rightarrow> 'a flow" where
  "stop reason = State_Monad.return (Inl (Stop reason))"

definition and_then :: "'a flow \<Rightarrow> ('a \<Rightarrow> 'b flow) \<Rightarrow> 'b flow" where
  "and_then m f = do { r \<leftarrow> m; case r of Inl e \<Rightarrow> State_Monad.return (Inl e) | Inr a \<Rightarrow> f a }"

text \<open>\<open>progress.entry(id).or_default()\<close>, read or updated.\<close>

definition item_of :: "(int \<Rightarrow> item_progress option) \<Rightarrow> int \<Rightarrow> item_progress" where
  "item_of p i = (case p i of None \<Rightarrow> new_item | Some item \<Rightarrow> item)"

definition set_item :: "int \<Rightarrow> item_progress \<Rightarrow> harness_run \<Rightarrow> harness_run" where
  "set_item i item s = s\<lparr>progress := (progress s)(i \<mapsto> item)\<rparr>"

definition entry_item :: "int \<Rightarrow> (harness_run, item_progress) state" where
  "entry_item i = do {
     item \<leftarrow> gets (\<lambda>s. item_of (progress s) i);
     _ \<leftarrow> modify (set_item i item);
     State_Monad.return item }"

definition update_item :: "int \<Rightarrow> (item_progress \<Rightarrow> item_progress) \<Rightarrow> (harness_run, unit) state" where
  "update_item i f = modify (\<lambda>s. set_item i (f (item_of (progress s) i)) s)"

definition remove_item :: "int \<Rightarrow> (harness_run, unit) state" where
  "remove_item i = modify (\<lambda>s. s\<lparr>progress := (progress s)(i := None)\<rparr>)"

definition replenish :: "item_progress \<Rightarrow> item_progress" where
  "replenish item = item\<lparr>it_steps_without_progress := 0\<rparr>"

definition replenish_all :: "harness_run \<Rightarrow> harness_run" where
  "replenish_all s = s\<lparr>progress := (\<lambda>i. map_option replenish (progress s i))\<rparr>"

definition record_abandonment :: "task_step \<Rightarrow> ustring \<Rightarrow> ustring option \<Rightarrow> harness_run \<Rightarrow> harness_run" where
  "record_abandonment step reason last_result s = (case st_acceptance step of
     Some check \<Rightarrow> s\<lparr>abandoned_this_run := abandoned_this_run s @ [(st_id step, st_title step, check)]\<rparr>
   | None \<Rightarrow> s\<lparr>unverifiable := unverifiable s
       @ [\<lparr>av_id = st_id step, av_title = st_title step, av_reason = reason, av_last_result = last_result\<rparr>]\<rparr>)"

section \<open>Asking the environment\<close>

text \<open>Every run of a check is capped after a hang and preceded by a look at its evidence; the
  moment it started is kept for its cost.\<close>

definition ask_check :: "inputs \<Rightarrow> acceptance_check \<Rightarrow> (harness_run, nat \<times> acceptance_verdict) state" where
  "ask_check E check = do {
     check_started \<leftarrow> now E;
     hang_cap \<leftarrow> gets (\<lambda>s. if check_identity E check \<in> hung_checks s
       then Some (max (longest_step s) (longest_decided_check s)) else None);
     g \<leftarrow> gets guard;
     observed \<leftarrow> observe_evidence E check g;
     case observed of (drift, g') \<Rightarrow> do {
       _ \<leftarrow> modify (\<lambda>s. s\<lparr>guard := g'\<rparr>);
       verdict \<leftarrow> run_with_timeout_cap E check hang_cap;
       State_Monad.return (check_started,
         case drift of None \<Rightarrow> verdict | Some sentence \<Rightarrow> with_evidence_drift sentence verdict) } }"

text \<open>An answer, even one that does not count, lifts the cap.\<close>

definition lift_cap :: "inputs \<Rightarrow> acceptance_check \<Rightarrow> nat \<Rightarrow> (harness_run, unit) state" where
  "lift_cap E check check_started = do {
     _ \<leftarrow> modify (\<lambda>s. s\<lparr>hung_checks := hung_checks s - {check_identity E check}\<rparr>);
     t \<leftarrow> elapsed E check_started;
     modify (\<lambda>s. s\<lparr>longest_decided_check := max (longest_decided_check s) t\<rparr>) }"

definition arm_cap :: "inputs \<Rightarrow> acceptance_check \<Rightarrow> (harness_run, unit) state" where
  "arm_cap E check = modify (\<lambda>s. s\<lparr>hung_checks := insert (check_identity E check) (hung_checks s)\<rparr>)"

definition count_unknown :: "(harness_run, unit) state" where
  "count_unknown = modify (\<lambda>s. s\<lparr>acceptance_unknown := acceptance_unknown s + 1\<rparr>)"

definition note_outcome :: "inputs \<Rightarrow> acceptance_check \<Rightarrow> bool \<Rightarrow> (harness_run, bool) state" where
  "note_outcome E check passed = do {
     r \<leftarrow> gets (\<lambda>s. note_check_outcome E (check_outcomes s) check passed);
     _ \<leftarrow> modify (\<lambda>s. s\<lparr>check_outcomes := fst r\<rparr>);
     State_Monad.return (snd r) }"

end
