(* ===== verification/Harness_Judge.thy ===== *)
theory Harness_Judge
  imports Harness
begin

text \<open>
  The second half of a pass: booking a finished step, judging it by its check or by its own
  evidence, and the sweeps that ask old verdicts again.
\<close>

section \<open>Booking a step\<close>

definition record_step :: "inputs \<Rightarrow> task_step \<Rightarrow> step_outcome \<Rightarrow> bool \<Rightarrow> bool \<Rightarrow> nat option \<Rightarrow> unit flow" where
  "record_step E step outcome is_replan escalate subtasks_before = do {
     _ \<leftarrow> modify (\<lambda>s. s\<lparr>steps_taken := steps_taken s + 1\<rparr>);
     _ \<leftarrow> update_item (st_id step) (\<lambda>item. item\<lparr>it_steps_run := it_steps_run item + 1\<rparr>);
     _ \<leftarrow> modify (\<lambda>s. s\<lparr>input_tokens := input_tokens s + so_input_tokens outcome,
                       output_tokens := output_tokens s + so_output_tokens outcome,
                       guard := note_touched (so_touched_paths outcome) (guard s)\<rparr>);
     _ \<leftarrow> update_item (st_id step) (\<lambda>item. item\<lparr>
            it_tokens_spent := it_tokens_spent item + (so_input_tokens outcome + so_output_tokens outcome),
            it_narration_steps := (if so_tool_calls outcome \<noteq> [] then 0 else it_narration_steps item)\<rparr>);
     if escalate then do {
       _ \<leftarrow> update_item (st_id step) (\<lambda>item. item\<lparr>it_replans := it_replans item + 1,
              it_escalated_asks := it_escalated_asks item + 1\<rparr>);
       _ \<leftarrow> modify (\<lambda>s. s\<lparr>run_replans := run_replans s + 1\<rparr>);
       item \<leftarrow> entry_item (st_id step);
       _ \<leftarrow> log_event E (st_id step) ''replan_escalated'' (DObject [
              (''replans'', DNum (int (it_replans item))),
              (''dry_replans'', DNum (int (it_dry_replans item))),
              (''asked'', DText (lit ''next concrete action''))]);
       continue () }
     else if is_replan then do {
       after \<leftarrow> src_open_subtasks E (st_id step);
       let produced_work = (case (subtasks_before, after) of
             (Some earlier, Inr (Some n)) \<Rightarrow> earlier < n
           | _ \<Rightarrow> True)
       in do {
         _ \<leftarrow> update_item (st_id step) (\<lambda>item. item\<lparr>it_replans := it_replans item + 1\<rparr>);
         _ \<leftarrow> update_item (st_id step) (\<lambda>item.
                if produced_work then item\<lparr>it_steps_without_progress := 0, it_last_result := None,
                  it_last_tool_calls := []\<rparr>
                else item\<lparr>it_dry_replans := it_dry_replans item + 1\<rparr>);
         _ \<leftarrow> modify (\<lambda>s. s\<lparr>run_replans := run_replans s + 1\<rparr>);
         item \<leftarrow> entry_item (st_id step);
         _ \<leftarrow> log_event E (st_id step) ''replanned'' (DObject [
                (''replans'', DNum (int (it_replans item))),
                (''produced_work'', DBool produced_work)]);
         next_iteration } }
     else continue () }"

definition file_step_findings :: "inputs \<Rightarrow> task_step \<Rightarrow> step_outcome \<Rightarrow> bool flow" where
  "file_step_findings E step outcome = do {
     _ \<leftarrow> (let tail = text_tail (so_text outcome) STEP_RESULT_TAIL_MAX_BYTES
           in only_if (tail \<noteq> []) (src_add_note E (st_id step) tail));
     cancelled \<leftarrow> is_cancelled E;
     if cancelled then stop Cancelled
     else do {
       item \<leftarrow> entry_item (st_id step);
       _ \<leftarrow> update_item (st_id step) (\<lambda>item. item\<lparr>it_last_tool_calls := so_tool_calls outcome\<rparr>);
       _ \<leftarrow> modify (\<lambda>s. s\<lparr>
              tool_calls_total := tool_calls_total s + length (so_tool_calls outcome),
              side_effect_tool_calls := side_effect_tool_calls s
                + length (filter (\<lambda>c. is_work_evidence_tool (tc_name c)) (so_tool_calls outcome))\<rparr>);
       continue (steps_repeat (it_last_tool_calls item) (so_tool_calls outcome)) } }"

section \<open>What a step is charged\<close>

text \<open>Fresh evidence replenishes the budget, a step that only narrates rides the ladder while
  there are rungs left, anything else is charged, and twice when it repeats the last step.\<close>

definition charge :: "bool \<Rightarrow> bool \<Rightarrow> bool \<Rightarrow> item_progress \<Rightarrow> item_progress" where
  "charge fresh steered repeated item =
     (if fresh then item\<lparr>it_steps_without_progress := 0\<rparr>
      else if steered then item\<lparr>it_narration_steps := it_narration_steps item + 1\<rparr>
      else item\<lparr>it_steps_without_progress := it_steps_without_progress item + (if repeated then 2 else 1)\<rparr>)"

definition degenerate :: "step_outcome \<Rightarrow> bool" where
  "degenerate outcome = (so_degenerate_loop outcome \<and> so_tool_calls outcome = [])"

definition steered :: "item_progress \<Rightarrow> step_outcome \<Rightarrow> bool" where
  "steered item outcome = (degenerate outcome \<and> it_narration_steps item < NARRATION_LADDER_STEPS)"

text \<open>The digests of the step join the item's; whether one of them was new.\<close>

definition fresh_evidence :: "inputs \<Rightarrow> int \<Rightarrow> step_outcome \<Rightarrow> (harness_run, bool) state" where
  "fresh_evidence E i outcome = do {
     item \<leftarrow> entry_item i;
     let r = novel_success_evidence E (it_seen_success_digests item) (so_tool_calls outcome)
     in do {
       _ \<leftarrow> update_item i (\<lambda>item. item\<lparr>it_seen_success_digests := fst r\<rparr>);
       State_Monad.return (snd r) } }"

definition narration_note :: "item_progress \<Rightarrow> ustring" where
  "narration_note item = narration_steering_text (max (it_narration_steps item) 1)"

section \<open>Checked items\<close>

definition judge_unknown :: "inputs \<Rightarrow> task_step \<Rightarrow> acceptance_check \<Rightarrow> step_outcome \<Rightarrow> bool \<Rightarrow>
    acceptance_verdict \<Rightarrow> (harness_run, unit) state" where
  "judge_unknown E step check outcome repeated verdict = do {
     _ \<leftarrow> entry_item (st_id step);
     let hung = v_timed_out verdict in do {
       _ \<leftarrow> only_if hung (arm_cap E check);
       _ \<leftarrow> count_unknown;
       fresh_success \<leftarrow> fresh_evidence E (st_id step) outcome;
       item \<leftarrow> entry_item (st_id step);
       _ \<leftarrow> update_item (st_id step) (charge fresh_success (steered item outcome) repeated);
       _ \<leftarrow> update_item (st_id step) (\<lambda>item. item\<lparr>it_consecutive_check_timeouts :=
              (if hung then it_consecutive_check_timeouts item + 1 else 0)\<rparr>);
       item \<leftarrow> entry_item (st_id step);
       let finding = (if hung then hanging_check_finding check verdict (it_consecutive_check_timeouts item)
                      else evidence_changed_finding check verdict)
              @ (if degenerate outcome then NL2 @ narration_note item else [])
       in do {
         _ \<leftarrow> src_add_note E (st_id step) finding;
         _ \<leftarrow> log_event E (st_id step)
                (if hung then ''acceptance_timeout'' else ''acceptance_evidence_changed'')
                (DObject [(''detail'', DText (v_detail verdict)),
                          (''consecutive'', DNum (int (it_consecutive_check_timeouts item)))]);
         update_item (st_id step) (\<lambda>item. item\<lparr>it_last_result := Some finding\<rparr>) } } }"

definition complete_failed :: "inputs \<Rightarrow> task_step \<Rightarrow> ustring \<Rightarrow> unit flow" where
  "complete_failed E step message = do {
     _ \<leftarrow> log_event E (st_id step) ''complete_failed'' (DObject [(''error'', DText message)]);
     _ \<leftarrow> modify (\<lambda>s. s\<lparr>consecutive_errors := consecutive_errors s + 1\<rparr>);
     errors \<leftarrow> gets consecutive_errors;
     if max_consecutive_errors (cfg E) \<le> errors then stop (SourceError message) else continue () }"

definition head_document :: "ustring option \<Rightarrow> document" where
  "head_document h = (case h of None \<Rightarrow> DNull | Some t \<Rightarrow> DText t)"

definition judge_passed :: "inputs \<Rightarrow> task_step \<Rightarrow> acceptance_check \<Rightarrow> acceptance_verdict \<Rightarrow> unit flow" where
  "judge_passed E step check verdict = do {
     _ \<leftarrow> update_item (st_id step) (\<lambda>item. item\<lparr>it_consecutive_check_timeouts := 0\<rparr>);
     flipped \<leftarrow> note_outcome E check True;
     _ \<leftarrow> only_if flipped (modify replenish_all);
     artifacts \<leftarrow> verdict_artifacts E check;
     item \<leftarrow> entry_item (st_id step);
     answer \<leftarrow> src_complete E (st_id step) (DObject [
        (''verified'', DBool True), (''verdict'', DText (v_detail verdict)),
        (''output_head'', head_document (v_output_head verdict)),
        (''artifacts'', DArray artifacts), (''tokens_spent'', DNum (int (it_tokens_spent item)))]);
     case answer of
       Inr _ \<Rightarrow> do {
         _ \<leftarrow> modify (\<lambda>s. s\<lparr>consecutive_errors := 0, items_completed := items_completed s + 1,
                verified_this_run := verified_this_run s @ [(st_id step, st_title step, check)],
                verified_outcomes := verified_outcomes s @ [\<lparr>vo_id = st_id step, vo_title = st_title step,
                  vo_detail = verified_detail verdict artifacts, vo_already_satisfied = False\<rparr>]\<rparr>);
         _ \<leftarrow> remove_item (st_id step);
         continue () }
     | Inl message \<Rightarrow> complete_failed E step message }"

definition shared_failure_note :: "int \<Rightarrow> int list \<Rightarrow> ustring" where
  "shared_failure_note i cluster =
     (let others = map (\<lambda>j. lit ''#'' @ idec j) (filter (\<lambda>j. j \<noteq> i) cluster)
      in NL @ lit ''NOTE: '' @ ujoin (lit '', '') others @ lit '' of this plan ''
      @ (if length others = 1 then lit ''is also'' else lit ''are also'')
      @ lit '' failing with this EXACT same error. That is one underlying bug, not ''
      @ udec (length cluster) @ lit '' separate ones '' @ EM_DASH
      @ lit '' find and fix the shared cause, then re-run the checks.'')"

text \<open>A \<open>BTreeSet\<close> of ids is its sorted list.\<close>

definition join_cluster :: "inputs \<Rightarrow> 64 word \<Rightarrow> int \<Rightarrow> (harness_run, int list) state" where
  "join_cluster E signature i = do {
     _ \<leftarrow> modify (\<lambda>s. s\<lparr>failure_owners :=
            (failure_owners s)(signature := insort_insert i (failure_owners s signature))\<rparr>);
     gets (\<lambda>s. failure_owners s signature) }"

definition judge_failed :: "inputs \<Rightarrow> task_step \<Rightarrow> acceptance_check \<Rightarrow> step_outcome \<Rightarrow> bool \<Rightarrow>
    acceptance_verdict \<Rightarrow> (harness_run, unit) state" where
  "judge_failed E step check outcome repeated verdict = do {
     _ \<leftarrow> update_item (st_id step) (\<lambda>item. item\<lparr>it_consecutive_check_timeouts := 0\<rparr>);
     _ \<leftarrow> note_outcome E check False;
     _ \<leftarrow> only_if (step_claims_completion (so_text outcome)) (do {
            _ \<leftarrow> modify (\<lambda>s. s\<lparr>false_success_claims := false_success_claims s + 1\<rparr>);
            log_event E (st_id step) ''false_success_claim'' (DObject [(''verdict'', DText (v_detail verdict))]) });
     let signature = failure_signature E (v_detail verdict) in do {
       item \<leftarrow> entry_item (st_id step);
       let novel = (signature \<notin> it_seen_failure_signatures item
                    \<and> 1 < card (insert signature (it_seen_failure_signatures item)))
       in do {
         _ \<leftarrow> update_item (st_id step) (\<lambda>item. item\<lparr>
                it_seen_failure_signatures := insert signature (it_seen_failure_signatures item)\<rparr>);
         fresh_success \<leftarrow> fresh_evidence E (st_id step) outcome;
         earlier \<leftarrow> entry_item (st_id step);
         _ \<leftarrow> update_item (st_id step) (charge (novel \<or> fresh_success) (steered earlier outcome) repeated);
         item \<leftarrow> entry_item (st_id step);
         _ \<leftarrow> only_if (degenerate outcome) (log_event E (st_id step) ''narration_step'' (DObject [
                (''narration_steps'', DNum (int (it_narration_steps item))),
                (''charged'', DBool (\<not> steered earlier outcome))]));
         cluster \<leftarrow> join_cluster E signature (st_id step);
         _ \<leftarrow> only_if (1 < length cluster) (log_event E (st_id step) ''shared_failure''
                (DObject [(''items'', DArray (map DNum cluster))]));
         update_item (st_id step) (\<lambda>item. item\<lparr>it_last_result := Some (
            failed_acceptance_result check verdict repeated
            @ (if degenerate outcome then NL2 @ narration_note item else [])
            @ (if 1 < length cluster then shared_failure_note (st_id step) cluster else []))\<rparr>) } } }"

definition judge_checked :: "inputs \<Rightarrow> task_step \<Rightarrow> acceptance_check \<Rightarrow> step_outcome \<Rightarrow> bool \<Rightarrow> unit flow" where
  "judge_checked E step check outcome repeated = do {
     answer \<leftarrow> ask_check E check;
     case answer of (check_started, verdict) \<Rightarrow> do {
       t \<leftarrow> elapsed E check_started;
       _ \<leftarrow> modify (\<lambda>s. s\<lparr>check_cost_paid := check_cost_paid s + t, check_runs := check_runs s + 1\<rparr>);
       _ \<leftarrow> only_if (\<not> v_timed_out verdict) (lift_cap E check check_started);
       _ \<leftarrow> log_event E (st_id step) ''acceptance_checked'' (DObject [
              (''passed'', DBool (v_passed verdict)), (''detail'', DText (v_detail verdict)),
              (''unknown'', DBool (is_unknown verdict)),
              (''evidence_changed'', DBool (v_evidence_changed verdict))]);
       if is_unknown verdict then do {
         _ \<leftarrow> judge_unknown E step check outcome repeated verdict;
         continue () }
       else if v_passed verdict then judge_passed E step check verdict
       else do {
         _ \<leftarrow> judge_failed E step check outcome repeated verdict;
         continue () } } }"

section \<open>Unchecked items\<close>

definition complete_unchecked :: "inputs \<Rightarrow> task_step \<Rightarrow> string \<Rightarrow> unit flow" where
  "complete_unchecked E step event = do {
     tokens_spent \<leftarrow> gets (\<lambda>s. case progress s (st_id step) of None \<Rightarrow> 0 | Some item \<Rightarrow> it_tokens_spent item);
     answer \<leftarrow> src_complete E (st_id step) (DObject [
        (''verified'', DBool False), (''tokens_spent'', DNum (int tokens_spent))]);
     case answer of
       Inr _ \<Rightarrow> do {
         _ \<leftarrow> modify (\<lambda>s. s\<lparr>consecutive_errors := 0, items_completed := items_completed s + 1,
                items_completed_unverified := items_completed_unverified s + 1\<rparr>);
         _ \<leftarrow> log_event E (st_id step) event DNull;
         _ \<leftarrow> remove_item (st_id step);
         continue () }
     | Inl message \<Rightarrow> complete_failed E step message }"

definition judge_unchecked :: "inputs \<Rightarrow> task_step \<Rightarrow> step_outcome \<Rightarrow> bool \<Rightarrow> unit flow" where
  "judge_unchecked E step outcome repeated = do {
     item \<leftarrow> entry_item (st_id step);
     let answer = tool_free_answer_fingerprint E outcome;
         converged = answer_converged (it_last_answer_fingerprint item) answer
     in do {
       _ \<leftarrow> update_item (st_id step) (\<lambda>item. item\<lparr>it_last_answer_fingerprint := answer\<rparr>);
       if step_claims_completion (so_text outcome) then complete_unchecked E step ''completed_unverified''
       else if converged then complete_unchecked E step ''completed_converged''
       else do {
         fresh_success \<leftarrow> fresh_evidence E (st_id step) outcome;
         earlier \<leftarrow> entry_item (st_id step);
         _ \<leftarrow> update_item (st_id step) (charge fresh_success (steered earlier outcome) repeated);
         item \<leftarrow> entry_item (st_id step);
         let tail = text_tail (so_text outcome) STEP_RESULT_TAIL_MAX_BYTES;
             step_result = (if degenerate outcome
               then tail @ (if tail = [] then [] else NL2) @ narration_note item else tail)
         in do {
           _ \<leftarrow> only_if (degenerate outcome) (log_event E (st_id step) ''narration_step'' (DObject [
                  (''narration_steps'', DNum (int (it_narration_steps item))),
                  (''charged'', DBool (\<not> steered earlier outcome))]));
           _ \<leftarrow> update_item (st_id step) (\<lambda>item. item\<lparr>it_last_result := Some step_result\<rparr>);
           continue () } } } }"

definition judge_step :: "inputs \<Rightarrow> task_step \<Rightarrow> step_outcome \<Rightarrow> bool \<Rightarrow> unit flow" where
  "judge_step E step outcome repeated = (case st_acceptance step of
     None \<Rightarrow> judge_unchecked E step outcome repeated
   | Some check \<Rightarrow> judge_checked E step check outcome repeated)"

end
