(* ===== verification/Harness_Loop.thy ===== *)
theory Harness_Loop
  imports Harness_Judge
begin

text \<open>
  The sweeps that ask closed verdicts again, the first half of a pass (selection, pre-check,
  prompt, step), and the loop with its report.
\<close>

section \<open>The drain sweep\<close>

definition revive_reason :: ustring where
  "revive_reason = lit ''acceptance now passes '' @ EM_DASH @ lit '' reviving abandoned item''"

definition revive :: "inputs \<Rightarrow> int \<Rightarrow> document \<Rightarrow> (harness_run, bool) state" where
  "revive E i detail = do {
     answer \<leftarrow> src_reopen E i revive_reason;
     case answer of
       Inl _ \<Rightarrow> State_Monad.return False
     | Inr _ \<Rightarrow> do {
         _ \<leftarrow> modify (\<lambda>s. s\<lparr>reopened_once := insert i (reopened_once s), precheck_ids := insert i (precheck_ids s)\<rparr>);
         _ \<leftarrow> remove_item i;
         _ \<leftarrow> modify (\<lambda>s. s\<lparr>items_revived := items_revived s + 1, items_abandoned := items_abandoned s - 1\<rparr>);
         _ \<leftarrow> log_event E i ''revived'' detail;
         State_Monad.return True } }"

definition still_unmet :: "int \<Rightarrow> ustring \<Rightarrow> ustring \<Rightarrow> (harness_run, unit) state" where
  "still_unmet i title detail =
     modify (\<lambda>s. s\<lparr>unmet := unmet s @ [\<lparr>au_id = i, au_title = title, au_detail = detail\<rparr>]\<rparr>)"

definition drain_abandoned_item :: "inputs \<Rightarrow> closed_item \<Rightarrow> (harness_run, bool) state" where
  "drain_abandoned_item E entry = (case entry of (i, title, check) \<Rightarrow> do {
     once \<leftarrow> gets (\<lambda>s. i \<in> reopened_once s);
     if once then State_Monad.return False
     else do {
       answer \<leftarrow> ask_check E check;
       case answer of (run_started, verdict) \<Rightarrow> do {
         _ \<leftarrow> only_if (\<not> v_timed_out verdict) (lift_cap E check run_started);
         if is_unknown verdict then do {
           _ \<leftarrow> only_if (v_timed_out verdict) (arm_cap E check);
           _ \<leftarrow> count_unknown;
           _ \<leftarrow> still_unmet i title (lit ''check produced no verdict '' @ EM_DASH @ lit '' ''
          @ text_head (v_detail verdict) 200);
           State_Monad.return False }
         else do {
           _ \<leftarrow> note_outcome E check (v_passed verdict);
           _ \<leftarrow> only_if (\<not> v_passed verdict) (still_unmet i title (text_head (v_detail verdict) 240));
           if v_passed verdict then revive E i (DObject [(''detail'', DText (v_detail verdict))])
           else State_Monad.return False } } } })"

primrec drain_abandoned :: "inputs \<Rightarrow> closed_item list \<Rightarrow> (harness_run, bool) state" where
  "drain_abandoned E [] = State_Monad.return False"
| "drain_abandoned E (x # xs) = do {
     here \<leftarrow> drain_abandoned_item E x;
     rest \<leftarrow> drain_abandoned E xs;
     State_Monad.return (here \<or> rest) }"

definition regress :: "inputs \<Rightarrow> int \<Rightarrow> ustring \<Rightarrow> document \<Rightarrow> (harness_run, bool) state" where
  "regress E i reason detail = do {
     answer \<leftarrow> src_reopen E i reason;
     case answer of
       Inl _ \<Rightarrow> State_Monad.return False
     | Inr _ \<Rightarrow> do {
         _ \<leftarrow> modify (\<lambda>s. s\<lparr>reopened_once := insert i (reopened_once s)\<rparr>);
         _ \<leftarrow> remove_item i;
         _ \<leftarrow> modify (\<lambda>s. s\<lparr>items_completed := items_completed s - 1,
                items_regressed_reopened := items_regressed_reopened s + 1\<rparr>);
         _ \<leftarrow> log_event E i ''regressed'' detail;
         State_Monad.return True } }"

definition drain_verified_item :: "inputs \<Rightarrow> closed_item \<Rightarrow> (harness_run, bool) state" where
  "drain_verified_item E entry = (case entry of (i, title, check) \<Rightarrow> do {
     once \<leftarrow> gets (\<lambda>s. i \<in> reopened_once s);
     if once then State_Monad.return False
     else do {
       answer \<leftarrow> ask_check E check;
       case answer of (run_started, verdict) \<Rightarrow> do {
         _ \<leftarrow> only_if (\<not> v_timed_out verdict) (lift_cap E check run_started);
         if is_unknown verdict then do {
           _ \<leftarrow> only_if (v_timed_out verdict) (arm_cap E check);
           _ \<leftarrow> count_unknown;
           State_Monad.return False }
         else do {
           _ \<leftarrow> note_outcome E check (v_passed verdict);
           if \<not> v_passed verdict then regress E i
             (lit ''verified completion regressed '' @ EM_DASH
              @ lit '' the acceptance check fails again: '' @ v_detail verdict)
             (DObject [(''detail'', DText (v_detail verdict))])
           else State_Monad.return False } } } })"

primrec drain_verified :: "inputs \<Rightarrow> closed_item list \<Rightarrow> (harness_run, bool) state" where
  "drain_verified E [] = State_Monad.return False"
| "drain_verified E (x # xs) = do {
     here \<leftarrow> drain_verified_item E x;
     rest \<leftarrow> drain_verified E xs;
     State_Monad.return (here \<or> rest) }"

definition drain_sweep :: "inputs \<Rightarrow> unit flow" where
  "drain_sweep E = do {
     _ \<leftarrow> modify (\<lambda>s. s\<lparr>unmet := []\<rparr>);
     abandoned \<leftarrow> gets abandoned_this_run;
     revived \<leftarrow> drain_abandoned E abandoned;
     verified \<leftarrow> gets verified_this_run;
     regressed \<leftarrow> drain_verified E verified;
     if revived \<or> regressed then next_iteration else stop AllTasksDone }"

section \<open>The sweep at a step boundary\<close>

definition pay_sweep :: "inputs \<Rightarrow> nat \<Rightarrow> (harness_run, unit) state" where
  "pay_sweep E sweep_started = do {
     t \<leftarrow> elapsed E sweep_started;
     modify (\<lambda>s. s\<lparr>sweep_cost_paid := sweep_cost_paid s + t\<rparr>) }"

definition revive_one_mid_run :: "inputs \<Rightarrow> closed_item \<Rightarrow> (harness_run, unit) state" where
  "revive_one_mid_run E entry = (case entry of (i, title, check) \<Rightarrow> do {
     answer \<leftarrow> ask_check E check;
     case answer of (sweep_started, verdict) \<Rightarrow> do {
       _ \<leftarrow> pay_sweep E sweep_started;
       _ \<leftarrow> only_if (\<not> v_timed_out verdict) (lift_cap E check sweep_started);
       if is_unknown verdict then do {
         _ \<leftarrow> only_if (v_timed_out verdict) (arm_cap E check);
         count_unknown }
       else do {
         flipped \<leftarrow> note_outcome E check (v_passed verdict);
         _ \<leftarrow> only_if flipped (modify replenish_all);
         only_if (v_passed verdict) (do {
           _ \<leftarrow> revive E i (DObject [(''detail'', DText (v_detail verdict)), (''mid_run'', DBool True)]);
           State_Monad.return () }) } } })"

primrec revive_abandoned_mid_run :: "inputs \<Rightarrow> closed_item list \<Rightarrow> (harness_run, unit) state" where
  "revive_abandoned_mid_run E [] = State_Monad.return ()"
| "revive_abandoned_mid_run E (x # xs) = do {
     cancelled \<leftarrow> is_cancelled E;
     if cancelled then State_Monad.return ()
     else do {
       _ \<leftarrow> revive_one_mid_run E x;
       revive_abandoned_mid_run E xs } }"

definition recheck_one_mid_run :: "inputs \<Rightarrow> closed_item \<Rightarrow>
    (harness_run, (int \<times> ustring \<times> ustring) list) state" where
  "recheck_one_mid_run E entry = (case entry of (i, title, check) \<Rightarrow> do {
     answer \<leftarrow> ask_check E check;
     case answer of (sweep_started, verdict) \<Rightarrow> do {
       _ \<leftarrow> pay_sweep E sweep_started;
       _ \<leftarrow> only_if (\<not> v_timed_out verdict) (lift_cap E check sweep_started);
       if is_unknown verdict then do {
         _ \<leftarrow> only_if (v_timed_out verdict) (arm_cap E check);
         _ \<leftarrow> count_unknown;
         State_Monad.return [] }
       else do {
         _ \<leftarrow> note_outcome E check (v_passed verdict);
         if v_passed verdict then State_Monad.return []
         else do {
           reopened \<leftarrow> regress E i
             (lit ''verified completion regressed mid-run '' @ EM_DASH
              @ lit '' the acceptance check fails again: '' @ v_detail verdict)
             (DObject [(''detail'', DText (v_detail verdict)), (''mid_run'', DBool True)]);
           let detail = text_head (v_detail verdict) 240 in
           if reopened then do {
             _ \<leftarrow> src_add_note E i (lit ''REOPENED mid-run: later work un-did this verified item '' @ EM_DASH
                @ lit '' '' @ detail @ lit ''. Disk is truth; restore it.'');
             State_Monad.return [(i, title, detail)] }
           else State_Monad.return [] } } } })"

primrec recheck_verified_mid_run :: "inputs \<Rightarrow> closed_item list \<Rightarrow>
    (harness_run, (int \<times> ustring \<times> ustring) list) state" where
  "recheck_verified_mid_run E [] = State_Monad.return []"
| "recheck_verified_mid_run E (x # xs) = do {
     cancelled \<leftarrow> is_cancelled E;
     if cancelled then State_Monad.return []
     else do {
       here \<leftarrow> recheck_one_mid_run E x;
       rest \<leftarrow> recheck_verified_mid_run E xs;
       State_Monad.return (here @ rest) } }"

definition eligible_items :: "int \<Rightarrow> int set \<Rightarrow> closed_item list \<Rightarrow> closed_item list" where
  "eligible_items current reopened = filter (\<lambda>(i, _, _). i \<noteq> current \<and> i \<notin> reopened)"

definition estimated_sweep :: "nat \<Rightarrow> nat \<Rightarrow> nat \<Rightarrow> nat" where
  "estimated_sweep runs paid n = (if 0 < runs then paid div runs * min n (2 ^ 32 - 1) else 0)"

definition merge_notice :: "ustring option \<Rightarrow> ustring \<Rightarrow> ustring" where
  "merge_notice previous notice = (case previous of None \<Rightarrow> notice | Some prev \<Rightarrow> prev @ NL2 @ notice)"

definition mid_run_sweep :: "inputs \<Rightarrow> task_step \<Rightarrow> step_outcome \<Rightarrow> (harness_run, unit) state" where
  "mid_run_sweep E step outcome = do {
     eligible \<leftarrow> gets (\<lambda>s. eligible_items (st_id step) (reopened_once s) (verified_this_run s));
     eligible_abandoned \<leftarrow> gets (\<lambda>s. eligible_items (st_id step) (reopened_once s) (abandoned_this_run s));
     only_if (eligible \<noteq> [] \<or> eligible_abandoned \<noteq> []) (do {
       full_due \<leftarrow> gets (\<lambda>s. resweep_due (sweep_cost_paid s) (check_cost_paid s)
         (estimated_sweep (check_runs s) (check_cost_paid s) (length eligible + length eligible_abandoned)));
       _ \<leftarrow> revive_abandoned_mid_run E (select_resweep_targets eligible_abandoned full_due (so_touched_paths outcome));
       regressions \<leftarrow> recheck_verified_mid_run E (select_resweep_targets eligible full_due (so_touched_paths outcome));
       only_if (regressions \<noteq> []) (modify (\<lambda>s. s\<lparr>regression_notice :=
         Some (merge_notice (regression_notice s) (regression_notice_text regressions))\<rparr>)) }) }"

section \<open>Before the step\<close>

definition item_gate :: "inputs \<Rightarrow> task_step \<Rightarrow> (harness_run, bool \<times> item_progress \<times> bool) state" where
  "item_gate E step = do {
     item \<leftarrow> entry_item (st_id step);
     _ \<leftarrow> update_item (st_id step) (\<lambda>item. item\<lparr>it_acceptance_prechecked := True\<rparr>);
     State_Monad.return (max_steps_per_item (cfg E) \<le> it_steps_without_progress item, item,
       \<not> it_acceptance_prechecked item) }"

definition abandonment_reason :: "item_progress \<Rightarrow> ustring" where
  "abandonment_reason item =
     abandonment_headline (it_steps_run item) (it_steps_without_progress item) (it_replans item)
     @ (if 0 < it_dry_replans item then
          lit ''; the decomposition ask came back with no subtasks '' @ udec (it_dry_replans item)
          @ lit '' time(s)''
          @ (if 0 < it_escalated_asks item then
               lit '', and the escalated next-action ask that followed never got it past its ''
               @ lit ''done-condition '' @ EM_DASH
               @ lit '' both attempts to unstick it returned nothing''
             else [])
        else [])
     @ (if 0 < it_consecutive_check_timeouts item then
          lit ''; its acceptance check hung '' @ udec (it_consecutive_check_timeouts item)
          @ lit '' consecutive time(s) with no verdict '' @ EM_DASH
          @ lit '' see the hang finding in its notes''
        else [])"

definition abandon_item :: "inputs \<Rightarrow> task_step \<Rightarrow> ustring \<Rightarrow> ustring option \<Rightarrow> 'a flow" where
  "abandon_item E step reason last_result = do {
     answer \<leftarrow> src_abandon E (st_id step) reason;
     case answer of
       Inl message \<Rightarrow> stop (SourceError message)
     | Inr _ \<Rightarrow> do {
         _ \<leftarrow> modify (\<lambda>s. s\<lparr>items_abandoned := items_abandoned s + 1\<rparr>);
         _ \<leftarrow> modify (record_abandonment step reason last_result);
         _ \<leftarrow> remove_item (st_id step);
         next_iteration } }"

definition abandon_exhausted :: "inputs \<Rightarrow> task_step \<Rightarrow> item_progress \<Rightarrow> 'a flow" where
  "abandon_exhausted E step item = abandon_item E step (abandonment_reason item) (it_last_result item)"

definition note_precheck_verdict :: "inputs \<Rightarrow> task_step \<Rightarrow> acceptance_check \<Rightarrow> acceptance_verdict \<Rightarrow> nat \<Rightarrow>
    (harness_run, unit) state" where
  "note_precheck_verdict E step check verdict check_started =
     (if is_unknown verdict then
        (let hung = v_timed_out verdict in do {
          _ \<leftarrow> (if hung then arm_cap E check else lift_cap E check check_started);
          _ \<leftarrow> count_unknown;
          _ \<leftarrow> update_item (st_id step) (\<lambda>item. if hung
                 then item\<lparr>it_consecutive_check_timeouts := it_consecutive_check_timeouts item + 1\<rparr> else item);
          item \<leftarrow> entry_item (st_id step);
          let finding = (if hung then hanging_check_finding check verdict (it_consecutive_check_timeouts item)
                         else evidence_changed_finding check verdict) in do {
            _ \<leftarrow> update_item (st_id step) (\<lambda>item. item\<lparr>it_last_result := Some finding\<rparr>);
            _ \<leftarrow> src_add_note E (st_id step) finding;
            log_event E (st_id step)
              (if hung then ''acceptance_timeout'' else ''acceptance_evidence_changed'')
              (DObject [(''detail'', DText (v_detail verdict)), (''check'', DText (describe check)),
                        (''precheck'', DBool True)]) } })
      else do {
        _ \<leftarrow> lift_cap E check check_started;
        flipped \<leftarrow> note_outcome E check (v_passed verdict);
        only_if flipped (modify replenish_all) })"

definition precheck :: "inputs \<Rightarrow> task_step \<Rightarrow> bool \<Rightarrow> unit flow" where
  "precheck E step precheck_due = do {
     named \<leftarrow> gets (\<lambda>s. st_id step \<in> precheck_ids s);
     case (if precheck_due \<and> named then st_acceptance step else None) of
       None \<Rightarrow> continue ()
     | Some check \<Rightarrow> do {
         answer \<leftarrow> ask_check E check;
         case answer of (check_started, verdict) \<Rightarrow> do {
           t \<leftarrow> elapsed E check_started;
           _ \<leftarrow> modify (\<lambda>s. s\<lparr>check_cost_paid := check_cost_paid s + t, check_runs := check_runs s + 1\<rparr>);
           _ \<leftarrow> note_precheck_verdict E step check verdict check_started;
           if \<not> v_passed verdict then continue ()
           else do {
             artifacts \<leftarrow> verdict_artifacts E check;
             _ \<leftarrow> log_event E (st_id step) ''acceptance_already_satisfied'' (DObject [
                    (''detail'', DText (v_detail verdict)), (''check'', DText (describe check))]);
             answer \<leftarrow> src_complete E (st_id step) (DObject [
                    (''verified'', DBool True), (''verdict'', DText (v_detail verdict)),
                    (''output_head'', head_document (v_output_head verdict)),
                    (''artifacts'', DArray artifacts), (''already_satisfied'', DBool True),
                    (''steps_run'', DNum 0), (''tokens_spent'', DNum 0)]);
             case answer of
               Inr _ \<Rightarrow> do {
                 _ \<leftarrow> modify (\<lambda>s. s\<lparr>consecutive_errors := 0, items_completed := items_completed s + 1,
                        items_already_satisfied := items_already_satisfied s + 1,
                        verified_this_run := verified_this_run s @ [(st_id step, st_title step, check)],
                        verified_outcomes := verified_outcomes s @ [\<lparr>vo_id = st_id step, vo_title = st_title step,
                          vo_detail = verified_detail verdict artifacts, vo_already_satisfied = True\<rparr>]\<rparr>);
                 _ \<leftarrow> remove_item (st_id step);
                 next_iteration }
             | Inl message \<Rightarrow> do {
                 _ \<leftarrow> log_event E (st_id step) ''complete_failed'' (DObject [(''error'', DText message)]);
                 continue () } } } } }"

definition step_prompt :: "inputs \<Rightarrow> task_step \<Rightarrow> bool \<Rightarrow> bool \<Rightarrow> nat \<Rightarrow> (harness_run, ustring \<times> step_kind) state" where
  "step_prompt E step is_replan escalate tokens_used = do {
     item \<leftarrow> entry_item (st_id step);
     if is_replan \<and> \<not> escalate then
       (let stall_summary = (if 0 < it_consecutive_check_timeouts item then
            lit ''the done-condition check has HUNG '' @ udec (it_consecutive_check_timeouts item)
            @ lit '' consecutive time(s) (killed at its timeout, no verdict). The artifact blocks ''
            @ lit ''forever on something this check runs '' @ EM_DASH
            @ lit '' decompose so fixing the hang comes first''
          else udec (it_steps_without_progress item)
            @ lit '' steps without the done-condition flipping'')
        in State_Monad.return (build_replan_prompt (run_goal E) step stall_summary, Plan))
     else do {
       since \<leftarrow> gets started;
       t \<leftarrow> elapsed E since;
       line \<leftarrow> gets (\<lambda>s. budget_line (steps_taken s) (items_completed s) tokens_used
                (max_total_tokens (cfg E)) t (max_wall_clock (cfg E)));
       notice \<leftarrow> gets regression_notice;
       _ \<leftarrow> modify (\<lambda>s. s\<lparr>regression_notice := None\<rparr>);
       digest \<leftarrow> gets (\<lambda>s. verified_digest (verified_outcomes s));
       let last_result = (case notice of None \<Rightarrow> it_last_result item
             | Some n \<Rightarrow> Some (merge_notice (it_last_result item) n));
           last_result = (if escalate
             then Some (merge_notice last_result (stalled_escalation_text (it_steps_without_progress item)
                    (it_consecutive_check_timeouts item)))
             else last_result)
       in State_Monad.return (build_step_prompt (run_goal E) step last_result digest line, Execute) } }"

section \<open>The step\<close>

definition run_step :: "inputs \<Rightarrow> task_step \<Rightarrow> ustring \<Rightarrow> step_kind \<Rightarrow> step_outcome flow" where
  "run_step E step prompt kind = do {
     since \<leftarrow> gets started;
     t \<leftarrow> elapsed E since;
     index \<leftarrow> gets steps_taken;
     step_started \<leftarrow> now E;
     answer \<leftarrow> runner_step E \<lparr>rq_item_id = st_id step, rq_step_index = index, rq_step_kind = kind,
        rq_item_title = st_title step, rq_prompt = prompt, rq_tool_scope = st_tool_scope step,
        rq_token_budget = step_token_budget (cfg E), rq_max_iterations = None,
        rq_max_wall_clock = Some (max_wall_clock (cfg E) - t)\<rparr>;
     case answer of
       Inr outcome \<Rightarrow> do {
         _ \<leftarrow> modify (\<lambda>s. s\<lparr>consecutive_errors := 0\<rparr>);
         cost \<leftarrow> elapsed E step_started;
         _ \<leftarrow> modify (\<lambda>s. s\<lparr>longest_step := max (longest_step s) cost\<rparr>);
         continue outcome }
     | Inl message \<Rightarrow> do {
         _ \<leftarrow> modify (\<lambda>s. s\<lparr>consecutive_errors := consecutive_errors s + 1, last_runner_error := Some message\<rparr>);
         _ \<leftarrow> update_item (st_id step) (\<lambda>item. item\<lparr>it_runner_errors := it_runner_errors item + 1\<rparr>);
         item \<leftarrow> entry_item (st_id step);
         if ITEM_RUNNER_ERRORS_MAX \<le> it_runner_errors item
         then abandon_item E step (lit ''abandoned after persistent runner errors: '' @ message) (it_last_result item)
         else do {
           errors \<leftarrow> gets consecutive_errors;
           if max_consecutive_errors (cfg E) \<le> errors then stop (RunnerErrors message) else next_iteration } } }"

section \<open>A pass of the loop\<close>

definition admit_input :: "inputs \<Rightarrow> (harness_run, unit) state" where
  "admit_input E = (case ask_interject E of
     None \<Rightarrow> State_Monad.return ()
   | Some strategy \<Rightarrow> do {
       answer \<leftarrow> consult strategy Interjected;
       case answer of
         Inl _ \<Rightarrow> State_Monad.return ()
       | Inr admitted \<Rightarrow> modify (\<lambda>s. s\<lparr>interjected_items := interjected_items s + admitted\<rparr>) })"

definition baseline_evidence :: "inputs \<Rightarrow> task_step \<Rightarrow> (harness_run, unit) state" where
  "baseline_evidence E step = (case st_acceptance step of
     None \<Rightarrow> State_Monad.return ()
   | Some check \<Rightarrow> do {
       g \<leftarrow> gets guard;
       g' \<leftarrow> ensure_baseline E check g;
       modify (\<lambda>s. s\<lparr>guard := g'\<rparr>) })"

definition work_item :: "inputs \<Rightarrow> task_step \<Rightarrow> nat \<Rightarrow> unit flow" where
  "work_item E step tokens_used = do {
     gate \<leftarrow> item_gate E step;
     case gate of (is_replan, item, precheck_due) \<Rightarrow>
     if is_replan \<and> max_replans_per_item (cfg E) \<le> it_replans item then abandon_exhausted E step item
     else do {
       _ \<leftarrow> src_start E (st_id step);
       _ \<leftarrow> baseline_evidence E step;
       and_then (precheck E step precheck_due) (\<lambda>_. do {
         item \<leftarrow> entry_item (st_id step);
         let escalate = (is_replan \<and> 0 < it_dry_replans item) in do {
           asked \<leftarrow> step_prompt E step is_replan escalate tokens_used;
           subtasks_before \<leftarrow> (if is_replan \<and> \<not> escalate then do {
               answer \<leftarrow> src_open_subtasks E (st_id step);
               State_Monad.return (case answer of Inl _ \<Rightarrow> None | Inr n \<Rightarrow> n) }
             else State_Monad.return None);
           and_then (run_step E step (fst asked) (snd asked)) (\<lambda>outcome.
             and_then (record_step E step outcome is_replan escalate subtasks_before) (\<lambda>_.
               and_then (file_step_findings E step outcome) (\<lambda>repeated.
                 and_then (judge_step E step outcome repeated) (\<lambda>_. do {
                   _ \<leftarrow> mid_run_sweep E step outcome;
                   continue () })))) } }) } }"

definition iteration :: "inputs \<Rightarrow> unit flow" where
  "iteration E = do {
     cancelled \<leftarrow> is_cancelled E;
     if cancelled then stop Cancelled
     else do {
       since \<leftarrow> gets started;
       t \<leftarrow> elapsed E since;
       if max_wall_clock (cfg E) \<le> t then stop WallClockExhausted
       else do {
         tokens_used \<leftarrow> gets (\<lambda>s. input_tokens s + output_tokens s);
         if (case max_total_tokens (cfg E) of None \<Rightarrow> False | Some m \<Rightarrow> m \<le> tokens_used)
         then stop TokenBudgetExhausted
         else do {
           _ \<leftarrow> admit_input E;
           answer \<leftarrow> consult (ask_next E) Asked_Next;
           case answer of
             Inl message \<Rightarrow> stop (SourceError message)
           | Inr found \<Rightarrow> (case found of
               None \<Rightarrow> drain_sweep E
             | Some step \<Rightarrow> work_item E step tokens_used) } } } }"

text \<open>The loop runs until a pass stops it; \<open>None\<close> is a run that never ends.\<close>

definition pass_end :: "inputs \<Rightarrow> harness_run \<Rightarrow> stop_reason option \<times> harness_run" where
  "pass_end E s = (case run_state (iteration E) s of
     (Inl (Stop reason), t) \<Rightarrow> (Some reason, t)
   | (_, t) \<Rightarrow> (None, t))"

partial_function (option) run_passes :: "inputs \<Rightarrow> harness_run \<Rightarrow> (stop_reason \<times> harness_run) option" where
  "run_passes E s = (case pass_end E s of
     (Some reason, t) \<Rightarrow> Some (reason, t)
   | (None, t) \<Rightarrow> run_passes E t)"

record long_horizon_report =
  rp_stop :: stop_reason
  rp_run :: harness_run
  rp_wall_clock_secs :: nat
  rp_tokens_per_completed_item :: "nat option"

definition into_report :: "inputs \<Rightarrow> stop_reason \<Rightarrow> harness_run \<Rightarrow> long_horizon_report" where
  "into_report E reason s =
     (let (t, s') = run_state (elapsed E (started s)) s
      in \<lparr>rp_stop = reason, rp_run = s', rp_wall_clock_secs = t div secs 1,
          rp_tokens_per_completed_item =
            (if 0 < items_completed s then Some ((input_tokens s + output_tokens s) div items_completed s) else None)\<rparr>)"

definition run_with_interjector :: "inputs \<Rightarrow> long_horizon_report option" where
  "run_with_interjector E = (case run_passes E (new_run E []) of
     None \<Rightarrow> None
   | Some (reason, s) \<Rightarrow> Some (into_report E reason s))"

end
