(* ===== verification/Harness_Frame.thy ===== *)
theory Harness_Frame
  imports Harness_Loop
begin

text \<open>
  What the programs of the harness leave alone. A quiet event is one that neither selects, runs,
  completes, abandons nor reopens an item. \<open>asks\<close> relates the states around a run of a check,
  \<open>keeps_core\<close> those around the bookkeeping of a step: both are preorders, so that a program
  is shown to keep them construct by construct.
\<close>

named_theorems asks_rules \<open>programs that only ask the environment\<close>
named_theorems core_rules \<open>programs that keep the ledgers of the closed items\<close>

section \<open>Relations a program keeps\<close>

lemma relatedD: "related R m \<Longrightarrow> wp m (\<lambda>_. R s) s"
  by (simp add: related_def)

lemma related_mono: "related R m \<Longrightarrow> (\<And>s t. R s t \<Longrightarrow> S s t) \<Longrightarrow> related S m"
  unfolding related_def by (blast intro: wp_mono)

lemma related_branch:
  "related R m \<Longrightarrow> related R n \<Longrightarrow> related R (if b then m else n)"
  "related R m \<Longrightarrow> (\<And>a. related R (f a)) \<Longrightarrow> related R (case x of None \<Rightarrow> m | Some a \<Rightarrow> f a)"
  "(\<And>e. related R (g e)) \<Longrightarrow> (\<And>b. related R (h b)) \<Longrightarrow> related R (case y of Inl e \<Rightarrow> g e | Inr b \<Rightarrow> h b)"
  "(\<And>c d. related R (q c d)) \<Longrightarrow> related R (case z of (c, d) \<Rightarrow> q c d)"
  "(\<And>v. related R (j v)) \<Longrightarrow> related R (let v = u in j v)"
  by (auto simp: related_def wp_simps split: option.splits sum.splits prod.splits)

lemma related_only_if: "related R k \<Longrightarrow> (\<And>s. R s s) \<Longrightarrow> related R (only_if b k)"
  by (simp add: related_def wp_simps)

lemma related_bind:
  assumes "\<And>s t u. R s t \<Longrightarrow> R t u \<Longrightarrow> R s u" and m: "related R m" and f: "\<And>a. related R (f a)"
  shows "related R (State_Monad.bind m f)"
  unfolding related_def wp_simps
proof
  fix s
  show "wp m (\<lambda>a. wp (f a) (\<lambda>_. R s)) s"
    using relatedD [OF m] by (rule wp_mono) (rule wp_mono [OF relatedD [OF f]], rule assms(1))
qed

lemma related_pure: "(\<And>s. R s s) \<Longrightarrow> related R (State_Monad.return a)"
  by (simp add: related_def wp_simps)

lemma related_gets: "(\<And>s. R s s) \<Longrightarrow> related R (gets g)"
  by (simp add: related_def wp_simps)

lemma related_modify: "(\<And>s. R s (u s)) \<Longrightarrow> related R (modify u)"
  by (simp add: related_def wp_simps)

text \<open>The rule that carries a spec through a call.\<close>

lemma wp_related: "related R m \<Longrightarrow> (\<And>a t. R s t \<Longrightarrow> Q a t) \<Longrightarrow> wp m Q s"
  by (rule wp_mono [OF relatedD])

section \<open>Quiet extensions\<close>

fun quiet :: "event \<Rightarrow> bool" where
  "quiet (Asked_Next _) = False"
| "quiet (Completed _ _ _) = False"
| "quiet (Abandoned _ _ _) = False"
| "quiet (Reopened _ _ _) = False"
| "quiet (Ran_Step _ _) = False"
| "quiet _ = True"

definition quietly :: "event list \<Rightarrow> event list \<Rightarrow> bool" where
  "quietly h h' = (\<exists>es. h' = es @ h \<and> list_all quiet es)"

lemma quietly_refl [simp]: "quietly h h"
  by (simp add: quietly_def)

lemma quietly_Cons [simp]: "quiet e \<Longrightarrow> quietly h (e # h)"
  by (auto simp: quietly_def intro: exI [of _ "[e]"])

lemma quietly_trans: "quietly h h' \<Longrightarrow> quietly h' h'' \<Longrightarrow> quietly h h''"
  by (fastforce simp: quietly_def)

section \<open>Asking\<close>

definition asks :: "harness_run \<Rightarrow> harness_run \<Rightarrow> bool" where
  "asks s t \<longleftrightarrow> quietly (history s) (history t)
     \<and> t = s\<lparr>history := history t, guard := guard t, hung_checks := hung_checks t,
            longest_decided_check := longest_decided_check t, check_cost_paid := check_cost_paid t,
            check_runs := check_runs t, sweep_cost_paid := sweep_cost_paid t,
            acceptance_unknown := acceptance_unknown t\<rparr>"

lemma asks_refl [simp]: "asks s s"
  by (simp add: asks_def)

lemma asks_trans: "asks s t \<Longrightarrow> asks t u \<Longrightarrow> asks s u"
  by (cases s; cases t; cases u) (auto simp: asks_def intro: quietly_trans)

lemma asks_consult: "(\<And>b. quiet (e b)) \<Longrightarrow> related asks (consult f e)"
  by (simp add: related_def wp_simps Let_def asks_def)

lemmas asks_bind [asks_rules] = related_bind [of asks, OF asks_trans]
lemmas [asks_rules] = related_pure [of asks, OF asks_refl] related_gets [of asks, OF asks_refl]
lemmas [asks_rules] = related_branch [of asks] related_only_if [of asks, OF _ asks_refl]

lemma asks_primitives [asks_rules]:
  "related asks (is_cancelled E)" "related asks (now E)" "related asks (elapsed E n)"
  "related asks (src_start E i)" "related asks (src_add_note E i x)" "related asks (log_event E i a d)"
  "related asks (src_open_subtasks E i)" "related asks (run_shell E c n)" "related asks (path_exists E p)"
  "related asks (metadata E p)" "related asks (read_bounded E p)"
  unfolding primitives by (intro asks_rules asks_consult; simp)+

lemma asks_modify: "(\<And>s. asks s (u s)) \<Longrightarrow> related asks (modify u)"
  by (rule related_modify)

lemma asks_run_check [asks_rules]:
  "related asks (run_command_check E c n b)" "related asks (run_with_timeout_cap E check cap)"
proof -
  show c: "related asks (run_command_check E c n b)" for c n b
    unfolding run_command_check_def by (intro asks_rules)
  show "related asks (run_with_timeout_cap E check cap)"
    unfolding run_with_timeout_cap_def
    by (cases check) (auto intro!: asks_rules c split: option.splits sum.splits)
qed

lemma asks_fingerprints [asks_rules]:
  "related asks (fingerprint_files E ps)" "related asks (fingerprint_paths E ps)"
  "related asks (ensure_baseline E check g)" "related asks (observe_evidence E check g)"
  "related asks (verdict_artifacts E check)"
proof -
  show f: "related asks (fingerprint_files E ps)" for ps
    by (induction ps) (simp_all add: fingerprint_file_def, (intro asks_rules; assumption?)+)
  show p: "related asks (fingerprint_paths E ps)" for ps
    unfolding fingerprint_paths_def by (intro asks_rules f)
  show "related asks (ensure_baseline E check g)" "related asks (observe_evidence E check g)"
    "related asks (verdict_artifacts E check)"
    unfolding ensure_baseline_def observe_evidence_def verdict_artifacts_def
    by (auto intro!: asks_rules p simp: Let_def)
qed

lemma asks_ask_check [asks_rules]: "related asks (ask_check E check)"
  unfolding ask_check_def by (auto intro!: asks_rules asks_modify simp: asks_def)

lemma asks_bookkeeping [asks_rules]:
  "related asks (lift_cap E check n)" "related asks (arm_cap E check)" "related asks count_unknown"
  "related asks (pay_sweep E n)"
  "related asks (modify (\<lambda>s. s\<lparr>check_cost_paid := check_cost_paid s + n, check_runs := check_runs s + 1\<rparr>))"
  unfolding lift_cap_def arm_cap_def count_unknown_def pay_sweep_def
  by (auto intro!: asks_rules asks_modify simp: asks_def)

section \<open>Bookkeeping\<close>

definition keeps_core :: "harness_run \<Rightarrow> harness_run \<Rightarrow> bool" where
  "keeps_core s t \<longleftrightarrow> quietly (history s) (history t) \<and> started t = started s \<and> steps_taken t = steps_taken s
     \<and> items_completed t = items_completed s \<and> items_completed_unverified t = items_completed_unverified s
     \<and> items_already_satisfied t = items_already_satisfied s \<and> items_abandoned t = items_abandoned s
     \<and> items_revived t = items_revived s \<and> items_regressed_reopened t = items_regressed_reopened s
     \<and> verified_this_run t = verified_this_run s \<and> abandoned_this_run t = abandoned_this_run s
     \<and> unverifiable t = unverifiable s \<and> reopened_once t = reopened_once s
     \<and> precheck_ids t = precheck_ids s"

lemma core_refl [simp]: "keeps_core s s"
  by (simp add: keeps_core_def)

lemma core_trans: "keeps_core s t \<Longrightarrow> keeps_core t u \<Longrightarrow> keeps_core s u"
  by (auto simp: keeps_core_def intro: quietly_trans)

lemma asks_core: "asks s t \<Longrightarrow> keeps_core s t"
  unfolding asks_def keeps_core_def by (elim conjE) (erule ssubst, simp)

lemma core_asks: "related asks m \<Longrightarrow> related keeps_core m"
  by (rule related_mono [OF _ asks_core])

lemmas core_bind [core_rules] = related_bind [of keeps_core, OF core_trans]
lemmas [core_rules] = related_pure [of keeps_core, OF core_refl] related_gets [of keeps_core, OF core_refl]
  related_branch [of keeps_core] related_only_if [of keeps_core, OF _ core_refl]
lemmas [core_rules] = asks_primitives [THEN core_asks] asks_run_check [THEN core_asks]
  asks_fingerprints [THEN core_asks] asks_ask_check [THEN core_asks] asks_bookkeeping [THEN core_asks]

lemma core_modify: "(\<And>s. keeps_core s (u s)) \<Longrightarrow> related keeps_core (modify u)"
  by (rule related_modify)

lemma core_consult: "(\<And>b. quiet (e b)) \<Longrightarrow> related keeps_core (consult f e)"
  by (intro core_asks asks_consult)

lemma core_items [core_rules]:
  "related keeps_core (update_item i f)" "related keeps_core (entry_item i)" "related keeps_core (remove_item i)"
  "related keeps_core (modify replenish_all)" "related keeps_core (note_outcome E check b)"
  "related keeps_core (fresh_evidence E i outcome)" "related keeps_core (join_cluster E w i)"
  "related keeps_core (still_unmet i x y)"
  unfolding update_item_def entry_item_def remove_item_def note_outcome_def fresh_evidence_def
    join_cluster_def still_unmet_def
  by (auto intro!: core_rules core_modify simp: keeps_core_def set_item_def replenish_all_def)

lemma core_flow [core_rules]:
  "related keeps_core (continue a)" "related keeps_core next_iteration" "related keeps_core (stop r)"
  unfolding continue_def next_iteration_def stop_def by (intro core_rules)+

lemma core_judge [core_rules]:
  "related keeps_core (judge_unknown E step check outcome b v)"
  "related keeps_core (judge_failed E step check outcome b v)"
  "related keeps_core (complete_failed E step x)"
  "related keeps_core (file_step_findings E step outcome)"
  unfolding judge_unknown_def judge_failed_def complete_failed_def file_step_findings_def
  by (auto intro!: core_rules core_modify simp: keeps_core_def)

lemma core_before_step [core_rules]:
  "related keeps_core (item_gate E step)" "related keeps_core (note_precheck_verdict E step check v n)"
  "related keeps_core (step_prompt E step b c n)" "related keeps_core (admit_input E)"
  "related keeps_core (baseline_evidence E step)"
  unfolding item_gate_def note_precheck_verdict_def step_prompt_def admit_input_def baseline_evidence_def
  by (auto intro!: core_rules core_modify core_consult simp: keeps_core_def split: option.splits)

end
