(* ===== verification/Harness_Trace.thy ===== *)
theory Harness_Trace
  imports Harness_Frame
begin

text \<open>
  What the journal of a run says of its completions and reopenings. A completion is vouched for
  when the environment confirmed the item's own check after the item was selected, or the item
  has no check; a reopening when the environment's last answer about the item's check contradicts
  how the item was closed. The ledgers of the run are counts of the journal's events.
\<close>

section \<open>Answers to a check\<close>

definition pattern_matches :: "inputs \<Rightarrow> string \<Rightarrow> ustring \<Rightarrow> bool" where
  "pattern_matches E pat t = (case regex_new E pat of Inl _ \<Rightarrow> False | Inr f \<Rightarrow> f t)"

fun confirms :: "inputs \<Rightarrow> acceptance_check \<Rightarrow> event \<Rightarrow> bool" where
  "confirms E (Command c _) (Ran_Shell c' _ (Inr r)) = (c' = c \<and> fst r = Some 0)"
| "confirms E (FileExists p) (Asked_Exists p' b) = (p' = p \<and> b)"
| "confirms E (Regex pat (Some p) _ _) (Read_File p' (Inr t)) = (p' = p \<and> pattern_matches E pat t)"
| "confirms E (Regex pat None (Some c) _) (Ran_Shell c' _ (Inr r)) = (c' = c \<and> pattern_matches E pat (snd r))"
| "confirms E _ _ = False"

fun refutes :: "inputs \<Rightarrow> acceptance_check \<Rightarrow> event \<Rightarrow> bool" where
  "refutes E (Command c _) (Ran_Shell c' _ (Inr r)) = (c' = c \<and> fst r \<noteq> Some 0)"
| "refutes E (Command c _) (Ran_Shell c' _ (Inl (Other _))) = (c' = c)"
| "refutes E (FileExists p) (Asked_Exists p' b) = (p' = p \<and> \<not> b)"
| "refutes E (Regex pat (Some p) _ _) (Read_File p' (Inr t)) = (p' = p \<and> \<not> pattern_matches E pat t)"
| "refutes E (Regex pat (Some p) _ _) (Read_File p' (Inl _)) = (p' = p)"
| "refutes E (Regex pat None (Some c) _) (Ran_Shell c' _ (Inr r)) = (c' = c \<and> \<not> pattern_matches E pat (snd r))"
| "refutes E (Regex pat None (Some c) _) (Ran_Shell c' _ (Inl (Other _))) = (c' = c)"
| "refutes E _ _ = False"

text \<open>A pattern that does not compile, or a pattern of nothing, is never asked.\<close>

fun answerable :: "inputs \<Rightarrow> acceptance_check \<Rightarrow> bool" where
  "answerable E (Regex pat p c _) = ((\<exists>f. regex_new E pat = Inr f) \<and> (p \<noteq> None \<or> c \<noteq> None))"
| "answerable E _ = True"

definition truthful :: "inputs \<Rightarrow> acceptance_check \<Rightarrow> acceptance_verdict \<Rightarrow> event list \<Rightarrow> bool" where
  "truthful E check v h \<longleftrightarrow>
     (v_passed v \<longrightarrow> \<not> is_unknown v \<and> answerable E check \<and> h \<noteq> [] \<and> confirms E check (hd h))
   \<and> (\<not> v_passed v \<and> \<not> is_unknown v \<and> answerable E check \<longrightarrow> h \<noteq> [] \<and> refutes E check (hd h))"

lemmas verdict_defs = pass_verdict_def fail_verdict_def timeout_verdict_def is_unknown_def

lemma output_head_fields [simp]:
  "v_passed (with_output_head x v) = v_passed v" "v_timed_out (with_output_head x v) = v_timed_out v"
  "v_evidence_changed (with_output_head x v) = v_evidence_changed v"
  by (simp_all add: with_output_head_def Let_def)

lemma run_check_truthful:
  "wp (run_with_timeout_cap E check cap) (\<lambda>v t. truthful E check v (history t)) s"
proof (cases check)
  case (Command c t)
  then show ?thesis
    by (simp add: run_with_timeout_cap_def run_command_check_def run_shell_def wp_simps Let_def
        truthful_def verdict_defs split: prod.splits sum.splits shell_run_error.splits)
next
  case (FileExists p)
  then show ?thesis
    by (simp add: run_with_timeout_cap_def path_exists_def wp_simps Let_def truthful_def verdict_defs)
next
  case (Regex pat p c t)
  then show ?thesis
    by (cases p; cases c)
      (simp_all add: run_with_timeout_cap_def read_bounded_def run_shell_def wp_simps Let_def
        truthful_def verdict_defs match_haystack_def pattern_matches_def
        split: prod.splits sum.splits shell_run_error.splits)
qed

lemma drift_truthful: "truthful E check v h \<Longrightarrow> truthful E check (with_evidence_drift x v) h"
  by (auto simp: truthful_def with_evidence_drift_def is_unknown_def Let_def)

lemma ask_check_truthful:
  "wp (ask_check E check) (\<lambda>r t. asks s t \<and> truthful E check (snd r) (history t)) s"
proof -
  have "wp (ask_check E check) (\<lambda>r t. truthful E check (snd r) (history t)) s"
    unfolding ask_check_def wp_simps
    by (rule wp_related [OF asks_primitives(2)], rule wp_related [OF asks_fingerprints(4)])
      (auto simp: wp_simps split: prod.splits option.splits
        intro!: wp_mono [OF run_check_truthful] intro: drift_truthful)
  then show ?thesis using relatedD [OF asks_ask_check] by (simp add: wp_conj)
qed

end
