(* ===== verification/Harness_Ledger.thy ===== *)
theory Harness_Ledger
  imports Harness_Trace
begin

text \<open>
  The invariant of a run: every entry of its journal is vouched for by what came before, and its
  ledgers are counts of the journal. The operations that complete, abandon or reopen an item are
  shown to keep it one by one; everything else keeps it as it keeps the core.
\<close>

section \<open>Reading a journal\<close>

fun is_selection :: "event \<Rightarrow> bool" where
  "is_selection (Asked_Next _) = True"
| "is_selection _ = False"

fun is_clock :: "event \<Rightarrow> bool" where
  "is_clock (Read_Clock _) = True"
| "is_clock _ = False"

fun is_step :: "event \<Rightarrow> bool" where
  "is_step (Ran_Step _ (Inr _)) = True"
| "is_step _ = False"

definition since_selection :: "event list \<Rightarrow> event list" where
  "since_selection h = takeWhile (\<lambda>e. \<not> is_selection e) h"

fun selection_of :: "event list \<Rightarrow> task_step option" where
  "selection_of [] = None"
| "selection_of (Asked_Next (Inr found) # h) = found"
| "selection_of (Asked_Next (Inl _) # h) = None"
| "selection_of (_ # h) = selection_of h"

definition last_answer :: "event list \<Rightarrow> event list" where
  "last_answer h = take 1 (dropWhile is_clock h)"

text \<open>An item was selected with this check.\<close>

definition served_with :: "int \<Rightarrow> acceptance_check \<Rightarrow> event list \<Rightarrow> bool" where
  "served_with i check h \<longleftrightarrow>
     (\<exists>step. Asked_Next (Inr (Some step)) \<in> set h \<and> st_id step = i \<and> st_acceptance step = Some check)"

definition revived :: "int \<Rightarrow> event list \<Rightarrow> bool" where
  "revived i h \<longleftrightarrow> Reopened i revive_reason (Inr ()) \<in> set h"

definition verified_flag :: "document \<Rightarrow> bool" where
  "verified_flag d \<longleftrightarrow> doc_get d ''verified'' = Some (DBool True)"

definition completion_vouched :: "inputs \<Rightarrow> int \<Rightarrow> document \<Rightarrow> event list \<Rightarrow> bool" where
  "completion_vouched E i d h = (case selection_of h of
     None \<Rightarrow> False
   | Some step \<Rightarrow> st_id step = i
       \<and> (case st_acceptance step of
            None \<Rightarrow> \<not> verified_flag d
          | Some check \<Rightarrow> verified_flag d \<and> list_ex (confirms E check) (since_selection h))
       \<and> (list_ex is_step (since_selection h)
          \<or> st_acceptance step \<noteq> None \<and> (i \<in> precheck_acceptance_items (cfg E) \<or> revived i h)))"

definition reopening_vouched :: "inputs \<Rightarrow> int \<Rightarrow> ustring \<Rightarrow> event list \<Rightarrow> bool" where
  "reopening_vouched E i reason h \<longleftrightarrow> (\<exists>check. served_with i check h
     \<and> (if reason = revive_reason
        then (\<exists>r. Abandoned i r (Inr ()) \<in> set h) \<and> list_ex (confirms E check) (last_answer h)
        else (\<exists>d. Completed i d (Inr ()) \<in> set h \<and> verified_flag d) \<and> list_ex (refutes E check) (last_answer h)))"

fun vouched :: "inputs \<Rightarrow> event list \<Rightarrow> bool" where
  "vouched E [] = True"
| "vouched E (Completed i d r # h) = (completion_vouched E i d h \<and> vouched E h)"
| "vouched E (Reopened i reason r # h) = (reopening_vouched E i reason h \<and> vouched E h)"
| "vouched E (_ # h) = vouched E h"

fun reopened_id :: "event \<Rightarrow> int option" where
  "reopened_id (Reopened i _ (Inr _)) = Some i"
| "reopened_id _ = None"

definition reopened_ids :: "event list \<Rightarrow> int list" where
  "reopened_ids h = List.map_filter reopened_id h"

fun is_completion :: "event \<Rightarrow> bool" where
  "is_completion (Completed _ _ (Inr _)) = True"
| "is_completion _ = False"

fun is_abandonment :: "event \<Rightarrow> bool" where
  "is_abandonment (Abandoned _ _ (Inr _)) = True"
| "is_abandonment _ = False"

definition tally :: "(event \<Rightarrow> bool) \<Rightarrow> event list \<Rightarrow> nat" where
  "tally p h = length (filter p h)"

lemma tally_Cons [simp]: "tally p (e # h) = of_bool (p e) + tally p h"
  by (simp add: tally_def)

lemma reopened_ids_Cons [simp]:
  "reopened_ids (e # h) = (case reopened_id e of None \<Rightarrow> reopened_ids h | Some i \<Rightarrow> i # reopened_ids h)"
  by (simp add: reopened_ids_def List.map_filter_simps split: option.splits)

text \<open>The items a journal has closed and not reopened. A source is honest when it serves none of
  them, as the contract of \<open>TaskSource::next\<close> says: an actionable item is an open one.\<close>

fun closed_ids :: "event list \<Rightarrow> int set" where
  "closed_ids [] = {}"
| "closed_ids (Completed i _ (Inr _) # h) = insert i (closed_ids h)"
| "closed_ids (Abandoned i _ (Inr _) # h) = insert i (closed_ids h)"
| "closed_ids (Reopened i _ (Inr _) # h) = closed_ids h - {i}"
| "closed_ids (_ # h) = closed_ids h"

definition honest_source :: "inputs \<Rightarrow> bool" where
  "honest_source E \<longleftrightarrow> (\<forall>h step. ask_next E h = Inr (Some step) \<longrightarrow> st_id step \<notin> closed_ids h)"

section \<open>Quiet extensions of a journal\<close>

lemma quiet_event:
  assumes "quiet e"
  shows "\<not> is_selection e" "\<not> is_step e" "\<not> is_completion e" "\<not> is_abandonment e" "reopened_id e = None"
    "vouched E (e # h) = vouched E h" "selection_of (e # h) = selection_of h" "closed_ids (e # h) = closed_ids h"
  using assms by (cases e; simp)+

lemma quietly_induct:
  assumes "quietly h h'" and "P h" and "\<And>e h. quiet e \<Longrightarrow> P h \<Longrightarrow> P (e # h)"
  shows "P h'"
proof -
  have "P (es @ h)" if "list_all quiet es" for es
    using that by (induction es) (auto intro: assms)
  then show ?thesis using assms(1) by (auto simp: quietly_def)
qed

lemma quietly_reads:
  assumes "quietly h h'"
  shows "vouched E h' = vouched E h" "selection_of h' = selection_of h"
    "tally is_completion h' = tally is_completion h" "tally is_abandonment h' = tally is_abandonment h"
    "tally is_step h' = tally is_step h" "reopened_ids h' = reopened_ids h" "set h \<subseteq> set h'"
    "closed_ids h' = closed_ids h"
    "list_ex p (since_selection h) \<Longrightarrow> list_ex p (since_selection h')"
  using assms by (rule quietly_induct; auto simp: quiet_event since_selection_def)+

lemma served_mono: "set h \<subseteq> set h' \<Longrightarrow> served_with i check h \<Longrightarrow> served_with i check h'"
  by (auto simp: served_with_def)

lemma revived_mono: "set h \<subseteq> set h' \<Longrightarrow> revived i h \<Longrightarrow> revived i h'"
  by (auto simp: revived_def)

section \<open>The invariant\<close>

definition closed_with :: "inputs \<Rightarrow> harness_run \<Rightarrow> bool" where
  "closed_with E s \<longleftrightarrow>
     (\<forall>(i, _, check) \<in> set (verified_this_run s). answerable E check \<and> served_with i check (history s)
        \<and> (\<exists>d. Completed i d (Inr ()) \<in> set (history s) \<and> verified_flag d))
   \<and> (\<forall>(i, _, check) \<in> set (abandoned_this_run s). served_with i check (history s)
        \<and> (\<exists>r. Abandoned i r (Inr ()) \<in> set (history s)))
   \<and> precheck_ids s \<subseteq> precheck_acceptance_items (cfg E) \<union> {i. revived i (history s)}"

definition reopen_ledger :: "harness_run \<Rightarrow> bool" where
  "reopen_ledger s \<longleftrightarrow> (\<exists>V A. reopened_once s = V \<union> A \<and> V \<inter> A = {} \<and> finite V \<and> finite A
     \<and> V \<subseteq> fst ` set (verified_this_run s) \<and> A \<subseteq> fst ` set (abandoned_this_run s)
     \<and> items_regressed_reopened s = card V \<and> items_revived s = card A)"

definition ledger_counts :: "nat \<Rightarrow> harness_run \<Rightarrow> bool" where
  "ledger_counts k s \<longleftrightarrow>
     items_completed s + items_regressed_reopened s = tally is_completion (history s)
   \<and> items_abandoned s + items_revived s = tally is_abandonment (history s)
   \<and> steps_taken s + k = tally is_step (history s)
   \<and> length (verified_this_run s) \<le> tally is_completion (history s)
   \<and> length (abandoned_this_run s) + length (unverifiable s) = tally is_abandonment (history s)
   \<and> set (reopened_ids (history s)) = reopened_once s \<and> distinct (reopened_ids (history s))"

text \<open>The entries of the two lists that no sweep has reopened.\<close>

definition sweepable :: "harness_run \<Rightarrow> int list" where
  "sweepable s = filter (\<lambda>i. i \<notin> reopened_once s) (map fst (verified_this_run s @ abandoned_this_run s))"

definition ledger_ok :: "nat \<Rightarrow> harness_run \<Rightarrow> bool" where
  "ledger_ok k s \<longleftrightarrow> reopen_ledger s \<and> ledger_counts k s \<and> distinct (sweepable s)
     \<and> set (sweepable s) \<subseteq> closed_ids (history s)"

definition run_ok :: "inputs \<Rightarrow> nat \<Rightarrow> harness_run \<Rightarrow> bool" where
  "run_ok E k s \<longleftrightarrow> vouched E (history s) \<and> closed_with E s \<and> (honest_source E \<longrightarrow> ledger_ok k s)"

lemma closed_with_mono:
  assumes "closed_with E s" "set (history s) \<subseteq> set (history t)" "verified_this_run t = verified_this_run s"
    "abandoned_this_run t = abandoned_this_run s" "precheck_ids t = precheck_ids s"
  shows "closed_with E t"
  using assms(1) unfolding closed_with_def assms(3-5)
  by (elim conjE) (intro conjI; (fastforce intro: served_mono [OF assms(2)] dest: subsetD [OF assms(2)]
        simp: revived_def)?)

lemma run_ok_core:
  assumes "run_ok E k s" "keeps_core s t"
  shows "run_ok E k t"
proof -
  have q: "quietly (history s) (history t)" using assms(2) by (simp add: keeps_core_def)
  have "closed_with E t"
    using assms quietly_reads(7) [OF q] by (intro closed_with_mono [of E s t]) (auto simp: run_ok_def keeps_core_def)
  moreover have "ledger_ok k t" if "ledger_ok k s"
    using assms that by (simp add: ledger_ok_def sweepable_def keeps_core_def reopen_ledger_def
        ledger_counts_def quietly_reads [OF q])
  ultimately show ?thesis using assms(1) by (simp add: run_ok_def quietly_reads [OF q])
qed

lemma run_ok_new: "run_ok E 0 (new_run E [])"
  by (simp add: run_ok_def new_run_def closed_with_def ledger_ok_def sweepable_def reopen_ledger_def
      ledger_counts_def tally_def reopened_ids_def List.map_filter_simps)

end
