(* ===== verification/Harness_Verdicts.thy ===== *)
theory Harness_Verdicts
  imports Harness_Ledger
begin

text \<open>
  Every pass of the harness keeps the invariant, whatever the environment answers: the three
  places that complete an item, the two that abandon one and the two that reopen one are followed
  to their journal entries; the rest is bookkeeping.
\<close>

section \<open>Programs that only read the clock\<close>

definition ticks :: "harness_run \<Rightarrow> harness_run \<Rightarrow> bool" where
  "ticks s t \<longleftrightarrow> keeps_core s t \<and> (\<exists>es. history t = es @ history s \<and> list_all is_clock es)"

lemma ticks_refl [simp]: "ticks s s"
  by (simp add: ticks_def)

lemma ticks_trans: "ticks s t \<Longrightarrow> ticks t u \<Longrightarrow> ticks s u"
  by (fastforce simp: ticks_def intro: core_trans)

lemma ticks_core: "ticks s t \<Longrightarrow> keeps_core s t"
  by (simp add: ticks_def)

lemma ticks_last_answer: "ticks s t \<Longrightarrow> last_answer (history t) = last_answer (history s)"
  by (auto simp: ticks_def last_answer_def dropWhile_append2 list_all_iff)

lemma ticks_bookkeeping:
  "related ticks (lift_cap E check n)" "related ticks (pay_sweep E n)" "related ticks (note_outcome E check b)"
  "related ticks (modify replenish_all)" "related ticks (arm_cap E check)" "related ticks count_unknown"
  "related ticks (still_unmet i x y)"
proof -
  note rules = related_bind [of ticks, OF ticks_trans] related_pure [of ticks, OF ticks_refl]
    related_gets [of ticks, OF ticks_refl] related_modify
  have e: "related ticks (elapsed E n)" for n
    unfolding elapsed_def now_def
    by (auto simp: related_def wp_simps Let_def ticks_def keeps_core_def intro!: exI [of _ "[_]"])
  show "related ticks (lift_cap E check n)" "related ticks (pay_sweep E n)" "related ticks (note_outcome E check b)"
    "related ticks (modify replenish_all)" "related ticks (arm_cap E check)" "related ticks count_unknown"
    "related ticks (still_unmet i x y)"
    unfolding lift_cap_def pay_sweep_def note_outcome_def arm_cap_def count_unknown_def still_unmet_def
    by (auto intro!: rules e simp: ticks_def keeps_core_def replenish_all_def)
qed

lemma truthful_last_answer:
  "truthful E check v h \<Longrightarrow> v_passed v \<Longrightarrow> list_ex (confirms E check) (last_answer h)"
  "truthful E check v h \<Longrightarrow> \<not> v_passed v \<Longrightarrow> \<not> is_unknown v \<Longrightarrow> answerable E check
     \<Longrightarrow> list_ex (refutes E check) (last_answer h)"
proof -
  have "confirms E check e \<or> refutes E check e \<Longrightarrow> last_answer (e # h') = [e]" for e h'
    by (cases e) (auto simp: last_answer_def elim: confirms.elims refutes.elims)
  then have *: "h \<noteq> [] \<Longrightarrow> confirms E check (hd h) \<or> refutes E check (hd h) \<Longrightarrow> last_answer h = [hd h]"
    by (cases h) auto
  show "truthful E check v h \<Longrightarrow> v_passed v \<Longrightarrow> list_ex (confirms E check) (last_answer h)"
    "truthful E check v h \<Longrightarrow> \<not> v_passed v \<Longrightarrow> \<not> is_unknown v \<Longrightarrow> answerable E check
     \<Longrightarrow> list_ex (refutes E check) (last_answer h)"
    using * by (auto simp: truthful_def)
qed

section \<open>Reopening\<close>

lemma card_ids_less:
  assumes "(i, x) \<in> set xs" "A \<subseteq> fst ` set xs" "i \<notin> A" "finite A"
  shows "card A < length xs"
proof -
  have "insert i A \<subseteq> fst ` set xs" using assms(1,2) by (auto intro: rev_image_eqI)
  then have "card (insert i A) \<le> card (fst ` set xs)" by (intro card_mono) auto
  also have "\<dots> \<le> length xs" by (metis card_image_le card_length finite_set le_trans)
  finally show ?thesis using assms(3,4) by simp
qed

lemma sweepable_reopened:
  assumes "ledger_ok k s" "verified_this_run t = verified_this_run s" "abandoned_this_run t = abandoned_this_run s"
    "reopened_once t = insert i (reopened_once s)" "closed_ids (history t) = closed_ids (history s) - {i}"
  shows "distinct (sweepable t)" "set (sweepable t) \<subseteq> closed_ids (history t)"
proof -
  have t: "sweepable t = filter (\<lambda>j. j \<noteq> i) (sweepable s)"
    unfolding sweepable_def assms(2-4) filter_filter by (rule filter_cong) auto
  show "distinct (sweepable t)" "set (sweepable t) \<subseteq> closed_ids (history t)"
    using assms(1) unfolding t assms(5) by (auto simp: ledger_ok_def)
qed

lemma ledger_revived:
  assumes ok: "ledger_ok 0 s" and new: "i \<notin> reopened_once s" and mem: "(i, x, check) \<in> set (abandoned_this_run s)"
    and t: "t = s\<lparr>history := Reopened i revive_reason (Inr ()) # history s, reopened_once := insert i (reopened_once s),
      precheck_ids := insert i (precheck_ids s), items_revived := items_revived s + 1,
      items_abandoned := items_abandoned s - 1\<rparr>"
  shows "ledger_ok 0 t"
proof -
  obtain V A where VA: "reopened_once s = V \<union> A" "V \<inter> A = {}" "finite V" "finite A"
    "V \<subseteq> fst ` set (verified_this_run s)" "A \<subseteq> fst ` set (abandoned_this_run s)"
    "items_regressed_reopened s = card V" "items_revived s = card A"
    using ok by (auto simp: ledger_ok_def reopen_ledger_def)
  then have "reopen_ledger t"
    using new mem unfolding reopen_ledger_def t
    by - (rule exI [of _ V], rule exI [of _ "insert i A"], auto simp: card_insert_if intro: rev_image_eqI [OF mem])
  moreover have "card A < length (abandoned_this_run s)"
    using mem VA(1,4,6) new by (intro card_ids_less) auto
  then have "ledger_counts 0 t"
    using ok new VA(8) by (auto simp: ledger_ok_def ledger_counts_def t)
  ultimately show ?thesis
    using sweepable_reopened [OF ok, of t i] by (simp add: ledger_ok_def t)
qed

lemma ledger_regressed:
  assumes ok: "ledger_ok 0 s" and new: "i \<notin> reopened_once s" and mem: "(i, x, check) \<in> set (verified_this_run s)"
    and t: "t = s\<lparr>history := Reopened i reason (Inr ()) # history s, reopened_once := insert i (reopened_once s),
      items_completed := items_completed s - 1, items_regressed_reopened := items_regressed_reopened s + 1\<rparr>"
  shows "ledger_ok 0 t"
proof -
  obtain V A where VA: "reopened_once s = V \<union> A" "V \<inter> A = {}" "finite V" "finite A"
    "V \<subseteq> fst ` set (verified_this_run s)" "A \<subseteq> fst ` set (abandoned_this_run s)"
    "items_regressed_reopened s = card V" "items_revived s = card A"
    using ok by (auto simp: ledger_ok_def reopen_ledger_def)
  then have "reopen_ledger t"
    using new mem unfolding reopen_ledger_def t
    by - (rule exI [of _ "insert i V"], rule exI [of _ A], auto simp: card_insert_if intro: rev_image_eqI [OF mem])
  moreover have "card V < length (verified_this_run s)"
    using mem VA(1,3,5) new by (intro card_ids_less) auto
  then have "ledger_counts 0 t"
    using ok new VA(7) by (auto simp: ledger_ok_def ledger_counts_def t)
  ultimately show ?thesis
    using sweepable_reopened [OF ok, of t i] by (simp add: ledger_ok_def t)
qed

lemma run_ok_revived:
  assumes ok: "run_ok E 0 s" and new: "honest_source E \<Longrightarrow> i \<notin> reopened_once s"
    and mem: "(i, x, check) \<in> set (abandoned_this_run s)"
    and answer: "list_ex (confirms E check) (last_answer (history s))"
    and t: "t = s\<lparr>history := Reopened i revive_reason (Inr ()) # history s, reopened_once := insert i (reopened_once s),
      precheck_ids := insert i (precheck_ids s), items_revived := items_revived s + 1,
      items_abandoned := items_abandoned s - 1\<rparr>"
  shows "run_ok E 0 t"
proof -
  have "served_with i check (history s)" "\<exists>r. Abandoned i r (Inr ()) \<in> set (history s)"
    using ok mem by (auto simp: run_ok_def closed_with_def)
  then have "vouched E (history t)"
    using ok answer by (auto simp: t run_ok_def reopening_vouched_def)
  moreover have "closed_with E (t\<lparr>precheck_ids := precheck_ids s\<rparr>)"
    by (rule closed_with_mono [of E s]) (use ok in \<open>auto simp: t run_ok_def\<close>)
  then have "closed_with E t" by (auto simp: t closed_with_def revived_def)
  moreover have "honest_source E \<Longrightarrow> ledger_ok 0 t"
    using ok new by (intro ledger_revived [OF _ _ mem t]) (simp_all add: run_ok_def)
  ultimately show ?thesis by (simp add: run_ok_def)
qed

lemma run_ok_regressed:
  assumes ok: "run_ok E 0 s" and new: "honest_source E \<Longrightarrow> i \<notin> reopened_once s"
    and mem: "(i, x, check) \<in> set (verified_this_run s)"
    and answer: "list_ex (refutes E check) (last_answer (history s))" and reason: "reason \<noteq> revive_reason"
    and t: "t = s\<lparr>history := Reopened i reason (Inr ()) # history s, reopened_once := insert i (reopened_once s),
      items_completed := items_completed s - 1, items_regressed_reopened := items_regressed_reopened s + 1\<rparr>"
  shows "run_ok E 0 t"
proof -
  have "served_with i check (history s)" "\<exists>d. Completed i d (Inr ()) \<in> set (history s) \<and> verified_flag d"
    using ok mem by (auto simp: run_ok_def closed_with_def)
  then have "vouched E (history t)"
    using ok answer reason by (auto simp: t run_ok_def reopening_vouched_def)
  moreover have "closed_with E t"
    by (rule closed_with_mono [of E s]) (use ok in \<open>auto simp: t run_ok_def\<close>)
  moreover have "honest_source E \<Longrightarrow> ledger_ok 0 t"
    using ok new by (intro ledger_regressed [OF _ _ mem t]) (simp_all add: run_ok_def)
  ultimately show ?thesis by (simp add: run_ok_def)
qed

text \<open>An entry that changes neither ledgers nor lists, and is vouched for.\<close>

lemma run_ok_noted:
  assumes "run_ok E k s" "vouched E (e # history s)" "\<not> is_completion e" "\<not> is_abandonment e" "\<not> is_step e"
    "reopened_id e = None" "closed_ids (e # history s) = closed_ids (history s)"
  shows "run_ok E k (s\<lparr>history := e # history s\<rparr>)"
  unfolding run_ok_def
proof (intro conjI impI)
  show "closed_with E (s\<lparr>history := e # history s\<rparr>)"
    by (rule closed_with_mono [of E s]) (use assms in \<open>auto simp: run_ok_def\<close>)
  show "ledger_ok k (s\<lparr>history := e # history s\<rparr>)" if "honest_source E"
    using assms that by (simp add: run_ok_def ledger_ok_def ledger_counts_def reopen_ledger_def sweepable_def)
qed (use assms in simp)

end
