(* ===== verification/Harness_Sweeps.thy ===== *)
theory Harness_Sweeps
  imports Harness_Verdicts
begin

text \<open>
  The two sweeps that ask closed verdicts again keep the invariant: the drain sweep, which looks
  at every closed item when nothing is left to do, and the sweep at a step boundary, which looks
  at the items the step may have touched. Each asks about an item, books the answer, and reopens
  the item when the answer contradicts how it was closed.
\<close>

section \<open>Around a run of a check\<close>

text \<open>The state after a check was asked: nothing but bookkeeping happened, and the verdict is
  what the environment's last answer says.\<close>

definition was_answered :: "inputs \<Rightarrow> acceptance_check \<Rightarrow> acceptance_verdict \<Rightarrow> harness_run \<Rightarrow> harness_run \<Rightarrow> bool" where
  "was_answered E check v s t \<longleftrightarrow> keeps_core s t
     \<and> (v_passed v \<longrightarrow> \<not> is_unknown v \<and> answerable E check \<and> list_ex (confirms E check) (last_answer (history t)))
     \<and> (\<not> v_passed v \<and> \<not> is_unknown v \<and> answerable E check
        \<longrightarrow> list_ex (refutes E check) (last_answer (history t)))"

lemma ask_check_answered: "wp (ask_check E check) (\<lambda>r t. was_answered E check (snd r) s t) s"
  by (rule wp_mono [OF ask_check_truthful])
    (auto simp: was_answered_def dest: truthful_last_answer asks_core, simp_all add: truthful_def)

lemma answered_ticks: "was_answered E check v s t \<Longrightarrow> ticks t u \<Longrightarrow> was_answered E check v s u"
  unfolding was_answered_def by (metis core_trans ticks_core ticks_last_answer)

lemma wp_answered:
  "related ticks m \<Longrightarrow> was_answered E check v s t \<Longrightarrow> (\<And>a u. was_answered E check v s u \<Longrightarrow> Q a u) \<Longrightarrow> wp m Q t"
  by (rule wp_related, assumption, blast intro: answered_ticks)

lemma wp_after:
  assumes "was_answered E check v s t" "\<And>(a :: unit) u. was_answered E check v s u \<Longrightarrow> Q a u"
  shows "wp (lift_cap E' check' n) Q t" "wp (pay_sweep E' n) Q t" "wp (modify replenish_all) Q t"
    "wp (arm_cap E' check') Q t" "wp count_unknown Q t" "wp (still_unmet i x y) Q t"
proof -
  show "wp (lift_cap E' check' n) Q t" by (rule wp_answered [OF ticks_bookkeeping(1) assms])
  show "wp (pay_sweep E' n) Q t" by (rule wp_answered [OF ticks_bookkeeping(2) assms])
  show "wp (modify replenish_all) Q t" by (rule wp_answered [OF ticks_bookkeeping(4) assms])
  show "wp (arm_cap E' check') Q t" by (rule wp_answered [OF ticks_bookkeeping(5) assms])
  show "wp count_unknown Q t" by (rule wp_answered [OF ticks_bookkeeping(6) assms])
  show "wp (still_unmet i x y) Q t" by (rule wp_answered [OF ticks_bookkeeping(7) assms])
qed

lemma wp_after_outcome:
  assumes "was_answered E check v s t" "\<And>a u. was_answered E check v s u \<Longrightarrow> Q a u"
  shows "wp (note_outcome E' check' b) Q t"
  by (rule wp_answered [OF ticks_bookkeeping(3) assms])

lemma wp_asked:
  assumes "\<And>n v t. was_answered E check v s t \<Longrightarrow> wp (f (n, v)) Q t"
  shows "wp (State_Monad.bind (ask_check E check) f) Q s"
  unfolding wp_bind
proof (rule wp_mono [OF ask_check_answered])
  show "wp (f r) Q t" if "was_answered E check (snd r) s t" for r t
    using that assms [of "snd r" t "fst r"] by simp
qed

section \<open>The sweeps\<close>

definition sweeps :: "inputs \<Rightarrow> int set \<Rightarrow> harness_run \<Rightarrow> harness_run \<Rightarrow> bool" where
  "sweeps E I s t \<longleftrightarrow> (run_ok E 0 s \<longrightarrow> run_ok E 0 t) \<and> verified_this_run t = verified_this_run s
     \<and> abandoned_this_run t = abandoned_this_run s \<and> reopened_once t \<subseteq> I \<union> reopened_once s"

lemma sweeps_core: "keeps_core s t \<Longrightarrow> sweeps E I s t"
  by (auto simp: sweeps_def intro: run_ok_core) (auto simp: keeps_core_def)

lemma sweeps_trans: "sweeps E I s t \<Longrightarrow> sweeps E J t u \<Longrightarrow> sweeps E (I \<union> J) s u"
  by (auto simp: sweeps_def)

lemma sweeps_then_core: "sweeps E I s t \<Longrightarrow> keeps_core t u \<Longrightarrow> sweeps E I s u"
  using sweeps_trans [of E I s t I u] sweeps_core [of t u E I] by simp

lemma core_then_sweeps: "keeps_core s t \<Longrightarrow> sweeps E I t u \<Longrightarrow> sweeps E I s u"
  using sweeps_trans [of E I s t I u] sweeps_core [of s t E I] by simp

lemma sweeps_refl [simp]: "sweeps E I s s"
  by (simp add: sweeps_def)

lemma revive_ok:
  assumes new: "honest_source E \<Longrightarrow> i \<notin> reopened_once s" and mem: "(i, x, check) \<in> set (abandoned_this_run s)"
    and answer: "list_ex (confirms E check) (last_answer (history s))"
  shows "wp (revive E i d) (\<lambda>_. sweeps E {i} s) s"
proof -
  have v: "reopening_vouched E i revive_reason (history s)" if "run_ok E 0 s"
    using that mem answer by (auto simp: reopening_vouched_def run_ok_def closed_with_def)
  have refused: "sweeps E {i} s (s\<lparr>history := Reopened i revive_reason (Inl e) # history s\<rparr>)" for e
    using v by (auto simp: sweeps_def intro!: run_ok_noted) (simp add: run_ok_def)
  define t where "t = s\<lparr>history := Reopened i revive_reason (Inr ()) # history s, reopened_once := insert i (reopened_once s),
      precheck_ids := insert i (precheck_ids s), items_revived := items_revived s + 1,
      items_abandoned := items_abandoned s - 1\<rparr>"
  have t: "sweeps E {i} s t"
    using run_ok_revived [OF _ new mem answer t_def] by (auto simp: sweeps_def t_def)
  have logged: "wp (log_event E i a d) (\<lambda>_. wp (State_Monad.return True) (\<lambda>_. sweeps E {i} s)) u"
    if "keeps_core t u" for a u
    unfolding wp_simps
    by (rule wp_related [OF asks_primitives(6) [THEN core_asks]]) (rule sweeps_then_core [OF t core_trans [OF that]])
  show ?thesis
    unfolding revive_def remove_item_def src_reopen_def wp_simps Let_def
    by (auto simp: wp_simps t_def keeps_core_def refused split: sum.splits intro!: logged [unfolded wp_simps])
qed

lemma regress_ok:
  assumes new: "honest_source E \<Longrightarrow> i \<notin> reopened_once s" and mem: "(i, x, check) \<in> set (verified_this_run s)"
    and answer: "list_ex (refutes E check) (last_answer (history s))" and reason: "reason \<noteq> revive_reason"
  shows "wp (regress E i reason d) (\<lambda>_. sweeps E {i} s) s"
proof -
  have v: "reopening_vouched E i reason (history s)" if "run_ok E 0 s"
    using that mem answer reason by (auto simp: reopening_vouched_def run_ok_def closed_with_def)
  have refused: "sweeps E {i} s (s\<lparr>history := Reopened i reason (Inl e) # history s\<rparr>)" for e
    using v by (auto simp: sweeps_def intro!: run_ok_noted) (simp add: run_ok_def)
  define t where "t = s\<lparr>history := Reopened i reason (Inr ()) # history s, reopened_once := insert i (reopened_once s),
      items_completed := items_completed s - 1, items_regressed_reopened := items_regressed_reopened s + 1\<rparr>"
  have t: "sweeps E {i} s t"
    using run_ok_regressed [OF _ new mem answer reason t_def] by (auto simp: sweeps_def t_def)
  have logged: "wp (log_event E i a d) (\<lambda>_. wp (State_Monad.return True) (\<lambda>_. sweeps E {i} s)) u"
    if "keeps_core t u" for a u
    unfolding wp_simps
    by (rule wp_related [OF asks_primitives(6) [THEN core_asks]]) (rule sweeps_then_core [OF t core_trans [OF that]])
  show ?thesis
    unfolding regress_def remove_item_def src_reopen_def wp_simps Let_def
    by (auto simp: wp_simps t_def keeps_core_def refused split: sum.splits intro!: logged [unfolded wp_simps])
qed

lemma answered_sweeps: "was_answered E check v s t \<Longrightarrow> sweeps E I s t"
  by (auto simp: was_answered_def intro: sweeps_core)

lemma revive_after:
  assumes a: "was_answered E check v s t" and "v_passed v" and "honest_source E \<Longrightarrow> i \<notin> reopened_once s"
    and "(i, x, check) \<in> set (abandoned_this_run s)"
  shows "wp (revive E i d) (\<lambda>_. sweeps E {i} s) t"
  by (rule wp_mono [OF revive_ok [of E i t x check]])
    (use assms in \<open>auto simp: was_answered_def keeps_core_def intro: core_then_sweeps [of s t]\<close>)

lemma regress_after:
  assumes a: "was_answered E check v s t" and "\<not> v_passed v" "\<not> is_unknown v" and "honest_source E \<Longrightarrow> i \<notin> reopened_once s"
    and mem: "(i, x, check) \<in> set (verified_this_run s)" and "reason \<noteq> revive_reason" and ok: "run_ok E 0 s"
  shows "wp (regress E i reason d) (\<lambda>_. sweeps E {i} s) t"
proof -
  have "answerable E check" using mem ok by (auto simp: run_ok_def closed_with_def)
  then show ?thesis
    by (intro wp_mono [OF regress_ok [of E i t x check]])
      (use assms in \<open>auto simp: was_answered_def keeps_core_def intro: core_then_sweeps [of s t]\<close>)
qed

text \<open>The sweeps of one entry: the question, bookkeeping, and perhaps a reopening.\<close>

lemmas wp_flow = wp_pure wp_bind wp_branch

lemma reopening_texts:
  "lit ''verified completion regressed '' @ y \<noteq> revive_reason"
  "lit ''verified completion regressed mid-run '' @ y \<noteq> revive_reason"
  by (simp_all add: revive_reason_def lit_def)

lemmas wp_flow_only = wp_pure wp_bind wp_branch wp_only_if

lemma drain_abandoned_item_ok:
  assumes "(i, x, check) \<in> set (abandoned_this_run s)"
  shows "wp (drain_abandoned_item E (i, x, check)) (\<lambda>_. sweeps E {i} s) s"
proof (cases "i \<in> reopened_once s")
  case False
  show ?thesis
    apply (simp add: drain_abandoned_item_def wp_pure(2) wp_bind [of "gets _"] False)
    apply (rule wp_asked)
    subgoal for n v t
      by (auto simp: wp_flow_only intro!: wp_after [of E check v s] wp_after_outcome [of E check v s])
        ((rule revive_after [OF _ _ _ assms]; simp add: False) | (rule answered_sweeps, assumption))+
    done
qed (simp add: drain_abandoned_item_def wp_flow)

lemma drain_verified_item_ok:
  assumes mem: "(i, x, check) \<in> set (verified_this_run s)" and ok: "run_ok E 0 s"
  shows "wp (drain_verified_item E (i, x, check)) (\<lambda>_. sweeps E {i} s) s"
proof (cases "i \<in> reopened_once s")
  case False
  show ?thesis
    apply (simp add: drain_verified_item_def wp_pure(2) wp_bind [of "gets _"] False)
    apply (rule wp_asked)
    subgoal for n v t
      by (auto simp: wp_flow_only intro!: wp_after [of E check v s] wp_after_outcome [of E check v s])
        ((rule regress_after [OF _ _ _ _ mem _ ok]; simp add: False reopening_texts) | (rule answered_sweeps, assumption))+
    done
qed (simp add: drain_verified_item_def wp_flow)

lemma revive_one_mid_run_ok:
  assumes mem: "(i, x, check) \<in> set (abandoned_this_run s)" and new: "honest_source E \<Longrightarrow> i \<notin> reopened_once s"
  shows "wp (revive_one_mid_run E (i, x, check)) (\<lambda>_. sweeps E {i} s) s"
  apply (simp add: revive_one_mid_run_def)
  apply (rule wp_asked)
  subgoal for n v t
    by (auto simp: wp_flow_only intro!: wp_after [of E check v s] wp_after_outcome [of E check v s])
      ((rule wp_mono, rule revive_after [OF _ _ _ mem]; simp add: new wp_flow) | (rule answered_sweeps, assumption))+
  done

lemma recheck_one_mid_run_ok:
  assumes mem: "(i, x, check) \<in> set (verified_this_run s)" and ok: "run_ok E 0 s"
    and new: "honest_source E \<Longrightarrow> i \<notin> reopened_once s"
  shows "wp (recheck_one_mid_run E (i, x, check)) (\<lambda>_. sweeps E {i} s) s"
proof -
  have noted: "wp (src_add_note E i y) (\<lambda>_. sweeps E {i} s) u" if "sweeps E {i} s u" for y u
    by (rule wp_related [OF asks_primitives(5) [THEN core_asks]]) (rule sweeps_then_core [OF that])
  show ?thesis
    apply (simp add: recheck_one_mid_run_def)
    apply (rule wp_asked)
    subgoal for n v t
      by (auto simp: wp_flow_only intro!: wp_after [of E check v s] wp_after_outcome [of E check v s])
        ((rule wp_mono [OF regress_after [OF _ _ _ _ mem _ ok]];
            auto simp: new reopening_texts wp_flow Let_def intro: noted [THEN wp_mono])
          | (rule answered_sweeps, assumption))+
    done
qed

text \<open>The sweeps of a list.\<close>

lemma drain_abandoned_ok:
  "set xs \<subseteq> set (abandoned_this_run s) \<Longrightarrow> wp (drain_abandoned E xs) (\<lambda>_. sweeps E (fst ` set xs) s) s"
proof (induction xs arbitrary: s)
  case (Cons x xs)
  obtain i y check where x: "x = (i, y, check)" by (cases x)
  have "wp (drain_abandoned_item E x) (\<lambda>_. sweeps E {i} s) s"
    using Cons.prems unfolding x by (intro drain_abandoned_item_ok) simp
  then show ?case
    unfolding drain_abandoned.simps wp_flow
  proof (rule wp_mono)
    fix t assume t: "sweeps E {i} s t"
    then have "wp (drain_abandoned E xs) (\<lambda>_. sweeps E (fst ` set xs) t) t"
      using Cons.prems by (intro Cons.IH) (auto simp: sweeps_def)
    then show "wp (drain_abandoned E xs) (\<lambda>_. sweeps E (fst ` set (x # xs)) s) t"
      by (rule wp_mono) (use sweeps_trans [OF t] x in simp)
  qed
qed (simp add: wp_flow)

lemma drain_verified_ok:
  "set xs \<subseteq> set (verified_this_run s) \<Longrightarrow> run_ok E 0 s
     \<Longrightarrow> wp (drain_verified E xs) (\<lambda>_. sweeps E (fst ` set xs) s) s"
proof (induction xs arbitrary: s)
  case (Cons x xs)
  obtain i y check where x: "x = (i, y, check)" by (cases x)
  have "wp (drain_verified_item E x) (\<lambda>_. sweeps E {i} s) s"
    using Cons.prems unfolding x by (intro drain_verified_item_ok) simp_all
  then show ?case
    unfolding drain_verified.simps wp_flow
  proof (rule wp_mono)
    fix t assume t: "sweeps E {i} s t"
    then have "wp (drain_verified E xs) (\<lambda>_. sweeps E (fst ` set xs) t) t"
      using Cons.prems by (intro Cons.IH) (auto simp: sweeps_def)
    then show "wp (drain_verified E xs) (\<lambda>_. sweeps E (fst ` set (x # xs)) s) t"
      by (rule wp_mono) (use sweeps_trans [OF t] x in simp)
  qed
qed (simp add: wp_flow)

definition fresh_targets :: "closed_item list \<Rightarrow> harness_run \<Rightarrow> bool" where
  "fresh_targets xs s \<longleftrightarrow> distinct (map fst xs) \<and> fst ` set xs \<inter> reopened_once s = {}"

lemma fresh_targets_Cons:
  assumes "fresh_targets (x # xs) s"
  shows "fst x \<notin> reopened_once s" "sweeps E {fst x} s t \<Longrightarrow> fresh_targets xs t"
proof -
  show "fst x \<notin> reopened_once s" using assms by (simp add: fresh_targets_def)
  show "fresh_targets xs t" if "sweeps E {fst x} s t"
  proof -
    have disjoint: "J \<inter> R' = {}" if "R' \<subseteq> {i} \<union> R" "i \<notin> J" "J \<inter> R = {}" for i J and R R' :: "int set"
      using that by blast
    have "reopened_once t \<subseteq> {fst x} \<union> reopened_once s" using that by (simp add: sweeps_def)
    then have "fst ` set xs \<inter> reopened_once t = {}"
      by (rule disjoint) (use assms in \<open>simp_all add: fresh_targets_def\<close>)
    then show ?thesis using assms by (simp add: fresh_targets_def)
  qed
qed

lemma wp_unless_cancelled:
  assumes "Q a s" "\<And>t. keeps_core s t \<Longrightarrow> wp m Q t" "\<And>t. keeps_core s t \<Longrightarrow> Q a t"
  shows "wp (do { cancelled \<leftarrow> is_cancelled E; if cancelled then State_Monad.return a else m }) Q s"
  unfolding wp_flow by (rule wp_related [OF asks_primitives(1) [THEN core_asks]]) (simp add: assms wp_flow)

lemma revive_abandoned_mid_run_ok:
  "set xs \<subseteq> set (abandoned_this_run s) \<Longrightarrow> (honest_source E \<Longrightarrow> fresh_targets xs s)
     \<Longrightarrow> wp (revive_abandoned_mid_run E xs) (\<lambda>_. sweeps E (fst ` set xs) s) s"
proof (induction xs arbitrary: s)
  case (Cons x xs)
  obtain i y check where x: "x = (i, y, check)" by (cases x)
  show ?case
    unfolding revive_abandoned_mid_run.simps
  proof (rule wp_unless_cancelled)
    fix t assume t: "keeps_core s t"
    have "wp (revive_one_mid_run E x) (\<lambda>_. sweeps E {i} t) t"
      using Cons.prems t unfolding x
      by (intro revive_one_mid_run_ok) (auto simp: keeps_core_def dest: fresh_targets_Cons(1))
    then show "wp (do { _ \<leftarrow> revive_one_mid_run E x; revive_abandoned_mid_run E xs })
        (\<lambda>_. sweeps E (fst ` set (x # xs)) s) t"
      unfolding wp_flow
    proof (rule wp_mono)
      fix u assume "sweeps E {i} t u"
      then have u: "sweeps E {i} s u" by (rule core_then_sweeps [OF t])
      then have "wp (revive_abandoned_mid_run E xs) (\<lambda>_. sweeps E (fst ` set xs) u) u"
        using Cons.prems x by (intro Cons.IH) (auto simp: sweeps_def intro: fresh_targets_Cons(2) [of x])
      then show "wp (revive_abandoned_mid_run E xs) (\<lambda>_. sweeps E (fst ` set (x # xs)) s) u"
        by (rule wp_mono) (use sweeps_trans [OF u] x in simp)
    qed
  qed (simp_all add: sweeps_core)
qed (simp add: wp_flow)

lemma recheck_verified_mid_run_ok:
  "set xs \<subseteq> set (verified_this_run s) \<Longrightarrow> run_ok E 0 s \<Longrightarrow> (honest_source E \<Longrightarrow> fresh_targets xs s)
     \<Longrightarrow> wp (recheck_verified_mid_run E xs) (\<lambda>_. sweeps E (fst ` set xs) s) s"
proof (induction xs arbitrary: s)
  case (Cons x xs)
  obtain i y check where x: "x = (i, y, check)" by (cases x)
  show ?case
    unfolding recheck_verified_mid_run.simps
  proof (rule wp_unless_cancelled)
    fix t assume t: "keeps_core s t"
    then have ok: "run_ok E 0 t" by (rule run_ok_core [OF Cons.prems(2)])
    have "wp (recheck_one_mid_run E x) (\<lambda>_. sweeps E {i} t) t"
      using Cons.prems t ok unfolding x
      by (intro recheck_one_mid_run_ok) (auto simp: keeps_core_def dest: fresh_targets_Cons(1))
    then show "wp (do { here \<leftarrow> recheck_one_mid_run E x; rest \<leftarrow> recheck_verified_mid_run E xs;
        State_Monad.return (here @ rest) }) (\<lambda>_. sweeps E (fst ` set (x # xs)) s) t"
      unfolding wp_flow
    proof (rule wp_mono)
      fix u assume tu: "sweeps E {i} t u"
      then have u: "sweeps E {i} s u" by (rule core_then_sweeps [OF t])
      have "wp (recheck_verified_mid_run E xs) (\<lambda>_. sweeps E (fst ` set xs) u) u"
        using Cons.prems x u tu ok by (intro Cons.IH) (auto simp: sweeps_def intro: fresh_targets_Cons(2) [of x])
      then show "wp (recheck_verified_mid_run E xs) (\<lambda>_. sweeps E (fst ` set (x # xs)) s) u"
        by (rule wp_mono) (use sweeps_trans [OF u] x in simp)
    qed
  qed (simp_all add: sweeps_core)
qed (simp add: wp_flow)

section \<open>Both sweeps keep the invariant\<close>

lemma sweeps_run_ok: "sweeps E I s t \<Longrightarrow> run_ok E 0 s \<Longrightarrow> run_ok E 0 t"
  by (simp add: sweeps_def)

lemma drain_sweep_ok:
  assumes "run_ok E 0 s"
  shows "wp (drain_sweep E) (\<lambda>_. run_ok E 0) s"
proof -
  define s' where "s' = s\<lparr>unmet := []\<rparr>"
  have s': "run_ok E 0 s'"
    by (rule run_ok_core [OF assms]) (simp add: s'_def keeps_core_def)
  have verified: "wp (drain_verified E (verified_this_run t)) (\<lambda>_. run_ok E 0) t" if "run_ok E 0 t" for t
    by (rule wp_mono [OF drain_verified_ok [OF subset_refl that]]) (rule sweeps_run_ok [OF _ that])
  show ?thesis
    unfolding drain_sweep_def wp_simps s'_def [symmetric]
    by (rule wp_mono [OF drain_abandoned_ok [OF subset_refl]])
      (auto simp: next_iteration_def stop_def wp_simps intro!: wp_mono [OF verified] sweeps_run_ok [OF _ s'])
qed

lemma targets_fresh:
  assumes "run_ok E 0 s" "honest_source E"
  shows "distinct (map fst (eligible_items c (reopened_once s) (verified_this_run s)
     @ eligible_items c (reopened_once s) (abandoned_this_run s)))"
proof -
  have e: "map fst (eligible_items c R xs) = filter (\<lambda>i. i \<noteq> c) (filter (\<lambda>i. i \<notin> R) (map fst xs))" for R xs
    by (simp add: eligible_items_def filter_map comp_def case_prod_unfold conj_commute)
  have "distinct (filter (\<lambda>i. i \<noteq> c) (sweepable s))"
    using assms by (simp add: run_ok_def ledger_ok_def)
  then show ?thesis
    unfolding map_append e by (simp only: sweepable_def map_append filter_append)
qed

lemma resweep_targets: "set (select_resweep_targets xs b ps) \<subseteq> set xs"
  "distinct (map fst xs) \<Longrightarrow> distinct (map fst (select_resweep_targets xs b ps))"
  by (auto simp: select_resweep_targets_def distinct_map_filter)

lemma mid_run_sweep_ok:
  assumes ok: "run_ok E 0 s"
  shows "wp (mid_run_sweep E step outcome) (\<lambda>_. run_ok E 0) s"
proof -
  define V where "V = eligible_items (st_id step) (reopened_once s) (verified_this_run s)"
  define A where "A = eligible_items (st_id step) (reopened_once s) (abandoned_this_run s)"
  have VA: "set V \<subseteq> set (verified_this_run s)" "set A \<subseteq> set (abandoned_this_run s)"
    "fst ` set V \<inter> reopened_once s = {}" "fst ` set A \<inter> reopened_once s = {}"
    by (auto simp: V_def A_def eligible_items_def)
  have fresh: "distinct (map fst V)" "distinct (map fst A)" "fst ` set V \<inter> fst ` set A = {}" if "honest_source E"
    using targets_fresh [OF ok that, of "st_id step"] by (simp_all add: V_def A_def)
  have rechecked: "wp (recheck_verified_mid_run E (select_resweep_targets V b ps)) (\<lambda>_. run_ok E 0) t"
    if t: "sweeps E (fst ` set (select_resweep_targets A b ps)) s t" for t b ps
  proof -
    have ok': "run_ok E 0 t" by (rule sweeps_run_ok [OF t ok])
    have "fresh_targets (select_resweep_targets V b ps) t" if "honest_source E"
    proof -
      have "reopened_once t \<subseteq> fst ` set A \<union> reopened_once s"
        using t resweep_targets(1) [of A b ps] by (fastforce simp: sweeps_def)
      then have "fst ` set V \<inter> reopened_once t = {}" using VA(3) fresh(3) [OF that] by blast
      then show ?thesis
        using resweep_targets [of V b ps] fresh(1) [OF that] unfolding fresh_targets_def by blast
    qed
    moreover have "set (select_resweep_targets V b ps) \<subseteq> set (verified_this_run t)"
      using t VA(1) resweep_targets(1) [of V b ps] by (auto simp: sweeps_def)
    ultimately show ?thesis
      by (intro wp_mono [OF recheck_verified_mid_run_ok]) (auto intro: ok' sweeps_run_ok)
  qed
  have notice: "run_ok E 0 (t\<lparr>regression_notice := n\<rparr>)" if "run_ok E 0 t" for t n
    by (rule run_ok_core [OF that]) (simp add: keeps_core_def)
  have "fresh_targets (select_resweep_targets A b ps) s" if "honest_source E" for b ps
    using fresh(2) [OF that] VA(4) resweep_targets [of A b ps] unfolding fresh_targets_def by blast
  then have "wp (revive_abandoned_mid_run E (select_resweep_targets A b ps))
      (\<lambda>_. sweeps E (fst ` set (select_resweep_targets A b ps)) s) s" for b ps
    using VA(2) resweep_targets(1) [of A b ps] by (intro revive_abandoned_mid_run_ok) auto
  note revived = this
  show ?thesis
    unfolding mid_run_sweep_def wp_simps V_def [symmetric] A_def [symmetric]
    by (simp add: ok) (rule impI, rule wp_mono [OF revived], rule wp_mono [OF rechecked], auto simp: notice)
qed

end
