(* ===== verification/Harness_Runs.thy ===== *)
theory Harness_Runs
  imports Harness_Sweeps
begin

text \<open>
  The phases of a pass keep the invariant, and so does the loop: what the journal of a run says
  of its completions, abandonments and reopenings holds for every environment.
\<close>

section \<open>An item in hand\<close>

definition selected :: "inputs \<Rightarrow> task_step \<Rightarrow> harness_run \<Rightarrow> bool" where
  "selected E step s \<longleftrightarrow> selection_of (history s) = Some step \<and> Asked_Next (Inr (Some step)) \<in> set (history s)
     \<and> (honest_source E \<longrightarrow> st_id step \<notin> closed_ids (history s))"

definition stepped :: "harness_run \<Rightarrow> bool" where
  "stepped s \<longleftrightarrow> list_ex is_step (since_selection (history s))"

definition working :: "inputs \<Rightarrow> nat \<Rightarrow> task_step \<Rightarrow> harness_run \<Rightarrow> bool" where
  "working E k step s \<longleftrightarrow> run_ok E k s \<and> selected E step s"

lemma core_stepped: "stepped s \<Longrightarrow> keeps_core s t \<Longrightarrow> stepped t"
  by (auto simp: stepped_def keeps_core_def intro: quietly_reads)

lemma core_working: "working E k step s \<Longrightarrow> keeps_core s t \<Longrightarrow> working E k step t"
  using quietly_reads [of "history s" "history t"]
  by (auto simp: working_def selected_def keeps_core_def intro: run_ok_core)

text \<open>The check of the item was asked since it was selected, with this verdict.\<close>

definition vetted :: "inputs \<Rightarrow> acceptance_check \<Rightarrow> acceptance_verdict \<Rightarrow> harness_run \<Rightarrow> bool" where
  "vetted E check v s \<longleftrightarrow>
     (if v_passed v then answerable E check \<and> list_ex (confirms E check) (since_selection (history s)) else True)"

lemma confirmed_since: "list_ex (confirms E check) (last_answer h) \<Longrightarrow> list_ex (confirms E check) (since_selection h)"
proof (induction h)
  case (Cons e h)
  show ?case
  proof (cases "is_clock e")
    case True
    then have "\<not> is_selection e" by (cases e) simp_all
    then show ?thesis using True Cons by (simp add: last_answer_def since_selection_def)
  next
    case False
    then have c: "confirms E check e" using Cons.prems by (simp add: last_answer_def)
    then have "\<not> is_selection e" by (cases e) (auto elim: confirms.elims)
    then show ?thesis using c by (simp add: since_selection_def)
  qed
qed (simp add: last_answer_def)

lemma answered_vetted: "was_answered E check v s t \<Longrightarrow> vetted E check v t"
  by (simp add: was_answered_def vetted_def confirmed_since)

lemma core_vetted: "vetted E check v s \<Longrightarrow> keeps_core s t \<Longrightarrow> vetted E check v t"
  by (auto simp: vetted_def keeps_core_def intro: quietly_reads)

text \<open>A phase either ends the pass with the invariant kept, or hands on a state of the next.\<close>

definition hands_on :: "inputs \<Rightarrow> (harness_run \<Rightarrow> bool) \<Rightarrow> iteration_end + 'a \<Rightarrow> harness_run \<Rightarrow> bool" where
  "hands_on E P r t = (case r of Inl _ \<Rightarrow> run_ok E 0 t | Inr _ \<Rightarrow> P t)"

lemma hands_on_simps [simp]: "hands_on E P (Inl e) t = run_ok E 0 t" "hands_on E P (Inr a) t = P t"
  by (simp_all add: hands_on_def)

section \<open>Closing an item\<close>

lemma run_ok_closed:
  assumes ok: "working E k step s" and c: "closed_with E t"
    and e: "vouched E (e # history s)" "reopened_id e = None" "\<not> is_step e" "history t = e # history s"
      "closed_ids (e # history s) = insert (st_id step) (closed_ids (history s))"
    and lists: "verified_this_run t = verified_this_run s @ vs" "abandoned_this_run t = abandoned_this_run s @ as"
      "unverifiable t = unverifiable s @ us" "length vs \<le> of_bool (is_completion e)"
      "length as + length us = of_bool (is_abandonment e)" "map fst (vs @ as) = [] \<or> map fst (vs @ as) = [st_id step]"
    and tally: "items_completed t = items_completed s + of_bool (is_completion e)"
      "items_abandoned t = items_abandoned s + of_bool (is_abandonment e)" "reopened_once t = reopened_once s"
      "steps_taken t = steps_taken s" "items_revived t = items_revived s"
      "items_regressed_reopened t = items_regressed_reopened s"
  shows "run_ok E k t"
  unfolding run_ok_def
proof (intro conjI impI c)
  show "vouched E (history t)" using e by simp
  assume h: "honest_source E"
  then have s: "ledger_ok k s" "st_id step \<notin> closed_ids (history s)"
    using ok by (simp_all add: working_def run_ok_def selected_def)
  obtain V A where VA: "reopened_once s = V \<union> A" "V \<inter> A = {}" "finite V" "finite A"
    "V \<subseteq> fst ` set (verified_this_run s)" "A \<subseteq> fst ` set (abandoned_this_run s)"
    "items_regressed_reopened s = card V" "items_revived s = card A"
    using s(1) by (auto simp: ledger_ok_def reopen_ledger_def)
  have "reopen_ledger t"
    unfolding reopen_ledger_def lists tally by (rule exI [of _ V], rule exI [of _ A]) (use VA in auto)
  moreover have "ledger_counts k t"
    using s(1) lists tally e unfolding ledger_ok_def ledger_counts_def by simp
  moreover have "distinct (sweepable t) \<and> set (sweepable t) \<subseteq> insert (st_id step) (set (sweepable s))"
  proof -
    have new: "st_id step \<notin> set (sweepable s)" and old: "distinct (sweepable s)"
      using s by (auto simp: ledger_ok_def)
    consider "vs = []" "as = []" | y where "vs = [(st_id step, y)]" "as = []" | y where "vs = []" "as = [(st_id step, y)]"
      using lists(6) by (cases vs; cases as) auto
    then show ?thesis
      using new old unfolding sweepable_def lists tally by cases auto
  qed
  ultimately show "ledger_ok k t"
    using s(1) e(4,5) by (auto simp: ledger_ok_def)
qed

lemma served_selected: "selected E step s \<Longrightarrow> st_acceptance step = Some check \<Longrightarrow> served_with (st_id step) check (history s)"
  by (auto simp: selected_def served_with_def)

lemma completed_ok:
  assumes s: "working E k step s" and d: "completion_vouched E (st_id step) d (history s)"
    and t: "history t = Completed (st_id step) d (Inr ()) # history s" "items_completed t = items_completed s + 1"
      "verified_this_run t = verified_this_run s @ vs"
    and vs: "vs = [] \<or> (\<exists>y check. vs = [(st_id step, y, check)] \<and> answerable E check
        \<and> st_acceptance step = Some check \<and> verified_flag d)"
    and same: "abandoned_this_run t = abandoned_this_run s" "unverifiable t = unverifiable s"
      "items_abandoned t = items_abandoned s" "reopened_once t = reopened_once s" "precheck_ids t = precheck_ids s"
      "steps_taken t = steps_taken s" "items_revived t = items_revived s"
      "items_regressed_reopened t = items_regressed_reopened s"
  shows "run_ok E k t"
proof (rule run_ok_closed [OF s, where e = "Completed (st_id step) d (Inr ())" and vs = vs and as = "[]" and us = "[]"])
  have served: "served_with (st_id step) check (history t)" if "st_acceptance step = Some check" for check
    by (rule served_mono [of "history s"]) (use s t that in \<open>auto simp: working_def intro: served_selected\<close>)
  have "closed_with E (t\<lparr>verified_this_run := verified_this_run s\<rparr>)"
    by (rule closed_with_mono [of E s]) (use s same t in \<open>auto simp: working_def run_ok_def\<close>)
  then show "closed_with E t"
    using vs served t unfolding closed_with_def by auto
qed (use s d t vs same in \<open>auto simp: working_def run_ok_def\<close>)

lemma refused_ok:
  assumes "working E k step s" "completion_vouched E (st_id step) d (history s)"
  shows "working E k step (s\<lparr>history := Completed (st_id step) d (Inl m) # history s\<rparr>)"
proof -
  have "run_ok E k s" "vouched E (history s)" using assms(1) by (simp_all add: working_def run_ok_def)
  then have "run_ok E k (s\<lparr>history := Completed (st_id step) d (Inl m) # history s\<rparr>)"
    using assms(2) by (intro run_ok_noted) simp_all
  then show ?thesis using assms(1) by (simp add: working_def selected_def)
qed

lemma abandon_item_ok:
  assumes s: "working E 0 step s"
  shows "wp (abandon_item E step reason result) (hands_on E P) s"
proof -
  have refused: "run_ok E 0 (s\<lparr>history := Abandoned (st_id step) reason (Inl m) # history s\<rparr>)" for m
    using s by (intro run_ok_noted) (simp_all add: working_def run_ok_def)
  define t where "t = record_abandonment step reason result
      (s\<lparr>history := Abandoned (st_id step) reason (Inr ()) # history s, items_abandoned := items_abandoned s + 1\<rparr>)"
  have c: "closed_with E s" using s by (simp add: working_def run_ok_def)
  have t: "run_ok E 0 t"
  proof (cases "st_acceptance step")
    case None
    show ?thesis
      by (rule run_ok_closed [OF s, where e = "Abandoned (st_id step) reason (Inr ())" and vs = "[]" and as = "[]"])
        (use s None in \<open>auto simp: t_def record_abandonment_def working_def run_ok_def intro!: closed_with_mono [OF c]\<close>)
  next
    case (Some check)
    let ?as = "[(st_id step, st_title step, check)]"
    have "served_with (st_id step) check (history t)"
      by (rule served_mono [of "history s"])
        (use s Some in \<open>auto simp: t_def record_abandonment_def working_def intro: served_selected\<close>)
    moreover have "closed_with E (t\<lparr>abandoned_this_run := abandoned_this_run s\<rparr>)"
      by (rule closed_with_mono [OF c]) (auto simp: t_def record_abandonment_def Some)
    ultimately have "closed_with E t"
      by (auto simp: closed_with_def t_def record_abandonment_def Some)
    then show ?thesis
      by (rule run_ok_closed [OF s, where e = "Abandoned (st_id step) reason (Inr ())" and vs = "[]" and as = ?as and us = "[]"])
        (use s Some in \<open>auto simp: t_def record_abandonment_def working_def run_ok_def\<close>)
  qed
  have "run_ok E 0 (t\<lparr>progress := p\<rparr>)" for p
    by (rule run_ok_core [OF t]) (simp add: keeps_core_def)
  then show ?thesis
    unfolding abandon_item_def src_abandon_def remove_item_def next_iteration_def stop_def wp_simps Let_def
    by (auto simp: wp_simps refused t_def split: sum.splits)
qed

section \<open>Judging a step\<close>

lemma core_precheck_ids: "keeps_core s t \<Longrightarrow> precheck_ids t = precheck_ids s"
  by (simp add: keeps_core_def)

text \<open>A program that keeps the core may come before anything.\<close>

definition ready :: "inputs \<Rightarrow> task_step \<Rightarrow> acceptance_check \<Rightarrow> acceptance_verdict \<Rightarrow> harness_run \<Rightarrow> bool" where
  "ready E step check v s \<longleftrightarrow> working E 0 step s \<and> vetted E check v s
     \<and> (stepped s \<or> st_id step \<in> precheck_ids s)"

definition stepping :: "inputs \<Rightarrow> nat \<Rightarrow> task_step \<Rightarrow> harness_run \<Rightarrow> bool" where
  "stepping E k step s \<longleftrightarrow> working E k step s \<and> stepped s"

lemma core_ready: "ready E step check v s \<Longrightarrow> keeps_core s t \<Longrightarrow> ready E step check v t"
  unfolding ready_def by (metis core_working core_stepped core_vetted core_precheck_ids)

lemma wp_ready:
  "related keeps_core m \<Longrightarrow> ready E step check v s \<Longrightarrow> (\<And>a t. ready E step check v t \<Longrightarrow> Q a t) \<Longrightarrow> wp m Q s"
  by (rule wp_related, assumption, blast intro: core_ready)

lemma wp_stepping:
  "related keeps_core m \<Longrightarrow> stepping E k step s \<Longrightarrow> (\<And>a t. stepping E k step t \<Longrightarrow> Q a t) \<Longrightarrow> wp m Q s"
  by (rule wp_related, assumption) (auto simp: stepping_def intro: core_working core_stepped)

lemma wp_working:
  "related keeps_core m \<Longrightarrow> working E k step s \<Longrightarrow> (\<And>a t. working E k step t \<Longrightarrow> Q a t) \<Longrightarrow> wp m Q s"
  by (rule wp_related, assumption, blast intro: core_working)

lemma core_run_ok:
  "related keeps_core m \<Longrightarrow> working E k step s \<Longrightarrow> wp m (\<lambda>_. run_ok E k) s"
  by (rule wp_working) (auto simp: working_def)

lemma and_then_wp: "wp m (\<lambda>r t. case r of Inl e \<Rightarrow> Q (Inl e) t | Inr a \<Rightarrow> wp (f a) Q t) s \<Longrightarrow> wp (and_then m f) Q s"
  by (auto simp: and_then_def wp_simps elim!: wp_mono split: sum.splits)

lemma checked_completion:
  assumes "working E k step s" "st_acceptance step = Some check" "vetted E check v s" "v_passed v"
    and "verified_flag d" "stepped s \<or> st_id step \<in> precheck_ids s"
  shows "completion_vouched E (st_id step) d (history s)"
  using assms by (auto simp: completion_vouched_def working_def selected_def vetted_def stepped_def run_ok_def closed_with_def)

lemma unchecked_completion:
  assumes "working E k step s" "st_acceptance step = None" "\<not> verified_flag d" "stepped s"
  shows "completion_vouched E (st_id step) d (history s)"
  using assms by (auto simp: completion_vouched_def working_def selected_def stepped_def)

lemma complete_failed_ok:
  assumes "working E k step s" "completion_vouched E (st_id step) d (history s)"
  shows "wp (complete_failed E step m) (\<lambda>_. run_ok E k) (s\<lparr>history := Completed (st_id step) d (Inl m) # history s\<rparr>)"
  by (rule core_run_ok [OF _ refused_ok [OF assms]]) (rule core_judge)

lemma judge_passed_ok:
  assumes s: "ready E step check v s" and v: "v_passed v" "st_acceptance step = Some check"
  shows "wp (judge_passed E step check v) (\<lambda>_. run_ok E 0) s"
proof -
  have complete: "wp (do { answer \<leftarrow> src_complete E (st_id step) d;
     case answer of
       Inr _ \<Rightarrow> do {
         _ \<leftarrow> modify (\<lambda>s. s\<lparr>consecutive_errors := 0, items_completed := items_completed s + 1,
                verified_this_run := verified_this_run s @ [(st_id step, st_title step, check)],
                verified_outcomes := verified_outcomes s @ [o']\<rparr>);
         _ \<leftarrow> remove_item (st_id step);
         continue () }
     | Inl message \<Rightarrow> complete_failed E step message }) (\<lambda>_. run_ok E 0) t"
    if t: "ready E step check v t" and d: "verified_flag d" for t d o'
  proof -
    have w: "working E 0 step t" and c: "completion_vouched E (st_id step) d (history t)"
      using t v d by (auto simp: ready_def intro: checked_completion)
    have "answerable E check" using t v by (simp add: ready_def vetted_def)
    then show ?thesis
      unfolding src_complete_def wp_simps Let_def
      by (auto simp: remove_item_def continue_def wp_simps d v split: sum.splits
          intro!: complete_failed_ok [OF w c] completed_ok [OF w c])
  qed
  show ?thesis
    unfolding judge_passed_def wp_bind [of "update_item _ _"] wp_bind [of "note_outcome _ _ _"]
      wp_bind [of "only_if _ _"] wp_bind [of "verdict_artifacts _ _"] wp_bind [of "entry_item _"]
    by (((rule complete, assumption, simp add: verified_flag_def)
        | (rule wp_ready, (intro core_rules)[1], (rule s | assumption)))+)
qed

lemma ready_run_ok: "ready E step check v s \<Longrightarrow> run_ok E 0 s"
  by (simp add: ready_def working_def)

lemma answered_ready:
  "was_answered E check v s t \<Longrightarrow> working E 0 step s \<Longrightarrow> stepped s \<or> st_id step \<in> precheck_ids s \<Longrightarrow> ready E step check v t"
  using answered_vetted core_working core_stepped core_precheck_ids unfolding ready_def was_answered_def by metis

lemma judge_checked_ok:
  assumes s: "stepping E 0 step s" and check: "st_acceptance step = Some check"
  shows "wp (judge_checked E step check outcome b) (\<lambda>_. run_ok E 0) s"
  unfolding judge_checked_def
proof (rule wp_asked, unfold prod.case)
  fix n v t assume "was_answered E check v s t"
  then have t: "ready E step check v t" using s by (auto simp: stepping_def intro: answered_ready)
  have continued: "wp (State_Monad.bind m continue) (\<lambda>_. run_ok E 0) u"
    if "related keeps_core m" "ready E step check v u" for u and m :: "(harness_run, unit) state"
    unfolding wp_bind by (rule wp_ready [OF that]) (simp add: continue_def wp_pure ready_run_ok)
  have branch: "wp (if is_unknown v then do { _ \<leftarrow> judge_unknown E step check outcome b v; continue () }
       else if v_passed v then judge_passed E step check v
       else do { _ \<leftarrow> judge_failed E step check outcome b v; continue () }) (\<lambda>_. run_ok E 0) u"
    if u: "ready E step check v u" for u
    by (auto intro!: continued core_judge judge_passed_ok simp: u check)
  show "wp (do { t \<leftarrow> elapsed E n;
       _ \<leftarrow> modify (\<lambda>s. s\<lparr>check_cost_paid := check_cost_paid s + t, check_runs := check_runs s + 1\<rparr>);
       _ \<leftarrow> only_if (\<not> v_timed_out v) (lift_cap E check n);
       _ \<leftarrow> log_event E (st_id step) ''acceptance_checked'' (DObject [
              (''passed'', DBool (v_passed v)), (''detail'', DText (v_detail v)),
              (''unknown'', DBool (is_unknown v)),
              (''evidence_changed'', DBool (v_evidence_changed v))]);
       if is_unknown v then do { _ \<leftarrow> judge_unknown E step check outcome b v; continue () }
       else if v_passed v then judge_passed E step check v
       else do { _ \<leftarrow> judge_failed E step check outcome b v; continue () } }) (\<lambda>_. run_ok E 0) t"
    unfolding wp_bind [of "elapsed _ _"] wp_bind [of "modify _"] wp_bind [of "only_if _ _"] wp_bind [of "log_event _ _ _ _"]
    by (((rule branch, assumption) | (rule wp_ready, (intro core_rules)[1], (rule t | assumption)))+)
qed

lemma complete_unchecked_ok:
  assumes s: "stepping E 0 step s" and "st_acceptance step = None"
  shows "wp (complete_unchecked E step a) (\<lambda>_. run_ok E 0) s"
proof -
  have w: "working E 0 step s" and c: "completion_vouched E (st_id step)
      (DObject [(''verified'', DBool False), (''tokens_spent'', n)]) (history s)" for n
    using assms by (auto simp: stepping_def verified_flag_def intro!: unchecked_completion)
  have logged: "wp (log_event E i a DNull) (\<lambda>_. wp (State_Monad.bind (remove_item i) continue) (\<lambda>_. run_ok E 0)) t"
    if "run_ok E 0 t" for t i
    unfolding wp_bind
    by (rule wp_related [of keeps_core], (intro core_rules)[1], rule wp_related [of keeps_core], (intro core_rules)[1])
      (simp add: continue_def wp_pure, rule run_ok_core [OF that], rule core_trans)
  show ?thesis
    unfolding complete_unchecked_def src_complete_def
    by (auto simp: wp_pure wp_consult wp_modify wp_branch wp_bind [of "gets _"] wp_bind [of "consult _ _"]
        wp_bind [of "modify _"] wp_bind [of "log_event _ _ _ _"] Let_def split: sum.splits
        intro!: complete_failed_ok [OF w c] logged completed_ok [OF w c])
qed

lemma judge_unchecked_ok:
  assumes s: "stepping E 0 step s" and check: "st_acceptance step = None"
  shows "wp (judge_unchecked E step outcome b) (\<lambda>_. run_ok E 0) s"
proof -
  have branches: "if b1 then wp (complete_unchecked E step x1) (\<lambda>_. run_ok E 0) u
      else if b2 then wp (complete_unchecked E step x2) (\<lambda>_. run_ok E 0) u else wp m (\<lambda>_. run_ok E 0) u"
    if u: "stepping E 0 step u" and m: "related keeps_core m" for u b1 b2 x1 x2 and m :: "unit flow"
    using complete_unchecked_ok [OF u check] core_run_ok [OF m, of E 0 step u] u by (simp add: stepping_def)
  show ?thesis
    unfolding judge_unchecked_def Let_def wp_bind [of "entry_item _"] wp_bind [of "update_item _ _"] wp_branch
    by (rule wp_stepping [OF core_items(2) s], rule wp_stepping [OF core_items(1)], assumption,
        erule branches, intro core_rules)
qed

lemma judge_step_ok: "stepping E 0 step s \<Longrightarrow> wp (judge_step E step outcome b) (\<lambda>_. run_ok E 0) s"
  unfolding judge_step_def by (auto intro: judge_unchecked_ok judge_checked_ok split: option.splits)

section \<open>The phases before the judgement\<close>

lemma and_then_ok:
  assumes "wp m (hands_on E P) s" "\<And>a t. P t \<Longrightarrow> wp (f a) (hands_on E P') t"
  shows "wp (and_then m f) (hands_on E P') s"
  by (rule and_then_wp, rule wp_mono [OF assms(1)]) (auto simp: hands_on_def assms(2) split: sum.splits)

lemma run_ok_hands_on: "wp m (\<lambda>_. run_ok E 0) s \<Longrightarrow> wp m (hands_on E (run_ok E 0)) s"
  by (auto elim!: wp_mono simp: hands_on_def split: sum.splits)

lemma file_step_findings_ok:
  assumes "stepping E 0 step s"
  shows "wp (file_step_findings E step outcome) (hands_on E (stepping E 0 step)) s"
  by (rule wp_stepping [OF _ assms], intro core_rules)
    (auto simp: hands_on_def stepping_def working_def split: sum.splits)

lemma record_step_ok:
  assumes s: "stepping E 1 step s"
  shows "wp (record_step E step outcome b e n) (hands_on E (stepping E 0 step)) s"
proof -
  define t where "t = s\<lparr>steps_taken := steps_taken s + 1\<rparr>"
  have "closed_with E t" if "closed_with E s"
    by (rule closed_with_mono [OF that]) (simp_all add: t_def)
  then have "run_ok E 0 t"
    using s unfolding stepping_def working_def run_ok_def
    by (auto simp: t_def ledger_ok_def reopen_ledger_def ledger_counts_def sweepable_def)
  then have t: "stepping E 0 step t"
    using s by (auto simp: stepping_def working_def selected_def stepped_def t_def)
  have kept: "hands_on E (stepping E 0 step) r u" if "stepping E 0 step u" for r u
    using that by (auto simp: hands_on_def stepping_def working_def split: sum.splits)
  show ?thesis
    unfolding record_step_def wp_bind [of "modify (\<lambda>s. s\<lparr>steps_taken := steps_taken s + 1\<rparr>)"] wp_modify t_def [symmetric]
    by (rule wp_stepping [OF _ t]) (auto intro!: core_rules core_modify kept simp: keeps_core_def Let_def)
qed

lemma run_step_ok:
  assumes s: "working E 0 step s"
  shows "wp (run_step E step prompt kind) (hands_on E (stepping E 1 step)) s"
proof -
  have ran: "stepping E 1 step (t\<lparr>history := Ran_Step r (Inr out) # history t\<rparr>)" if "working E 0 step t" for t r out
  proof -
    have "closed_with E (t\<lparr>history := Ran_Step r (Inr out) # history t\<rparr>)"
      by (rule closed_with_mono [of E t]) (use that in \<open>auto simp: working_def run_ok_def\<close>)
    then show ?thesis
      using that by (auto simp: stepping_def working_def run_ok_def selected_def stepped_def since_selection_def
          ledger_ok_def reopen_ledger_def ledger_counts_def sweepable_def)
  qed
  have failed: "working E 0 step (t\<lparr>history := Ran_Step r (Inl m) # history t\<rparr>)" if "working E 0 step t" for t r m
  proof -
    have "run_ok E 0 (t\<lparr>history := Ran_Step r (Inl m) # history t\<rparr>)"
      by (rule run_ok_noted) (use that in \<open>auto simp: working_def run_ok_def\<close>)
    then show ?thesis using that by (simp add: working_def selected_def)
  qed
  have handed: "wp (do {
         _ \<leftarrow> modify (\<lambda>s. s\<lparr>consecutive_errors := 0\<rparr>);
         cost \<leftarrow> elapsed E n;
         _ \<leftarrow> modify (\<lambda>s. s\<lparr>longest_step := max (longest_step s) cost\<rparr>);
         continue out }) (hands_on E (stepping E 1 step)) t" if t: "stepping E 1 step t" for t n out
    unfolding wp_bind
    by (rule wp_stepping [OF _ t], rule core_modify, simp add: keeps_core_def,
        rule wp_stepping, rule core_rules, assumption, rule wp_stepping, rule core_modify, simp add: keeps_core_def,
        assumption, simp add: continue_def wp_pure)
  have erred: "wp (do {
         _ \<leftarrow> modify (\<lambda>s. s\<lparr>consecutive_errors := consecutive_errors s + 1, last_runner_error := Some m\<rparr>);
         _ \<leftarrow> update_item (st_id step) (\<lambda>item. item\<lparr>it_runner_errors := it_runner_errors item + 1\<rparr>);
         item \<leftarrow> entry_item (st_id step);
         if ITEM_RUNNER_ERRORS_MAX \<le> it_runner_errors item
         then abandon_item E step (lit ''abandoned after persistent runner errors: '' @ m) (it_last_result item)
         else do {
           errors \<leftarrow> gets consecutive_errors;
           if max_consecutive_errors (cfg E) \<le> errors then stop (RunnerErrors m) else next_iteration } })
       (hands_on E (stepping E 1 step)) t" if t: "working E 0 step t" for t m
    unfolding wp_bind [of "modify _"] wp_bind [of "update_item _ _"] wp_bind [of "entry_item _"]
    by (rule wp_working [OF _ t], rule core_modify, simp add: keeps_core_def,
        rule wp_working, rule core_rules, assumption, rule wp_working, rule core_rules, assumption)
      (auto simp: wp_branch wp_bind wp_pure stop_def next_iteration_def working_def
        intro: abandon_item_ok [unfolded working_def])
  show ?thesis
    unfolding run_step_def wp_bind [of "gets _"] wp_bind [of "elapsed _ _"] wp_bind [of "now _"]
      runner_step_def wp_bind [of "consult _ _"] wp_pure wp_consult wp_branch Let_def
    by (rule wp_working [OF _ s], (intro core_rules)[1], rule wp_working, rule core_rules, assumption,
        simp only: split: sum.split, intro conjI allI impI, simp only:, rule erred, erule failed,
        simp only:, rule handed, erule ran)
qed

lemma already_satisfied_ok:
  assumes t: "ready E step check v t" and v: "v_passed v" and d: "verified_flag d"
    and check: "st_acceptance step = Some check"
  shows "wp (do {
     answer \<leftarrow> src_complete E (st_id step) d;
     case answer of
       Inr _ \<Rightarrow> do {
         _ \<leftarrow> modify (\<lambda>s. s\<lparr>consecutive_errors := 0, items_completed := items_completed s + 1,
                items_already_satisfied := items_already_satisfied s + 1,
                verified_this_run := verified_this_run s @ [(st_id step, st_title step, check)],
                verified_outcomes := verified_outcomes s @ [o']\<rparr>);
         _ \<leftarrow> remove_item (st_id step);
         next_iteration }
     | Inl message \<Rightarrow> do {
         _ \<leftarrow> log_event E (st_id step) a (DObject [(b, DText message)]);
         continue () } }) (hands_on E (working E 0 step)) t"
proof -
  have w: "working E 0 step t" and c: "completion_vouched E (st_id step) d (history t)"
    using t v d check by (auto simp: ready_def intro: checked_completion)
  have "answerable E check" using t v by (simp add: ready_def vetted_def)
  moreover have "wp (State_Monad.bind (log_event E i a' d') (\<lambda>_. continue ())) (hands_on E (working E 0 step)) u"
    if "working E 0 step u" for i a' d' u
    unfolding wp_bind by (rule wp_working [OF _ that]) (auto intro: core_rules simp: continue_def wp_pure)
  ultimately show ?thesis
    unfolding src_complete_def
    by (auto simp: remove_item_def next_iteration_def wp_pure wp_consult wp_modify wp_branch wp_bind [of "consult _ _"]
        wp_bind [of "modify _"] Let_def d check split: sum.splits
        intro!: refused_ok [OF w c] completed_ok [OF w c])
qed

lemma precheck_ok:
  assumes s: "working E 0 step s"
  shows "wp (precheck E step due) (hands_on E (working E 0 step)) s"
proof (cases "if due \<and> st_id step \<in> precheck_ids s then st_acceptance step else None")
  case None
  then show ?thesis using s by (simp add: precheck_def wp_bind wp_pure continue_def split: if_splits)
next
  case (Some check)
  then have named: "st_id step \<in> precheck_ids s" and check: "st_acceptance step = Some check"
    by (simp_all split: if_splits)
  have asked: "ready E step check v t" if "was_answered E check v s t" for v t
    using that s named by (auto intro: answered_ready)
  have unmet: "wp (continue ()) (hands_on E (working E 0 step)) t" if "ready E step check v t" for v t
    using that by (simp add: continue_def wp_pure ready_def)
  show ?thesis
    unfolding precheck_def wp_bind [of "gets _"] wp_pure Some option.case
    by (rule wp_asked,
        unfold prod.case wp_bind [of "elapsed _ _"] wp_bind [of "modify _"] wp_bind [of "note_precheck_verdict _ _ _ _ _"],
        drule asked, rule wp_ready, rule core_rules, assumption, rule wp_ready, rule core_rules, assumption,
        rule wp_ready, rule core_rules, assumption, unfold wp_branch, rule if_split [THEN iffD2], intro conjI impI,
        erule unmet, unfold wp_bind [of "verdict_artifacts _ _"] wp_bind [of "log_event _ _ ''acceptance_already_satisfied'' _"],
        rule wp_ready, rule core_rules, assumption, rule wp_ready, rule core_rules, assumption)
      (rule already_satisfied_ok, assumption, simp, simp add: verified_flag_def, rule check)
qed

section \<open>A pass\<close>

lemma work_item_ok:
  assumes s: "working E 0 step s"
  shows "wp (work_item E step n) (hands_on E (run_ok E 0)) s"
proof -
  have swept: "wp (do { _ \<leftarrow> mid_run_sweep E step out; continue () }) (hands_on E (run_ok E 0)) t"
    if "run_ok E 0 t" for t out
    unfolding wp_bind by (rule wp_mono [OF mid_run_sweep_ok [OF that]]) (simp add: continue_def wp_pure)
  have ran: "wp (and_then (run_step E step x k) (\<lambda>out.
       and_then (record_step E step out b c d) (\<lambda>_.
         and_then (file_step_findings E step out) (\<lambda>repeated.
           and_then (judge_step E step out repeated) (\<lambda>_. do {
             _ \<leftarrow> mid_run_sweep E step out;
             continue () }))))) (hands_on E (run_ok E 0)) t" if "working E 0 step t" for t x k b c d
    by (rule and_then_ok [OF run_step_ok [OF that]], rule and_then_ok [OF record_step_ok], assumption,
        rule and_then_ok [OF file_step_findings_ok], assumption,
        rule and_then_ok [OF run_ok_hands_on [OF judge_step_ok]], assumption, erule swept)
  show ?thesis
    unfolding work_item_def abandon_exhausted_def wp_bind [of "item_gate _ _"] wp_branch
      wp_bind [of "src_start _ _"] wp_bind [of "baseline_evidence _ _"]
    by (rule wp_working [OF _ s], rule core_rules, unfold case_prod_unfold, rule if_split [THEN iffD2], intro conjI impI,
        erule abandon_item_ok, rule wp_working, rule core_rules, assumption, rule wp_working, rule core_rules, assumption,
        rule and_then_ok [OF precheck_ok], assumption, unfold wp_bind [of "entry_item _"] Let_def wp_bind [of "step_prompt _ _ _ _ _"],
        rule wp_working, rule core_rules, assumption, rule wp_working, rule core_rules, assumption,
        subst wp_bind, rule wp_working, (auto intro!: core_rules split: sum.splits)[1], assumption, erule ran)
qed

lemma iteration_ok:
  assumes s: "run_ok E 0 s"
  shows "wp (iteration E) (\<lambda>_. run_ok E 0) s"
proof -
  have w: "working E 0 step (t\<lparr>history := Asked_Next (Inr (Some step)) # history t\<rparr>)"
    if "run_ok E 0 t" "ask_next E (history t) = Inr (Some step)" for t step
    using that run_ok_noted [of E 0 t "Asked_Next (Inr (Some step))"]
    by (auto simp: working_def selected_def run_ok_def honest_source_def)
  have n: "run_ok E 0 (t\<lparr>history := Asked_Next r # history t\<rparr>)" if "run_ok E 0 t" for t r
    using that by (intro run_ok_noted) (simp_all add: run_ok_def)
  have asked: "wp (do { answer \<leftarrow> consult (ask_next E) Asked_Next;
      case answer of
        Inl message \<Rightarrow> stop (SourceError message)
      | Inr found \<Rightarrow> (case found of
          None \<Rightarrow> drain_sweep E
        | Some step \<Rightarrow> work_item E step used) }) (\<lambda>_. run_ok E 0) t" if t: "run_ok E 0 t" for t used
    by (auto simp: wp_bind wp_consult wp_branch stop_def wp_pure Let_def n t hands_on_def
        split: sum.splits option.splits intro!: drain_sweep_ok wp_mono [OF work_item_ok [OF w]])
  have kept: "wp m Q t" if "related keeps_core m" "run_ok E 0 t" "\<And>a u. run_ok E 0 u \<Longrightarrow> Q a u" for m Q t
    by (rule wp_related [OF that(1)]) (rule that(3), rule run_ok_core [OF that(2)])
  show ?thesis
    unfolding iteration_def wp_bind [of "is_cancelled _"] wp_bind [of "gets _"] wp_bind [of "elapsed _ _"]
      wp_bind [of "admit_input _"] wp_branch wp_pure
    by (rule kept [OF _ s], rule core_rules, rule if_split [THEN iffD2], intro conjI impI, simp add: stop_def wp_pure,
        rule kept, rule core_rules, assumption, rule if_split [THEN iffD2], rule conjI, simp add: stop_def wp_pure,
        rule impI, rule if_split [THEN iffD2], rule conjI, simp add: stop_def wp_pure,
        rule impI, rule kept, rule core_rules, assumption, erule asked)
qed

section \<open>Runs\<close>

text \<open>A run that has made so many passes, or has ended before.\<close>

primrec run_for :: "inputs \<Rightarrow> nat \<Rightarrow> stop_reason option \<times> harness_run" where
  "run_for E 0 = (None, new_run E [])"
| "run_for E (Suc n) = (case run_for E n of
     (Some reason, s) \<Rightarrow> (Some reason, s)
   | (None, s) \<Rightarrow> pass_end E s)"

lemma pass_end_ok: "run_ok E 0 s \<Longrightarrow> run_ok E 0 (snd (pass_end E s))"
  using iteration_ok [of E s]
  by (auto simp: pass_end_def wp_def split: prod.splits sum.splits iteration_end.splits)

lemma run_for_ok: "run_ok E 0 (snd (run_for E n))"
  by (induction n) (auto simp: run_ok_new split: prod.splits option.splits dest: pass_end_ok)

lemma run_passes_run_for:
  "run_passes E s = Some r \<Longrightarrow> run_for E n = (None, s) \<Longrightarrow> \<exists>m. run_for E m = (Some (fst r), snd r)"
proof (induction arbitrary: n rule: run_passes.raw_induct [rotated, consumes 1, case_names 1])
  case (1 run_passes E s r)
  obtain e u where u: "pass_end E s = (e, u)" by force
  then have m: "run_for E (Suc n) = (e, u)" using 1(3) by simp
  show ?case
  proof (cases e)
    case None
    then have "run_passes E u = Some r" using 1(2) u by simp
    then show ?thesis by (rule 1(1) [OF _ m [unfolded None]])
  next
    case (Some reason)
    then have "r = (reason, u)" using 1(2) u by simp
    then show ?thesis unfolding fst_conv snd_conv by (rule ssubst) (rule exI, unfold fst_conv snd_conv, rule m [unfolded Some])
  qed
qed

end
