(* ===== verification/Harness_Bounds.thy ===== *)
theory Harness_Bounds
  imports Harness_Runs
begin

text \<open>
  What every request of a run keeps within: the step index counts the steps, the token budget is
  not spent when a step starts, and a command is given between one second and ten minutes. A
  program is steady when it books no tokens and starts no step; all but two of the harness are.
\<close>

named_theorems steady_rules \<open>programs that book no tokens and start no step\<close>

section \<open>Lawful journals\<close>

fun spent :: "event list \<Rightarrow> nat" where
  "spent [] = 0"
| "spent (Ran_Step _ (Inr out) # h) = so_input_tokens out + so_output_tokens out + spent h"
| "spent (_ # h) = spent h"

definition affordable :: "inputs \<Rightarrow> nat \<Rightarrow> bool" where
  "affordable E n = (case max_total_tokens (cfg E) of None \<Rightarrow> True | Some m \<Rightarrow> n < m)"

definition within_budget :: "inputs \<Rightarrow> step_request \<Rightarrow> event list \<Rightarrow> bool" where
  "within_budget E r h \<longleftrightarrow> affordable E (spent h) \<and> rq_step_index r = tally is_step h
     \<and> rq_token_budget r = step_token_budget (cfg E)
     \<and> (case rq_max_wall_clock r of None \<Rightarrow> False | Some w \<Rightarrow> w \<le> max_wall_clock (cfg E))"

fun lawful :: "inputs \<Rightarrow> event list \<Rightarrow> bool" where
  "lawful E [] = True"
| "lawful E (Ran_Step r _ # h) = (within_budget E r h \<and> lawful E h)"
| "lawful E (Ran_Shell _ n _ # h) = (secs 1 \<le> n \<and> n \<le> secs 600 \<and> lawful E h)"
| "lawful E (_ # h) = lawful E h"

section \<open>Steady programs\<close>

fun minor :: "event \<Rightarrow> bool" where
  "minor (Ran_Step _ _) = False"
| "minor (Ran_Shell _ n _) = (secs 1 \<le> n \<and> n \<le> secs 600)"
| "minor _ = True"

definition steady :: "harness_run \<Rightarrow> harness_run \<Rightarrow> bool" where
  "steady s t \<longleftrightarrow> (\<exists>es. history t = es @ history s \<and> list_all minor es) \<and> input_tokens t = input_tokens s
     \<and> output_tokens t = output_tokens s \<and> steps_taken t = steps_taken s \<and> started t = started s"

lemma steady_refl [simp]: "steady s s"
  by (simp add: steady_def)

lemma steady_trans: "steady s t \<Longrightarrow> steady t u \<Longrightarrow> steady s u"
  by (fastforce simp: steady_def)

lemma steady_bind [steady_rules]:
  "related steady m \<Longrightarrow> (\<And>a. related steady (f a)) \<Longrightarrow> related steady (State_Monad.bind m f)"
  by (rule related_bind [of steady, OF steady_trans])

lemmas [steady_rules] = related_pure [of steady, OF steady_refl] related_gets [of steady, OF steady_refl]
  related_branch [of steady] related_only_if [of steady, OF _ steady_refl]

lemma steady_modify: "(\<And>s. steady s (u s)) \<Longrightarrow> related steady (modify u)"
  by (rule related_modify)

lemma steady_consult: "(\<And>b. minor (e b)) \<Longrightarrow> related steady (consult f e)"
  by (auto simp: related_def wp_simps Let_def steady_def intro!: exI [of _ "[_]"])

lemma steady_primitives [steady_rules]:
  "related steady (is_cancelled E)" "related steady (now E)" "related steady (elapsed E n)"
  "related steady (src_start E i)" "related steady (src_add_note E i x)" "related steady (log_event E i a d)"
  "related steady (src_open_subtasks E i)" "related steady (path_exists E p)"
  "related steady (metadata E p)" "related steady (read_bounded E p)" "related steady (src_complete E i d)"
  "related steady (src_abandon E i x)" "related steady (src_reopen E i x)"
  unfolding primitives by (intro steady_rules steady_consult; simp)+

lemma steady_flow [steady_rules]:
  "related steady (continue a)" "related steady next_iteration" "related steady (stop r)"
  "related steady m \<Longrightarrow> (\<And>a. related steady (f a)) \<Longrightarrow> related steady (and_then m f)"
  unfolding continue_def next_iteration_def stop_def and_then_def by (intro steady_rules; assumption)+

lemma timeout_bounds:
  assumes "capped_timeout cap (effective_timeout t) = (n, b)"
  shows "secs 1 \<le> n" "n \<le> secs 600"
  using assms by (auto simp: capped_timeout_def effective_timeout_def ACCEPTANCE_TIMEOUT_SECS_MAX_def
      Let_def split: option.splits)

lemma steady_run_shell: "secs 1 \<le> n \<Longrightarrow> n \<le> secs 600 \<Longrightarrow> related steady (run_shell E c n)"
  unfolding run_shell_def by (intro steady_consult) simp

lemma steady_run_check [steady_rules]: "related steady (run_with_timeout_cap E check cap)"
proof -
  have c: "related steady (run_command_check E c n b)" if "capped_timeout cap (effective_timeout t) = (n, b)" for c n b t
    unfolding run_command_check_def by (intro steady_rules steady_run_shell timeout_bounds [OF that])
  show ?thesis
    unfolding run_with_timeout_cap_def
    by (cases check) (auto intro!: steady_rules c steady_run_shell dest: timeout_bounds split: option.splits sum.splits prod.splits)
qed

lemma steady_evidence [steady_rules]:
  "related steady (fingerprint_paths E ps)" "related steady (ensure_baseline E check g)"
  "related steady (observe_evidence E check g)" "related steady (verdict_artifacts E check)"
proof -
  have f: "related steady (fingerprint_files E ps)" for ps
    by (induction ps) (simp_all add: fingerprint_file_def, (intro steady_rules; assumption?)+)
  show p: "related steady (fingerprint_paths E ps)" for ps
    unfolding fingerprint_paths_def by (intro steady_rules f)
  show "related steady (ensure_baseline E check g)" "related steady (observe_evidence E check g)"
    "related steady (verdict_artifacts E check)"
    unfolding ensure_baseline_def observe_evidence_def verdict_artifacts_def
    by (auto intro!: steady_rules p simp: Let_def)
qed

lemma steady_ask_check [steady_rules]: "related steady (ask_check E check)"
  unfolding ask_check_def by (auto intro!: steady_rules steady_modify simp: steady_def)

lemma steady_bookkeeping [steady_rules]:
  "related steady (lift_cap E check n)" "related steady (arm_cap E check)" "related steady count_unknown"
  "related steady (pay_sweep E n)" "related steady (note_outcome E check b)" "related steady (modify replenish_all)"
  "related steady (update_item i f)" "related steady (entry_item i)" "related steady (remove_item i)"
  "related steady (fresh_evidence E i outcome)" "related steady (join_cluster E w i)" "related steady (still_unmet i x y)"
  unfolding lift_cap_def arm_cap_def count_unknown_def pay_sweep_def note_outcome_def update_item_def entry_item_def
    remove_item_def fresh_evidence_def join_cluster_def still_unmet_def
  by (auto intro!: steady_rules steady_modify simp: steady_def set_item_def replenish_all_def)

lemma steady_judge [steady_rules]:
  "related steady (complete_failed E step x)" "related steady (file_step_findings E step outcome)"
  "related steady (judge_step E step outcome b)" "related steady (abandon_item E step x y)"
proof -
  show c: "related steady (complete_failed E step x)" "related steady (file_step_findings E step outcome)"
    "related steady (abandon_item E step x y)" for x y
    unfolding complete_failed_def file_step_findings_def abandon_item_def
    by (auto intro!: steady_rules steady_modify simp: steady_def record_abandonment_def split: option.splits)
  have u: "related steady (complete_unchecked E step a)" for a
    unfolding complete_unchecked_def by (auto intro!: steady_rules steady_modify c simp: steady_def)
  have j: "related steady (judge_unknown E step check outcome b v)" "related steady (judge_failed E step check outcome b v)"
    "related steady (judge_passed E step check v)" for check v
    unfolding judge_unknown_def judge_failed_def judge_passed_def
    by (auto intro!: steady_rules steady_modify c simp: steady_def)
  have "related steady (judge_checked E step check outcome b)" for check
    unfolding judge_checked_def by (auto intro!: steady_rules steady_modify j simp: steady_def)
  moreover have "related steady (judge_unchecked E step outcome b)"
    unfolding judge_unchecked_def Let_def by (auto intro!: steady_rules u)
  ultimately show "related steady (judge_step E step outcome b)"
    unfolding judge_step_def by (intro steady_rules)
qed

lemma steady_sweeps [steady_rules]:
  "related steady (revive E i d)" "related steady (regress E i x d)"
  "related steady (drain_sweep E)" "related steady (mid_run_sweep E step outcome)"
proof -
  show r: "related steady (revive E i d)" "related steady (regress E i x d)" for i x d
    unfolding revive_def regress_def by (auto intro!: steady_rules steady_modify simp: steady_def)
  have items: "related steady (drain_abandoned_item E c)" "related steady (drain_verified_item E c)"
    "related steady (revive_one_mid_run E c)" "related steady (recheck_one_mid_run E c)" for c
    unfolding drain_abandoned_item_def drain_verified_item_def revive_one_mid_run_def recheck_one_mid_run_def
    by (auto intro!: steady_rules r)
  have "related steady (drain_abandoned E cs)" "related steady (drain_verified E cs)"
    "related steady (revive_abandoned_mid_run E cs)" "related steady (recheck_verified_mid_run E cs)" for cs
    by (induction cs) (auto intro!: steady_rules items)
  note lists = this
  show "related steady (drain_sweep E)" "related steady (mid_run_sweep E step outcome)"
    unfolding drain_sweep_def mid_run_sweep_def
    by (auto intro!: steady_rules steady_modify lists simp: steady_def)
qed

lemma steady_before_step [steady_rules]:
  "related steady (item_gate E step)" "related steady (precheck E step b)" "related steady (admit_input E)"
  "related steady (step_prompt E step b c n)" "related steady (baseline_evidence E step)"
proof -
  have "related steady (note_precheck_verdict E step check v n)" for check v n
    unfolding note_precheck_verdict_def by (auto intro!: steady_rules)
  note noted = this
  show "related steady (item_gate E step)" "related steady (precheck E step b)" "related steady (admit_input E)"
    "related steady (step_prompt E step b c n)" "related steady (baseline_evidence E step)"
    unfolding item_gate_def precheck_def admit_input_def step_prompt_def baseline_evidence_def
    by (auto intro!: steady_rules steady_modify steady_consult noted simp: steady_def split: option.splits)
qed

section \<open>Booking a step\<close>

text \<open>The ledgers agree with the journal, up to a step that has run and is not booked yet.\<close>

definition books :: "inputs \<Rightarrow> nat \<Rightarrow> nat \<Rightarrow> harness_run \<Rightarrow> bool" where
  "books E k n s \<longleftrightarrow> lawful E (history s) \<and> spent (history s) = input_tokens s + output_tokens s + n
     \<and> tally is_step (history s) = steps_taken s + k"

lemma minor_reads:
  "list_all minor es \<Longrightarrow> lawful E (es @ h) = lawful E h"
  "list_all minor es \<Longrightarrow> spent (es @ h) = spent h"
  "list_all minor es \<Longrightarrow> tally is_step (es @ h) = tally is_step h"
proof (induction es)
  case (Cons e es)
  { case 1 then show ?case using Cons(1) by (cases e) auto }
  { case 2 then show ?case using Cons(2) by (cases e) auto }
  { case 3 then show ?case using Cons(3) by (cases e) auto }
qed simp_all

lemma steady_books: "books E k n s \<Longrightarrow> steady s t \<Longrightarrow> books E k n t"
  by (auto simp: books_def steady_def minor_reads)

lemma wp_steady:
  "related steady m \<Longrightarrow> books E k n s \<Longrightarrow> (\<And>a t. books E k n t \<Longrightarrow> steady s t \<Longrightarrow> Q a t) \<Longrightarrow> wp m Q s"
  by (rule wp_related, assumption, blast intro: steady_books)

definition spent_by :: "harness_run \<Rightarrow> nat" where
  "spent_by s = input_tokens s + output_tokens s"

lemma steady_spent_by: "steady s t \<Longrightarrow> spent_by t = spent_by s"
  by (simp add: steady_def spent_by_def)

lemma ran_step:
  assumes "books E 0 0 s" "within_budget E r (history s)"
  shows "books E 1 (so_input_tokens out + so_output_tokens out) (s\<lparr>history := Ran_Step r (Inr out) # history s\<rparr>)"
    "books E 0 0 (s\<lparr>history := Ran_Step r (Inl m) # history s\<rparr>)"
  using assms by (simp_all add: books_def)

lemma abandon_item_books:
  "books E 0 0 s \<Longrightarrow> wp (abandon_item E step x y) (\<lambda>r. case r of Inl _ \<Rightarrow> books E 0 0 | Inr _ \<Rightarrow> \<lambda>_. False) s"
  unfolding abandon_item_def src_abandon_def stop_def next_iteration_def remove_item_def wp_simps
  by (auto simp: Let_def wp_simps books_def record_abandonment_def split: sum.splits option.splits)

definition owes :: "inputs \<Rightarrow> 'a + step_outcome \<Rightarrow> harness_run \<Rightarrow> bool" where
  "owes E r t = (case r of Inl _ \<Rightarrow> books E 0 0 t
     | Inr out \<Rightarrow> books E 1 (so_input_tokens out + so_output_tokens out) t)"

lemma owes_simps [simp]: "owes E (Inl e) t = books E 0 0 t"
  "owes E (Inr out) t = books E 1 (so_input_tokens out + so_output_tokens out) t"
  by (simp_all add: owes_def)

lemma run_step_books:
  assumes s: "books E 0 0 s" and a: "affordable E (spent_by s)"
  shows "wp (run_step E step prompt kind) (owes E) s"
proof -
  have handed: "wp (do {
         _ \<leftarrow> modify (\<lambda>s. s\<lparr>consecutive_errors := 0\<rparr>);
         cost \<leftarrow> elapsed E n;
         _ \<leftarrow> modify (\<lambda>s. s\<lparr>longest_step := max (longest_step s) cost\<rparr>);
         continue out }) (owes E) t" if t: "books E 1 (so_input_tokens out + so_output_tokens out) t" for t n out
    unfolding wp_bind
    by (rule wp_steady [OF _ t], rule steady_modify, simp add: steady_def, rule wp_steady, rule steady_rules, assumption,
        rule wp_steady, rule steady_modify, simp add: steady_def, assumption, simp add: continue_def wp_pure)
  have erred: "wp (do {
         _ \<leftarrow> modify (\<lambda>s. s\<lparr>consecutive_errors := consecutive_errors s + 1, last_runner_error := Some m\<rparr>);
         _ \<leftarrow> update_item (st_id step) (\<lambda>item. item\<lparr>it_runner_errors := it_runner_errors item + 1\<rparr>);
         item \<leftarrow> entry_item (st_id step);
         if ITEM_RUNNER_ERRORS_MAX \<le> it_runner_errors item
         then abandon_item E step (lit ''abandoned after persistent runner errors: '' @ m) (it_last_result item)
         else do {
           errors \<leftarrow> gets consecutive_errors;
           if max_consecutive_errors (cfg E) \<le> errors then stop (RunnerErrors m) else next_iteration } })
       (\<lambda>r. case r of Inl _ \<Rightarrow> books E 0 0 | Inr _ \<Rightarrow> \<lambda>_. False) t" if t: "books E 0 0 t" for t m
    unfolding wp_bind [of "modify _"] wp_bind [of "update_item _ _"] wp_bind [of "entry_item _"]
    by (rule wp_steady [OF _ t], rule steady_modify, simp add: steady_def, rule wp_steady, rule steady_rules, assumption,
        rule wp_steady, rule steady_rules, assumption)
      (auto simp: wp_branch wp_bind wp_pure stop_def next_iteration_def intro!: abandon_item_books)
  have within: "within_budget E \<lparr>rq_item_id = st_id step, rq_step_index = steps_taken t, rq_step_kind = kind,
      rq_item_title = st_title step, rq_prompt = prompt, rq_tool_scope = st_tool_scope step,
      rq_token_budget = step_token_budget (cfg E), rq_max_iterations = None,
      rq_max_wall_clock = Some (max_wall_clock (cfg E) - w)\<rparr> (history u)"
    if "books E 0 0 u" "steady s t" "steady t u" for t u w
    using that a by (simp add: within_budget_def books_def steady_def spent_by_def)
  show ?thesis
    unfolding run_step_def wp_bind [of "gets _"] wp_bind [of "elapsed _ _"] wp_bind [of "now _"]
      runner_step_def wp_bind [of "consult _ _"] wp_pure wp_consult wp_branch Let_def
    by (rule wp_steady [OF _ s], (intro steady_rules)[1], rule wp_steady, rule steady_rules, assumption,
        simp only: split: sum.split, intro conjI allI impI, simp only:, rule wp_mono [OF erred [OF ran_step(2)]],
        assumption, rule within, assumption+, simp split: sum.splits,
        simp only:, rule handed, rule ran_step(1), assumption, rule within, assumption+)
qed

lemma record_step_books:
  assumes s: "books E 1 (so_input_tokens out + so_output_tokens out) s"
  shows "wp (record_step E step out b e n) (\<lambda>_. books E 0 0) s"
proof -
  define s' where "s' = s\<lparr>steps_taken := steps_taken s + 1\<rparr>"
  have s': "books E 0 (so_input_tokens out + so_output_tokens out) s'"
    using s by (simp add: books_def s'_def)
  have booked: "books E 0 0 (t\<lparr>input_tokens := input_tokens t + so_input_tokens out,
      output_tokens := output_tokens t + so_output_tokens out, guard := g\<rparr>)"
    if "books E 0 (so_input_tokens out + so_output_tokens out) t" for t g
    using that by (simp add: books_def)
  show ?thesis
    unfolding record_step_def wp_bind [of "modify _"] wp_modify s'_def [symmetric] wp_bind [of "update_item _ _"]
    by (rule wp_steady [OF _ s'], rule steady_rules, rule wp_steady [OF _ booked], rule steady_rules, assumption,
        rule wp_steady, (auto intro!: steady_rules steady_modify simp: steady_def Let_def)[1], assumption+)
qed

section \<open>Every pass keeps the books\<close>

lemma wp_books: "related steady m \<Longrightarrow> books E k n s \<Longrightarrow> wp m (\<lambda>_. books E k n) s"
  by (rule wp_steady)

lemma and_then_wp_mono:
  assumes "wp m P s" "\<And>e t. P (Inl e) t \<Longrightarrow> Q (Inl e) t" "\<And>a t. P (Inr a) t \<Longrightarrow> wp (f a) Q t"
  shows "wp (and_then m f) Q s"
  by (rule and_then_wp, rule wp_mono [OF assms(1)]) (auto split: sum.splits intro: assms(2,3))

lemma work_item_books:
  assumes s: "books E 0 0 s" and a: "affordable E (spent_by s)"
  shows "wp (work_item E step n) (\<lambda>_. books E 0 0) s"
proof -
  have after: "wp (and_then (file_step_findings E step out) (\<lambda>repeated.
      and_then (judge_step E step out repeated) (\<lambda>_. do { _ \<leftarrow> mid_run_sweep E step out; continue () })))
      (\<lambda>_. books E 0 0) t" if "books E 0 0 t" for t out
    by (rule wp_books [OF _ that]) (auto intro!: steady_rules)
  have ran: "wp (and_then (run_step E step x k) (\<lambda>out. and_then (record_step E step out b c d) (\<lambda>_.
         and_then (file_step_findings E step out) (\<lambda>repeated.
           and_then (judge_step E step out repeated) (\<lambda>_. do {
             _ \<leftarrow> mid_run_sweep E step out;
             continue () }))))) (\<lambda>_. books E 0 0) t" if "books E 0 0 t" "affordable E (spent_by t)" for t x k b c d
    by (rule and_then_wp_mono [OF run_step_books [OF that]], simp,
        rule and_then_wp_mono [OF record_step_books], simp, assumption, erule after)
  let ?P = "\<lambda>t. books E 0 0 t \<and> affordable E (spent_by t)"
  have kept: "wp m Q t" if "related steady m" "?P t" "\<And>a u. ?P u \<Longrightarrow> Q a u" for m Q t
    by (rule wp_steady [OF that(1)]) (use that(2,3) in \<open>auto simp: steady_spent_by\<close>)
  have checked: "wp (precheck E step due) (\<lambda>_. ?P) t" if "?P t" for t due
    by (rule kept [OF _ that]) (intro steady_rules)
  show ?thesis
    unfolding work_item_def abandon_exhausted_def wp_bind [of "item_gate _ _"] wp_branch
      wp_bind [of "src_start _ _"] wp_bind [of "baseline_evidence _ _"]
    by (rule kept, rule steady_rules, intro conjI, rule s, rule a, unfold case_prod_unfold, rule if_split [THEN iffD2],
        intro conjI impI, rule wp_books, rule steady_rules, erule conjunct1,
        rule kept, rule steady_rules, assumption, rule kept, rule steady_rules, assumption,
        rule and_then_wp_mono [OF checked], assumption, erule conjunct1,
        unfold wp_bind [of "entry_item _"] Let_def wp_bind [of "step_prompt _ _ _ _ _"],
        rule kept, rule steady_rules, assumption, rule kept, rule steady_rules, assumption,
        subst wp_bind, rule kept, (auto intro!: steady_rules split: sum.splits)[1], assumption, rule ran, simp_all)
qed

lemma iteration_books:
  assumes s: "books E 0 0 s"
  shows "wp (iteration E) (\<lambda>_. books E 0 0) s"
proof -
  have asked: "wp (do { answer \<leftarrow> consult (ask_next E) Asked_Next;
      case answer of
        Inl message \<Rightarrow> stop (SourceError message)
      | Inr found \<Rightarrow> (case found of
          None \<Rightarrow> drain_sweep E
        | Some step \<Rightarrow> work_item E step used) }) (\<lambda>_. books E 0 0) t"
    if t: "books E 0 0 t" "affordable E (spent_by t)" for t used
  proof -
    have "books E 0 0 (t\<lparr>history := Asked_Next r # history t\<rparr>)" for r
      using t by (simp add: books_def)
    moreover have "spent_by (t\<lparr>history := Asked_Next r # history t\<rparr>) = spent_by t" for r
      by (simp add: spent_by_def)
    ultimately show ?thesis
      by (auto simp: wp_bind wp_consult wp_branch stop_def wp_pure Let_def t
          split: sum.splits option.splits intro!: wp_books [OF steady_sweeps(3)] work_item_books)
  qed
  have afford: "affordable E (spent_by t)" if "\<not> (case max_total_tokens (cfg E) of None \<Rightarrow> False
      | Some m \<Rightarrow> m \<le> input_tokens t + output_tokens t)" for t
    using that by (simp add: affordable_def spent_by_def split: option.splits)
  show ?thesis
    unfolding iteration_def wp_bind [of "is_cancelled _"] wp_bind [of "gets _"] wp_bind [of "elapsed _ _"]
      wp_bind [of "admit_input _"] wp_branch wp_pure
    by (rule wp_steady [OF _ s], rule steady_rules, rule if_split [THEN iffD2], intro conjI impI, simp add: stop_def wp_pure,
        rule wp_steady, rule steady_rules, assumption, rule if_split [THEN iffD2], rule conjI, simp add: stop_def wp_pure,
        rule impI, rule if_split [THEN iffD2], rule conjI, simp add: stop_def wp_pure, rule impI, drule afford,
        rule wp_steady, rule steady_rules, assumption, rule asked, assumption, simp add: steady_spent_by)
qed

lemma pass_end_books: "books E 0 0 s \<Longrightarrow> books E 0 0 (snd (pass_end E s))"
  using iteration_books [of E s]
  by (auto simp: pass_end_def wp_def split: prod.splits sum.splits iteration_end.splits)

lemma run_for_books: "books E 0 0 (snd (run_for E n))"
proof (induction n)
  case 0
  show ?case by (simp add: books_def new_run_def tally_def)
next
  case (Suc n)
  then show ?case by (auto split: prod.splits option.splits dest: pass_end_books)
qed


end
