(* ===== verification/Harness_Results.thy ===== *)
theory Harness_Results
  imports Harness_Bounds
begin

text \<open>
  What holds of every long-horizon run: how its completions and reopenings are vouched for, what
  its ledgers count, that it ends when time passes, and what the last sweep leaves unsaid.
\<close>

section \<open>Ending\<close>

definition extends :: "harness_run \<Rightarrow> harness_run \<Rightarrow> bool" where
  "extends s t \<longleftrightarrow> (\<exists>es. history t = es @ history s) \<and> started t = started s"

lemma extends_trans: "extends s t \<Longrightarrow> extends t u \<Longrightarrow> extends s u"
  by (auto simp: extends_def)

lemma extends_refl [simp]: "extends s s"
  by (simp add: extends_def)

lemma steady_extends: "related steady m \<Longrightarrow> related extends m"
  by (erule related_mono) (auto simp: steady_def extends_def)

lemma extends_modify:
  "(\<And>s. history (u s) = history s) \<Longrightarrow> (\<And>s. started (u s) = started s) \<Longrightarrow> related extends (modify u)"
  by (rule related_modify) (simp add: extends_def)

lemma extends_consult: "related extends (consult f e)"
  by (auto simp: related_def wp_simps Let_def extends_def)

lemma extends_and_then: "related extends m \<Longrightarrow> (\<And>a. related extends (f a)) \<Longrightarrow> related extends (and_then m f)"
  unfolding and_then_def
  by (intro related_bind [of extends, OF extends_trans] related_branch related_pure) simp_all

lemmas extends_rules = related_bind [of extends, OF extends_trans] extends_and_then related_branch [of extends]
  related_only_if [of extends, OF _ extends_refl] related_pure [of extends, OF extends_refl]
  related_gets [of extends, OF extends_refl] extends_modify extends_consult
  steady_primitives [THEN steady_extends] steady_flow(1-3) [THEN steady_extends] steady_judge [THEN steady_extends]
  steady_bookkeeping [THEN steady_extends] steady_sweeps [THEN steady_extends] steady_before_step [THEN steady_extends]

lemma extends_steps:
  "related extends (run_step E step x k)" "related extends (record_step E step out b c d)"
  "related extends (work_item E step n)" "related extends (iteration E)"
proof -
  show s: "related extends (run_step E step x k)" for step x k
    unfolding run_step_def runner_step_def by (auto intro!: extends_rules)
  show r: "related extends (record_step E step out b c d)" for step out b c d
    unfolding record_step_def by (auto intro!: extends_rules simp: Let_def)
  show w: "related extends (work_item E step n)" for step n
    unfolding work_item_def abandon_exhausted_def by (auto intro!: extends_rules s r)
  show "related extends (iteration E)"
    unfolding iteration_def by (auto intro!: extends_rules w split: sum.splits option.splits)
qed

lemma pass_end_wp: "wp (iteration E) Q s \<Longrightarrow> pass_end E s = (r, t) \<Longrightarrow> \<exists>a. Q a t"
  by (auto simp: pass_end_def wp_def split: prod.splits sum.splits iteration_end.splits)

lemma pass_end_grows:
  assumes "pass_end E s = (r, t)"
  shows "started t = started s" "length (history s) < length (history t)"
proof -
  have t: "extends s t"
    using pass_end_wp [OF relatedD [OF extends_steps(4)] assms] by simp
  then show "started t = started s" by (simp add: extends_def)
  have "wp (iteration E) (\<lambda>_ u. length (history s) < length (history u)) s"
    unfolding iteration_def wp_bind [of "is_cancelled _"] unfolding is_cancelled_def wp_consult Let_def
    by (rule wp_related [of extends], (auto intro!: extends_rules extends_steps split: sum.splits option.splits)[1])
      (auto simp: extends_def)
  then have "\<exists>a :: iteration_end + unit. length (history s) < length (history t)" by (rule pass_end_wp [OF _ assms])
  then show "length (history s) < length (history t)" by simp
qed

lemma pass_end_stops:
  assumes "\<And>h. Suc (length (history s)) \<le> length h \<Longrightarrow> started s + max_wall_clock (cfg E) \<le> ask_clock E h"
  shows "fst (pass_end E s) \<noteq> None"
proof -
  have "max_wall_clock (cfg E) \<le> ask_clock E (Asked_Cancelled b # history s) - started s" for b
    using assms [of "Asked_Cancelled b # history s"] by simp
  then have "wp (iteration E) (\<lambda>r _. \<exists>reason. r = Inl (Stop reason)) s"
    unfolding iteration_def is_cancelled_def elapsed_def now_def stop_def wp_simps by (auto simp: Let_def wp_simps)
  then show ?thesis by (auto simp: wp_def pass_end_def split: prod.splits)
qed

lemma run_for_grows: "run_for E n = (None, s) \<Longrightarrow> started s = started (new_run E []) \<and> n \<le> length (history s)"
proof (induction n arbitrary: s)
  case (Suc n)
  then obtain t where t: "run_for E n = (None, t)" "pass_end E t = (None, s)"
    by (auto split: prod.splits option.splits)
  show ?case using Suc.IH [OF t(1)] pass_end_grows [OF t(2)] by simp
qed simp

lemma run_for_run_passes:
  "run_for E n = (None, s) \<Longrightarrow> run_for E (n + k) = (Some reason, t) \<Longrightarrow> run_passes E s = Some (reason, t)"
proof (induction k arbitrary: n s)
  case (Suc k)
  obtain e u where u: "pass_end E s = (e, u)" by force
  then have m: "run_for E (Suc n) = (e, u)" using Suc.prems(1) by simp
  show ?case
  proof (cases e)
    case None
    then show ?thesis using Suc.IH [of "Suc n" u] m u Suc.prems(2) by (subst run_passes.simps) simp
  next
    case (Some r)
    have "run_for E (Suc n + k) = (Some r, u)" for k
      by (induction k) (use m Some in simp_all)
    then have "(Some reason, t) = (Some r, u)" using Suc.prems(2) by (metis add_Suc_shift)
    then show ?thesis using u Some by (subst run_passes.simps) simp
  qed
qed simp

text \<open>C6: A long-horizon run ends once time passes: if for every moment there is a number of
  questions after which the clock is past it, then the loop of \<open>run_with_interjector\<close> returns a
  report, whatever the source, the runner, the shell and the checks answer. So no answers of theirs
  keep it going for ever: refused completions, items that reopen and runners that fail included.\<close>
theorem run_ends_when_time_passes:
  assumes "\<And>moment. \<exists>n. \<forall>h. n \<le> length h \<longrightarrow> moment \<le> ask_clock E h"
  shows "\<exists>report. run_with_interjector E = Some report"
proof -
  obtain n where n: "\<And>h. n \<le> length h \<Longrightarrow> started (new_run E []) + max_wall_clock (cfg E) \<le> ask_clock E h"
    using assms by blast
  obtain e s where s: "run_for E n = (e, s)" by force
  have "\<exists>m reason t. run_for E m = (Some reason, t)"
  proof (cases e)
    case None
    then have "fst (pass_end E s) \<noteq> None"
      using run_for_grows [of E n s] s n by (intro pass_end_stops) simp
    then have "fst (run_for E (Suc n)) \<noteq> None" using s None by simp
    then show ?thesis by (metis option.exhaust prod.collapse)
  qed (use s in blast)
  then obtain m reason t where "run_for E (0 + m) = (Some reason, t)" by auto
  then have "run_passes E (new_run E []) = Some (reason, t)" by (intro run_for_run_passes [of E 0]) simp_all
  then show ?thesis by (simp add: run_with_interjector_def)
qed

section \<open>What the last sweep names\<close>

definition refused_revival :: "int \<Rightarrow> event list \<Rightarrow> bool" where
  "refused_revival i h \<longleftrightarrow> (\<exists>e. Reopened i revive_reason (Inl e) \<in> set h)"

definition unmet_ids :: "harness_run \<Rightarrow> int set" where
  "unmet_ids t = au_id ` set (unmet t)"

definition accounted :: "harness_run \<Rightarrow> int set" where
  "accounted t = unmet_ids t \<union> reopened_once t \<union> {i. refused_revival i (history t)}"

text \<open>The lists only grow, and by ids of the sweep that no sweep had reopened.\<close>

definition names :: "int set \<Rightarrow> harness_run \<Rightarrow> harness_run \<Rightarrow> bool" where
  "names I s t \<longleftrightarrow> unmet_ids s \<subseteq> unmet_ids t \<and> reopened_once s \<subseteq> reopened_once t
     \<and> set (history s) \<subseteq> set (history t) \<and> unmet_ids t \<subseteq> unmet_ids s \<union> (I - reopened_once s)"

lemma names_refl [simp]: "names I s s"
  by (simp add: names_def)

lemma names_trans: "names I s t \<Longrightarrow> names J t u \<Longrightarrow> names (I \<union> J) s u"
  unfolding names_def by (intro conjI; elim conjE; blast)

lemma names_accounted: "names I s t \<Longrightarrow> accounted s \<subseteq> accounted t"
  unfolding names_def accounted_def refused_revival_def by blast

lemma asks_names:
  assumes "asks s t"
  shows "names I s t"
proof -
  have "unmet t = unmet s" using assms unfolding asks_def by (elim conjE) (erule ssubst, simp)
  moreover have "reopened_once t = reopened_once s" using assms unfolding asks_def by (elim conjE) (erule ssubst, simp)
  moreover have "set (history s) \<subseteq> set (history t)" using assms by (auto simp: asks_def quietly_def)
  ultimately show ?thesis by (simp add: names_def unmet_ids_def)
qed

lemma drain_abandoned_item_names:
  "wp (drain_abandoned_item E (i, x, check)) (\<lambda>_ t. names {i} s t \<and> i \<in> accounted t) s"
proof (cases "i \<in> reopened_once s")
  case False
  show ?thesis
    by (simp add: drain_abandoned_item_def wp_pure wp_bind [of "gets _"] wp_bind [of "ask_check _ _"] False,
        rule wp_related [OF asks_ask_check], drule asks_names [where I = "{i}"])
      (auto simp: wp_simps lift_cap_def arm_cap_def count_unknown_def still_unmet_def note_outcome_def revive_def
         elapsed_def now_def src_reopen_def remove_item_def log_event_def Let_def names_def accounted_def unmet_ids_def
         refused_revival_def False split: prod.splits sum.splits)
qed (simp add: drain_abandoned_item_def wp_pure wp_bind accounted_def)

lemma drain_abandoned_names:
  "wp (drain_abandoned E xs) (\<lambda>_ t. names (fst ` set xs) s t \<and> fst ` set xs \<subseteq> accounted t) s"
proof (induction xs arbitrary: s)
  case (Cons x xs)
  obtain i y check where x: "x = (i, y, check)" by (cases x)
  show ?case
    unfolding drain_abandoned.simps wp_bind x
  proof (rule wp_mono [OF drain_abandoned_item_names], elim conjE)
    fix t assume t: "names {i} s t" "i \<in> accounted t"
    have *: "names (fst ` set ((i, y, check) # xs)) s u \<and> fst ` set ((i, y, check) # xs) \<subseteq> accounted u"
      if "names (fst ` set xs) t u" "fst ` set xs \<subseteq> accounted u" for u
      using names_trans [OF t(1) that(1)] names_accounted [OF that(1)] t(2) that(2) by auto
    show "wp (drain_abandoned E xs) (\<lambda>a. wp (State_Monad.return (here \<or> a)) (\<lambda>_ t.
       names (fst ` set ((i, y, check) # xs)) s t \<and> fst ` set ((i, y, check) # xs) \<subseteq> accounted t)) t" for here
      by (rule wp_mono [OF Cons.IH]) (use * in \<open>auto simp: wp_pure\<close>)
  qed
qed (simp add: wp_pure)

definition settles :: "harness_run \<Rightarrow> harness_run \<Rightarrow> bool" where
  "settles s t \<longleftrightarrow> unmet t = unmet s \<and> reopened_once s \<subseteq> reopened_once t \<and> set (history s) \<subseteq> set (history t)"

lemma settles_verified: "related settles (drain_verified E xs)"
proof -
  have trans: "settles s t \<Longrightarrow> settles t u \<Longrightarrow> settles s u" for s t u
    by (auto simp: settles_def)
  have asked: "settles s t" if "asks s t" for s t
    using asks_names [OF that, of "{}"] that unfolding settles_def names_def asks_def by (elim conjE) (intro conjI; (assumption | erule ssubst, simp))
  have "wp (drain_verified_item E (i, x, check)) (\<lambda>_. settles s) s" for i x check s
  proof (cases "i \<in> reopened_once s")
    case False
    show ?thesis
      by (simp add: drain_verified_item_def wp_pure wp_bind [of "gets _"] wp_bind [of "ask_check _ _"] False,
          rule wp_related [OF asks_ask_check], drule asked)
        (auto simp: wp_simps lift_cap_def arm_cap_def count_unknown_def note_outcome_def regress_def elapsed_def now_def
          src_reopen_def remove_item_def log_event_def Let_def settles_def False split: prod.splits sum.splits)
  qed (simp add: drain_verified_item_def wp_pure wp_bind settles_def)
  then have "related settles (drain_verified_item E x)" for x
    unfolding related_def by (cases x) simp
  then show ?thesis
    by (induction xs) (auto intro!: related_bind [of settles, OF trans] related_pure simp: settles_def)
qed

text \<open>C35: The drain sweep names in \<open>abandoned_unmet\<close> only checked items that were abandoned
  and that no sweep had reopened before, and it accounts for every abandoned one: it is named,
  it has been reopened in this run, or the source refused to revive it. So an item that was
  reopened once and abandoned again is in no list of the report, although the report's fields
  promise that together they name every abandonment.\<close>
theorem drain_sweep_accounts:
  "wp (drain_sweep E) (\<lambda>_ t.
     unmet_ids t \<subseteq> fst ` set (abandoned_this_run s) - reopened_once s
     \<and> fst ` set (abandoned_this_run s) \<subseteq> unmet_ids t \<union> reopened_once t \<union> {i. refused_revival i (history t)}) s"
proof -
  have verified: "wp (drain_verified E vs) (\<lambda>_ u. unmet_ids u = unmet_ids t \<and> accounted t \<subseteq> accounted u) t" for vs t
    by (rule wp_related [OF settles_verified]) (auto simp: settles_def unmet_ids_def accounted_def refused_revival_def)
  define s' where "s' = s\<lparr>unmet := []\<rparr>"
  define A where "A = fst ` set (abandoned_this_run s)"
  let ?Q = "\<lambda>u. unmet_ids u \<subseteq> A - reopened_once s
     \<and> A \<subseteq> unmet_ids u \<union> reopened_once u \<union> {i. refused_revival i (history u)}"
  have claim: "?Q u" if t: "names A s' t" "A \<subseteq> accounted t" and u: "unmet_ids u = unmet_ids t" "accounted t \<subseteq> accounted u" for t u
  proof
    show "unmet_ids u \<subseteq> A - reopened_once s" using t(1) u(1) by (simp add: names_def s'_def unmet_ids_def)
    show "A \<subseteq> unmet_ids u \<union> reopened_once u \<union> {i. refused_revival i (history u)}"
      using subset_trans [OF t(2) u(2)] by (simp add: accounted_def)
  qed
  have ended: "wp (if b then next_iteration else stop AllTasksDone) (\<lambda>_. ?Q) u" if "?Q u" for b u
    using that by (simp add: next_iteration_def stop_def wp_pure)
  have swept: "names A s' t \<and> A \<subseteq> accounted t
      \<Longrightarrow> wp (drain_verified E vs) (\<lambda>b. wp (if a \<or> b then next_iteration else stop AllTasksDone) (\<lambda>_. ?Q)) t" for a t vs
    by (rule wp_mono [OF verified], rule ended, rule claim) auto
  have "abandoned_this_run s' = abandoned_this_run s" by (simp add: s'_def)
  then show ?thesis
    unfolding drain_sweep_def wp_bind wp_modify wp_pure s'_def [symmetric] A_def [symmetric]
    using wp_mono [OF drain_abandoned_names [of E "abandoned_this_run s" s', folded A_def] swept] by simp
qed

section \<open>Closing and reopening\<close>

text \<open>The report of a run is about the state of one of its passes.\<close>

lemma report_vouched:
  assumes "run_with_interjector E = Some report"
  shows "vouched E (history (rp_run report))"
proof -
  obtain reason s where s: "run_passes E (new_run E []) = Some (reason, s)" "report = into_report E reason s"
    using assms by (auto simp: run_with_interjector_def split: option.splits)
  then obtain m where "run_for E m = (Some reason, s)"
    using run_passes_run_for [of E "new_run E []" "(reason, s)" 0] by auto
  then have "vouched E (history s)" using run_for_ok [of E m] by (simp add: run_ok_def)
  then show ?thesis using s(2) by (simp add: into_report_def elapsed_def now_def consult_def Let_def)
qed

text \<open>C3: Whatever the environment answers, after any number of passes and in the report, every
  completion in the journal is the one of the item in hand: with a check, it is logged as verified
  and the environment confirmed that check since the item was selected; without one, it is logged
  as unverified; and a step has run since then, unless the item's check was named for a pre-check or
  the item was revived. Every reopening is of an item this run abandoned, whose check the
  environment's last answer confirms, or of one it completed as verified, whose check that
  answer contradicts.\<close>
theorem every_closing_is_vouched_for:
  "vouched E (history (snd (run_for E n)))
   \<and> (case run_with_interjector E of None \<Rightarrow> True | Some report \<Rightarrow> vouched E (history (rp_run report)))"
  using run_for_ok [of E n] report_vouched [of E] by (simp add: run_ok_def split: option.splits)

lemma run_for_ledger: "honest_source E \<Longrightarrow> ledger_ok 0 (snd (run_for E n))"
  using run_for_ok [of E n] by (simp add: run_ok_def)


section \<open>A run\<close>

text \<open>One item whose file appears with the first step; a second passes for each answer.\<close>

definition build_step :: task_step where
  "build_step = \<lparr>st_id = 1, st_title = lit ''build'', st_description = None,
     st_acceptance = Some (FileExists ''out''), st_tool_scope = [], st_notes_tail = []\<rparr>"

definition build_outcome :: step_outcome where
  "build_outcome = \<lparr>so_text = lit ''built'', so_input_tokens = 7, so_output_tokens = 5, so_tool_calls = [],
     so_touched_paths = [lit ''out''], so_degenerate_loop = False\<rparr>"

definition sample_run :: inputs where
  "sample_run = \<lparr>run_goal = lit ''build it'', cfg = default_config, ask_cancelled = (\<lambda>_. False), ask_clock = length,
     ask_interject = None, ask_next = (\<lambda>h. Inr (if 1 \<in> closed_ids h then None else Some build_step)),
     ask_start = (\<lambda>_ _. Inr ()), ask_complete = (\<lambda>_ _ _. Inr ()), ask_note = (\<lambda>_ _ _. Inr ()),
     ask_log = (\<lambda>_ _ _ _. Inr ()), ask_abandon = (\<lambda>_ _ _. Inr ()), ask_reopen = (\<lambda>_ _ _. Inr ()),
     ask_subtasks = (\<lambda>_ _. Inr None), ask_step = (\<lambda>_ _. Inr build_outcome),
     ask_shell = (\<lambda>_ _ _. Inl (Other [])), ask_exists = (\<lambda>h _. list_ex is_step h), ask_metadata = (\<lambda>_ _. None),
     ask_file = (\<lambda>_ _. Inl []), hash_str = (\<lambda>_. 0), ser_check = (\<lambda>_. []), regex_new = (\<lambda>_. Inl []),
     display_path = lit\<rparr>"

lemma sample_honest: "honest_source sample_run"
  by (auto simp: honest_source_def sample_run_def build_step_def)


lemma run_ends_when_time_passes_witness: "\<exists>report. run_with_interjector sample_run = Some report"
  by (rule run_ends_when_time_passes) (auto simp: sample_run_def)


end
