(* ===== verification/Channel_Queue.thy ===== *)
theory Channel_Queue
  imports Float_Rounding "HOL-Library.Multiset"
begin

text \<open>
  The send queue of the chat channels (\<open>nanna-channels/src/queue.rs\<close>): the token bucket that
  limits the rate of a provider, the priority queue of its messages with its overflow rule, the
  choice of the next message, and the backoff of a retry. Each definition is one critical section
  of the code; how the sections of concurrent calls interleave is the subject of
  \<open>Channel_Delivery\<close>. Instants and durations are in nanoseconds, and a section that reads the
  clock several times takes the instants it reads.
\<close>

section \<open>Durations as floats\<close>

definition as_secs_f64 :: "nat \<Rightarrow> rat" where
  "as_secs_f64 d = f64 (f64 (of_nat (d div 10 ^ 9)) + f64 (of_nat (d mod 10 ^ 9) / 10 ^ 9))"

definition from_secs_f64 :: "rat \<Rightarrow> nat" where
  "from_secs_f64 x = nat (round_half_even (x * 10 ^ 9))"

section \<open>Messages\<close>

datatype message_priority = Low | Normal | High | Urgent

fun priority_rank :: "message_priority \<Rightarrow> nat" where
  "priority_rank Low = 0"
| "priority_rank Normal = 1"
| "priority_rank High = 2"
| "priority_rank Urgent = 3"

instantiation message_priority :: linorder
begin

definition less_eq_message_priority :: "message_priority \<Rightarrow> message_priority \<Rightarrow> bool" where
  "less_eq_message_priority a b = (priority_rank a \<le> priority_rank b)"

definition less_message_priority :: "message_priority \<Rightarrow> message_priority \<Rightarrow> bool" where
  "less_message_priority a b = (priority_rank a < priority_rank b)"

instance
proof
  have "a = b" if "priority_rank a = priority_rank b" for a b
    using that by (cases a; cases b) simp_all
  then show "a \<le> b \<Longrightarrow> b \<le> a \<Longrightarrow> a = b" for a b :: message_priority
    by (simp add: less_eq_message_priority_def)
qed (auto simp: less_eq_message_priority_def less_message_priority_def)

end

text \<open>The payload of a message is passed on to the channel and never looked at.\<close>

record 'm queued_message =
  qm_message :: 'm
  qm_priority :: message_priority
  qm_queued_at :: nat
  qm_attempts :: nat
  qm_retry_after :: "nat option"
  qm_max_attempts :: nat
  qm_id :: nat

text \<open>\<open>Ord for QueuedMessage\<close>: a smaller message is one of lower priority, or a younger one.\<close>

definition before_in_queue :: "'m queued_message \<Rightarrow> 'm queued_message \<Rightarrow> bool" where
  "before_in_queue a b \<longleftrightarrow> qm_priority b < qm_priority a
     \<or> qm_priority a = qm_priority b \<and> qm_queued_at a < qm_queued_at b"

definition ready_at :: "nat \<Rightarrow> 'm queued_message \<Rightarrow> bool" where
  "ready_at now m = (case qm_retry_after m of None \<Rightarrow> True | Some t \<Rightarrow> t \<le> now)"

section \<open>The heap\<close>

text \<open>A \<open>BinaryHeap\<close> is the list of its elements. Among elements that compare equal the order of
  its array decides, which its contract leaves open: \<open>pick\<close> is that choice.\<close>

type_synonym 'm heap_choice = "'m queued_message list \<Rightarrow> 'm queued_message"

definition chosen :: "'m heap_choice \<Rightarrow> 'm queued_message list \<Rightarrow> 'm queued_message" where
  "chosen pick ms = (if pick ms \<in> set ms then pick ms else hd ms)"

definition greatest :: "'m queued_message list \<Rightarrow> 'm queued_message list" where
  "greatest ms = filter (\<lambda>m. list_all (\<lambda>m'. \<not> before_in_queue m' m) ms) ms"

definition smallest :: "'m queued_message list \<Rightarrow> 'm queued_message list" where
  "smallest ms = filter (\<lambda>m. list_all (\<lambda>m'. \<not> before_in_queue m m') ms) ms"

definition heap_pop :: "'m heap_choice \<Rightarrow> 'm queued_message list \<Rightarrow> ('m queued_message \<times> 'm queued_message list) option" where
  "heap_pop pick ms = (if ms = [] then None
     else let m = chosen pick (greatest ms) in Some (m, remove1 m ms))"

definition heap_min :: "'m heap_choice \<Rightarrow> 'm queued_message list \<Rightarrow> 'm queued_message option" where
  "heap_min pick ms = (if ms = [] then None else Some (chosen pick (smallest ms)))"

definition heap_push :: "'m queued_message \<Rightarrow> 'm queued_message list \<Rightarrow> 'm queued_message list" where
  "heap_push m ms = ms @ [m]"

section \<open>The rate limiter\<close>

record rate_limiter =
  tokens :: rat
  max_tokens :: rat
  refill_rate :: rat
  last_refill :: nat
  cooldown_until :: "nat option"

definition new_limiter :: "rat \<Rightarrow> rat \<Rightarrow> nat \<Rightarrow> rate_limiter" where
  "new_limiter bucket rate now = \<lparr>tokens = bucket, max_tokens = bucket, refill_rate = rate,
     last_refill = now, cooldown_until = None\<rparr>"

definition for_provider :: "string \<Rightarrow> nat \<Rightarrow> rate_limiter" where
  "for_provider provider =
     (if provider = ''telegram'' then new_limiter 30 1
      else if provider = ''discord'' then new_limiter 5 (f64 (2 / 10))
      else if provider = ''slack'' then new_limiter 1 1
      else if provider = ''signal'' then new_limiter 10 (f64 (5 / 10))
      else if provider = ''whatsapp'' then new_limiter 20 (f64 (33 / 100))
      else new_limiter 10 1)"

definition refill :: "nat \<Rightarrow> rate_limiter \<Rightarrow> rate_limiter" where
  "refill now l = l\<lparr>tokens := min (f64 (as_secs_f64 (now - last_refill l) * refill_rate l + tokens l)) (max_tokens l),
     last_refill := now\<rparr>"

definition can_send :: "(nat \<Rightarrow> nat) \<Rightarrow> rate_limiter \<Rightarrow> bool \<times> rate_limiter" where
  "can_send clock l =
     (if (case cooldown_until l of None \<Rightarrow> False | Some until \<Rightarrow> clock 0 < until) then (False, l)
      else let l' = refill (clock 1) (l\<lparr>cooldown_until := None\<rparr>) in (1 \<le> tokens l', l'))"

definition try_acquire :: "(nat \<Rightarrow> nat) \<Rightarrow> rate_limiter \<Rightarrow> bool \<times> rate_limiter" where
  "try_acquire clock l = (case can_send clock l of (ok, l') \<Rightarrow>
     if \<not> ok then (False, l') else (True, l'\<lparr>tokens := f64 (tokens l' - 1)\<rparr>))"

definition next_token_in :: "rate_limiter \<Rightarrow> nat" where
  "next_token_in l = (if 1 \<le> tokens l then 0
     else (let needed = f64 (1 - tokens l) in from_secs_f64 (f64 (needed / refill_rate l))))"

definition time_until_available :: "(nat \<Rightarrow> nat) \<Rightarrow> rate_limiter \<Rightarrow> nat \<times> rate_limiter" where
  "time_until_available clock l =
     (case cooldown_until l of
        Some until \<Rightarrow> if clock 0 < until then (until - clock 0, l)
          else (let l' = refill (clock 1) (l\<lparr>cooldown_until := None\<rparr>) in (next_token_in l', l'))
      | None \<Rightarrow> (let l' = refill (clock 1) l in (next_token_in l', l')))"

definition set_cooldown :: "nat \<Rightarrow> nat \<Rightarrow> rate_limiter \<Rightarrow> rate_limiter" where
  "set_cooldown duration now l = l\<lparr>cooldown_until := Some (now + duration), tokens := 0\<rparr>"

section \<open>The queue of a provider\<close>

record queue_config =
  max_queue_size :: nat
  max_retries :: nat
  initial_retry_delay :: nat
  max_retry_delay :: nat
  failed_message_ttl :: nat

definition default_queue_config :: queue_config where
  "default_queue_config = \<lparr>max_queue_size = 1000, max_retries = 5, initial_retry_delay = 10 ^ 9,
     max_retry_delay = 300 * 10 ^ 9, failed_message_ttl = 3600 * 10 ^ 9\<rparr>"

record queue_stats =
  qs_queued :: nat
  qs_sent :: nat
  qs_failed :: nat
  qs_retrying :: nat
  qs_cooldown_remaining_ms :: "nat option"

record 'm channel_queue =
  cq_messages :: "'m queued_message list"
  cq_limiter :: rate_limiter
  cq_stats :: queue_stats
  cq_next_id :: nat

definition new_channel_queue :: "string \<Rightarrow> nat \<Rightarrow> 'm channel_queue" where
  "new_channel_queue provider now = \<lparr>cq_messages = [], cq_limiter = for_provider provider now,
     cq_stats = \<lparr>qs_queued = 0, qs_sent = 0, qs_failed = 0, qs_retrying = 0, qs_cooldown_remaining_ms = None\<rparr>,
     cq_next_id = 0\<rparr>"

text \<open>The section of \<open>enqueue_with_priority\<close>: the id, the messages an overflow drops, and the
  queue. The stored message of the lowest rank goes, even when the new one ranks lower.\<close>

definition overflow :: "'m heap_choice \<Rightarrow> nat \<Rightarrow> 'm queued_message list \<Rightarrow> 'm queued_message list \<times> 'm queued_message list" where
  "overflow pick bound ms =
     (if bound \<le> length ms then (case heap_min pick ms of
        None \<Rightarrow> ([], ms)
      | Some dropped \<Rightarrow> (filter (\<lambda>m. qm_id m = qm_id dropped) ms, filter (\<lambda>m. qm_id m \<noteq> qm_id dropped) ms))
      else ([], ms))"

definition enqueue_section :: "'m heap_choice \<Rightarrow> queue_config \<Rightarrow> nat \<Rightarrow> 'm \<Rightarrow> message_priority \<Rightarrow> 'm channel_queue \<Rightarrow>
    nat \<times> 'm queued_message list \<times> 'm channel_queue" where
  "enqueue_section pick config now message priority q =
     (let i = cq_next_id q;
          entry = \<lparr>qm_message = message, qm_priority = priority, qm_queued_at = now, qm_attempts = 0,
            qm_retry_after = None, qm_max_attempts = max_retries config, qm_id = i\<rparr>
      in case overflow pick (max_queue_size config) (cq_messages q) of (dropped, kept) \<Rightarrow>
        (i, dropped, q\<lparr>cq_next_id := i + 1, cq_messages := heap_push entry kept,
           cq_stats := (cq_stats q)\<lparr>qs_queued := length (heap_push entry kept)\<rparr>\<rparr>))"

text \<open>\<open>take_ready_message\<close>: the heap is popped empty, the first ready message is kept out, the
  others are pushed back.\<close>

lemma before_irrefl [simp]: "\<not> before_in_queue m m"
  by (simp add: before_in_queue_def)

lemma before_trans: "before_in_queue a b \<Longrightarrow> before_in_queue b c \<Longrightarrow> before_in_queue a c"
  by (auto simp: before_in_queue_def)

lemma greatest_exists: "ms \<noteq> [] \<Longrightarrow> \<exists>m \<in> set ms. \<forall>m' \<in> set ms. \<not> before_in_queue m' m"
proof (induction ms)
  case (Cons x xs)
  show ?case
  proof (cases xs)
    case (Cons y ys)
    then obtain m where m: "m \<in> set xs" "\<forall>m' \<in> set xs. \<not> before_in_queue m' m" using Cons.IH by blast
    then show ?thesis by (cases "before_in_queue x m") (auto dest: before_trans)
  qed simp
qed simp

lemma greatest_ne: "ms \<noteq> [] \<Longrightarrow> greatest ms \<noteq> []"
  using greatest_exists by (auto simp: greatest_def filter_empty_conv list_all_iff)

lemma chosen_mem: "ms \<noteq> [] \<Longrightarrow> chosen pick ms \<in> set ms"
  by (simp add: chosen_def)

lemma heap_pop_Some:
  assumes "heap_pop pick ms = Some (m, rest)"
  shows "m \<in> set ms" "rest = remove1 m ms" "m' \<in> set ms \<Longrightarrow> \<not> before_in_queue m' m"
proof -
  have m: "m = chosen pick (greatest ms)" "rest = remove1 m ms" "ms \<noteq> []"
    using assms by (auto simp: heap_pop_def Let_def split: if_splits)
  then have "m \<in> set (greatest ms)" using chosen_mem [OF greatest_ne] by blast
  then show "m \<in> set ms" "m' \<in> set ms \<Longrightarrow> \<not> before_in_queue m' m" by (auto simp: greatest_def list_all_iff)
  show "rest = remove1 m ms" by (rule m)
qed

function pop_all :: "'m heap_choice \<Rightarrow> 'm queued_message list \<Rightarrow> 'm queued_message list" where
  "pop_all pick ms = (case heap_pop pick ms of None \<Rightarrow> [] | Some (m, rest) \<Rightarrow> m # pop_all pick rest)"
  by pat_completeness auto
termination
  by (relation "measure (\<lambda>(_, ms). length ms)")
    (use heap_pop_Some(1,2) length_remove1 length_pos_if_in_set in \<open>fastforce simp: length_remove1\<close>)+

declare pop_all.simps [simp del]

definition take_step :: "nat \<Rightarrow> 'm queued_message \<Rightarrow> 'm queued_message option \<times> 'm queued_message list \<Rightarrow>
    'm queued_message option \<times> 'm queued_message list" where
  "take_step now m acc = (case acc of (found, temp) \<Rightarrow>
     if found = None \<and> ready_at now m then (Some m, temp) else (found, temp @ [m]))"

definition take_best :: "'m heap_choice \<Rightarrow> nat \<Rightarrow> 'm queued_message list \<Rightarrow> 'm queued_message option \<times> 'm queued_message list" where
  "take_best pick now ms =
     (if list_ex (ready_at now) ms then
        (case fold (take_step now) (pop_all pick ms) (None, []) of (found, temp) \<Rightarrow> (found, fold heap_push temp []))
      else (None, ms))"

definition take_ready_message :: "'m heap_choice \<Rightarrow> (nat \<Rightarrow> nat) \<Rightarrow> 'm channel_queue \<Rightarrow> 'm queued_message option \<times> 'm channel_queue" where
  "take_ready_message pick clock q =
     (case can_send clock (cq_limiter q) of (ok, l) \<Rightarrow>
      case (if ok then (0, l) else time_until_available (\<lambda>k. clock (k + 2)) l) of (wait, l') \<Rightarrow>
        if 0 < wait then (None, q\<lparr>cq_limiter := l',
          cq_stats := (cq_stats q)\<lparr>qs_cooldown_remaining_ms := Some (min (wait div 10 ^ 6) (2 ^ 64 - 1))\<rparr>\<rparr>)
        else (case take_best pick (clock 4) (cq_messages q) of (found, ms) \<Rightarrow>
          (found, q\<lparr>cq_limiter := l', cq_messages := ms,
             cq_stats := (cq_stats q)\<lparr>qs_cooldown_remaining_ms := None\<rparr>\<rparr>)))"

text \<open>\<open>calculate_backoff\<close>, with the random number drawn for the jitter.\<close>

definition calculate_backoff :: "queue_config \<Rightarrow> nat \<Rightarrow> rat \<Rightarrow> nat" where
  "calculate_backoff config attempts random =
     (let exponent = int (min attempts (2 ^ 31 - 1)) - 1;
          delay = min (f64 (as_secs_f64 (initial_retry_delay config) * two_powi exponent)) (as_secs_f64 (max_retry_delay config));
          jitter = f64 (f64 (delay * f64 (1 / 10)) * random)
      in from_secs_f64 (f64 (delay + jitter)))"

definition requeue_section :: "'m queued_message list \<Rightarrow> 'm channel_queue \<Rightarrow> 'm channel_queue" where
  "requeue_section retries q =
     (let ms = fold heap_push retries (cq_messages q)
      in q\<lparr>cq_messages := ms, cq_stats := (cq_stats q)\<lparr>
           qs_retrying := length (filter (\<lambda>m. 0 < qm_attempts m) ms), qs_queued := length ms\<rparr>\<rparr>)"

definition clear_section :: "'m channel_queue \<Rightarrow> 'm channel_queue" where
  "clear_section q = q\<lparr>cq_messages := [], cq_stats := (cq_stats q)\<lparr>qs_queued := 0, qs_retrying := 0\<rparr>\<rparr>"

section \<open>The bucket holds between nothing and its size\<close>

definition limiter_ok :: "rate_limiter \<Rightarrow> bool" where
  "limiter_ok l \<longleftrightarrow> 0 \<le> tokens l \<and> tokens l \<le> max_tokens l \<and> 0 < refill_rate l
     \<and> (\<exists>n. max_tokens l = of_nat n \<and> n < 2 ^ 53)"

lemma as_secs_nonneg [simp]: "0 \<le> as_secs_f64 d"
  by (simp add: as_secs_f64_def round_to_nonneg)

lemma f64_pos:
  assumes "0 < x"
  shows "0 < f64 x"
proof -
  define u where "u = two_powi (binade x - 53 + 1)"
  have "two_powi (binade x) = two_powi 52 * u"
    using two_powi_add [of 52 "binade x - 53 + 1"] by (simp add: u_def)
  then have "two_powi 52 \<le> x / u" using binade_bounds(1) [OF assms] by (simp add: u_def pos_le_divide_eq)
  moreover have "1 \<le> two_powi 52" by (simp add: two_powi_def)
  ultimately have "1 \<le> round_half_even (x / u)" by (intro round_half_even_ge) simp
  then have "0 < of_int (round_half_even (x / u)) * u" by (simp add: u_def)
  then show ?thesis using assms by (simp add: round_to_def Let_def u_def)
qed

lemma limiter_ok_new: "limiter_ok (for_provider provider now)"
proof -
  have "limiter_ok (new_limiter (of_nat n) rate now)" if "0 < rate" "n < 2 ^ 53" for n rate
    using that by (auto simp: limiter_ok_def new_limiter_def)
  from this [of _ 30] this [of _ 5] this [of _ 1] this [of _ 10] this [of _ 20] show ?thesis
    by (simp add: for_provider_def f64_pos)
qed

lemma limiter_ok_refill: "limiter_ok l \<Longrightarrow> limiter_ok (refill now l)"
  by (auto simp: limiter_ok_def refill_def intro!: round_to_nonneg add_nonneg_nonneg mult_nonneg_nonneg)

lemma limiter_ok_can_send: "limiter_ok l \<Longrightarrow> limiter_ok (snd (can_send clock l))"
  using limiter_ok_refill [of "l\<lparr>cooldown_until := None\<rparr>"]
  by (auto simp: can_send_def Let_def limiter_ok_def split: option.splits)

lemma limiter_ok_acquire:
  assumes "limiter_ok l"
  shows "limiter_ok (snd (try_acquire clock l))"
proof -
  obtain ok l' where l': "can_send clock l = (ok, l')" by force
  then have t: "limiter_ok l'" using limiter_ok_can_send [OF assms, of clock] by simp
  then obtain n where n: "max_tokens l' = of_nat n" "n < 2 ^ 53" by (auto simp: limiter_ok_def)
  have "0 \<le> f64 (tokens l' - 1)" "f64 (tokens l' - 1) \<le> of_nat n" if "1 \<le> tokens l'"
    using that t n round_to_le_nat [of "tokens l' - 1" n 53] by (simp_all add: limiter_ok_def round_to_nonneg)
  moreover have "1 \<le> tokens l'" if ok
    using l' that by (auto simp: can_send_def Let_def split: if_splits)
  ultimately show ?thesis using t n by (auto simp: try_acquire_def l' limiter_ok_def)
qed

lemma limiter_ok_wait: "limiter_ok l \<Longrightarrow> limiter_ok (snd (time_until_available clock l))"
  using limiter_ok_refill [of "l\<lparr>cooldown_until := None\<rparr>" "clock 1"] limiter_ok_refill [of l "clock 1"]
  by (auto simp: time_until_available_def Let_def limiter_ok_def split: option.splits)

section \<open>The next message\<close>

lemma mset_pop_all: "mset (pop_all pick ms) = mset ms"
proof (induction pick ms rule: pop_all.induct)
  case (1 pick ms)
  show ?case
  proof (cases "heap_pop pick ms")
    case None
    then show ?thesis by (subst pop_all.simps) (auto simp: heap_pop_def Let_def split: if_splits)
  next
    case (Some p)
    then obtain m rest where p: "heap_pop pick ms = Some (m, rest)" by (cases p) auto
    then show ?thesis
      using 1 [OF p refl] heap_pop_Some [OF p] by (subst pop_all.simps) simp
  qed
qed

lemma pop_all_ordered: "sorted_wrt (\<lambda>a b. \<not> before_in_queue b a) (pop_all pick ms)"
proof (induction pick ms rule: pop_all.induct)
  case (1 pick ms)
  show ?case
  proof (cases "heap_pop pick ms")
    case None
    then show ?thesis by (subst pop_all.simps) simp
  next
    case (Some p)
    then obtain m rest where p: "heap_pop pick ms = Some (m, rest)" by (cases p) auto
    have "set (pop_all pick rest) = set rest" using mset_pop_all [of pick rest] by (rule mset_eq_setD)
    then show ?thesis
      using 1 [OF p refl] p heap_pop_Some [OF p] set_remove1_subset [of m ms] by (subst pop_all.simps) auto
  qed
qed

lemma take_fold:
  "fold (take_step now) ms (found, temp) = (case found of
     Some m \<Rightarrow> (Some m, temp @ ms)
   | None \<Rightarrow> (case dropWhile (\<lambda>m. \<not> ready_at now m) ms of
       [] \<Rightarrow> (None, temp @ ms)
     | m # rest \<Rightarrow> (Some m, temp @ takeWhile (\<lambda>m. \<not> ready_at now m) ms @ rest)))"
  by (induction ms arbitrary: found temp)
    (auto simp: take_step_def simp del: dropWhile_eq_Nil_conv split: option.splits list.splits)

lemma heap_push_all: "fold heap_push ms acc = acc @ ms"
  by (induction ms arbitrary: acc) (simp_all add: heap_push_def)

text \<open>The message taken is ready and no ready one comes before it; nothing else is lost.\<close>

lemma take_best_spec:
  "case take_best pick now ms of
     (None, ms') \<Rightarrow> ms' = ms \<and> filter (ready_at now) ms = []
   | (Some m, ms') \<Rightarrow> ready_at now m \<and> mset ms = add_mset m (mset ms')
       \<and> list_all (\<lambda>m'. \<not> before_in_queue m' m) (filter (ready_at now) ms)"
proof (cases "list_ex (ready_at now) ms")
  case True
  let ?ps = "pop_all pick ms" and ?no = "\<lambda>m. \<not> ready_at now m"
  have ps: "set ?ps = set ms" using mset_pop_all by (rule mset_eq_setD)
  then have "\<exists>m \<in> set ?ps. ready_at now m" using True by (simp add: list_ex_iff)
  then obtain m rest where d: "dropWhile ?no ?ps = m # rest" by (cases "dropWhile ?no ?ps") auto
  then have split: "?ps = takeWhile ?no ?ps @ m # rest" by (metis takeWhile_dropWhile_id)
  have m: "ready_at now m" using hd_dropWhile [of ?no ?ps] d by simp
  have found: "take_best pick now ms = (Some m, takeWhile ?no ?ps @ rest)"
    using True d by (simp add: take_best_def take_fold heap_push_all)
  have "mset ms = add_mset m (mset (takeWhile ?no ?ps @ rest))"
    using arg_cong [OF split, of mset] by (simp add: mset_pop_all)
  moreover have "\<not> before_in_queue m' m" if "m' \<in> set ms" "ready_at now m'" for m'
  proof -
    have "m' \<notin> set (takeWhile ?no ?ps)" using that(2) by (auto dest: set_takeWhileD)
    then have "m' \<in> set (m # rest)" using that(1) ps split by (metis Un_iff set_append)
    then show ?thesis using pop_all_ordered [of pick ms] split by (metis before_irrefl set_ConsD sorted_wrt.simps(2) sorted_wrt_append)
  qed
  ultimately show ?thesis using m found by (simp add: list_all_iff)
qed (simp add: take_best_def list_ex_iff filter_empty_conv)


lemma take_ready_same:
  "take_ready_message pick clock q = (found, q') \<Longrightarrow> cq_next_id q' = cq_next_id q"
  by (auto simp: take_ready_message_def Let_def split: prod.splits if_splits)

lemma take_ready_mset:
  "take_ready_message pick clock q = (found, q') \<Longrightarrow> mset (cq_messages q)
     = (case found of None \<Rightarrow> {#} | Some m \<Rightarrow> {#m#}) + mset (cq_messages q')"
  using take_best_spec [where now = "clock 4" and ms = "cq_messages q" and pick = pick]
  by (auto simp: take_ready_message_def Let_def split: prod.splits option.splits if_splits)

section \<open>Overflow\<close>

lemma overflow_mset:
  "overflow pick n ms = (dropped, kept) \<Longrightarrow> mset ms = mset dropped + mset kept"
  by (auto simp: overflow_def multiset_partition split: if_splits option.splits)

lemma requeue_messages [simp]: "cq_messages (requeue_section retries q) = cq_messages q @ retries"
  "cq_next_id (requeue_section retries q) = cq_next_id q"
  by (simp_all add: requeue_section_def heap_push_all)

end
