(* ===== verification/Channel_Delivery.thy ===== *)
theory Channel_Delivery
  imports Channel_Queue
begin

text \<open>
  The calls on a \<open>MessageQueue\<close> as one transition system. A call is a state machine whose steps
  are the stretches of the code between two awaits: taking the write lock on the queues, sending
  an event, and sending a message on the channel. \<open>Reporting\<close> is an event sent while the lock is
  held. Any number of calls interleave in any order, the clock and the random numbers are
  arbitrary, and the channel answers what it likes. The log, which the code does not have, records
  how each message left the queue.
\<close>

section \<open>States\<close>

definition EVENT_CHANNEL_SIZE :: nat where "EVENT_CHANNEL_SIZE = 1000"

datatype send_result =
    Send_Success string
  | Send_Rate_Limited nat
  | Send_Retry_Later nat string
  | Send_Failed string

datatype queue_event =
    Queued string nat
  | Sent string nat string
  | Retry_Scheduled string nat nat nat
  | Message_Failed string nat string
  | Rate_Limited string nat

datatype 'm call =
    Enqueuing string 'm message_priority
  | Reporting queue_event "'m call"
  | Announcing queue_event "'m call"
  | Taking string "send_result list" "'m queued_message list"
  | Acquiring string "'m queued_message" "send_result list" "'m queued_message list"
  | Sending string "'m queued_message" "send_result list" "'m queued_message list"
  | Booking string "'m queued_message" string "send_result list" "'m queued_message list"
  | Cooling string "'m queued_message" nat "send_result list" "'m queued_message list"
  | Giving_Up string "'m queued_message" string "send_result list" "'m queued_message list"
  | Requeuing string "send_result list" "'m queued_message list"
  | Clearing string
  | Enqueued nat
  | Processed "send_result list"
  | Emptied

datatype fate = Was_Sent | Was_Dropped | Was_Given_Up | Was_Cleared

record 'm message_queue =
  mq_queues :: "string \<Rightarrow> 'm channel_queue option"
  mq_lock :: "nat option"
  mq_events :: "queue_event list"
  mq_calls :: "'m call list"
  mq_log :: "(string \<times> nat \<times> fate) list"

definition new_message_queue :: "'m message_queue" where
  "new_message_queue = \<lparr>mq_queues = (\<lambda>_. None), mq_lock = None, mq_events = [], mq_calls = [], mq_log = []\<rparr>"

definition set_call :: "nat \<Rightarrow> 'm call \<Rightarrow> 'm message_queue \<Rightarrow> 'm message_queue" where
  "set_call k c w = w\<lparr>mq_calls := (mq_calls w)[k := c]\<rparr>"

definition set_queue :: "string \<Rightarrow> 'm channel_queue \<Rightarrow> 'm message_queue \<Rightarrow> 'm message_queue" where
  "set_queue p q w = w\<lparr>mq_queues := (mq_queues w)(p \<mapsto> q)\<rparr>"

definition logged :: "string \<Rightarrow> fate \<Rightarrow> 'm queued_message list \<Rightarrow> 'm message_queue \<Rightarrow> 'm message_queue" where
  "logged p f ms w = w\<lparr>mq_log := mq_log w @ map (\<lambda>m. (p, qm_id m, f)) ms\<rparr>"

section \<open>Steps\<close>

fun starting :: "'m call \<Rightarrow> bool" where
  "starting (Enqueuing _ _ _) = True"
| "starting (Taking _ [] []) = True"
| "starting (Clearing _) = True"
| "starting _ = False"

definition push_step :: "'m heap_choice \<Rightarrow> queue_config \<Rightarrow> nat \<Rightarrow> nat \<Rightarrow> nat \<Rightarrow> string \<Rightarrow> 'm \<Rightarrow> message_priority \<Rightarrow>
    'm message_queue \<Rightarrow> 'm message_queue" where
  "push_step pick config created now k p message priority w =
     (let q = (case mq_queues w p of None \<Rightarrow> new_channel_queue p created | Some q \<Rightarrow> q)
      in case enqueue_section pick config now message priority q of (i, dropped, q') \<Rightarrow>
        (set_call k (Reporting (Queued p i) (Enqueued i)) (logged p Was_Dropped dropped (set_queue p q' w)))
          \<lparr>mq_lock := Some k\<rparr>)"

definition take_call :: "'m heap_choice \<Rightarrow> (nat \<Rightarrow> nat) \<Rightarrow> nat \<Rightarrow> string \<Rightarrow> send_result list \<Rightarrow> 'm queued_message list \<Rightarrow>
    'm message_queue \<Rightarrow> 'm message_queue" where
  "take_call pick clock k p results retries w = (case mq_queues w p of
     None \<Rightarrow> set_call k (Requeuing p results retries) w
   | Some q \<Rightarrow> (case take_ready_message pick clock q of
       (None, q') \<Rightarrow> set_call k (Requeuing p results retries) (set_queue p q' w)
     | (Some m, q') \<Rightarrow> set_call k (Acquiring p m results retries) (set_queue p q' w)))"

definition acquire_call :: "(nat \<Rightarrow> nat) \<Rightarrow> nat \<Rightarrow> string \<Rightarrow> 'm queued_message \<Rightarrow> send_result list \<Rightarrow>
    'm queued_message list \<Rightarrow> 'm message_queue \<Rightarrow> 'm message_queue" where
  "acquire_call clock k p m results retries w =
     (let sending = Sending p (m\<lparr>qm_attempts := qm_attempts m + 1\<rparr>) results retries
      in case mq_queues w p of
        None \<Rightarrow> set_call k sending w
      | Some q \<Rightarrow> (case try_acquire clock (cq_limiter q) of (ok, l) \<Rightarrow>
          if \<not> ok then set_call k (Requeuing p results retries)
            (set_queue p (q\<lparr>cq_limiter := l, cq_messages := heap_push m (cq_messages q)\<rparr>) w)
          else set_call k sending (set_queue p (q\<lparr>cq_limiter := l\<rparr>) w)))"

text \<open>The answer of the channel: sent, rate limited, or another error.\<close>

datatype channel_answer = Accepted string | Limited | Erred string

definition answer_call :: "queue_config \<Rightarrow> nat \<Rightarrow> rat \<Rightarrow> nat \<Rightarrow> channel_answer \<Rightarrow> string \<Rightarrow> 'm queued_message \<Rightarrow>
    send_result list \<Rightarrow> 'm queued_message list \<Rightarrow> 'm message_queue \<Rightarrow> 'm message_queue" where
  "answer_call config now random k answer p m results retries w =
     (let delay = calculate_backoff config (qm_attempts m) random in case answer of
        Accepted r \<Rightarrow> set_call k (Booking p m r (results @ [Send_Success r]) retries) (logged p Was_Sent [m] w)
      | Limited \<Rightarrow> set_call k (Cooling p m delay results retries) w
      | Erred e \<Rightarrow>
          if qm_attempts m < qm_max_attempts m then
            set_call k (Announcing (Retry_Scheduled p (qm_id m) (qm_attempts m) delay)
              (Taking p (results @ [Send_Retry_Later delay e]) (retries @ [m\<lparr>qm_retry_after := Some (now + delay)\<rparr>]))) w
          else set_call k (Giving_Up p m e (results @ [Send_Failed e]) retries) (logged p Was_Given_Up [m] w))"

definition on_queue :: "string \<Rightarrow> ('m channel_queue \<Rightarrow> 'm channel_queue) \<Rightarrow> 'm message_queue \<Rightarrow> 'm message_queue" where
  "on_queue p f w = (case mq_queues w p of None \<Rightarrow> w | Some q \<Rightarrow> set_queue p (f q) w)"

definition book_sent :: "'m channel_queue \<Rightarrow> 'm channel_queue" where
  "book_sent q = q\<lparr>cq_stats := (cq_stats q)\<lparr>qs_sent := qs_sent (cq_stats q) + 1, qs_queued := length (cq_messages q)\<rparr>\<rparr>"

definition book_failed :: "'m channel_queue \<Rightarrow> 'm channel_queue" where
  "book_failed q = q\<lparr>cq_stats := (cq_stats q)\<lparr>qs_failed := qs_failed (cq_stats q) + 1, qs_queued := length (cq_messages q)\<rparr>\<rparr>"

definition book_call :: "nat \<Rightarrow> string \<Rightarrow> 'm queued_message \<Rightarrow> string \<Rightarrow> send_result list \<Rightarrow> 'm queued_message list \<Rightarrow>
    'm message_queue \<Rightarrow> 'm message_queue" where
  "book_call k p m r results retries w =
     (set_call k (Reporting (Sent p (qm_id m) r) (Taking p results retries)) (on_queue p book_sent w))\<lparr>mq_lock := Some k\<rparr>"

definition give_up_call :: "nat \<Rightarrow> string \<Rightarrow> 'm queued_message \<Rightarrow> string \<Rightarrow> send_result list \<Rightarrow> 'm queued_message list \<Rightarrow>
    'm message_queue \<Rightarrow> 'm message_queue" where
  "give_up_call k p m e results retries w =
     (set_call k (Reporting (Message_Failed p (qm_id m) e) (Taking p results retries)) (on_queue p book_failed w))
       \<lparr>mq_lock := Some k\<rparr>"

definition cool_call :: "nat \<Rightarrow> nat \<Rightarrow> nat \<Rightarrow> string \<Rightarrow> 'm queued_message \<Rightarrow> nat \<Rightarrow> send_result list \<Rightarrow>
    'm queued_message list \<Rightarrow> 'm message_queue \<Rightarrow> 'm message_queue" where
  "cool_call set_at now k p m cooldown results retries w =
     set_call k (Announcing (Rate_Limited p cooldown)
         (Requeuing p (results @ [Send_Rate_Limited cooldown]) (retries @ [m\<lparr>qm_retry_after := Some (now + cooldown)\<rparr>])))
       (on_queue p (\<lambda>q. q\<lparr>cq_limiter := set_cooldown cooldown set_at (cq_limiter q)\<rparr>) w)"

definition requeue_call :: "nat \<Rightarrow> string \<Rightarrow> send_result list \<Rightarrow> 'm queued_message list \<Rightarrow> 'm message_queue \<Rightarrow> 'm message_queue" where
  "requeue_call k p results retries w =
     set_call k (Processed results) (if retries = [] then w else on_queue p (requeue_section retries) w)"

definition clear_call :: "nat \<Rightarrow> string \<Rightarrow> 'm message_queue \<Rightarrow> 'm message_queue" where
  "clear_call k p w = set_call k Emptied (case mq_queues w p of None \<Rightarrow> w
     | Some q \<Rightarrow> logged p Was_Cleared (cq_messages q) (set_queue p (clear_section q) w))"

text \<open>A call may step while it holds the lock or needs none; a step under the lock needs it free.
  The label says whether the step was a consumer receiving an event.\<close>

definition at_call :: "nat \<Rightarrow> 'm call \<Rightarrow> 'm message_queue \<Rightarrow> bool" where
  "at_call k c w \<longleftrightarrow> k < length (mq_calls w) \<and> mq_calls w ! k = c"

inductive queue_step :: "'m heap_choice \<Rightarrow> queue_config \<Rightarrow> 'm message_queue \<Rightarrow> bool \<Rightarrow> 'm message_queue \<Rightarrow> bool"
  for pick config where
  Begin: "starting c \<Longrightarrow> queue_step pick config w False (w\<lparr>mq_calls := mq_calls w @ [c]\<rparr>)"
| Receive: "mq_events w = e # es \<Longrightarrow> queue_step pick config w True (w\<lparr>mq_events := es\<rparr>)"
| Push: "at_call k (Enqueuing p message priority) w \<Longrightarrow> mq_lock w = None \<Longrightarrow>
    queue_step pick config w False (push_step pick config created now k p message priority w)"
| Report: "at_call k (Reporting e c) w \<Longrightarrow> length (mq_events w) < EVENT_CHANNEL_SIZE \<Longrightarrow>
    queue_step pick config w False ((set_call k c w)\<lparr>mq_events := mq_events w @ [e], mq_lock := None\<rparr>)"
| Announce: "at_call k (Announcing e c) w \<Longrightarrow> length (mq_events w) < EVENT_CHANNEL_SIZE \<Longrightarrow>
    queue_step pick config w False ((set_call k c w)\<lparr>mq_events := mq_events w @ [e]\<rparr>)"
| Take: "at_call k (Taking p results retries) w \<Longrightarrow> mq_lock w = None \<Longrightarrow>
    queue_step pick config w False (take_call pick clock k p results retries w)"
| Acquire: "at_call k (Acquiring p m results retries) w \<Longrightarrow> mq_lock w = None \<Longrightarrow>
    queue_step pick config w False (acquire_call clock k p m results retries w)"
| Answer: "at_call k (Sending p m results retries) w \<Longrightarrow>
    queue_step pick config w False (answer_call config now random k answer p m results retries w)"
| Book: "at_call k (Booking p m r results retries) w \<Longrightarrow> mq_lock w = None \<Longrightarrow>
    queue_step pick config w False (book_call k p m r results retries w)"
| Give_Up: "at_call k (Giving_Up p m e results retries) w \<Longrightarrow> mq_lock w = None \<Longrightarrow>
    queue_step pick config w False (give_up_call k p m e results retries w)"
| Cool: "at_call k (Cooling p m cooldown results retries) w \<Longrightarrow> mq_lock w = None \<Longrightarrow>
    queue_step pick config w False (cool_call set_at now k p m cooldown results retries w)"
| Requeue: "at_call k (Requeuing p results retries) w \<Longrightarrow> mq_lock w = None \<or> retries = [] \<Longrightarrow>
    queue_step pick config w False (requeue_call k p results retries w)"
| Clear: "at_call k (Clearing p) w \<Longrightarrow> mq_lock w = None \<Longrightarrow>
    queue_step pick config w False (clear_call k p w)"

inductive queue_reachable :: "'m heap_choice \<Rightarrow> queue_config \<Rightarrow> 'm message_queue \<Rightarrow> bool" for pick config where
  New: "queue_reachable pick config new_message_queue"
| Next: "queue_reachable pick config w \<Longrightarrow> queue_step pick config w received w' \<Longrightarrow> queue_reachable pick config w'"

section \<open>Where the messages are\<close>

abbreviation ids :: "'m queued_message list \<Rightarrow> nat multiset" where
  "ids ms \<equiv> mset (map qm_id ms)"

primrec held :: "string \<Rightarrow> 'm call \<Rightarrow> nat multiset" where
  "held P (Enqueuing p message priority) = {#}"
| "held P (Reporting e c) = held P c"
| "held P (Announcing e c) = held P c"
| "held P (Taking p results retries) = (if p = P then ids retries else {#})"
| "held P (Acquiring p m results retries) = (if p = P then ids (m # retries) else {#})"
| "held P (Sending p m results retries) = (if p = P then ids (m # retries) else {#})"
| "held P (Booking p m r results retries) = (if p = P then ids retries else {#})"
| "held P (Cooling p m cooldown results retries) = (if p = P then ids (m # retries) else {#})"
| "held P (Giving_Up p m e results retries) = (if p = P then ids retries else {#})"
| "held P (Requeuing p results retries) = (if p = P then ids retries else {#})"
| "held P (Clearing p) = {#}"
| "held P (Enqueued i) = {#}"
| "held P (Processed results) = {#}"
| "held P Emptied = {#}"

definition in_hand :: "string \<Rightarrow> 'm message_queue \<Rightarrow> nat multiset" where
  "in_hand P w = sum_list (map (held P) (mq_calls w))"

definition stored :: "string \<Rightarrow> 'm message_queue \<Rightarrow> nat multiset" where
  "stored P w = (case mq_queues w P of None \<Rightarrow> {#} | Some q \<Rightarrow> ids (cq_messages q))"

definition departed :: "string \<Rightarrow> 'm message_queue \<Rightarrow> nat multiset" where
  "departed P w = mset (map (fst \<circ> snd) (filter (\<lambda>x. fst x = P) (mq_log w)))"

definition next_of :: "string \<Rightarrow> 'm message_queue \<Rightarrow> nat" where
  "next_of P w = (case mq_queues w P of None \<Rightarrow> 0 | Some q \<Rightarrow> cq_next_id q)"

definition accounted_for :: "string \<Rightarrow> 'm message_queue \<Rightarrow> bool" where
  "accounted_for P w \<longleftrightarrow> stored P w + in_hand P w + departed P w = mset [0..<next_of P w]"

lemma multiset_sum_update:
  "k < length cs \<Longrightarrow> sum_list (map f (cs[k := c])) + f (cs ! k) = sum_list (map f cs) + (f c :: 'b multiset)"
proof (induction cs arbitrary: k)
  case (Cons a cs)
  then show ?case by (cases k) (auto simp: ac_simps)
qed simp

lemma moved:
  assumes "at_call k c w" "mq_calls w' = (mq_calls w)[k := c']"
    and "stored P w' + held P c' + departed P w' + mset [0..<next_of P w]
       = stored P w + held P c + departed P w + mset [0..<next_of P w']"
    and "accounted_for P w"
  shows "accounted_for P w'"
proof -
  have "in_hand P w' + held P c = in_hand P w + held P c'"
    using multiset_sum_update [of k "mq_calls w" "held P" c'] assms(1,2) by (simp add: in_hand_def at_call_def)
  note eqs = this assms(3) assms(4) [unfolded accounted_for_def]
  show ?thesis
    unfolding accounted_for_def
  proof (rule multiset_eqI)
    fix i
    show "count (stored P w' + in_hand P w' + departed P w') i = count (mset [0..<next_of P w']) i"
      using eqs [THEN arg_cong [where f = "\<lambda>M. count M i"]] unfolding count_union by linarith
  qed
qed

lemma readings [simp]:
  "stored P (set_call k c w) = stored P w" "departed P (set_call k c w) = departed P w" "next_of P (set_call k c w) = next_of P w"
  "stored P (w\<lparr>mq_lock := l\<rparr>) = stored P w" "departed P (w\<lparr>mq_lock := l\<rparr>) = departed P w" "next_of P (w\<lparr>mq_lock := l\<rparr>) = next_of P w"
  "stored P (w\<lparr>mq_events := es\<rparr>) = stored P w" "departed P (w\<lparr>mq_events := es\<rparr>) = departed P w"
  "next_of P (w\<lparr>mq_events := es\<rparr>) = next_of P w"
  "stored P (set_queue p q w) = (if p = P then ids (cq_messages q) else stored P w)"
  "departed P (set_queue p q w) = departed P w"
  "next_of P (set_queue p q w) = (if p = P then cq_next_id q else next_of P w)"
  "stored P (logged p f ms w) = stored P w" "next_of P (logged p f ms w) = next_of P w"
  "departed P (logged p f ms w) = departed P w + (if p = P then ids ms else {#})"
  "mq_calls (set_call k c w) = (mq_calls w)[k := c]" "mq_calls (set_queue p q w) = mq_calls w"
  "mq_calls (logged p f ms w) = mq_calls w"
  by (simp_all add: stored_def departed_def next_of_def set_call_def set_queue_def logged_def filter_map comp_def)

lemma on_queue_readings:
  "(\<And>q. cq_messages (f q) = cq_messages q) \<Longrightarrow> (\<And>q. cq_next_id (f q) = cq_next_id q)
     \<Longrightarrow> stored P (on_queue p f w) = stored P w \<and> next_of P (on_queue p f w) = next_of P w"
  by (auto simp: on_queue_def split: option.splits) (auto simp: stored_def next_of_def)

lemma on_queue_same [simp]: "departed P (on_queue p f w) = departed P w" "mq_calls (on_queue p f w) = mq_calls w"
  by (auto simp: on_queue_def split: option.splits)

lemma push_accounted:
  assumes "at_call k (Enqueuing p message priority) w" "accounted_for P w"
  shows "accounted_for P (push_step pick config created now k p message priority w)"
proof -
  define q where "q = (case mq_queues w p of None \<Rightarrow> new_channel_queue p created | Some q \<Rightarrow> q)"
  obtain dropped kept where o: "overflow pick (max_queue_size config) (cq_messages q) = (dropped, kept)" by force
  have q: "ids (cq_messages q) = stored p w" "cq_next_id q = next_of p w"
    by (simp_all add: q_def stored_def next_of_def new_channel_queue_def split: option.splits)
  have "ids kept + ids dropped = stored p w"
    using arg_cong [OF overflow_mset [OF o], of "image_mset qm_id"] q(1) by (simp add: add.commute)
  then show ?thesis
    by (intro moved [OF assms(1) _ _ assms(2)])
      (auto simp: push_step_def Let_def enqueue_section_def o heap_push_def q(2) simp flip: q_def simp del: mset_upt)
qed

lemma take_accounted:
  assumes "at_call k (Taking p results retries) w" "accounted_for P w"
  shows "accounted_for P (take_call pick clock k p results retries w)"
proof (cases "mq_queues w p")
  case None
  then show ?thesis
    by (intro moved [OF assms(1) _ _ assms(2), where c' = "Requeuing p results retries"]) (simp_all add: take_call_def)
next
  case (Some q)
  obtain found q' where t: "take_ready_message pick clock q = (found, q')" by force
  define c where "c = (case found of None \<Rightarrow> Requeuing p results retries | Some m \<Rightarrow> Acquiring p m results retries)"
  have w': "take_call pick clock k p results retries w = set_call k c (set_queue p q' w)"
    by (simp add: take_call_def Some t c_def split: option.splits)
  have "ids (cq_messages q) = (case found of None \<Rightarrow> {#} | Some m \<Rightarrow> {#qm_id m#}) + ids (cq_messages q')"
    using arg_cong [OF take_ready_mset [OF t], of "image_mset qm_id"] by (simp split: option.splits)
  moreover have "p = P \<Longrightarrow> stored P w = ids (cq_messages q) \<and> next_of P w = cq_next_id q"
    using Some by (simp add: stored_def next_of_def)
  ultimately show ?thesis
    using take_ready_same [OF t] by (intro moved [OF assms(1) _ _ assms(2), where c' = c])
      (auto simp: w' c_def split: option.splits)
qed

lemma acquire_accounted:
  assumes "at_call k (Acquiring p m results retries) w" "accounted_for P w"
  shows "accounted_for P (acquire_call clock k p m results retries w)"
proof -
  let ?send = "Sending p (m\<lparr>qm_attempts := qm_attempts m + 1\<rparr>) results retries"
  show ?thesis
  proof (cases "mq_queues w p")
    case None
    then show ?thesis
      by (intro moved [OF assms(1) _ _ assms(2), where c' = ?send]) (simp_all add: acquire_call_def)
  next
    case (Some q)
    then have q: "p = P \<Longrightarrow> stored P w = ids (cq_messages q) \<and> next_of P w = cq_next_id q"
      by (simp add: stored_def next_of_def)
    obtain ok l where "try_acquire clock (cq_limiter q) = (ok, l)" by force
    then show ?thesis
      using q by (intro moved [OF assms(1) _ _ assms(2), where c' = "if ok then ?send else Requeuing p results retries"])
        (auto simp: acquire_call_def Some heap_push_def)
  qed
qed

lemma answer_accounted:
  assumes "at_call k (Sending p m results retries) w" "accounted_for P w"
  shows "accounted_for P (answer_call config now random k answer p m results retries w)"
  by (cases answer; cases "qm_attempts m < qm_max_attempts m"; rule moved [OF assms(1) _ _ assms(2)])
    (auto simp: answer_call_def Let_def)

lemma requeue_accounted:
  assumes "at_call k (Requeuing p results retries) w" "accounted_for P w"
  shows "accounted_for P (requeue_call k p results retries w)"
proof (cases "mq_queues w p")
  case None
  then have empty: "stored p w = {#}" "next_of p w = 0" by (simp_all add: stored_def next_of_def)
  show ?thesis
  proof (cases "retries = [] \<or> p \<noteq> P")
    case True
    then show ?thesis using None
      by (intro moved [OF assms(1) _ _ assms(2), where c' = "Processed results"])
        (auto simp: requeue_call_def on_queue_def)
  next
    case False
    have "held P (mq_calls w ! k) \<subseteq># in_hand P w"
      using assms(1) multiset_sum_update [of k "mq_calls w" "held P" Emptied]
      by (auto simp: in_hand_def at_call_def) (metis mset_subset_eq_add_right)
    then have "in_hand P w \<noteq> {#}" using False assms(1) by (auto simp: at_call_def)
    then show ?thesis using False empty assms(2) by (simp add: accounted_for_def)
  qed
next
  case (Some q)
  then have q: "p = P \<Longrightarrow> stored P w = ids (cq_messages q) \<and> next_of P w = cq_next_id q"
    by (simp add: stored_def next_of_def)
  moreover have "on_queue p f w = set_queue p (f q) w" for f by (simp add: on_queue_def Some)
  ultimately show ?thesis
    by (intro moved [OF assms(1) _ _ assms(2), where c' = "Processed results"]) (auto simp: requeue_call_def)
qed

lemma clear_accounted:
  assumes "at_call k (Clearing p) w" "accounted_for P w"
  shows "accounted_for P (clear_call k p w)"
proof (cases "mq_queues w p")
  case None
  then show ?thesis
    by (intro moved [OF assms(1) _ _ assms(2), where c' = Emptied]) (simp_all add: clear_call_def)
next
  case (Some q)
  then have "p = P \<Longrightarrow> stored P w = ids (cq_messages q) \<and> next_of P w = cq_next_id q"
    by (simp add: stored_def next_of_def)
  then show ?thesis
    by (intro moved [OF assms(1) _ _ assms(2), where c' = Emptied]) (auto simp: clear_call_def clear_section_def Some)
qed

lemma step_accounted:
  "queue_step pick config w received w' \<Longrightarrow> accounted_for P w \<Longrightarrow> accounted_for P w'"
proof (induction rule: queue_step.induct)
  case (Begin c w)
  have "held P c = {#}" using Begin(1) by (cases c rule: starting.cases) auto
  then show ?case using Begin(2)
    by (simp add: accounted_for_def in_hand_def stored_def departed_def next_of_def)
next
  case (Receive w e es)
  then show ?case by (simp add: accounted_for_def in_hand_def)
next
  case (Push k p message priority w created now)
  then show ?case by (intro push_accounted)
next
  case (Report k e c w)
  then show ?case by (intro moved [OF Report(1) _ _ Report(3), where c' = c]) simp_all
next
  case (Announce k e c w)
  then show ?case by (intro moved [OF Announce(1) _ _ Announce(3), where c' = c]) simp_all
next
  case (Take k p results retries w clock)
  show ?case by (rule take_accounted [OF Take(1,3)])
next
  case (Acquire k p m results retries w clock)
  show ?case by (rule acquire_accounted [OF Acquire(1,3)])
next
  case (Answer k p m results retries w now random answer)
  show ?case by (rule answer_accounted [OF Answer])
next
  case (Book k p m r results retries w)
  show ?case
    using on_queue_readings [of book_sent P p w]
    by (intro moved [OF Book(1) _ _ Book(3), where c' = "Reporting (Sent p (qm_id m) r) (Taking p results retries)"])
      (simp_all add: book_call_def book_sent_def)
next
  case (Give_Up k p m e results retries w)
  show ?case
    using on_queue_readings [of book_failed P p w]
    by (intro moved [OF Give_Up(1) _ _ Give_Up(3), where c' = "Reporting (Message_Failed p (qm_id m) e) (Taking p results retries)"])
      (simp_all add: give_up_call_def book_failed_def)
next
  case (Cool k p m cooldown results retries w set_at now)
  show ?case
    using on_queue_readings [of "\<lambda>q. q\<lparr>cq_limiter := set_cooldown cooldown set_at (cq_limiter q)\<rparr>" P p w]
    by (intro moved [OF Cool(1) _ _ Cool(3)]) (auto simp: cool_call_def)
next
  case (Requeue k p results retries w)
  show ?case by (rule requeue_accounted [OF Requeue(1,3)])
next
  case (Clear k p w)
  show ?case by (rule clear_accounted [OF Clear(1,3)])
qed

lemma reachable_accounted: "queue_reachable pick config w \<Longrightarrow> accounted_for P w"
proof (induction rule: queue_reachable.induct)
  case New
  show ?case by (simp add: accounted_for_def stored_def in_hand_def departed_def next_of_def new_message_queue_def)
qed (rule step_accounted)

text \<open>C32: However calls that enqueue, process and clear interleave, and whatever the channel answers,
  every id a provider has given out is in exactly one place: in its queue, in the hands of one
  call that is sending it or is about to put it back, or in the log as sent, dropped by an
  overflow, given up or cleared. Nothing is lost, delivered twice or both kept and dropped.\<close>
theorem every_message_is_in_one_place:
  assumes "queue_reachable pick config w"
  shows "stored P w + in_hand P w + departed P w = mset [0..<next_of P w]"
  using reachable_accounted [OF assms, of P] by (simp add: accounted_for_def)

section \<open>A full event channel\<close>

text \<open>The lock is held by a call that waits for room in a full channel.\<close>

definition stalled :: "'m message_queue \<Rightarrow> bool" where
  "stalled w \<longleftrightarrow> (\<exists>k e c. mq_lock w = Some k \<and> at_call k (Reporting e c) w) \<and> length (mq_events w) = EVENT_CHANNEL_SIZE"

inductive queue_steps :: "'m heap_choice \<Rightarrow> queue_config \<Rightarrow> 'm message_queue \<Rightarrow> bool list \<Rightarrow> 'm message_queue \<Rightarrow> bool"
  for pick config where
  Stay: "queue_steps pick config w [] w"
| Go: "queue_steps pick config w rs w' \<Longrightarrow> queue_step pick config w' r w'' \<Longrightarrow> queue_steps pick config w (rs @ [r]) w''"

lemma stalled_kept:
  assumes "stalled w" and "mq_lock w' = mq_lock w" "mq_events w' = mq_events w"
    and "\<And>k e c. at_call k (Reporting e c) w \<Longrightarrow> at_call k (Reporting e c) w'"
  shows "stalled w'"
  using assms unfolding stalled_def by metis

lemma other_call: "at_call k c w \<Longrightarrow> mq_calls w' = (mq_calls w)[k := c'] \<Longrightarrow> c \<noteq> d \<Longrightarrow> at_call j d w \<Longrightarrow> at_call j d w'"
  by (auto simp: at_call_def nth_list_update)

lemma stalled_step:
  "queue_step pick config w r w' \<Longrightarrow> stalled w \<Longrightarrow> \<not> r \<Longrightarrow> stalled w' \<and> mq_queues w' = mq_queues w"
proof (induction rule: queue_step.induct)
  case (Begin c w)
  then show ?case by (auto intro!: stalled_kept [of w] simp: at_call_def nth_append)
next
  case (Answer k p m results retries w now random answer)
  let ?w = "answer_call config now random k answer p m results retries w"
  obtain c' where "mq_calls ?w = (mq_calls w)[k := c']" "mq_lock ?w = mq_lock w" "mq_events ?w = mq_events w"
    "mq_queues ?w = mq_queues w"
    by (cases answer; cases "qm_attempts m < qm_max_attempts m")
      (auto simp: answer_call_def Let_def set_call_def logged_def)
  then show ?case
    using Answer(2) other_call [OF Answer(1)] by (auto intro!: stalled_kept [of w])
next
  case (Requeue k p results retries w)
  then have "retries = []" by (auto simp: stalled_def)
  then show ?case
    using Requeue(3) other_call [OF Requeue(1)]
    by (auto intro!: stalled_kept [of w] simp: requeue_call_def set_call_def)
qed (auto simp: stalled_def)

lemma stalled_steps:
  "queue_steps pick config w rs w' \<Longrightarrow> stalled w \<Longrightarrow> True \<notin> set rs \<Longrightarrow> stalled w' \<and> mq_queues w' = mq_queues w"
proof (induction rule: queue_steps.induct)
  case (Go w rs w' r w'')
  then show ?case using stalled_step [OF Go(2)] by auto
qed simp

text \<open>A thousand messages are enqueued, and one more.\<close>

lemma one_more:
  assumes "queue_reachable pick config w" "mq_lock w = None"
  obtains w' k e c where "queue_reachable pick config w'" "mq_lock w' = Some k" "at_call k (Reporting e c) w'"
    "mq_events w' = mq_events w"
proof -
  fix message
  let ?p = "''slack''" and ?k = "length (mq_calls w)"
  let ?w = "w\<lparr>mq_calls := mq_calls w @ [Enqueuing ?p message Normal]\<rparr>"
  let ?w' = "push_step pick config 0 0 ?k ?p message Normal ?w"
  have "queue_reachable pick config ?w"
    by (rule queue_reachable.Next [OF assms(1) queue_step.Begin]) simp
  moreover have "at_call ?k (Enqueuing ?p message Normal) ?w" by (simp add: at_call_def)
  ultimately have r: "queue_reachable pick config ?w'"
    using assms(2) by (intro queue_reachable.Next [OF _ queue_step.Push]) simp_all
  have "mq_lock ?w' = Some ?k \<and> (\<exists>e c. at_call ?k (Reporting e c) ?w') \<and> mq_events ?w' = mq_events w"
    by (auto simp: push_step_def Let_def set_call_def set_queue_def logged_def at_call_def split: prod.splits)
  then show ?thesis using that r by blast
qed

lemma fill:
  "n \<le> EVENT_CHANNEL_SIZE \<Longrightarrow> \<exists>w. queue_reachable pick config w \<and> mq_lock w = None \<and> length (mq_events w) = n"
proof (induction n)
  case 0
  show ?case
    by (intro exI [of _ new_message_queue] conjI, rule queue_reachable.New) (simp_all add: new_message_queue_def)
next
  case (Suc n)
  then obtain w where w: "queue_reachable pick config w" "mq_lock w = None" "length (mq_events w) = n" by auto
  obtain w' k e c where w': "queue_reachable pick config w'" "mq_lock w' = Some k" "at_call k (Reporting e c) w'"
    "mq_events w' = mq_events w" using one_more [OF w(1,2)] .
  let ?u = "(set_call k c w')\<lparr>mq_events := mq_events w' @ [e], mq_lock := None\<rparr>"
  have "queue_reachable pick config ?u"
    by (rule queue_reachable.Next [OF w'(1) queue_step.Report [OF w'(3)]]) (use Suc.prems w w' in simp)
  then show ?case by (intro exI [of _ ?u]) (use w' w in simp)
qed



lemma every_message_is_in_one_place_witness:
  "\<exists>w :: string message_queue. mq_lock w \<noteq> None
     \<and> stored ''slack'' w + in_hand ''slack'' w + departed ''slack'' w = mset [0..<next_of ''slack'' w]"
proof -
  have "mq_lock (new_message_queue :: string message_queue) = None" by (simp add: new_message_queue_def)
  then obtain w :: "string message_queue" where w: "queue_reachable hd default_queue_config w" "mq_lock w \<noteq> None"
    by (rule one_more [OF queue_reachable.New [of hd default_queue_config]]) simp
  then show ?thesis using every_message_is_in_one_place [OF w(1)] by blast
qed

end
