(* ===== verification/Circuit_Breaker.thy ===== *)
theory Circuit_Breaker
  imports Unicode_Text "HOL-Library.Word"
begin

text \<open>
  The circuit breaker of a channel listener
  (\<open>nanna-channels/src/listeners/circuit_breaker.rs\<close>). The counters are \<open>u32\<close>; the states
  reported to the status manager, when there is one, are kept as a list. The log lines of
  \<open>tracing\<close> and the sleep of \<open>backoff\<close> are left out.
\<close>

section \<open>The breaker\<close>

definition DEFAULT_MAX_AUTH_FAILURES :: "32 word" where "DEFAULT_MAX_AUTH_FAILURES = 3"
definition DEFAULT_MAX_CONN_FAILURES :: "32 word" where "DEFAULT_MAX_CONN_FAILURES = 10"
definition DEFAULT_MAX_BACKOFF_SECS :: "64 word" where "DEFAULT_MAX_BACKOFF_SECS = 120"

datatype connection_state =
    Unconfigured | Disconnected | Connecting | Connected | Degraded | Connection_Limited | Auth_Failed | Unavailable

record circuit_breaker =
  cb_provider :: ustring
  cb_status_manager :: "(connection_state \<times> ustring option) list option"
  cb_auth_failures :: "32 word"
  cb_conn_failures :: "32 word"
  cb_max_auth_failures :: "32 word"
  cb_max_conn_failures :: "32 word"
  cb_max_backoff_secs :: "64 word"

datatype breaker_action = Retry | Halt

definition new_breaker :: "ustring \<Rightarrow> circuit_breaker" where
  "new_breaker provider = \<lparr>cb_provider = provider, cb_status_manager = None, cb_auth_failures = 0,
     cb_conn_failures = 0, cb_max_auth_failures = DEFAULT_MAX_AUTH_FAILURES,
     cb_max_conn_failures = DEFAULT_MAX_CONN_FAILURES, cb_max_backoff_secs = DEFAULT_MAX_BACKOFF_SECS\<rparr>"

definition with_status_manager :: "circuit_breaker \<Rightarrow> circuit_breaker" where
  "with_status_manager b = b\<lparr>cb_status_manager := Some []\<rparr>"

definition with_max_auth_failures :: "32 word \<Rightarrow> circuit_breaker \<Rightarrow> circuit_breaker" where
  "with_max_auth_failures n b = b\<lparr>cb_max_auth_failures := n\<rparr>"

definition with_max_conn_failures :: "32 word \<Rightarrow> circuit_breaker \<Rightarrow> circuit_breaker" where
  "with_max_conn_failures n b = b\<lparr>cb_max_conn_failures := n\<rparr>"

definition with_max_backoff_secs :: "64 word \<Rightarrow> circuit_breaker \<Rightarrow> circuit_breaker" where
  "with_max_backoff_secs n b = b\<lparr>cb_max_backoff_secs := n\<rparr>"

definition breaker_report :: "connection_state \<Rightarrow> ustring option \<Rightarrow> circuit_breaker \<Rightarrow> circuit_breaker" where
  "breaker_report state details b = (case cb_status_manager b of
     None \<Rightarrow> b
   | Some reported \<Rightarrow> b\<lparr>cb_status_manager := Some (reported @ [(state, details)])\<rparr>)"

definition record_success :: "circuit_breaker \<Rightarrow> circuit_breaker" where
  "record_success b = breaker_report Connected None (b\<lparr>cb_auth_failures := 0, cb_conn_failures := 0\<rparr>)"

definition record_auth_failure :: "ustring \<Rightarrow> circuit_breaker \<Rightarrow> breaker_action \<times> circuit_breaker" where
  "record_auth_failure detail b =
     (let b = b\<lparr>cb_auth_failures := cb_auth_failures b + 1, cb_conn_failures := 0\<rparr>
      in if cb_max_auth_failures b \<le> cb_auth_failures b then
           (Halt, breaker_report Auth_Failed (Some (lit ''Authentication failed after ''
              @ udec (unat (cb_auth_failures b)) @ lit '' consecutive attempts: '' @ detail
              @ lit ''. Verify credentials and reconnect from the Channels page.'')) b)
         else
           (Retry, breaker_report Connecting (Some (lit ''Auth failure (attempt ''
              @ udec (unat (cb_auth_failures b)) @ lit ''/'' @ udec (unat (cb_max_auth_failures b)) @ lit ''): ''
              @ detail)) b))"

definition record_conn_failure :: "ustring \<Rightarrow> circuit_breaker \<Rightarrow> breaker_action \<times> circuit_breaker" where
  "record_conn_failure detail b =
     (let b = b\<lparr>cb_conn_failures := cb_conn_failures b + 1\<rparr>
      in if cb_max_conn_failures b \<le> cb_conn_failures b then
           (Halt, breaker_report Unavailable (Some (lit ''Connection failed after ''
              @ udec (unat (cb_conn_failures b)) @ lit '' consecutive attempts: '' @ detail
              @ lit ''. Check network / service availability and reconnect from the Channels page.'')) b)
         else
           (Retry, breaker_report Connecting (Some (lit ''Connection failure (attempt ''
              @ udec (unat (cb_conn_failures b)) @ lit ''/'' @ udec (unat (cb_max_conn_failures b)) @ lit ''): ''
              @ detail)) b))"

text \<open>The wait before the next attempt, in seconds.\<close>

definition backoff_duration :: "circuit_breaker \<Rightarrow> nat" where
  "backoff_duration b =
     (let failures = max (cb_auth_failures b) (cb_conn_failures b)
      in if failures = 0 then 0
         else min (min (2 ^ unat failures) (2 ^ 64 - 1)) (unat (cb_max_backoff_secs b)))"

section \<open>Runs of outcomes\<close>

text \<open>What the reconnect loop of a listener records.\<close>

datatype listener_outcome = Success | Auth_Failure ustring | Conn_Failure ustring

fun observe_outcome :: "listener_outcome \<Rightarrow> circuit_breaker \<Rightarrow> breaker_action option \<times> circuit_breaker" where
  "observe_outcome Success b = (None, record_success b)"
| "observe_outcome (Auth_Failure d) b = map_prod Some id (record_auth_failure d b)"
| "observe_outcome (Conn_Failure d) b = map_prod Some id (record_conn_failure d b)"

definition after :: "listener_outcome list \<Rightarrow> circuit_breaker \<Rightarrow> circuit_breaker" where
  "after os b = fold (\<lambda>o' b. snd (observe_outcome o' b)) os b"

fun is_auth :: "listener_outcome \<Rightarrow> bool" where
  "is_auth (Auth_Failure _) = True"
| "is_auth _ = False"

fun is_conn :: "listener_outcome \<Rightarrow> bool" where
  "is_conn (Conn_Failure _) = True"
| "is_conn _ = False"

text \<open>Read from the outcomes alone: the authentication failures since the last success, with any
  connection failures between them, and the connection failures since anything else.\<close>

definition auth_run :: "listener_outcome list \<Rightarrow> nat" where
  "auth_run os = length (filter is_auth (takeWhile (\<lambda>o'. o' \<noteq> Success) (rev os)))"

definition conn_run :: "listener_outcome list \<Rightarrow> nat" where
  "conn_run os = length (takeWhile is_conn (rev os))"

lemma report_fields [simp]:
  "cb_auth_failures (breaker_report s d b) = cb_auth_failures b" "cb_conn_failures (breaker_report s d b) = cb_conn_failures b"
  "cb_max_auth_failures (breaker_report s d b) = cb_max_auth_failures b"
  "cb_max_conn_failures (breaker_report s d b) = cb_max_conn_failures b"
  "cb_max_backoff_secs (breaker_report s d b) = cb_max_backoff_secs b"
  by (simp_all add: breaker_report_def split: option.splits)

lemma after_snoc: "after (os @ [o']) b = snd (observe_outcome o' (after os b))"
  by (simp add: after_def)

lemma outcome_fields:
  "cb_max_auth_failures (snd (observe_outcome o' b)) = cb_max_auth_failures b"
  "cb_max_conn_failures (snd (observe_outcome o' b)) = cb_max_conn_failures b"
  "cb_max_backoff_secs (snd (observe_outcome o' b)) = cb_max_backoff_secs b"
  "cb_auth_failures (snd (observe_outcome o' b)) = (if o' = Success then 0 else cb_auth_failures b + of_bool (is_auth o'))"
  "cb_conn_failures (snd (observe_outcome o' b)) = (if is_conn o' then cb_conn_failures b + 1 else 0)"
  by (cases o'; simp add: record_success_def record_auth_failure_def record_conn_failure_def Let_def)+

lemma after_thresholds:
  "cb_max_auth_failures (after os b) = cb_max_auth_failures b" "cb_max_conn_failures (after os b) = cb_max_conn_failures b"
  "cb_max_backoff_secs (after os b) = cb_max_backoff_secs b"
  by (induction os rule: rev_induct) (simp_all add: after_snoc outcome_fields, simp_all add: after_def)

lemma after_counters:
  assumes "cb_auth_failures b = 0" "cb_conn_failures b = 0"
  shows "cb_auth_failures (after os b) = of_nat (auth_run os)" "cb_conn_failures (after os b) = of_nat (conn_run os)"
proof (induction os rule: rev_induct)
  case (snoc o' os)
  { case 1 then show ?case
      using snoc(1) unfolding after_snoc outcome_fields by (cases o') (simp_all add: auth_run_def) }
  { case 2 then show ?case using snoc by (simp add: after_snoc outcome_fields conn_run_def) }
qed (simp_all add: after_def auth_run_def conn_run_def assms)

definition configured_breaker :: "32 word \<Rightarrow> 32 word \<Rightarrow> 64 word \<Rightarrow> ustring \<Rightarrow> circuit_breaker" where
  "configured_breaker a c m provider =
     with_max_auth_failures a (with_max_conn_failures c (with_max_backoff_secs m (new_breaker provider)))"

text \<open>A breaker stops its listener exactly when the authentication failures since the last
  success, or the connection failures since anything else happened, reach their threshold; so
  connection failures between do not interrupt a run of authentication failures, while the
  converse does. The backoff never exceeds its cap, and is zero only without a failure or a cap.\<close>
theorem breaker_counts_outcomes:
  "let b = after os (configured_breaker a c m provider)
   in cb_auth_failures b = of_nat (auth_run os) \<and> cb_conn_failures b = of_nat (conn_run os)
    \<and> fst (record_auth_failure d b) = (if a \<le> of_nat (Suc (auth_run os)) then Halt else Retry)
    \<and> fst (record_conn_failure d b) = (if c \<le> of_nat (Suc (conn_run os)) then Halt else Retry)
    \<and> backoff_duration b \<le> unat m
    \<and> (backoff_duration b = 0) = ((cb_auth_failures b = 0 \<and> cb_conn_failures b = 0) \<or> m = 0)"
proof -
  define b where "b = after os (configured_breaker a c m provider)"
  have fields: "cb_auth_failures b = of_nat (auth_run os)" "cb_conn_failures b = of_nat (conn_run os)"
    "cb_max_auth_failures b = a" "cb_max_conn_failures b = c" "cb_max_backoff_secs b = m"
    by (simp_all add: b_def after_counters after_thresholds configured_breaker_def new_breaker_def
        with_max_auth_failures_def with_max_conn_failures_def with_max_backoff_secs_def)
  have "max x y = 0 \<longleftrightarrow> x = 0 \<and> y = 0" for x y :: "32 word" by (auto simp: max_def word_le_0_iff)
  moreover have "min (min (2 ^ k) (2 ^ 64 - 1)) y = 0 \<longleftrightarrow> y = (0 :: nat)" for k y
    by (cases y) (simp_all add: min_def)
  ultimately have "(backoff_duration b = 0) = ((cb_auth_failures b = 0 \<and> cb_conn_failures b = 0) \<or> m = 0)"
    unfolding backoff_duration_def Let_def fields(5) by (auto simp: unat_eq_0)
  moreover have "backoff_duration b \<le> unat m" using fields by (simp add: backoff_duration_def Let_def)
  ultimately show ?thesis
    unfolding b_def [symmetric] Let_def
    using fields by (simp add: record_auth_failure_def record_conn_failure_def Let_def add.commute)
qed

end
