(* ===== verification/Reach.thy ===== *)
theory Reach
  imports Main
begin

text \<open>
  What a graph search promises to the checks that call it, as a locale, and the facts about
  acyclicity that follow from the promise alone. The provider is the worklist search of the task
  graph (\<open>Task_Graph\<close>); the clients are the cycle checks and the repository's invariant.
\<close>

section \<open>Edges and closed sets\<close>

definition edges :: "('a \<Rightarrow> 'a list) \<Rightarrow> ('a \<times> 'a) set" where
  "edges succs = {(a, b). b \<in> set (succs a)}"

lemma edges_iff [simp]: "(a, b) \<in> edges succs \<longleftrightarrow> b \<in> set (succs a)"
  by (simp add: edges_def)

lemma closed_rtrancl:
  assumes "r `` X \<subseteq> X" and "(x, y) \<in> r\<^sup>*" and "x \<in> X"
  shows "y \<in> X"
  using assms(2,3) by (induction rule: rtrancl_induct) (use assms(1) in auto)

lemma relpow_mono_rel:
  fixes r s :: "('a \<times> 'a) set"
  shows "r \<subseteq> s \<Longrightarrow> (x, y) \<in> r ^^ k \<Longrightarrow> (x, y) \<in> s ^^ k"
  by (induction k arbitrary: y) auto

text \<open>
  Changing the edges out of one node can only close a cycle through that node. This is what
  justifies a check that searches from the updated node alone.
\<close>

lemma cycle_through_changed:
  assumes old: "acyclic r" and new: "(x, x) \<notin> s\<^sup>+"
    and same: "\<And>a b. a \<noteq> x \<Longrightarrow> (a, b) \<in> s \<Longrightarrow> (a, b) \<in> r"
  shows "acyclic s"
proof (rule acyclicI, rule allI, rule notI)
  fix a assume cyc: "(a, a) \<in> s\<^sup>+"
  have avoid: "(a, b) \<in> r\<^sup>+ \<or> (a, x) \<in> s\<^sup>* \<and> (x, b) \<in> s\<^sup>*" if "(a, b) \<in> s\<^sup>+" for a b
    using that
  proof (induction rule: trancl_induct)
    case (base y)
    then show ?case using same[of a y] by (cases "a = x") auto
  next
    case (step y z)
    show ?case
    proof (cases "y = x")
      case True
      with step.hyps show ?thesis by (auto dest: trancl_into_rtrancl)
    next
      case False
      with step same[of y z] show ?thesis by (auto intro: rtrancl_into_rtrancl trancl_into_trancl)
    qed
  qed
  from avoid[OF cyc] old have "(x, a) \<in> s\<^sup>*" and "(a, x) \<in> s\<^sup>*"
    by (auto simp: acyclic_def)
  with cyc have "(x, x) \<in> s\<^sup>+"
    by (meson rtrancl_trancl_trancl trancl_rtrancl_trancl)
  with new show False ..
qed

lemma acyclic_mono_trancl: "acyclic r \<Longrightarrow> s \<subseteq> r\<^sup>+ \<Longrightarrow> acyclic s"
  by (metis acyclic_def acyclic_subset trancl_id trans_trancl)

lemma acyclic_add_source:
  assumes "acyclic r" and "\<And>a. (a, x) \<notin> r" and "x \<notin> Y"
  shows "acyclic (r \<union> {x} \<times> Y)"
proof (rule cycle_through_changed [OF assms(1), where x = x])
  show "(x, x) \<notin> (r \<union> {x} \<times> Y)\<^sup>+"
  proof
    assume "(x, x) \<in> (r \<union> {x} \<times> Y)\<^sup>+"
    then obtain z where "(z, x) \<in> r \<union> {x} \<times> Y" by (meson tranclD2)
    with assms(2,3) show False by auto
  qed
qed auto

section \<open>The search contract\<close>

locale graph_search =
  fixes succs :: "'a \<Rightarrow> 'a list"
    and search :: "('a \<Rightarrow> bool) \<Rightarrow> 'a list \<Rightarrow> 'a option"
  assumes search_sound:
      "search P xs = Some y \<Longrightarrow> P y \<and> (\<exists>x \<in> set xs. (x, y) \<in> (edges succs)\<^sup>*)"
    and search_complete:
      "search P xs = None \<Longrightarrow> x \<in> set xs \<Longrightarrow> (x, y) \<in> (edges succs)\<^sup>* \<Longrightarrow> \<not> P y"
begin

lemma search_None_iff:
  "search P xs = None \<longleftrightarrow> (\<forall>x \<in> set xs. \<forall>y. (x, y) \<in> (edges succs)\<^sup>* \<longrightarrow> \<not> P y)"
  using search_sound search_complete by (metis option.exhaust)

text \<open>Searching a node from its own successors decides whether it lies on a cycle.\<close>

lemma self_search_iff:
  "search (\<lambda>c. c = x) (succs x) = None \<longleftrightarrow> (x, x) \<notin> (edges succs)\<^sup>+"
proof -
  have "(x, x) \<in> (edges succs)\<^sup>+ \<longleftrightarrow> (\<exists>y \<in> set (succs x). (y, x) \<in> (edges succs)\<^sup>*)"
    by (metis edges_iff rtrancl_into_trancl2 tranclD)
  then show ?thesis by (auto simp: search_None_iff)
qed

lemma acyclic_after_update:
  assumes "acyclic r" and "search (\<lambda>c. c = x) (succs x) = None"
    and "\<And>a b. a \<noteq> x \<Longrightarrow> b \<in> set (succs a) \<Longrightarrow> (a, b) \<in> r"
  shows "acyclic (edges succs)"
  using cycle_through_changed [OF assms(1), of x "edges succs"] assms(2,3)
  by (simp add: self_search_iff)

end

section \<open>The walk contract\<close>

text \<open>A walk lists, once each, the nodes reachable from its root.\<close>

locale graph_walk =
  fixes rel :: "('a \<times> 'a) set"
    and walk :: "'a \<Rightarrow> 'a list"
  assumes set_walk: "set (walk x) = rel\<^sup>* `` {x}"
    and distinct_walk: "distinct (walk x)"
begin

lemma root_in_walk: "x \<in> set (walk x)"
  by (simp add: set_walk)

lemma walk_closed: "a \<in> set (walk x) \<Longrightarrow> (a, b) \<in> rel \<Longrightarrow> b \<in> set (walk x)"
  by (auto simp: set_walk intro: rtrancl_into_rtrancl)

lemma walk_trans: "a \<in> set (walk x) \<Longrightarrow> set (walk a) \<subseteq> set (walk x)"
  by (auto simp: set_walk)

lemma length_walk: "length (walk x) = card (rel\<^sup>* `` {x})"
  using distinct_card [OF distinct_walk] by (simp add: set_walk)

end

end
