(* ===== verification/Task_Graph.thy ===== *)
theory Task_Graph
  imports Task_Model Reach
begin

text \<open>
  The walks over the hierarchy and the dependency edges of one scope (\<open>tasks.rs\<close>, from
  \<open>parent_depth\<close> to \<open>check_parent_cycle\<close>, and \<open>check_graph_update\<close>), and what
  each of them decides. The map argument of the code is the list of the scope's rows.
\<close>

section \<open>Bounds\<close>

definition TASK_DEPTH_MAX :: nat where "TASK_DEPTH_MAX = 32"
definition TASK_DEPS_MAX :: nat where "TASK_DEPS_MAX = 100"

lemma depth_max_pos [simp]: "0 < TASK_DEPTH_MAX"
  by (simp add: TASK_DEPTH_MAX_def)

section \<open>Parent chains\<close>

text \<open>\<open>by_id.get(&id).and_then(|t| t.parent_id)\<close>\<close>

definition parent_of :: "task list \<Rightarrow> int \<Rightarrow> int option" where
  "parent_of by_id i = Option.bind (lookup_task by_id i) t_parent"

function parent_depth_loop :: "task list \<Rightarrow> nat \<Rightarrow> int \<Rightarrow> (invalid, nat) result" where
  "parent_depth_loop by_id depth i =
     (if TASK_DEPTH_MAX \<le> depth then Inl (DepthExceeded i)
      else (case parent_of by_id i of
              None \<Rightarrow> Inr depth
            | Some p \<Rightarrow> parent_depth_loop by_id (Suc depth) p))"
  by pat_completeness auto
termination
  by (relation "measure (\<lambda>(m, d, i). TASK_DEPTH_MAX - d)") auto

definition parent_depth :: "task list \<Rightarrow> int \<Rightarrow> (invalid, nat) result" where
  "parent_depth by_id i = parent_depth_loop by_id 0 i"

function lenient_loop :: "task list \<Rightarrow> nat \<Rightarrow> int option \<Rightarrow> nat" where
  "lenient_loop by_id depth current =
     (case current of
        None \<Rightarrow> depth
      | Some p \<Rightarrow> if TASK_DEPTH_MAX \<le> Suc depth then Suc depth
                  else lenient_loop by_id (Suc depth) (parent_of by_id p))"
  by pat_completeness auto
termination
  by (relation "measure (\<lambda>(m, d, c). TASK_DEPTH_MAX - d)") auto

definition parent_depth_lenient :: "task list \<Rightarrow> int \<Rightarrow> nat" where
  "parent_depth_lenient ts i = lenient_loop ts 0 (parent_of ts i)"

function ancestor_loop :: "task list \<Rightarrow> int list \<Rightarrow> int option \<Rightarrow> int list" where
  "ancestor_loop by_id ancestors current =
     (case current of
        None \<Rightarrow> ancestors
      | Some i \<Rightarrow>
          if i \<in> set ancestors then ancestors
          else if TASK_DEPTH_MAX \<le> Suc (length ancestors) then ancestors @ [i]
          else ancestor_loop by_id (ancestors @ [i]) (parent_of by_id i))"
  by pat_completeness auto
termination
  by (relation "measure (\<lambda>(m, a, c). TASK_DEPTH_MAX - length a)") auto

definition ancestor_chain :: "task list \<Rightarrow> int option \<Rightarrow> int list" where
  "ancestor_chain by_id start_parent = ancestor_loop by_id [] start_parent"

function parent_cycle_loop :: "task list \<Rightarrow> int \<Rightarrow> nat \<Rightarrow> int option \<Rightarrow> (invalid, unit) result" where
  "parent_cycle_loop by_id start steps current =
     (case current of
        None \<Rightarrow> Inr ()
      | Some p \<Rightarrow>
          if p = start then Inl (ParentCycle start)
          else if TASK_DEPTH_MAX \<le> Suc steps then Inl ParentChainTooLong
          else parent_cycle_loop by_id start (Suc steps) (parent_of by_id p))"
  by pat_completeness auto
termination
  by (relation "measure (\<lambda>(m, s, n, c). TASK_DEPTH_MAX - n)") auto

definition check_parent_cycle :: "task list \<Rightarrow> int \<Rightarrow> (invalid, unit) result" where
  "check_parent_cycle by_id start = parent_cycle_loop by_id start 0 (parent_of by_id start)"

declare parent_depth_loop.simps [simp del] lenient_loop.simps [simp del]
  ancestor_loop.simps [simp del] parent_cycle_loop.simps [simp del]

section \<open>The dependency search\<close>

text \<open>\<open>by_id.get(&current)\<close> and its \<open>depends_on\<close>; nothing for an id outside the scope.\<close>

definition deps_of :: "task list \<Rightarrow> int \<Rightarrow> int list" where
  "deps_of by_id i = (case lookup_task by_id i of None \<Rightarrow> [] | Some t \<Rightarrow> t_depends_on t)"

text \<open>
  The loop both dependency checks run: pop the front of the queue, report it when it is a
  target, otherwise mark it and append its dependencies.
\<close>

lemma deps_of_outside: "i \<notin> t_id ` set ts \<Longrightarrow> deps_of ts i = []"
  by (auto simp: deps_of_def split: option.splits dest: lookup_task_Some)

function wait_search :: "task list \<Rightarrow> (int \<Rightarrow> bool) \<Rightarrow> int list \<Rightarrow> int list \<Rightarrow> int option" where
  "wait_search by_id target [] visited = None"
| "wait_search by_id target (current # queue) visited =
     (if target current then Some current
      else if current \<in> set visited then wait_search by_id target queue visited
      else wait_search by_id target (queue @ deps_of by_id current) (current # visited))"
  by pat_completeness auto
termination
proof (relation "(\<lambda>(m, p, q, v). card (t_id ` set m - set v)) <*mlex*>
                 measure (\<lambda>(m, p, q, v). length q)", goal_cases)
  case 1
  show ?case by (rule wf_mlex) simp
next
  case (2 m p c q v)
  then show ?case by (simp add: mlex_prod_def)
next
  case (3 m p c q v)
  show ?case
  proof (cases "c \<in> t_id ` set m")
    case True
    have "t_id ` set m - set (c # v) = (t_id ` set m - set v) - {c}" by auto
    then have "card (t_id ` set m - set (c # v)) < card (t_id ` set m - set v)"
      using True 3 by (simp add: card_Diff1_less del: card_Diff_insert)
    then show ?thesis by (simp add: mlex_prod_def)
  next
    case False
    then have "t_id ` set m - set (c # v) = t_id ` set m - set v" by auto
    with False show ?thesis by (simp add: mlex_prod_def deps_of_outside)
  qed
qed

definition check_ancestor_dependency ::
  "task list \<Rightarrow> int list \<Rightarrow> int list \<Rightarrow> (invalid, unit) result" where
  "check_ancestor_dependency by_id ancestors deps =
     (if ancestors = [] \<or> deps = [] then Inr ()
      else (case wait_search by_id (\<lambda>c. c \<in> set ancestors) deps [] of
              Some c \<Rightarrow> Inl (AncestorDep c)
            | None \<Rightarrow> Inr ()))"

definition check_dependency_cycle :: "task list \<Rightarrow> int \<Rightarrow> (invalid, unit) result" where
  "check_dependency_cycle by_id start =
     (case lookup_task by_id start of
        None \<Rightarrow> Inr ()
      | Some t \<Rightarrow>
          (case wait_search by_id (\<lambda>c. c = start) (t_depends_on t) [] of
             Some c \<Rightarrow> Inl (DependencyCycle start)
           | None \<Rightarrow> Inr ()))"

section \<open>Subtrees\<close>

text \<open>One row of the inner loop: an unseen child of \<open>current\<close> is recorded and queued.\<close>

fun visit_child :: "int \<Rightarrow> task \<Rightarrow> int list \<times> int list \<Rightarrow> int list \<times> int list" where
  "visit_child current t (seen, queue) =
     (if t_parent t = Some current \<and> t_id t \<notin> set seen
      then (seen @ [t_id t], queue @ [t_id t]) else (seen, queue))"

lemma fold_visit_child:
  "\<exists>new. fold (visit_child c) ts (seen, queue) = (seen @ new, queue @ new)
     \<and> distinct new \<and> set new = {t_id t | t. t \<in> set ts \<and> t_parent t = Some c} - set seen"
proof (induction ts arbitrary: seen queue)
  case Nil
  then show ?case by simp
next
  case (Cons t ts)
  show ?case
  proof (cases "t_parent t = Some c \<and> t_id t \<notin> set seen")
    case True
    obtain new where "fold (visit_child c) ts (seen @ [t_id t], queue @ [t_id t])
        = (seen @ [t_id t] @ new, queue @ [t_id t] @ new)" "distinct new"
      "set new = {t_id t | t. t \<in> set ts \<and> t_parent t = Some c} - set (seen @ [t_id t])"
      using Cons.IH [of "seen @ [t_id t]" "queue @ [t_id t]"] by auto
    with True show ?thesis by (intro exI [of _ "t_id t # new"]) auto
  next
    case False
    with Cons.IH [of seen queue] show ?thesis by auto
  qed
qed

function subtree_walk :: "task list \<Rightarrow> int list \<Rightarrow> int list \<Rightarrow> int list" where
  "subtree_walk ts [] seen = seen"
| "subtree_walk ts (current # queue) seen =
     (case fold (visit_child current) ts (seen, queue) of
        (seen', queue') \<Rightarrow> subtree_walk ts queue' seen')"
  by pat_completeness auto
termination
proof (relation "measure (\<lambda>(ts, q, s). card (t_id ` set ts - set s) + length q)", goal_cases)
  case 1
  show ?case by simp
next
  case (2 ts c q s s' q')
  obtain new where new: "fold (visit_child c) ts (s, q) = (s @ new, q @ new)" "distinct new"
      "set new = {t_id t | t. t \<in> set ts \<and> t_parent t = Some c} - set s"
    using fold_visit_child by blast
  with 2 have s': "s' = s @ new" "q' = q @ new" by auto
  have sub: "set new \<subseteq> t_id ` set ts - set s" using new(3) by auto
  have "t_id ` set ts - set s' = (t_id ` set ts - set s) - set new" using s' by auto
  then have "card (t_id ` set ts - set s') = card (t_id ` set ts - set s) - length new"
    using sub new(2) by (simp add: card_Diff_subset distinct_card)
  moreover have "length new \<le> card (t_id ` set ts - set s)"
    using sub new(2) by (metis List.finite_set card_mono distinct_card finite_Diff finite_imageI)
  ultimately show ?case using s' by simp
qed

definition subtree_ids_from :: "task list \<Rightarrow> int \<Rightarrow> int list" where
  "subtree_ids_from by_id root = subtree_walk by_id [root] [root]"

text \<open>Height by levels; the loop runs at most \<open>TASK_DEPTH_MAX\<close> times.\<close>

fun height_loop :: "task list \<Rightarrow> nat \<Rightarrow> int list \<Rightarrow> int list \<Rightarrow> nat \<Rightarrow> nat" where
  "height_loop by_id 0 frontier seen height = height"
| "height_loop by_id (Suc n) frontier seen height =
     (case fold (\<lambda>current. fold (visit_child current) by_id) frontier (seen, []) of
        (seen', next_frontier) \<Rightarrow>
          if next_frontier = [] then height
          else height_loop by_id n next_frontier seen' (Suc height))"

definition subtree_height :: "task list \<Rightarrow> int \<Rightarrow> nat" where
  "subtree_height by_id root = height_loop by_id TASK_DEPTH_MAX [root] [root] 0"

section \<open>The check of an update\<close>

definition check_deps :: "task list \<Rightarrow> task \<Rightarrow> (invalid, unit) result" where
  "check_deps by_id t = for_each (\<lambda>dep.
     if dep = t_id t then Inl (SelfDependency (t_id t))
     else if lookup_task by_id dep = None then Inl (DepMissing dep)
     else Inr ()) (t_depends_on t)"

definition check_parent :: "task list \<Rightarrow> task \<Rightarrow> bool \<Rightarrow> (invalid, unit) result" where
  "check_parent by_id t parent_changed =
     (case t_parent t of
        None \<Rightarrow> Inr ()
      | Some p \<Rightarrow>
          if p = t_id t then Inl (SelfParent (t_id t))
          else (case lookup_task by_id p of
              None \<Rightarrow> Inl (ParentMissing p)
            | Some parent \<Rightarrow>
                if parent_changed \<and> is_closed_status (t_status parent)
                then Inl (MoveUnderClosed (t_status parent) p)
                else bind_res (check_parent_cycle by_id (t_id t)) (\<lambda>_.
                  if parent_changed
                  then bind_res (parent_depth by_id p) (\<lambda>d.
                    require (d + 1 + subtree_height by_id (t_id t) < TASK_DEPTH_MAX)
                      ReparentTooDeep)
                  else Inr ())))"

definition check_graph_update :: "task list \<Rightarrow> task \<Rightarrow> bool \<Rightarrow> (invalid, unit) result" where
  "check_graph_update by_id t parent_changed =
     bind_res (check_deps by_id t) (\<lambda>_.
     bind_res (check_dependency_cycle by_id (t_id t)) (\<lambda>_.
     bind_res (check_parent by_id t parent_changed) (\<lambda>_.
       let ancestors = ancestor_chain by_id (t_parent t) in
       bind_res (check_ancestor_dependency by_id ancestors (t_depends_on t)) (\<lambda>_.
         if parent_changed
         then for_each (\<lambda>member_id.
                if member_id = t_id t then Inr ()
                else (case lookup_task by_id member_id of
                        None \<Rightarrow> Inr ()
                      | Some mem \<Rightarrow>
                          check_ancestor_dependency by_id ancestors (t_depends_on mem)))
              (subtree_ids_from by_id (t_id t))
         else Inr ()))))"

section \<open>What the dependency search decides\<close>

abbreviation dep_edges :: "task list \<Rightarrow> (int \<times> int) set" where
  "dep_edges ts \<equiv> edges (deps_of ts)"

lemma wait_search_Some:
  "wait_search ts P queue visited = Some y \<Longrightarrow>
     P y \<and> (\<exists>x \<in> set queue. (x, y) \<in> (dep_edges ts)\<^sup>*)"
proof (induction ts P queue visited rule: wait_search.induct)
  case (1 ts P visited)
  then show ?case by simp
next
  case (2 ts P c queue visited)
  show ?case
  proof (cases "P c \<or> c \<in> set visited")
    case True
    with 2 show ?thesis by (auto split: if_splits)
  next
    case False
    with 2 obtain x where x: "P y" "x \<in> set (queue @ deps_of ts c)" "(x, y) \<in> (dep_edges ts)\<^sup>*"
      by auto
    then show ?thesis by (auto intro: converse_rtrancl_into_rtrancl)
  qed
qed

lemma wait_search_None:
  assumes "wait_search ts P queue visited = None"
    and "\<And>v. v \<in> set visited \<Longrightarrow> \<not> P v \<and> set (deps_of ts v) \<subseteq> set visited \<union> set queue"
    and "x \<in> set visited \<union> set queue" and "(x, y) \<in> (dep_edges ts)\<^sup>*"
  shows "\<not> P y"
  using assms
proof (induction ts P queue visited rule: wait_search.induct)
  case (1 ts P visited)
  have "(dep_edges ts) `` set visited \<subseteq> set visited" using 1(2) by fastforce
  from closed_rtrancl [OF this 1(4)] 1(2,3) show ?case by auto
next
  case (2 ts P c queue visited)
  from 2(3) have "\<not> P c" by (auto split: if_splits)
  show ?case
  proof (cases "c \<in> set visited")
    case True
    show ?thesis
      by (rule "2.IH"(1)) (use 2(3-6) \<open>\<not> P c\<close> True in \<open>auto split: if_splits\<close>)
  next
    case False
    show ?thesis
      by (rule "2.IH"(2)) (use 2(3-6) \<open>\<not> P c\<close> False in \<open>auto split: if_splits\<close>)
  qed
qed

interpretation dep_search: graph_search "deps_of ts" "\<lambda>P xs. wait_search ts P xs []" for ts
proof unfold_locales
  show "P y \<and> (\<exists>x \<in> set xs. (x, y) \<in> (dep_edges ts)\<^sup>*)"
    if "wait_search ts P xs [] = Some y" for P xs y
    using that by (rule wait_search_Some)
  show "\<not> P y"
    if "wait_search ts P xs [] = None" "x \<in> set xs" "(x, y) \<in> (dep_edges ts)\<^sup>*" for P xs x y
    using wait_search_None [OF that(1) _ _ that(3)] that(2) by simp
qed

lemma check_dependency_cycle_ok:
  "check_dependency_cycle ts i = Inr () \<longleftrightarrow> (i, i) \<notin> (dep_edges ts)\<^sup>+"
proof (cases "lookup_task ts i")
  case None
  then have "deps_of ts i = []" by (simp add: deps_of_def)
  then have "(i, i) \<notin> (dep_edges ts)\<^sup>+" by (auto dest: tranclD)
  with None show ?thesis by (simp add: check_dependency_cycle_def)
next
  case (Some t)
  then have "t_depends_on t = deps_of ts i" by (simp add: deps_of_def)
  with Some show ?thesis
    by (simp add: check_dependency_cycle_def flip: dep_search.self_search_iff split: option.split)
qed

lemma check_ancestor_dependency_ok:
  "check_ancestor_dependency ts anc deps = Inr () \<longleftrightarrow>
     (\<forall>d \<in> set deps. \<forall>a \<in> set anc. (d, a) \<notin> (dep_edges ts)\<^sup>*)"
  by (auto simp: check_ancestor_dependency_def dep_search.search_None_iff
           dest: dep_search.search_sound split: option.split)

section \<open>What the subtree walk lists\<close>

definition child_rel :: "task list \<Rightarrow> (int \<times> int) set" where
  "child_rel ts = {(p, c). \<exists>t \<in> set ts. t_id t = c \<and> t_parent t = Some p}"

lemma child_relI: "t \<in> set ts \<Longrightarrow> t_parent t = Some p \<Longrightarrow> (p, t_id t) \<in> child_rel ts"
  by (auto simp: child_rel_def)

lemma child_rel_iff: "(p, c) \<in> child_rel ts \<longleftrightarrow> (\<exists>t \<in> set ts. t_id t = c \<and> t_parent t = Some p)"
  by (simp add: child_rel_def)

lemma visit_child_row:
  assumes "fold (visit_child c) ts (seen, queue) = (seen', queue')"
  obtains new where "seen' = seen @ new" "queue' = queue @ new" "distinct new"
    "set new = child_rel ts `` {c} - set seen"
proof -
  have "{t_id t | t. t \<in> set ts \<and> t_parent t = Some c} = child_rel ts `` {c}"
    by (auto simp: child_rel_def)
  with fold_visit_child [of c ts seen queue] assms that show thesis by auto
qed

lemma subtree_walk_correct:
  assumes "distinct seen" and "set queue \<subseteq> set seen"
    and "\<And>v. v \<in> set seen - set queue \<Longrightarrow> child_rel ts `` {v} \<subseteq> set seen"
  shows "distinct (subtree_walk ts queue seen)
    \<and> set (subtree_walk ts queue seen) = (child_rel ts)\<^sup>* `` set seen"
  using assms
proof (induction ts queue seen rule: subtree_walk.induct)
  case (1 ts seen)
  have "child_rel ts `` set seen \<subseteq> set seen" using 1(3) by auto
  from closed_rtrancl [OF this] have "(child_rel ts)\<^sup>* `` set seen = set seen" by auto
  with 1(1) show ?case by simp
next
  case (2 ts c queue seen)
  obtain seen' queue' where fold: "fold (visit_child c) ts (seen, queue) = (seen', queue')"
    by fastforce
  then obtain new where new: "seen' = seen @ new" "queue' = queue @ new" "distinct new"
      "set new = child_rel ts `` {c} - set seen"
    by (rule visit_child_row)
  have step: "subtree_walk ts (c # queue) seen = subtree_walk ts queue' seen'"
    by (simp add: fold)
  have "distinct seen'" and "set queue' \<subseteq> set seen'" using new 2(2,3) by auto
  moreover have "child_rel ts `` {v} \<subseteq> set seen'" if "v \<in> set seen' - set queue'" for v
  proof (cases "v = c")
    case True
    then show ?thesis using new by auto
  next
    case False
    with that new have "v \<in> set seen - set (c # queue)" by auto
    from 2(4) [OF this] show ?thesis using new(1) by auto
  qed
  ultimately have IH: "distinct (subtree_walk ts queue' seen')"
      "set (subtree_walk ts queue' seen') = (child_rel ts)\<^sup>* `` set seen'"
    using "2.IH" [OF fold [symmetric]] by auto
  have "c \<in> set seen" using 2(3) by simp
  then have "set new \<subseteq> (child_rel ts)\<^sup>* `` set seen" using new(4) by auto
  then have "(child_rel ts)\<^sup>* `` set seen' = (child_rel ts)\<^sup>* `` set seen"
    using new(1) by (auto intro: rtrancl_trans)
  with IH step show ?case by simp
qed

interpretation subtree: graph_walk "child_rel ts" "subtree_ids_from ts" for ts
  by unfold_locales
     (use subtree_walk_correct [of "[x]" "[x]" ts for x] in \<open>auto simp: subtree_ids_from_def\<close>)

section \<open>Depth\<close>

text \<open>The number of ancestors of a node whose parent chain ends.\<close>

inductive at_depth :: "task list \<Rightarrow> int \<Rightarrow> nat \<Rightarrow> bool" for ts where
  root: "parent_of ts i = None \<Longrightarrow> at_depth ts i 0"
| child: "parent_of ts i = Some p \<Longrightarrow> at_depth ts p d \<Longrightarrow> at_depth ts i (Suc d)"

inductive_cases at_depth_0E: "at_depth ts i 0"
inductive_cases at_depth_SucE: "at_depth ts i (Suc d)"
inductive_simps at_depth_iff: "at_depth ts i d"

lemma at_depth_unique: "at_depth ts i d \<Longrightarrow> at_depth ts i e \<Longrightarrow> d = e"
  by (induction arbitrary: e rule: at_depth.induct) (erule at_depth.cases; auto)+

lemma parent_depth_loop_ok:
  "parent_depth_loop ts depth i = Inr d \<longleftrightarrow>
     (\<exists>e. at_depth ts i e \<and> d = depth + e \<and> d < TASK_DEPTH_MAX)"
proof (induction ts depth i arbitrary: d rule: parent_depth_loop.induct)
  case (1 ts depth i)
  show ?case
  proof (cases "TASK_DEPTH_MAX \<le> depth")
    case True
    then show ?thesis by (auto simp: parent_depth_loop.simps [of ts depth i])
  next
    case False
    show ?thesis
    proof (cases "parent_of ts i")
      case None
      with False show ?thesis
        by (auto simp: parent_depth_loop.simps [of ts depth i] at_depth_iff [of ts i])
    next
      case (Some p)
      have "parent_depth_loop ts depth i = parent_depth_loop ts (Suc depth) p"
        using False Some by (simp add: parent_depth_loop.simps [of ts depth i])
      then show ?thesis
        using "1.IH" [OF False Some, of d] Some by (auto simp: at_depth_iff [of ts i])
    qed
  qed
qed

lemma parent_depth_ok:
  "parent_depth ts i = Inr d \<longleftrightarrow> at_depth ts i d \<and> d < TASK_DEPTH_MAX"
  by (auto simp: parent_depth_def parent_depth_loop_ok)

lemma parent_cycle_loop_depth:
  "parent_cycle_loop ts start steps current = Inr () \<Longrightarrow> current = Some p \<Longrightarrow>
     \<exists>d. at_depth ts p d \<and> steps + Suc d < TASK_DEPTH_MAX"
proof (induction ts start steps current arbitrary: p rule: parent_cycle_loop.induct)
  case (1 ts start steps current)
  from 1(2,3) have ok: "p \<noteq> start" "\<not> TASK_DEPTH_MAX \<le> Suc steps"
    and rest: "parent_cycle_loop ts start (Suc steps) (parent_of ts p) = Inr ()"
    by (auto simp: parent_cycle_loop.simps [of ts start steps "Some p"] split: if_splits)
  show ?case
  proof (cases "parent_of ts p")
    case None
    with ok show ?thesis by (intro exI [of _ 0]) (auto intro: at_depth.root)
  next
    case (Some q)
    from "1.IH" [OF 1(3) ok rest Some] obtain d where
      "at_depth ts q d" "Suc steps + Suc d < TASK_DEPTH_MAX" by auto
    with Some show ?thesis by (intro exI [of _ "Suc d"]) (auto intro: at_depth.child)
  qed
qed

lemma check_parent_cycle_depth:
  assumes "check_parent_cycle ts i = Inr ()"
  shows "\<exists>d < TASK_DEPTH_MAX. at_depth ts i d"
proof (cases "parent_of ts i")
  case None
  then show ?thesis by (intro exI [of _ 0]) (auto intro: at_depth.root)
next
  case (Some p)
  with assms parent_cycle_loop_depth [of ts i 0 "Some p" p] show ?thesis
    by (auto simp: check_parent_cycle_def intro: at_depth.child)
qed

lemma parent_of_child_rel:
  "distinct (map t_id ts) \<Longrightarrow> (p, c) \<in> child_rel ts \<longleftrightarrow> parent_of ts c = Some p"
  by (auto simp: child_rel_def parent_of_def bind_eq_Some_conv lookup_task_eq_Some)

lemma depth_of_descendant:
  assumes "distinct (map t_id ts)" and "at_depth ts r d"
  shows "(r, x) \<in> child_rel ts ^^ k \<Longrightarrow> at_depth ts x (d + k)"
proof (induction k arbitrary: x)
  case 0
  with assms show ?case by simp
next
  case (Suc k)
  then obtain y where "(r, y) \<in> child_rel ts ^^ k" "(y, x) \<in> child_rel ts" by auto
  with Suc.IH assms(1) show ?case by (auto simp: parent_of_child_rel intro: at_depth.child)
qed

lemma not_own_descendant:
  assumes "distinct (map t_id ts)" and "at_depth ts i d"
  shows "(i, i) \<notin> (child_rel ts)\<^sup>+"
proof
  assume "(i, i) \<in> (child_rel ts)\<^sup>+"
  then obtain k where "0 < k" "(i, i) \<in> child_rel ts ^^ k" by (auto simp: trancl_power)
  with depth_of_descendant [OF assms] assms(2) have "d = d + k" by (metis at_depth_unique)
  with \<open>0 < k\<close> show False by simp
qed

lemma ancestor_depth:
  assumes "distinct (map t_id ts)"
  shows "at_depth ts x d \<Longrightarrow> (a, x) \<in> (child_rel ts)\<^sup>+ \<Longrightarrow> \<exists>e < d. at_depth ts a e"
proof (induction arbitrary: a rule: at_depth.induct)
  case (root i)
  from root(2) obtain q where "(q, i) \<in> child_rel ts" by (meson tranclD2)
  with root(1) show ?case by (simp add: parent_of_child_rel [OF assms])
next
  case (child i p d)
  from child(4) obtain q where "(a, q) \<in> (child_rel ts)\<^sup>*" "(q, i) \<in> child_rel ts"
    by (meson tranclD2)
  with child(1) have "(a, p) \<in> (child_rel ts)\<^sup>*" by (simp add: parent_of_child_rel [OF assms])
  then show ?case
  proof (cases rule: rtranclE)
    case base
    with child(2) show ?thesis by auto
  next
    case (step y)
    then have "(a, p) \<in> (child_rel ts)\<^sup>+" by (rule rtrancl_into_trancl1)
    from child.IH [OF this] show ?thesis using less_SucI by blast
  qed
qed

section \<open>Height\<close>

lemma fold_levels:
  "\<exists>new. fold (\<lambda>c. fold (visit_child c) ts) frontier (seen, queue) = (seen @ new, queue @ new)
     \<and> set new = child_rel ts `` set frontier - set seen"
proof (induction frontier arbitrary: seen queue)
  case Nil
  then show ?case by simp
next
  case (Cons c frontier)
  obtain seen1 queue1 where one: "fold (visit_child c) ts (seen, queue) = (seen1, queue1)"
    by fastforce
  then obtain a where a: "seen1 = seen @ a" "queue1 = queue @ a"
      "set a = child_rel ts `` {c} - set seen" by (rule visit_child_row)
  obtain b where b: "fold (\<lambda>c. fold (visit_child c) ts) frontier (seen1, queue1)
        = (seen1 @ b, queue1 @ b)" "set b = child_rel ts `` set frontier - set seen1"
    using Cons.IH by blast
  show ?case
    using one a b by (intro exI [of _ "a @ b"]) auto
qed

lemma height_loop_bound:
  assumes "height_loop ts n frontier seen h < h + n"
    and "set frontier \<subseteq> set seen"
    and "\<And>v. v \<in> set seen - set frontier \<Longrightarrow> child_rel ts `` {v} \<subseteq> set seen"
    and "\<And>v. v \<in> set seen \<Longrightarrow> \<exists>k \<le> h. (r, v) \<in> child_rel ts ^^ k"
    and "s \<in> set seen" and "(s, x) \<in> (child_rel ts)\<^sup>*"
  shows "\<exists>k \<le> height_loop ts n frontier seen h. (r, x) \<in> child_rel ts ^^ k"
  using assms
proof (induction n arbitrary: frontier seen h s)
  case 0
  then show ?case by simp
next
  case (Suc n)
  obtain new where fold: "fold (\<lambda>c. fold (visit_child c) ts) frontier (seen, [])
        = (seen @ new, new)" and new: "set new = child_rel ts `` set frontier - set seen"
    using fold_levels [of ts frontier seen "[]"] by auto
  show ?case
  proof (cases "new = []")
    case True
    then have "child_rel ts `` set seen \<subseteq> set seen" using new Suc.prems(3) by auto
    from closed_rtrancl [OF this Suc.prems(6,5)] have "x \<in> set seen" .
    with Suc.prems(4) show ?thesis using True fold by simp
  next
    case False
    have eq: "height_loop ts (Suc n) frontier seen h = height_loop ts n new (seen @ new) (Suc h)"
      using False fold by simp
    have reach: "\<exists>k \<le> Suc h. (r, v) \<in> child_rel ts ^^ k" if v: "v \<in> set (seen @ new)" for v
    proof (cases "v \<in> set seen")
      case True
      with Suc.prems(4) show ?thesis using le_SucI by blast
    next
      case False
      with v new obtain u where "u \<in> set frontier" and uv: "(u, v) \<in> child_rel ts" by auto
      with Suc.prems(2,4) obtain k where "k \<le> h" "(r, u) \<in> child_rel ts ^^ k" by blast
      with uv have "(r, v) \<in> child_rel ts ^^ Suc k" by auto
      with \<open>k \<le> h\<close> show ?thesis using Suc_le_mono by blast
    qed
    have closed: "child_rel ts `` {v} \<subseteq> set (seen @ new)"
      if "v \<in> set (seen @ new) - set new" for v
      using that new Suc.prems(3) [of v] by (cases "v \<in> set frontier") auto
    have bound: "height_loop ts n new (seen @ new) (Suc h) < Suc h + n"
      using Suc.prems(1) unfolding eq by simp
    show ?thesis unfolding eq
      by (rule Suc.IH [OF bound _ closed reach _ Suc.prems(6)]) (use Suc.prems(5) in auto)
  qed
qed

lemma subtree_height_bound:
  assumes "subtree_height ts r < TASK_DEPTH_MAX" and "(r, x) \<in> (child_rel ts)\<^sup>*"
  shows "\<exists>k \<le> subtree_height ts r. (r, x) \<in> child_rel ts ^^ k"
proof -
  have "\<exists>k \<le> 0. (r, v) \<in> child_rel ts ^^ k" if "v \<in> set [r]" for v
    using that by auto
  then show ?thesis
    unfolding subtree_height_def
    by (rule height_loop_bound [where s = r, rotated 3])
       (use assms in \<open>auto simp: subtree_height_def\<close>)
qed

end
