(* ===== verification/Graph_Invariant.thy ===== *)
theory Graph_Invariant
  imports Task_Graph
begin

text \<open>
  Well-formedness of a scope's task graph, and the effect on it of each shape of write the
  repository makes: a new row, a changed row, a deleted subtree, a child moved to one of its
  ancestors. The repository's operations are compositions of these.
\<close>

definition wf_graph :: "task list \<Rightarrow> bool" where
  "wf_graph ts \<longleftrightarrow>
     distinct (map t_id ts) \<and>
     (\<forall>t \<in> set ts. \<forall>p. t_parent t = Some p \<longrightarrow> p \<in> t_id ` set ts) \<and>
     (\<forall>t \<in> set ts. set (t_depends_on t) \<subseteq> t_id ` set ts) \<and>
     acyclic (dep_edges ts) \<and>
     (\<forall>t \<in> set ts. \<exists>d < TASK_DEPTH_MAX. at_depth ts (t_id t) d)"

lemma wf_graphI:
  assumes "distinct (map t_id ts)"
    and "\<And>t p. t \<in> set ts \<Longrightarrow> t_parent t = Some p \<Longrightarrow> p \<in> t_id ` set ts"
    and "\<And>t. t \<in> set ts \<Longrightarrow> set (t_depends_on t) \<subseteq> t_id ` set ts"
    and "acyclic (dep_edges ts)"
    and "\<And>t. t \<in> set ts \<Longrightarrow> \<exists>d < TASK_DEPTH_MAX. at_depth ts (t_id t) d"
  shows "wf_graph ts"
  unfolding wf_graph_def using assms by blast

lemma wf_graphD:
  assumes "wf_graph ts"
  shows "distinct (map t_id ts)"
    and "\<And>t p. t \<in> set ts \<Longrightarrow> t_parent t = Some p \<Longrightarrow> p \<in> t_id ` set ts"
    and "\<And>t. t \<in> set ts \<Longrightarrow> set (t_depends_on t) \<subseteq> t_id ` set ts"
    and "acyclic (dep_edges ts)"
    and "\<And>t. t \<in> set ts \<Longrightarrow> \<exists>d < TASK_DEPTH_MAX. at_depth ts (t_id t) d"
  using assms unfolding wf_graph_def by blast+

lemma wf_graph_Nil [simp]: "wf_graph []"
  by (auto simp: wf_graph_def acyclic_def deps_of_def lookup_task_def edges_def dest: tranclD)

section \<open>Writes that keep the shape\<close>

abbreviation shape :: "task \<Rightarrow> int \<times> int option \<times> int list" where
  "shape t \<equiv> (t_id t, t_parent t, t_depends_on t)"

lemma parent_of_shape: "parent_of ts i = Option.bind (map_of (map shape ts) i) fst"
  by (induction ts) (auto simp: parent_of_def lookup_task_def)

lemma deps_of_shape: "deps_of ts i = (case map_of (map shape ts) i of None \<Rightarrow> [] | Some x \<Rightarrow> snd x)"
  by (induction ts) (auto simp: deps_of_def lookup_task_def)

lemma at_depth_cong:
  assumes "\<And>i. parent_of ts i = parent_of us i"
  shows "at_depth ts i d \<Longrightarrow> at_depth us i d"
  by (induction rule: at_depth.induct) (auto simp: assms intro: at_depth.intros)

lemma wf_graph_shape:
  assumes "map shape us = map shape ts"
  shows "wf_graph us \<longleftrightarrow> wf_graph ts"
proof -
  have imp: "wf_graph us" if wf: "wf_graph ts" and sh: "map shape us = map shape ts" for us ts
  proof (rule wf_graphI)
    have ids: "map t_id us = map t_id ts"
      using arg_cong [OF sh, of "map fst"] by (simp add: comp_def)
    have idset: "t_id ` set us = t_id ` set ts"
      using arg_cong [OF ids, of set] by simp
    have rows: "shape ` set us = shape ` set ts"
      using arg_cong [OF sh, of set] by simp
    have par: "parent_of us i = parent_of ts i" for i by (simp add: parent_of_shape sh)
    have dep: "deps_of us = deps_of ts" by (rule ext) (simp add: deps_of_shape sh)
    show "distinct (map t_id us)" using wf_graphD(1) [OF wf] ids by simp
    show "acyclic (dep_edges us)" using wf_graphD(4) [OF wf] dep by simp
    fix u assume "u \<in> set us"
    then have "shape u \<in> shape ` set ts" unfolding rows [symmetric] by (rule imageI)
    then obtain t where t: "t \<in> set ts" "shape u = shape t" by (rule imageE)
    show "p \<in> t_id ` set us" if "t_parent u = Some p" for p
      using wf_graphD(2) [OF wf t(1)] t(2) that idset by auto
    show "set (t_depends_on u) \<subseteq> t_id ` set us"
      using wf_graphD(3) [OF wf t(1)] t(2) idset by auto
    show "\<exists>d < TASK_DEPTH_MAX. at_depth us (t_id u) d"
      using wf_graphD(5) [OF wf t(1)] t(2) at_depth_cong [of ts us] par by auto
  qed
  show ?thesis using imp [OF _ assms] imp [OF _ assms [symmetric]] by blast
qed

lemma wf_graph_map:
  assumes "\<And>t. t \<in> set ts \<Longrightarrow> shape (f t) = shape t"
  shows "wf_graph (map f ts) \<longleftrightarrow> wf_graph ts"
  by (rule wf_graph_shape) (use assms in auto)

section \<open>A new row\<close>

lemma wf_graph_append:
  assumes wf: "wf_graph ts" and fresh: "t_id t \<notin> t_id ` set ts"
    and deps: "set (t_depends_on t) \<subseteq> t_id ` set ts"
    and par: "\<And>p. t_parent t = Some p \<Longrightarrow>
       p \<in> t_id ` set ts \<and> (\<exists>d. at_depth ts p d \<and> Suc d < TASK_DEPTH_MAX)"
  shows "wf_graph (ts @ [t])"
proof (rule wf_graphI)
  note wfD = wf_graphD [OF wf]
  have look: "lookup_task (ts @ [t]) i =
      (if i \<in> t_id ` set ts then lookup_task ts i else if i = t_id t then Some t else None)" for i
    by (induction ts) (auto simp: lookup_task_def)
  have pold: "parent_of (ts @ [t]) i = parent_of ts i" if "i \<noteq> t_id t" for i
    using that lookup_task_None [of ts i] by (auto simp: parent_of_def look)
  have depth: "at_depth (ts @ [t]) i d" if "at_depth ts i d" "i \<in> t_id ` set ts" for i d
    using that
  proof (induction rule: at_depth.induct)
    case (root i)
    have "i \<noteq> t_id t" using root(2) fresh by blast
    with root pold show ?case by (auto intro: at_depth.root)
  next
    case (child i p d)
    from child(1) obtain u where "u \<in> set ts" "t_parent u = Some p"
      by (auto simp: parent_of_def bind_eq_Some_conv dest: lookup_task_Some)
    then have "p \<in> t_id ` set ts" by (rule wfD(2))
    moreover have "i \<noteq> t_id t" using child(4) fresh by blast
    ultimately show ?case using child pold [of i] by (auto intro: at_depth.child)
  qed
  show "distinct (map t_id (ts @ [t]))" using wfD(1) fresh by auto
  have dep: "dep_edges (ts @ [t]) = dep_edges ts \<union> {t_id t} \<times> set (t_depends_on t)"
  proof -
    have "deps_of (ts @ [t]) i = (if i = t_id t then t_depends_on t else deps_of ts i)" for i
      using fresh lookup_task_None [of ts i] by (auto simp: deps_of_def look)
    then show ?thesis using deps_of_outside [OF fresh] by (auto simp: edges_def split: if_splits)
  qed
  show "acyclic (dep_edges (ts @ [t]))" unfolding dep
  proof (rule acyclic_add_source [OF wfD(4)])
    show "(a, t_id t) \<notin> dep_edges ts" for a
    proof (cases "lookup_task ts a")
      case (Some u)
      with wfD(3) fresh lookup_task_Some [OF Some] show ?thesis by (auto simp: deps_of_def)
    qed (simp add: deps_of_def)
    show "t_id t \<notin> set (t_depends_on t)" using deps fresh by auto
  qed
  fix u assume u: "u \<in> set (ts @ [t])"
  show "p \<in> t_id ` set (ts @ [t])" if "t_parent u = Some p" for p
    using that u wfD(2) [of u p] par by (cases "u \<in> set ts") auto
  show "set (t_depends_on u) \<subseteq> t_id ` set (ts @ [t])"
    using u wfD(3) [of u] deps by (cases "u \<in> set ts") auto
  show "\<exists>d < TASK_DEPTH_MAX. at_depth (ts @ [t]) (t_id u) d"
  proof (cases "u \<in> set ts")
    case True
    with wfD(5) depth show ?thesis by blast
  next
    case False
    with u have [simp]: "u = t" by simp
    have pt: "parent_of (ts @ [t]) (t_id t) = t_parent t"
      using fresh by (simp add: parent_of_def look)
    show ?thesis
    proof (cases "t_parent t")
      case None
      with pt have "at_depth (ts @ [t]) (t_id t) 0" by (auto intro: at_depth.root)
      then show ?thesis by (intro exI [of _ 0]) simp
    next
      case (Some p)
      with par depth obtain d where "at_depth (ts @ [t]) p d" "Suc d < TASK_DEPTH_MAX" by blast
      with Some pt show ?thesis by (intro exI [of _ "Suc d"]) (auto intro: at_depth.child)
    qed
  qed
qed

section \<open>A changed row\<close>

definition put_task :: "task \<Rightarrow> task list \<Rightarrow> task list" where
  "put_task t ts = map (\<lambda>r. if t_id r = t_id t then t else r) ts"

lemma ids_put_task [simp]: "map t_id (put_task t ts) = map t_id ts"
  by (simp add: put_task_def)

lemma idset_put_task [simp]: "t_id ` set (put_task t ts) = t_id ` set ts"
  using arg_cong [OF ids_put_task, of set] by (simp only: set_map)

lemma in_put_task:
  "u \<in> set (put_task t ts) \<Longrightarrow> u \<in> set ts \<and> t_id u \<noteq> t_id t \<or> u = t \<and> t_id t \<in> t_id ` set ts"
proof -
  assume "u \<in> set (put_task t ts)"
  then obtain r where "r \<in> set ts" "u = (if t_id r = t_id t then t else r)"
    unfolding put_task_def by auto
  then show ?thesis by (cases "t_id r = t_id t") (auto intro: image_eqI [of _ _ r])
qed

lemma lookup_put_task:
  "lookup_task (put_task t ts) i =
     (if i = t_id t \<and> i \<in> t_id ` set ts then Some t else lookup_task ts i)"
  by (induction ts) (auto simp: put_task_def lookup_task_def)

lemma deps_put_task_other: "i \<noteq> t_id t \<Longrightarrow> deps_of (put_task t ts) i = deps_of ts i"
  by (simp add: deps_of_def lookup_put_task)

lemma parent_put_task_other: "i \<noteq> t_id t \<Longrightarrow> parent_of (put_task t ts) i = parent_of ts i"
  by (simp add: parent_of_def lookup_put_task)

lemma parent_put_task_same:
  "t_id t \<in> t_id ` set ts \<Longrightarrow> parent_of (put_task t ts) (t_id t) = t_parent t"
  by (simp add: parent_of_def lookup_put_task)

lemma parent_of_row:
  "distinct (map t_id ts) \<Longrightarrow> t \<in> set ts \<Longrightarrow> parent_of ts (t_id t) = t_parent t"
  by (simp add: parent_of_def lookup_task_distinct)

text \<open>Nodes outside the moved subtree keep their depth.\<close>

lemma depth_outside:
  assumes dist: "distinct (map t_id ts)"
  shows "at_depth ts x d \<Longrightarrow> (t_id t, x) \<notin> (child_rel (put_task t ts))\<^sup>* \<Longrightarrow>
    at_depth (put_task t ts) x d"
proof (induction rule: at_depth.induct)
  case (root i)
  then have "i \<noteq> t_id t" by auto
  with root parent_put_task_other show ?case by (auto intro: at_depth.root)
next
  case (child i p d)
  then have "i \<noteq> t_id t" by auto
  with child(1) have par: "parent_of (put_task t ts) i = Some p"
    by (simp add: parent_put_task_other)
  then have "(p, i) \<in> child_rel (put_task t ts)" using dist by (simp add: parent_of_child_rel)
  with child(4) have "(t_id t, p) \<notin> (child_rel (put_task t ts))\<^sup>*"
    by (auto intro: rtrancl_into_rtrancl)
  with child.IH par show ?case by (auto intro: at_depth.child)
qed

lemma wf_graph_put:
  assumes wf: "wf_graph ts" and deps: "set (t_depends_on t) \<subseteq> t_id ` set ts"
    and par: "\<And>p. t_parent t = Some p \<Longrightarrow> p \<in> t_id ` set ts"
    and acyc: "(t_id t, t_id t) \<notin> (dep_edges (put_task t ts))\<^sup>+"
    and depth: "\<And>x. (t_id t, x) \<in> (child_rel (put_task t ts))\<^sup>* \<Longrightarrow>
      \<exists>d < TASK_DEPTH_MAX. at_depth (put_task t ts) x d"
  shows "wf_graph (put_task t ts)"
proof (rule wf_graphI)
  note wfD = wf_graphD [OF wf]
  show "distinct (map t_id (put_task t ts))" using wfD(1) by simp
  show "acyclic (dep_edges (put_task t ts))"
    by (rule cycle_through_changed [OF wfD(4) acyc]) (simp add: deps_put_task_other)
  fix u assume u: "u \<in> set (put_task t ts)"
  note cases = in_put_task [OF u]
  show "p \<in> t_id ` set (put_task t ts)" if "t_parent u = Some p" for p
    using cases that wfD(2) [of u p] par by auto
  show "set (t_depends_on u) \<subseteq> t_id ` set (put_task t ts)"
    using cases wfD(3) [of u] deps by auto
  show "\<exists>d < TASK_DEPTH_MAX. at_depth (put_task t ts) (t_id u) d"
  proof (cases "(t_id t, t_id u) \<in> (child_rel (put_task t ts))\<^sup>*")
    case True
    then show ?thesis by (rule depth)
  next
    case False
    then have "u \<in> set ts" using cases by auto
    with wfD(5) depth_outside [OF wfD(1) _ False] show ?thesis by blast
  qed
qed

lemma check_deps_ok:
  "check_deps ts t = Inr () \<longleftrightarrow>
     t_id t \<notin> set (t_depends_on t) \<and> set (t_depends_on t) \<subseteq> t_id ` set ts"
proof -
  have *: "(if d = i then Inl a else if b then Inl c else Inr ()) = Inr () \<longleftrightarrow> d \<noteq> i \<and> \<not> b"
    for d i :: int and a c :: invalid and b by auto
  show ?thesis
    unfolding check_deps_def for_each_ok * by (auto simp: lookup_task_None)
qed

text \<open>
  An update that passes \<open>check_graph_update\<close> on the scope with the new row in place leaves a
  well-formed scope, whether or not the parent moved.
\<close>

lemma wf_graph_checked_update:
  assumes wf: "wf_graph ts" and old: "u \<in> set ts" "t_id u = t_id t"
    and ok: "check_graph_update (put_task t ts) t parent_changed = Inr ()"
    and same: "\<not> parent_changed \<Longrightarrow> t_parent t = t_parent u"
  shows "wf_graph (put_task t ts)"
proof (rule wf_graph_put [OF wf])
  let ?m = "put_task t ts"
  note wfD = wf_graphD [OF wf]
  have dist: "distinct (map t_id ?m)" using wfD(1) by simp
  have tin: "t_id t \<in> t_id ` set ts" using old by (metis imageI)
  from ok have okd: "check_deps ?m t = Inr ()"
    and okc: "check_dependency_cycle ?m (t_id t) = Inr ()"
    and okp: "check_parent ?m t parent_changed = Inr ()"
    by (auto simp: check_graph_update_def bind_res_eq_Inr)
  show "set (t_depends_on t) \<subseteq> t_id ` set ts" using okd by (simp add: check_deps_ok)
  show "(t_id t, t_id t) \<notin> (dep_edges ?m)\<^sup>+" using okc by (simp add: check_dependency_cycle_ok)
  have pm: "parent_of ?m (t_id t) = t_parent t" using tin by (rule parent_put_task_same)
  show "p \<in> t_id ` set ts" if "t_parent t = Some p" for p
    using okp that lookup_task_None [of ?m p]
    by (auto simp: check_parent_def split: option.splits if_splits)
  fix x assume x: "(t_id t, x) \<in> (child_rel ?m)\<^sup>*"
  show "\<exists>d < TASK_DEPTH_MAX. at_depth ?m x d"
  proof (cases "parent_changed \<and> t_parent t \<noteq> None")
    case True
    then obtain p where p: "t_parent t = Some p" by auto
    with True okp obtain d where d: "parent_depth ?m p = Inr d"
        "d + 1 + subtree_height ?m (t_id t) < TASK_DEPTH_MAX"
      by (auto simp: check_parent_def bind_res_eq_Inr split: option.splits if_splits)
    then have dt: "at_depth ?m (t_id t) (Suc d)"
      using pm p by (auto simp: parent_depth_ok intro: at_depth.child)
    obtain k where k: "k \<le> subtree_height ?m (t_id t)" "(t_id t, x) \<in> child_rel ?m ^^ k"
      using subtree_height_bound [OF _ x] d(2) by auto
    from depth_of_descendant [OF dist dt k(2)] k(1) d(2) show ?thesis
      by (intro exI [of _ "Suc d + k"]) simp
  next
    case False
    show ?thesis
    proof (cases "t_parent t = t_parent u")
      case True
      have "parent_of ts i = parent_of ?m i" for i
        using True pm parent_of_row [OF wfD(1) old(1)] old(2) parent_put_task_other [of i t ts]
        by (cases "i = t_id t") auto
      moreover have "x \<in> t_id ` set ts"
        using x tin by (cases rule: rtranclE) (auto simp: child_rel_def dest!: in_put_task)
      ultimately show ?thesis using wfD(5) at_depth_cong by (metis imageE)
    next
      case moved: False
      with False same have root: "t_parent t = None" by auto
      then have d0: "at_depth ?m (t_id t) 0" using pm by (auto intro: at_depth.root)
      obtain k where k: "(t_id t, x) \<in> child_rel ?m ^^ k" using x by (auto simp: rtrancl_power)
      then have dx: "at_depth ?m x k" using depth_of_descendant [OF dist d0] by fastforce
      have "child_rel ?m \<subseteq> child_rel ts"
        using root by (auto simp: child_rel_def dest!: in_put_task)
      then have "(t_id t, x) \<in> child_rel ts ^^ k" using k by (rule relpow_mono_rel)
      moreover obtain d where "at_depth ts (t_id t) d" using wfD(5) [OF old(1)] old(2) by auto
      ultimately have dx': "at_depth ts x (d + k)" using depth_of_descendant [OF wfD(1)] by blast
      have "x \<in> t_id ` set ts"
        using x tin by (cases rule: rtranclE) (auto simp: child_rel_def dest!: in_put_task)
      with wfD(5) dx' have "d + k < TASK_DEPTH_MAX" by (metis at_depth_unique imageE)
      then show ?thesis using dx by (intro exI [of _ k]) simp
    qed
  qed
qed

section \<open>A deleted subtree\<close>

definition strip_deps :: "int set \<Rightarrow> task \<Rightarrow> task" where
  "strip_deps gone t = t\<lparr>t_depends_on := filter (\<lambda>d. d \<notin> gone) (t_depends_on t)\<rparr>"

lemma strip_deps_simps [simp]:
  "t_id (strip_deps gone t) = t_id t" "t_parent (strip_deps gone t) = t_parent t"
  "t_depends_on (strip_deps gone t) = filter (\<lambda>d. d \<notin> gone) (t_depends_on t)"
  by (simp_all add: strip_deps_def)

lemma lookup_filter_map:
  assumes "\<And>t. t_id (f t) = t_id t"
  shows "lookup_task (map f (filter (\<lambda>t. t_id t \<notin> gone) ts)) i =
     (if i \<in> gone then None else map_option f (lookup_task ts i))"
  by (induction ts) (auto simp: lookup_task_def assms)

lemma wf_graph_delete:
  assumes wf: "wf_graph ts" and closed: "child_rel ts `` gone \<subseteq> gone"
  shows "wf_graph (map (strip_deps gone) (filter (\<lambda>t. t_id t \<notin> gone) ts))"
    (is "wf_graph ?us")
proof (rule wf_graphI)
  note wfD = wf_graphD [OF wf]
  have ids: "t_id ` set ?us = t_id ` set ts - gone" by (auto simp: image_iff)
  have par: "parent_of ?us i = parent_of ts i" if "i \<notin> gone" for i
    using that by (auto simp: parent_of_def lookup_filter_map map_option_case split: option.split)
  have up: "p \<notin> gone" if "i \<notin> gone" "parent_of ts i = Some p" for i p
    using closed that wfD(1) by (auto simp flip: parent_of_child_rel)
  show "distinct (map t_id ?us)"
    using wfD(1) by (simp add: comp_def distinct_map_filter)
  have "set (deps_of ?us a) \<subseteq> set (deps_of ts a)" for a
    by (cases "lookup_task ts a") (auto simp: deps_of_def lookup_filter_map)
  then have "dep_edges ?us \<subseteq> dep_edges ts" by fastforce
  then show "acyclic (dep_edges ?us)" using wfD(4) by (rule acyclic_subset [rotated])
  fix u assume "u \<in> set ?us"
  then obtain t where t: "t \<in> set ts" "t_id t \<notin> gone" "u = strip_deps gone t" by auto
  show "p \<in> t_id ` set ?us" if "t_parent u = Some p" for p
    using that t wfD(2) [OF t(1)] up [OF t(2)] parent_of_row [OF wfD(1) t(1)] ids by auto
  show "set (t_depends_on u) \<subseteq> t_id ` set ?us"
    using t(3) wfD(3) [OF t(1)] ids by auto
  have "at_depth ?us i d" if "at_depth ts i d" "i \<notin> gone" for i d
    using that
  proof (induction rule: at_depth.induct)
    case (root i)
    with par show ?case by (auto intro: at_depth.root)
  next
    case (child i p d)
    with par up [of i p] show ?case by (auto intro: at_depth.child)
  qed
  with wfD(5) [OF t(1)] t show "\<exists>d < TASK_DEPTH_MAX. at_depth ?us (t_id u) d" by auto
qed

section \<open>A child moved up\<close>

text \<open>
  Moving a row to the root or to one of its ancestors makes nothing deeper and leaves the
  dependencies alone.
\<close>

lemma wf_graph_move_up:
  assumes wf: "wf_graph ts" and u: "u \<in> set ts" "t_id t = t_id u"
    and deps: "t_depends_on t = t_depends_on u"
    and up: "\<And>g. t_parent t = Some g \<Longrightarrow> (g, t_id u) \<in> (child_rel ts)\<^sup>+"
  shows "wf_graph (put_task t ts)" (is "wf_graph ?us")
proof (rule wf_graphI)
  note wfD = wf_graphD [OF wf]
  have tin: "t_id t \<in> t_id ` set ts" using u by (metis imageI)
  show "distinct (map t_id ?us)" using wfD(1) by simp
  have "deps_of ?us i = deps_of ts i" for i
    using u deps tin lookup_task_distinct [OF wfD(1) u(1)]
    by (auto simp: deps_of_def lookup_put_task)
  then have "deps_of ?us = deps_of ts" by (rule ext)
  then show "acyclic (dep_edges ?us)" using wfD(4) by simp
  have shallower: "\<exists>e \<le> d. at_depth ?us x e" if "at_depth ts x d" for x d
    using that
  proof (induction d arbitrary: x rule: less_induct)
    case (less d)
    show ?case
    proof (cases "x = t_id t")
      case True
      show ?thesis
      proof (cases "t_parent t")
        case None
        with True tin have "parent_of ?us x = None" by (simp add: parent_put_task_same)
        then have "at_depth ?us x 0" by (rule at_depth.root)
        then show ?thesis by auto
      next
        case (Some g)
        from ancestor_depth [OF wfD(1) less.prems] up [OF Some] True u(2)
        obtain e where "e < d" "at_depth ts g e" by auto
        with less.IH obtain e' where e': "e' \<le> e" "at_depth ?us g e'" by blast
        have "parent_of ?us x = Some g" using True Some tin by (simp add: parent_put_task_same)
        then have "at_depth ?us x (Suc e')" using e'(2) by (rule at_depth.child)
        then show ?thesis using e'(1) \<open>e < d\<close> by (intro exI [of _ "Suc e'"]) simp
      qed
    next
      case False
      then have par: "parent_of ?us x = parent_of ts x" by (rule parent_put_task_other)
      from less.prems show ?thesis
      proof (cases rule: at_depth.cases)
        case root
        with par show ?thesis by (intro exI [of _ 0]) (auto intro: at_depth.root)
      next
        case (child p e)
        with less.IH [of e p] obtain e' where "e' \<le> e" "at_depth ?us p e'" by auto
        with child par show ?thesis by (intro exI [of _ "Suc e'"]) (auto intro: at_depth.child)
      qed
    qed
  qed
  fix v assume v: "v \<in> set ?us"
  note cases = in_put_task [OF v]
  show "p \<in> t_id ` set ?us" if p: "t_parent v = Some p" for p
  proof (cases "v = t")
    case True
    with p up have "(p, t_id u) \<in> (child_rel ts)\<^sup>+" by auto
    then obtain q where "(p, q) \<in> child_rel ts" by (meson tranclD)
    then show ?thesis using wfD(2) by (auto simp: child_rel_def)
  next
    case False
    with p cases wfD(2) [of v p] show ?thesis by auto
  qed
  show "set (t_depends_on v) \<subseteq> t_id ` set ?us"
    using cases wfD(3) [of v] wfD(3) [OF u(1)] deps by auto
  show "\<exists>d < TASK_DEPTH_MAX. at_depth ?us (t_id v) d"
  proof -
    obtain w where "w \<in> set ts" "t_id w = t_id v" using cases by (metis imageE)
    with wfD(5) shallower show ?thesis by (metis le_less_trans)
  qed
qed

end
