(* ===== verification/Store_Base.thy ===== *)
theory Store_Base
  imports Graph_Invariant Acceptance
begin

text \<open>
  The statements the task repository issues and the field checks it runs before them
  (\<open>tasks.rs\<close>: \<open>emit\<close>, \<open>emit_block_transitions\<close>, \<open>log_activity\<close>, the
  private helpers of the repository, \<open>apply_patch\<close> and the \<open>validate_*\<close> functions).

  A table is the list of its rows in insertion order, which is the order a scan without
  \<open>ORDER BY\<close> returns them in. A statement that cannot fail in the model is a function on the
  state; a check is a result. \<open>now\<close> is the database's clock.
\<close>

section \<open>Bounds\<close>

definition TASK_TITLE_MAX_BYTES :: nat where "TASK_TITLE_MAX_BYTES = 500"
definition TASK_NOTE_MAX_BYTES :: nat where "TASK_NOTE_MAX_BYTES = 16 * 1024"
definition TASKS_PER_SCOPE_MAX :: nat where "TASKS_PER_SCOPE_MAX = 10000"

section \<open>Field checks\<close>

definition normalize_scope :: "string \<Rightarrow> string" where
  "normalize_scope scope =
     (let lower = to_lowercase (trim scope) in if lower = [] then ''session'' else lower)"

definition validate_scope :: "string \<Rightarrow> string option \<Rightarrow> (invalid, unit) result" where
  "validate_scope scope scope_id =
     (if scope = ''session'' \<or> scope = ''workspace'' then
        require (case scope_id of None \<Rightarrow> False | Some s \<Rightarrow> s \<noteq> []) (ScopeNeedsId scope)
      else if scope = ''global'' then require (scope_id = None) GlobalWithId
      else Inl (UnknownScope scope))"

definition validate_title :: "string \<Rightarrow> (invalid, unit) result" where
  "validate_title title =
     (let trimmed = trim title in
      if trimmed = [] then Inl TitleEmpty
      else require (byte_len trimmed \<le> TASK_TITLE_MAX_BYTES) (TitleTooLong (byte_len trimmed)))"

definition validate_priority :: "int \<Rightarrow> (invalid, unit) result" where
  "validate_priority priority = require (1 \<le> priority \<and> priority \<le> 4) (PriorityRange priority)"

definition validate_dates :: "string option \<Rightarrow> string option \<Rightarrow> (invalid, unit) result" where
  "validate_dates due_at deadline_at =
     (case due_at of
        None \<Rightarrow> Inr ()
      | Some defer_at \<Rightarrow>
          (case deadline_at of
             None \<Rightarrow> Inr ()
           | Some deadline \<Rightarrow>
               require (\<not> take 10 deadline < take 10 defer_at)
                 (DeadlineBeforeDefer deadline defer_at)))"

definition validate_new_task_fields :: "new_task \<Rightarrow> (invalid, unit) result" where
  "validate_new_task_fields new =
     bind_res (validate_scope (n_scope new) (n_scope_id new)) (\<lambda>_.
     bind_res (validate_title (n_title new)) (\<lambda>_.
     bind_res (validate_priority (n_priority new)) (\<lambda>_.
     bind_res (validate_dates (n_due_at new) (n_deadline_at new)) (\<lambda>_.
       require (length (n_depends_on new) \<le> TASK_DEPS_MAX)
         (TooManyDeps (length (n_depends_on new)))))))"

definition ensure_member_exists :: "db \<Rightarrow> string option \<Rightarrow> string \<Rightarrow> (invalid, unit) result" where
  "ensure_member_exists db member_id role =
     (case member_id of
        None \<Rightarrow> Inr ()
      | Some m \<Rightarrow> require (list_ex (\<lambda>r. m_id r = m) (members db)) (NotAMember role m))"

section \<open>Reads\<close>

definition get_raw :: "db \<Rightarrow> int \<Rightarrow> (storage_error, task) result" where
  "get_raw db i = (case lookup_task (tasks db) i of
     None \<Rightarrow> Inl (NotFound (NoTask i)) | Some t \<Rightarrow> Inr t)"

definition load_scope :: "db \<Rightarrow> string \<Rightarrow> string option \<Rightarrow> task list" where
  "load_scope db scope scope_id =
     filter (\<lambda>t. t_scope t = scope \<and> t_scope_id t = scope_id) (tasks db)"

text \<open>\<open>ORDER BY id DESC LIMIT 1\<close>\<close>

definition newest :: "('r \<Rightarrow> int) \<Rightarrow> 'r list \<Rightarrow> 'r option" where
  "newest ident rows = (case rows of
     [] \<Rightarrow> None
   | r # rs \<Rightarrow> Some (fold (\<lambda>x best. if ident best < ident x then x else best) rs r))"

section \<open>Writes\<close>

text \<open>\<open>UPDATE tasks SET ... WHERE id = ?\<close>\<close>

definition set_rows :: "int \<Rightarrow> (task \<Rightarrow> task) \<Rightarrow> db \<Rightarrow> db" where
  "set_rows i f db = db\<lparr>tasks := map (\<lambda>r. if t_id r = i then f r else r) (tasks db)\<rparr>"

definition mark_done :: "string \<Rightarrow> int \<Rightarrow> db \<Rightarrow> db" where
  "mark_done now i = set_rows i (\<lambda>r. r\<lparr>t_status := ''done'', t_completed_at := Some now,
     t_updated_at := now\<rparr>)"

text \<open>
  Every column but the key, the scope and the creation stamp; \<open>blocked\<close> is no column. The
  row keeps what the statement does not set.
\<close>

definition write_task :: "string \<Rightarrow> task \<Rightarrow> db \<Rightarrow> db" where
  "write_task now t = set_rows (t_id t) (\<lambda>r.
     t\<lparr>t_scope := t_scope r, t_scope_id := t_scope_id r, t_created_at := t_created_at r,
       t_blocked := t_blocked r, t_updated_at := now\<rparr>)"

definition log_activity ::
  "string \<Rightarrow> int \<Rightarrow> string option \<Rightarrow> string \<Rightarrow> json option \<Rightarrow> db \<Rightarrow> db" where
  "log_activity now i actor action detail db =
     db\<lparr>task_activity := task_activity db @
          [\<lparr>act_id = next_activity db, act_task = i, act_actor = actor, act_action = action,
            act_detail = detail, act_created_at = now\<rparr>],
        next_activity := next_activity db + 1\<rparr>"

section \<open>Events\<close>

definition emit :: "task_event_kind \<Rightarrow> task \<Rightarrow> string option \<Rightarrow> json \<Rightarrow> db \<Rightarrow> db" where
  "emit kind t actor detail db =
     db\<lparr>events := map_option (\<lambda>published. published @
          [\<lparr>ev_kind = kind, ev_task = t_id t, ev_scope = t_scope t, ev_scope_id = t_scope_id t,
            ev_actor = actor, ev_detail = detail\<rparr>]) (events db)\<rparr>"

definition emit_block_transitions ::
  "task list \<Rightarrow> task list \<Rightarrow> string option \<Rightarrow> db \<Rightarrow> db" where
  "emit_block_transitions before after actor db =
     (if events db = None then db
      else (let was_blocked = blocked_ids before; now_blocked = blocked_ids after;
                existed = map t_id before
        in fold (\<lambda>t db.
             if t_id t \<notin> set existed then db
             else (let before_blocked = t_id t \<in> set was_blocked;
                       after_blocked = t_id t \<in> set now_blocked
               in if before_blocked = after_blocked then db
                  else emit (if after_blocked then Blocked else Unblocked) t actor
                         (JObj [(''depends_on'', JArr (map jint (t_depends_on t)))]) db))
             after db))"

text \<open>The object of \<open>json!\<close> in key order.\<close>

definition created_detail :: "task \<Rightarrow> json" where
  "created_detail t = JObj [(''assignee'', jstr_opt (t_assignee t)),
     (''parent_id'', jint_opt (t_parent t)), (''title'', JStr (t_title t))]"

section \<open>Patches\<close>

type_synonym patched = "(invalid, task \<times> string list) result"

definition apply_status_patch :: "task \<Rightarrow> task_patch \<Rightarrow> patched" where
  "apply_status_patch t patch =
     (case p_status patch of
        None \<Rightarrow> Inr (t, [])
      | Some status \<Rightarrow>
          if status = ''pending'' \<or> status = ''in_progress'' \<or> status = ''cancelled'' then
            Inr (t\<lparr>t_status := status,
                   t_completed_at := (if status \<noteq> ''cancelled'' then None else t_completed_at t)\<rparr>,
                 if t_status t \<noteq> status then [''status''] else [])
          else if status = ''done'' then Inl StatusIsVerdict
          else if status = ''blocked'' then Inl StatusIsDerived
          else Inl (UnknownStatus status))"

text \<open>
  One optional field of the patch: \<open>None\<close> leaves the task alone, otherwise the field's own
  code runs.
\<close>

definition patch_field :: "'a option \<Rightarrow> ('a \<Rightarrow> task \<Rightarrow> patched) \<Rightarrow> patched \<Rightarrow> patched" where
  "patch_field field step acc =
     bind_res acc (\<lambda>(t, changed). case field of
        None \<Rightarrow> Inr (t, changed)
      | Some v \<Rightarrow> bind_res (step v t) (\<lambda>(t', more). Inr (t', changed @ more)))"

definition patch_acceptance :: "json_parser \<Rightarrow> json option \<Rightarrow> task \<Rightarrow> patched" where
  "patch_acceptance jp acceptance t =
     (case acceptance of
        None \<Rightarrow> Inr (t\<lparr>t_acceptance := None\<rparr>, [''acceptance''])
      | Some check \<Rightarrow>
          (case admit_acceptance jp check of
             Inl e \<Rightarrow> Inl (BadAcceptance e)
           | Inr canonical \<Rightarrow> Inr (t\<lparr>t_acceptance := Some canonical\<rparr>, [''acceptance''])))"

definition apply_patch :: "json_parser \<Rightarrow> task \<Rightarrow> task_patch \<Rightarrow> patched" where
  "apply_patch jp task patch = (let
     r = apply_status_patch task patch;
     r = patch_field (p_title patch) (\<lambda>title t. bind_res (validate_title title) (\<lambda>_.
       Inr (t\<lparr>t_title := title\<rparr>, if t_title t \<noteq> title then [''title''] else []))) r;
     r = patch_field (p_description patch) (\<lambda>description t.
       Inr (t\<lparr>t_description := description\<rparr>, [''description''])) r;
     r = patch_field (p_priority patch) (\<lambda>priority t. bind_res (validate_priority priority) (\<lambda>_.
       Inr (t\<lparr>t_priority := priority\<rparr>,
            if t_priority t \<noteq> priority then [''priority''] else []))) r;
     r = patch_field (p_labels patch) (\<lambda>labels t. Inr (t\<lparr>t_labels := labels\<rparr>, [''labels''])) r;
     r = patch_field (p_tool_scope patch) (\<lambda>tool_scope t.
       Inr (t\<lparr>t_tool_scope := tool_scope\<rparr>, [''tool_scope''])) r;
     r = patch_field (p_due_at patch) (\<lambda>due_at t.
       Inr (t\<lparr>t_due_announced := (if t_due_at t \<noteq> due_at then None else t_due_announced t),
              t_due_at := due_at\<rparr>, [''due_at''])) r;
     r = patch_field (p_recurrence patch) (\<lambda>recurrence t.
       Inr (t\<lparr>t_recurrence := recurrence\<rparr>, [''recurrence''])) r;
     r = patch_field (p_acceptance patch) (patch_acceptance jp) r;
     r = patch_field (p_deadline_at patch) (\<lambda>deadline_at t.
       Inr (t\<lparr>t_overdue_announced :=
                (if t_deadline_at t \<noteq> deadline_at then None else t_overdue_announced t),
              t_deadline_at := deadline_at\<rparr>, [''deadline_at''])) r;
     r = patch_field (p_assignee patch) (\<lambda>assignee t.
       Inr (t\<lparr>t_assignee := assignee\<rparr>,
            if t_assignee t \<noteq> assignee then [''assignee''] else [])) r;
     r = patch_field (p_project patch) (\<lambda>project t.
       Inr (t\<lparr>t_project := project\<rparr>, [''project''])) r;
     r = patch_field (p_sort_order patch) (\<lambda>sort_order t.
       Inr (t\<lparr>t_sort_order := sort_order\<rparr>,
            if t_sort_order t \<noteq> sort_order then [''sort_order''] else [])) r;
     r = patch_field (p_depends_on patch) (\<lambda>depends_on t.
       bind_res (require (length depends_on \<le> TASK_DEPS_MAX) (TooManyDeps (length depends_on)))
         (\<lambda>_. Inr (t\<lparr>t_depends_on := depends_on\<rparr>, [''depends_on'']))) r;
     r = patch_field (p_parent patch) (\<lambda>parent t.
       Inr (t\<lparr>t_parent := parent\<rparr>, [''parent_id''])) r
     in r)"

end
