(* ===== verification/Task_Store.thy ===== *)
theory Task_Store
  imports Store_Base
begin

text \<open>
  The operations of \<open>TaskRepository\<close> that write (\<open>tasks.rs\<close>), each as a function from
  the state to a result and the new state. Where the code takes the connection's lock more than
  once, the part under one guard is a definition of its own (\<open>create_check\<close> and
  \<open>create_insert\<close>, \<open>update_plan\<close> and \<open>update_commit\<close>), so that another writer
  can be placed between them.
\<close>

definition invalid_of :: "(invalid, 'a) result \<Rightarrow> (storage_error, 'a) result" where
  "invalid_of r = (case r of Inl e \<Rightarrow> Inl (Invalid e) | Inr x \<Rightarrow> Inr x)"

section \<open>Reading one task\<close>

definition get :: "db \<Rightarrow> int \<Rightarrow> (storage_error, task) result" where
  "get db i = bind_res (get_raw db i) (\<lambda>t.
     Inr (if t_depends_on t \<noteq> []
          then t\<lparr>t_blocked := is_blocked (load_scope db (t_scope t) (t_scope_id t)) t\<rparr> else t))"

section \<open>Creating\<close>

definition admit_new_acceptance :: "json_parser \<Rightarrow> new_task \<Rightarrow> (invalid, new_task) result" where
  "admit_new_acceptance jp new =
     (case n_acceptance new of
        None \<Rightarrow> Inr new
      | Some acceptance \<Rightarrow>
          (case admit_acceptance jp acceptance of
             Inl e \<Rightarrow> Inl (BadAcceptance e)
           | Inr canonical \<Rightarrow> Inr (new\<lparr>n_acceptance := Some canonical\<rparr>)))"

definition create_parent_check :: "task list \<Rightarrow> int option \<Rightarrow> (invalid, unit) result" where
  "create_parent_check by_id parent_id =
     (case parent_id of
        None \<Rightarrow> Inr ()
      | Some p \<Rightarrow>
          (case lookup_task by_id p of
             None \<Rightarrow> Inl (ParentMissing p)
           | Some parent \<Rightarrow>
               if is_closed_status (t_status parent) then Inl (ClosedParent (t_status parent) p)
               else bind_res (parent_depth by_id p) (\<lambda>depth.
                 require (depth + 1 < TASK_DEPTH_MAX) DepthLimit)))"

definition create_check :: "json_parser \<Rightarrow> new_task \<Rightarrow> db \<Rightarrow> (invalid, new_task) result" where
  "create_check jp new db =
     bind_res (validate_new_task_fields new) (\<lambda>_.
     bind_res (admit_new_acceptance jp new) (\<lambda>new.
       let scope_tasks = load_scope db (n_scope new) (n_scope_id new) in
       bind_res (require (length scope_tasks < TASKS_PER_SCOPE_MAX) ScopeFull) (\<lambda>_.
       bind_res (create_parent_check scope_tasks (n_parent new)) (\<lambda>_.
       bind_res (for_each (\<lambda>dep. require (lookup_task scope_tasks dep \<noteq> None) (DepMissing dep))
                   (n_depends_on new)) (\<lambda>_.
       bind_res (if n_parent new \<noteq> None \<and> n_depends_on new \<noteq> []
                 then check_ancestor_dependency scope_tasks
                        (ancestor_chain scope_tasks (n_parent new)) (n_depends_on new)
                 else Inr ()) (\<lambda>_.
         Inr new))))))"

definition new_row :: "string \<Rightarrow> int \<Rightarrow> new_task \<Rightarrow> task" where
  "new_row now i new =
     \<lparr>t_id = i, t_parent = n_parent new, t_scope = n_scope new, t_scope_id = n_scope_id new,
      t_project = n_project new, t_title = n_title new, t_description = n_description new,
      t_status = ''pending'', t_priority = n_priority new, t_labels = n_labels new,
      t_tool_scope = n_tool_scope new, t_due_at = n_due_at new,
      t_deadline_at = n_deadline_at new, t_recurrence = n_recurrence new,
      t_depends_on = n_depends_on new, t_acceptance = n_acceptance new,
      t_assignee = n_assignee new, t_sort_order = n_sort_order new, t_created_at = now,
      t_updated_at = now, t_completed_at = None, t_blocked = False, t_due_announced = None,
      t_overdue_announced = None\<rparr>"

definition insert_task :: "string \<Rightarrow> new_task \<Rightarrow> db \<Rightarrow> db" where
  "insert_task now new db =
     db\<lparr>tasks := tasks db @ [new_row now (next_task db) new], next_task := next_task db + 1\<rparr>"

definition create_insert :: "string \<Rightarrow> new_task \<Rightarrow> task op" where
  "create_insert now new db =
     (case ensure_member_exists db (n_assignee new) ''assignee'' of
        Inl e \<Rightarrow> (Inl (Invalid e), db)
      | Inr _ \<Rightarrow>
          (let db = insert_task now new db in
           case newest t_id (tasks db) of
             None \<Rightarrow> (Inl (NotFound NotReadBack), db)
           | Some t \<Rightarrow>
               (Inr t,
                emit Created t (n_assignee new) (created_detail t)
                  (log_activity now (t_id t) (n_assignee new) ''created'' None db))))"

definition create :: "string \<Rightarrow> json_parser \<Rightarrow> new_task \<Rightarrow> task op" where
  "create now jp new db =
     (case create_check jp new db of
        Inl e \<Rightarrow> (Inl (Invalid e), db)
      | Inr new \<Rightarrow> create_insert now new db)"

section \<open>Cancelling a branch\<close>

text \<open>
  One row of the inner loop. The state is what has been seen, the queue, and the database.
\<close>

definition acceptance_of :: "task list \<Rightarrow> task \<Rightarrow> int \<Rightarrow> json option option" where
  "acceptance_of scope_tasks task i =
     (if i = t_id task then Some (t_acceptance task)
      else map_option t_acceptance (lookup_task scope_tasks i))"

definition own_contract :: "task list \<Rightarrow> task \<Rightarrow> int \<Rightarrow> task \<Rightarrow> bool" where
  "own_contract scope_tasks task current t =
     (t_status t \<noteq> ''done'' \<and> t_status t \<noteq> ''cancelled'' \<and> t_acceptance t \<noteq> None
      \<and> (case acceptance_of scope_tasks task current of
           None \<Rightarrow> True | Some parent_acc \<Rightarrow> parent_acc \<noteq> t_acceptance t))"

definition cascade_row ::
  "string \<Rightarrow> task \<Rightarrow> string option \<Rightarrow> task list \<Rightarrow> int \<Rightarrow> task
     \<Rightarrow> int list \<times> int list \<times> db \<Rightarrow> int list \<times> int list \<times> db" where
  "cascade_row now task actor scope_tasks current t state =
     (case state of (seen, queue, db) \<Rightarrow>
       if t_parent t = Some current \<and> t_id t \<notin> set seen then
         if own_contract scope_tasks task current t then
           (seen @ [t_id t], queue,
            log_activity now (t_id t) actor ''reparented''
              (Some (JObj [(''cascade_from'', jint (t_id task)), (''old_parent'', jint current),
                 (''reason'', JStr ''carries its own acceptance contract'')]))
              (write_task now (t\<lparr>t_parent := t_parent task\<rparr>) db))
         else
           (seen @ [t_id t], queue @ [t_id t],
            if is_closed_status (t_status t) then db
            else log_activity now (t_id t) actor ''cancelled''
                   (Some (JObj [(''cascade_from'', jint (t_id task))]))
                   (write_task now (t\<lparr>t_status := ''cancelled''\<rparr>) db))
       else (seen, queue, db))"

lemma fold_cascade_row:
  "\<exists>new kept db'. fold (cascade_row now task actor scope c) ts (seen, queue, db)
       = (seen @ new, queue @ kept, db')
     \<and> distinct new \<and> set new \<subseteq> t_id ` set ts - set seen \<and> length kept \<le> length new"
proof (induction ts arbitrary: seen queue db)
  case Nil
  then show ?case by simp
next
  case (Cons t ts)
  obtain s q d where row: "cascade_row now task actor scope c t (seen, queue, db) = (s, q, d)"
    by (cases "cascade_row now task actor scope c t (seen, queue, db)")
  obtain new kept db' where IH: "fold (cascade_row now task actor scope c) ts (s, q, d)
      = (s @ new, q @ kept, db')" "distinct new" "set new \<subseteq> t_id ` set ts - set s"
      "length kept \<le> length new"
    using Cons.IH by blast
  consider "s = seen" "q = queue" | "s = seen @ [t_id t]" "q = queue \<or> q = queue @ [t_id t]"
      "t_id t \<notin> set seen"
    using row by (auto simp: cascade_row_def split: if_splits)
  then show ?case
  proof cases
    case 1
    with row IH show ?thesis by auto
  next
    case 2
    then obtain more where "q = queue @ more" "length more \<le> 1" by auto
    with row IH 2 show ?thesis
      by (intro exI [of _ "t_id t # new"] exI [of _ "more @ kept"] exI [of _ db']) auto
  qed
qed

function cascade_loop ::
  "string \<Rightarrow> task \<Rightarrow> string option \<Rightarrow> task list \<Rightarrow> int list \<Rightarrow> int list \<Rightarrow> db \<Rightarrow> db" where
  "cascade_loop now task actor scope_tasks [] seen db = db"
| "cascade_loop now task actor scope_tasks (current # queue) seen db =
     (case fold (cascade_row now task actor scope_tasks current) scope_tasks (seen, queue, db) of
        (seen', queue', db') \<Rightarrow> cascade_loop now task actor scope_tasks queue' seen' db')"
  by pat_completeness auto
termination
proof (relation "measure (\<lambda>(n, t, a, ts, q, s, db). card (t_id ` set ts - set s) + length q)",
    goal_cases)
  case 1
  show ?case by simp
next
  case (2 now task actor ts c q s db s' y q' d')
  obtain new kept db'' where new: "fold (cascade_row now task actor ts c) ts (s, q, db)
      = (s @ new, q @ kept, db'')" "distinct new" "set new \<subseteq> t_id ` set ts - set s"
      "length kept \<le> length new"
    using fold_cascade_row by blast
  with 2 have s': "s' = s @ new" "q' = q @ kept" by auto
  have "t_id ` set ts - set s' = (t_id ` set ts - set s) - set new" using s' by auto
  then have "card (t_id ` set ts - set s') = card (t_id ` set ts - set s) - length new"
    using new by (simp add: card_Diff_subset distinct_card)
  moreover have "length new \<le> card (t_id ` set ts - set s)"
    using new by (metis List.finite_set card_mono distinct_card finite_Diff finite_imageI)
  ultimately show ?case using s' new(4) by simp
qed

definition cascade_cancel :: "string \<Rightarrow> task \<Rightarrow> string option \<Rightarrow> db \<Rightarrow> db" where
  "cascade_cancel now task actor db =
     cascade_loop now task actor (load_scope db (t_scope task) (t_scope_id task))
       [t_id task] [t_id task] db"

section \<open>Updating\<close>

text \<open>Before the lock: the row is read, patched in memory, and its dates are checked.\<close>

definition update_plan ::
  "json_parser \<Rightarrow> int \<Rightarrow> task_patch \<Rightarrow> db \<Rightarrow> (storage_error, task \<times> string list) result" where
  "update_plan jp i patch db =
     bind_res (get_raw db i) (\<lambda>task.
     bind_res (invalid_of (apply_patch jp task patch)) (\<lambda>(t, changed).
     bind_res (invalid_of (validate_dates (t_due_at t) (t_deadline_at t))) (\<lambda>_.
       Inr (t, changed))))"

text \<open>\<open>by_id.insert(task.id, task)\<close>\<close>

definition insert_by_id :: "task \<Rightarrow> task list \<Rightarrow> task list" where
  "insert_by_id t by_id = (if t_id t \<in> t_id ` set by_id then put_task t by_id else by_id @ [t])"

definition update_commit ::
  "string \<Rightarrow> task_patch \<Rightarrow> task \<Rightarrow> string list \<Rightarrow> unit op" where
  "update_commit now patch t changed db =
     (let needs_graph_check = p_depends_on patch \<noteq> None \<or> p_parent patch \<noteq> None;
          parent_changed = p_parent patch \<noteq> None
      in case bind_res (if ''assignee'' \<in> set changed
                        then ensure_member_exists db (t_assignee t) ''assignee'' else Inr ()) (\<lambda>_.
              if needs_graph_check
              then check_graph_update
                     (insert_by_id t (load_scope db (t_scope t) (t_scope_id t))) t parent_changed
              else Inr ()) of
           Inl e \<Rightarrow> (Inl (Invalid e), db)
         | Inr _ \<Rightarrow> (Inr (), write_task now t db))"

text \<open>After the write: the log, the cancelled branch, and the events.\<close>

definition update_effects ::
  "string \<Rightarrow> task \<Rightarrow> string list \<Rightarrow> string option \<Rightarrow> db \<Rightarrow> db" where
  "update_effects now t changed actor db =
     (let db = (if changed \<noteq> []
                then log_activity now (t_id t) actor ''updated''
                       (Some (JObj [(''fields'', JArr (map JStr changed))])) db else db)
      in if ''status'' \<in> set changed \<and> t_status t = ''cancelled''
         then cascade_cancel now t actor db else db)"

definition update_events ::
  "task \<Rightarrow> string list \<Rightarrow> string option \<Rightarrow> task list option \<Rightarrow> db \<Rightarrow> db" where
  "update_events t changed actor blocking_before db =
     (let db = (if ''status'' \<in> set changed
                then emit StatusChanged t actor (JObj [(''status'', JStr (t_status t))]) db
                else db);
          db = (if ''assignee'' \<in> set changed
                then emit Assigned t actor (JObj [(''assignee'', jstr_opt (t_assignee t))]) db
                else db)
      in (case blocking_before of
            None \<Rightarrow> db
          | Some before \<Rightarrow>
              emit_block_transitions before (load_scope db (t_scope t) (t_scope_id t)) actor db))"

definition update :: "string \<Rightarrow> json_parser \<Rightarrow> int \<Rightarrow> task_patch \<Rightarrow> string option \<Rightarrow> task op" where
  "update now jp i patch actor db =
     (case update_plan jp i patch db of
        Inl e \<Rightarrow> (Inl e, db)
      | Inr (t, changed) \<Rightarrow>
          (let blocking_before =
                 (if events db \<noteq> None \<and> (''status'' \<in> set changed \<or> ''depends_on'' \<in> set changed)
                  then Some (load_scope db (t_scope t) (t_scope_id t)) else None)
           in case update_commit now patch t changed db of
                (Inl e, db) \<Rightarrow> (Inl e, db)
              | (Inr _, db) \<Rightarrow>
                  (let db = update_effects now t changed actor db;
                       db = update_events t changed actor blocking_before db
                   in (get db i, db))))"

section \<open>Completing and reopening\<close>

record complete_outcome =
  co_task :: task
  co_auto_completed :: "int list"
  co_already_done :: bool

definition open_children :: "task list \<Rightarrow> int \<Rightarrow> int list" where
  "open_children scope_tasks i =
     map t_id (filter (\<lambda>t. t_parent t = Some i \<and> \<not> is_closed_status (t_status t)) scope_tasks)"

fun auto_complete ::
  "nat \<Rightarrow> string \<Rightarrow> string option \<Rightarrow> int \<Rightarrow> task list \<Rightarrow> int option \<Rightarrow> int list \<Rightarrow> int list \<Rightarrow> db
     \<Rightarrow> int list \<times> db" where
  "auto_complete 0 now actor i scope_tasks current closed_ids auto_completed db = (auto_completed, db)"
| "auto_complete (Suc n) now actor i scope_tasks current closed_ids auto_completed db =
     (case current of
        None \<Rightarrow> (auto_completed, db)
      | Some parent_id \<Rightarrow>
          (case lookup_task scope_tasks parent_id of
             None \<Rightarrow> (auto_completed, db)
           | Some parent \<Rightarrow>
               if parent_id \<in> set closed_ids \<or> t_acceptance parent \<noteq> None then (auto_completed, db)
               else if \<not> list_all (\<lambda>t. t_parent t = Some parent_id \<longrightarrow> t_id t \<in> set closed_ids) scope_tasks
               then (auto_completed, db)
               else auto_complete n now actor i scope_tasks (t_parent parent) (parent_id # closed_ids)
                      (auto_completed @ [parent_id])
                      (log_activity now parent_id actor ''auto_completed''
                         (Some (JObj [(''trigger'', jint i)])) (mark_done now parent_id db))))"

definition emit_verdict ::
  "string option \<Rightarrow> int \<Rightarrow> task list \<Rightarrow> int \<Rightarrow> db \<Rightarrow> db" where
  "emit_verdict actor i scope_tasks parent_id db =
     (case lookup_task scope_tasks parent_id of
        None \<Rightarrow> db
      | Some parent \<Rightarrow>
          emit Verdict parent actor (JObj [(''auto'', JBool True), (''trigger'', jint i)]) db)"

definition complete ::
  "string \<Rightarrow> int \<Rightarrow> string option \<Rightarrow> json option \<Rightarrow> complete_outcome op" where
  "complete now i actor detail db =
     (case get_raw db i of
        Inl e \<Rightarrow> (Inl e, db)
      | Inr task \<Rightarrow>
          if t_status task = ''done''
          then (Inr \<lparr>co_task = task, co_auto_completed = [], co_already_done = True\<rparr>, db)
          else (let scope_tasks = load_scope db (t_scope task) (t_scope_id task);
                    open_ch = open_children scope_tasks i
            in if open_ch \<noteq> [] then (Inl (Invalid (OpenChildren i open_ch)), db)
               else (let db = log_activity now i actor ''completed'' detail (mark_done now i db);
                         closed_ids = i # map t_id (filter (\<lambda>t. is_closed_status (t_status t)) scope_tasks)
                 in case auto_complete TASK_DEPTH_MAX now actor i scope_tasks (t_parent task) closed_ids [] db of
                      (auto_completed, db) \<Rightarrow>
                        (case get_raw db i of
                           Inl e \<Rightarrow> (Inl e, db)
                         | Inr task \<Rightarrow>
                             (let db = emit Verdict task actor
                                    (JObj [(''auto'', JBool False),
                                           (''auto_completed'', JArr (map jint auto_completed))]) db;
                                  db = fold (emit_verdict actor i scope_tasks) auto_completed db;
                                  db = (if events db \<noteq> None
                                        then emit_block_transitions scope_tasks
                                          (load_scope db (t_scope task) (t_scope_id task)) actor db
                                        else db)
                              in (Inr \<lparr>co_task = task, co_auto_completed = auto_completed,
                                       co_already_done = False\<rparr>, db))))))"

definition reopen :: "string \<Rightarrow> int \<Rightarrow> string option \<Rightarrow> task op" where
  "reopen now i actor db =
     (case get_raw db i of
        Inl e \<Rightarrow> (Inl e, db)
      | Inr task \<Rightarrow>
          if \<not> is_closed_status (t_status task) then (Inr task, db)
          else (let blocking_before =
                      (if events db \<noteq> None
                       then Some (load_scope db (t_scope task) (t_scope_id task)) else None);
                    db = set_rows i (\<lambda>r. r\<lparr>t_status := ''pending'', t_completed_at := None,
                           t_due_announced := None, t_overdue_announced := None,
                           t_updated_at := now\<rparr>) db;
                    db = log_activity now i actor ''reopened'' None db
            in case get_raw db i of
                 Inl e \<Rightarrow> (Inl e, db)
               | Inr reopened \<Rightarrow>
                   (let db = emit StatusChanged reopened actor
                          (JObj [(''reopened'', JBool True),
                                 (''status'', JStr (t_status reopened))]) db;
                        db = (case blocking_before of
                                None \<Rightarrow> db
                              | Some before \<Rightarrow> emit_block_transitions before
                                  (load_scope db (t_scope task) (t_scope_id task)) actor db)
                    in (Inr reopened, db))))"

section \<open>The thread\<close>

definition post ::
  "string \<Rightarrow> int \<Rightarrow> string option \<Rightarrow> string option \<Rightarrow> task_note_kind \<Rightarrow> string
     \<Rightarrow> task_note op" where
  "post now task_id author author_member kind content db =
     (let trimmed = trim content in
      if trimmed = [] then (Inl (Invalid NoteEmpty), db)
      else if TASK_NOTE_MAX_BYTES < byte_len trimmed
      then (Inl (Invalid (NoteTooLong (byte_len trimmed))), db)
      else (case get_raw db task_id of
          Inl e \<Rightarrow> (Inl e, db)
        | Inr task \<Rightarrow>
            (case ensure_member_exists db author_member ''note author'' of
               Inl e \<Rightarrow> (Inl (Invalid e), db)
             | Inr _ \<Rightarrow>
                 (let db = db\<lparr>task_notes := task_notes db @
                        [\<lparr>note_id = next_note db, note_task = task_id, note_author = author,
                          note_author_member = author_member, note_kind = kind,
                          note_content = trimmed, note_created_at = now\<rparr>],
                        next_note := next_note db + 1\<rparr>
                  in case newest note_id (task_notes db) of
                       None \<Rightarrow> (Inl (NotFound NotReadBack), db)
                     | Some note \<Rightarrow>
                         (Inr note, emit Posted task author
                            (JObj [(''author_member_id'', jstr_opt author_member),
                                   (''kind'', JStr (note_kind_as_str kind)),
                                   (''note_id'', jint (note_id note))]) db)))))"

definition add_note :: "string \<Rightarrow> int \<Rightarrow> string option \<Rightarrow> string \<Rightarrow> task_note op" where
  "add_note now task_id author content db = post now task_id author None Comment content db"

text \<open>
  \<open>ORDER BY id DESC LIMIT ?\<close>, then reversed. A negative limit is no limit, as in SQLite.
\<close>

definition last_rows :: "('r \<Rightarrow> int) \<Rightarrow> int \<Rightarrow> 'r list \<Rightarrow> 'r list" where
  "last_rows ident limit rows =
     (let sorted = rev (sort_key ident rows)
      in rev (if limit < 0 then sorted else take (nat limit) sorted))"

definition notes_of :: "db \<Rightarrow> int \<Rightarrow> int \<Rightarrow> task_note list" where
  "notes_of db task_id limit =
     last_rows note_id limit (filter (\<lambda>n. note_task n = task_id) (task_notes db))"

definition activity_of :: "db \<Rightarrow> int \<Rightarrow> int \<Rightarrow> task_activity_entry list" where
  "activity_of db task_id limit =
     last_rows act_id limit (filter (\<lambda>a. act_task a = task_id) (task_activity db))"

section \<open>Deleting\<close>

definition delete_rows :: "int \<Rightarrow> db \<Rightarrow> db" where
  "delete_rows i db =
     db\<lparr>task_notes := filter (\<lambda>n. note_task n \<noteq> i) (task_notes db),
        task_activity := filter (\<lambda>a. act_task a \<noteq> i) (task_activity db),
        tasks := filter (\<lambda>t. t_id t \<noteq> i) (tasks db)\<rparr>"

definition strip_dangling :: "string \<Rightarrow> int list \<Rightarrow> task \<Rightarrow> db \<Rightarrow> db" where
  "strip_dangling now doomed t db =
     (if t_id t \<in> set doomed then db
      else if list_ex (\<lambda>d. d \<in> set doomed) (t_depends_on t)
      then write_task now (strip_deps (set doomed) t) db
      else db)"

definition delete :: "string \<Rightarrow> int \<Rightarrow> string option \<Rightarrow> nat op" where
  "delete now i actor db =
     (case get_raw db i of
        Inl e \<Rightarrow> (Inl e, db)
      | Inr task \<Rightarrow>
          (let scope_tasks = load_scope db (t_scope task) (t_scope_id task);
               doomed = subtree_walk scope_tasks [i] [i];
               db = fold delete_rows doomed db;
               db = fold (strip_dangling now doomed) scope_tasks db;
               db = (if events db \<noteq> None
                     then emit_block_transitions scope_tasks
                            (load_scope db (t_scope task) (t_scope_id task)) actor db
                     else db)
           in (Inr (length doomed), db)))"

definition has_open_descendant :: "task list \<Rightarrow> int \<Rightarrow> bool" where
  "has_open_descendant by_id i =
     list_ex (\<lambda>m. m \<noteq> i \<and> (case lookup_task by_id m of
        None \<Rightarrow> False | Some t \<Rightarrow> \<not> is_closed_status (t_status t))) (subtree_ids_from by_id i)"

fun clear_loop :: "string \<Rightarrow> task list \<Rightarrow> bool \<Rightarrow> task list \<Rightarrow> nat \<Rightarrow> nat op" where
  "clear_loop now by_id closed_only [] deleted db = (Inr deleted, db)"
| "clear_loop now by_id closed_only (target # targets) deleted db =
     (if closed_only \<and> has_open_descendant by_id (t_id target)
      then clear_loop now by_id closed_only targets deleted db
      else (case get_raw db (t_id target) of
          Inl _ \<Rightarrow> clear_loop now by_id closed_only targets deleted db
        | Inr _ \<Rightarrow>
            (case delete now (t_id target) None db of
               (Inl e, db') \<Rightarrow> (Inl e, db')
             | (Inr n, db') \<Rightarrow> clear_loop now by_id closed_only targets (deleted + n) db')))"

definition clear :: "string \<Rightarrow> string \<Rightarrow> string option \<Rightarrow> bool \<Rightarrow> nat op" where
  "clear now scope scope_id closed_only db =
     (let ts = load_scope db (normalize_scope scope) scope_id;
          targets = sort_key (\<lambda>t. - int (parent_depth_lenient ts (t_id t)))
                      (filter (\<lambda>t. \<not> closed_only \<or> is_closed_status (t_status t)) ts)
      in clear_loop now ts closed_only targets 0 db)"

section \<open>Time\<close>

definition list_time_announcable :: "db \<Rightarrow> string \<Rightarrow> task list" where
  "list_time_announcable db today =
     filter (\<lambda>t. \<not> is_closed_status (t_status t) \<and>
        (t_due_announced t = None \<and>
           (case t_due_at t of None \<Rightarrow> False | Some d \<Rightarrow> take 10 d \<le> today)
         \<or> t_overdue_announced t = None \<and>
           (case t_deadline_at t of None \<Rightarrow> False | Some d \<Rightarrow> take 10 d < today))) (tasks db)"

definition due_crossed :: "string \<Rightarrow> task \<Rightarrow> bool" where
  "due_crossed today t = (t_due_announced t = None \<and>
     (case t_due_at t of None \<Rightarrow> False | Some d \<Rightarrow> day_of d \<le> today))"

definition overdue_crossed :: "string \<Rightarrow> task \<Rightarrow> bool" where
  "overdue_crossed today t = (t_overdue_announced t = None \<and>
     (case t_deadline_at t of None \<Rightarrow> False | Some d \<Rightarrow> day_of d < today))"

definition announce_one :: "string \<Rightarrow> task \<Rightarrow> (nat \<times> nat) \<times> db \<Rightarrow> (nat \<times> nat) \<times> db" where
  "announce_one now t state =
     (case state of ((due_count, overdue_count), db) \<Rightarrow>
       (let today = day_of now;
            (due_count, db) = (if due_crossed today t then
               (Suc due_count, emit Due t None (JObj [(''due_at'', jstr_opt (t_due_at t))])
                  (set_rows (t_id t) (\<lambda>r. r\<lparr>t_due_announced := Some now\<rparr>) db))
             else (due_count, db));
            (overdue_count, db) = (if overdue_crossed today t then
               (Suc overdue_count,
                emit Overdue t None (JObj [(''deadline_at'', jstr_opt (t_deadline_at t))])
                  (set_rows (t_id t) (\<lambda>r. r\<lparr>t_overdue_announced := Some now\<rparr>) db))
             else (overdue_count, db))
        in ((due_count, overdue_count), db)))"

definition announce_due :: "string \<Rightarrow> (nat \<times> nat) op" where
  "announce_due now db =
     (case fold (announce_one now) (list_time_announcable db (day_of now)) ((0, 0), db) of
        (counts, db') \<Rightarrow> (Inr counts, db'))"

definition list_recurring_closed :: "db \<Rightarrow> task list" where
  "list_recurring_closed db =
     filter (\<lambda>t. t_recurrence t \<noteq> None \<and> t_status t = ''done'') (tasks db)"

section \<open>Importing the v0.1 list\<close>

text \<open>\<open>is_char_boundary\<close> and the cut of an over-long title.\<close>

definition is_char_boundary :: "string \<Rightarrow> nat \<Rightarrow> bool" where
  "is_char_boundary s n = list_ex (\<lambda>k. byte_len (take k s) = n) [0..<Suc (length s)]"

fun cut_at :: "string \<Rightarrow> nat \<Rightarrow> nat" where
  "cut_at s 0 = 0"
| "cut_at s (Suc n) = (if is_char_boundary s (Suc n) then Suc n else cut_at s n)"

text \<open>\<open>truncate(n)\<close> at a boundary: the characters that end at or before byte \<open>n\<close>.\<close>

fun truncate_bytes :: "string \<Rightarrow> nat \<Rightarrow> string" where
  "truncate_bytes [] n = []"
| "truncate_bytes (c # s) n =
     (if utf8_len c \<le> n then c # truncate_bytes s (n - utf8_len c) else [])"

definition import_title :: "string \<Rightarrow> string" where
  "import_title text =
     (let title = trim text in
      if TASK_TITLE_MAX_BYTES < byte_len title
      then truncate_bytes title (cut_at title TASK_TITLE_MAX_BYTES) else title)"

definition import_actor :: string where "import_actor = ''todo-v0.1-migration''"

definition import_task :: "string \<Rightarrow> string \<Rightarrow> nat \<Rightarrow> new_task" where
  "import_task session_id text index =
     new_task_default\<lparr>n_scope := ''session'', n_scope_id := Some session_id,
       n_title := import_title text, n_priority := 3, n_sort_order := int index\<rparr>"

definition import_status :: "string \<Rightarrow> json_parser \<Rightarrow> int \<Rightarrow> string \<Rightarrow> unit op" where
  "import_status now jp i status db =
     (if status = ''done'' then
        (case complete now i (Some import_actor) None db of
           (Inl e, db) \<Rightarrow> (Inl e, db) | (Inr _, db) \<Rightarrow> (Inr (), db))
      else if status = ''in_progress'' then
        (case update now jp i (task_patch_default\<lparr>p_status := Some ''in_progress''\<rparr>)
                (Some import_actor) db of
           (Inl e, db) \<Rightarrow> (Inl e, db) | (Inr _, db) \<Rightarrow> (Inr (), db))
      else if status = ''blocked'' then
        (Inr (), log_activity now i (Some import_actor) ''imported_blocked''
           (Some (JObj [(''note'', JStr
              (''v0.1 '' @ [CHR 0x27] @ ''blocked'' @ [CHR 0x27] @
               '' label dropped: blocked is derived from depends_on now''))])) db)
      else (Inr (), db))"

fun import_loop ::
  "string \<Rightarrow> json_parser \<Rightarrow> string \<Rightarrow> nat \<Rightarrow> (string \<times> string) list \<Rightarrow> nat \<Rightarrow> nat op" where
  "import_loop now jp session_id index [] imported db = (Inr imported, db)"
| "import_loop now jp session_id index ((text, status) # items) imported db =
     (if trim text = [] then import_loop now jp session_id (Suc index) items imported db
      else (case create now jp (import_task session_id text index) db of
          (Inl e, db) \<Rightarrow> (Inl e, db)
        | (Inr t, db) \<Rightarrow>
            (case import_status now jp (t_id t) status db of
               (Inl e, db) \<Rightarrow> (Inl e, db)
             | (Inr _, db) \<Rightarrow>
                 import_loop now jp session_id (Suc index) items (Suc imported) db)))"

definition import_v01 ::
  "string \<Rightarrow> json_parser \<Rightarrow> string \<Rightarrow> (string \<times> string) list \<Rightarrow> nat op" where
  "import_v01 now jp session_id items db =
     (if load_scope db ''session'' (Some session_id) \<noteq> [] then (Inr 0, db)
      else import_loop now jp session_id 0 items 0 db)"

end
