(* ===== verification/Store_Invariant.thy ===== *)
theory Store_Invariant
  imports Task_Store
begin

text \<open>
  The invariant of the store and its preservation by every operation: ids are unique and below
  the sequence, and the rows of each scope form a well-formed graph.
\<close>

section \<open>The invariant\<close>

definition wf_db :: "db \<Rightarrow> bool" where
  "wf_db db \<longleftrightarrow> distinct (map t_id (tasks db)) \<and> (\<forall>t \<in> set (tasks db). t_id t < next_task db)
     \<and> (\<forall>scope scope_id. wf_graph (load_scope db scope scope_id))"

lemma wf_dbD:
  assumes "wf_db db"
  shows "distinct (map t_id (tasks db))"
    and "\<And>t. t \<in> set (tasks db) \<Longrightarrow> t_id t < next_task db"
    and "\<And>scope scope_id. wf_graph (load_scope db scope scope_id)"
  using assms by (auto simp: wf_db_def)

lemma wf_db_empty: "wf_db empty_db"
  by (simp add: wf_db_def empty_db_def load_scope_def)

section \<open>What the statements leave alone\<close>

text \<open>Logging, events, notes and members do not touch the rows.\<close>

definition same_tasks :: "db \<Rightarrow> db \<Rightarrow> bool" where
  "same_tasks a b \<longleftrightarrow> tasks a = tasks b \<and> next_task a = next_task b"

lemma load_scope_cong: "tasks a = tasks b \<Longrightarrow> load_scope a s sid = load_scope b s sid"
  by (simp add: load_scope_def)

lemma wf_db_cong: "same_tasks a b \<Longrightarrow> wf_db a \<longleftrightarrow> wf_db b"
  by (simp add: wf_db_def same_tasks_def load_scope_def)

lemma log_activity_tasks [simp]:
  "tasks (log_activity now i actor action detail db) = tasks db"
  "next_task (log_activity now i actor action detail db) = next_task db"
  "events (log_activity now i actor action detail db) = events db"
  "members (log_activity now i actor action detail db) = members db"
  by (simp_all add: log_activity_def)

lemma emit_tasks [simp]:
  "tasks (emit k t actor d db) = tasks db" "next_task (emit k t actor d db) = next_task db"
  "task_notes (emit k t actor d db) = task_notes db"
  "task_activity (emit k t actor d db) = task_activity db"
  "members (emit k t actor d db) = members db"
  by (simp_all add: emit_def)

lemma emit_no_sink [simp]: "events db = None \<Longrightarrow> emit k t actor d db = db"
  by (simp add: emit_def)

text \<open>A fold of steps that each keep a projection keeps it.\<close>

lemma fold_keeps: "(\<And>x s. p (f x s) = p s) \<Longrightarrow> p (fold f xs s) = p s"
  by (induction xs arbitrary: s) auto

lemma emit_block_transitions_tasks [simp]:
  "tasks (emit_block_transitions b a actor db) = tasks db"
  "next_task (emit_block_transitions b a actor db) = next_task db"
  "members (emit_block_transitions b a actor db) = members db"
  by (auto simp: emit_block_transitions_def Let_def fold_keeps [where p = tasks]
        fold_keeps [where p = next_task] fold_keeps [where p = members])

lemma emit_verdict_tasks [simp]:
  "tasks (emit_verdict actor i ts p db) = tasks db"
  "next_task (emit_verdict actor i ts p db) = next_task db"
  "members (emit_verdict actor i ts p db) = members db"
  by (simp_all add: emit_verdict_def split: option.split)

lemma fold_emit_verdict_tasks [simp]:
  "tasks (fold (emit_verdict actor i ts) ps db) = tasks db"
  "next_task (fold (emit_verdict actor i ts) ps db) = next_task db"
  "members (fold (emit_verdict actor i ts) ps db) = members db"
  by (simp_all add: fold_keeps [where p = tasks] fold_keeps [where p = next_task]
        fold_keeps [where p = members])

section \<open>Row updates\<close>

lemma set_rows_fields [simp]:
  "tasks (set_rows i f db) = map (\<lambda>r. if t_id r = i then f r else r) (tasks db)"
  "next_task (set_rows i f db) = next_task db"
  "members (set_rows i f db) = members db"
  "events (set_rows i f db) = events db"
  by (simp_all add: set_rows_def)

lemma in_load_scope:
  "t \<in> set (load_scope db s sid) \<longleftrightarrow> t \<in> set (tasks db) \<and> t_scope t = s \<and> t_scope_id t = sid"
  by (auto simp: load_scope_def)

lemma distinct_load_scope: "wf_db db \<Longrightarrow> distinct (map t_id (load_scope db s sid))"
  by (auto dest: wf_dbD(3) wf_graphD(1))

lemma load_scope_set_rows:
  assumes "\<And>r. t_scope (f r) = t_scope r" and "\<And>r. t_scope_id (f r) = t_scope_id r"
  shows "load_scope (set_rows i f db) s sid =
    map (\<lambda>r. if t_id r = i then f r else r) (load_scope db s sid)"
  by (simp add: load_scope_def filter_map o_def assms cong: filter_cong if_cong)

lemma wf_db_same_ids:
  assumes wf: "wf_db db" and ids: "map t_id (tasks db') = map t_id (tasks db)"
    and nxt: "next_task db' = next_task db"
    and graph: "\<And>s sid. wf_graph (load_scope db' s sid)"
  shows "wf_db db'"
proof -
  have "t_id t < next_task db'" if "t \<in> set (tasks db')" for t
  proof -
    from that have "t_id t \<in> set (map t_id (tasks db))" by (simp flip: ids)
    with wf show ?thesis by (auto simp: nxt dest: wf_dbD(2))
  qed
  with wf graph ids show ?thesis by (simp add: wf_db_def)
qed

lemma wf_db_set_rows:
  assumes wf: "wf_db db" and ids: "\<And>r. t_id (f r) = t_id r"
    and sc: "\<And>r. t_scope (f r) = t_scope r" and sid: "\<And>r. t_scope_id (f r) = t_scope_id r"
    and graph: "\<And>s sid. wf_graph (map (\<lambda>r. if t_id r = i then f r else r) (load_scope db s sid))"
  shows "wf_db (set_rows i f db)"
proof (rule wf_db_same_ids [OF wf])
  show "map t_id (tasks (set_rows i f db)) = map t_id (tasks db)" by (simp add: ids)
  show "wf_graph (load_scope (set_rows i f db) s sid)" for s sid
    using graph by (simp add: load_scope_set_rows [OF sc sid])
qed simp

text \<open>A row update that changes neither parent nor dependencies.\<close>

lemma wf_db_set_rows_shape:
  assumes "wf_db db" and "\<And>r. shape (f r) = shape r"
    and "\<And>r. t_scope (f r) = t_scope r" and "\<And>r. t_scope_id (f r) = t_scope_id r"
  shows "wf_db (set_rows i f db)"
proof (rule wf_db_set_rows [OF assms(1)])
  show "wf_graph (map (\<lambda>r. if t_id r = i then f r else r) (load_scope db s sid))" for s sid
    by (subst wf_graph_map) (use assms in \<open>auto dest: wf_dbD(3)\<close>)
qed (use assms in auto)

lemma wf_db_mark_done [simp]: "wf_db db \<Longrightarrow> wf_db (mark_done now i db)"
  unfolding mark_done_def by (rule wf_db_set_rows_shape) auto

lemma mark_done_tasks [simp]:
  "next_task (mark_done now i db) = next_task db" "events (mark_done now i db) = events db"
  "members (mark_done now i db) = members db"
  by (simp_all add: mark_done_def)

lemma write_task_fields [simp]:
  "next_task (write_task now t db) = next_task db" "events (write_task now t db) = events db"
  "members (write_task now t db) = members db"
  by (simp_all add: write_task_def)

lemma write_task_load_shape:
  "map shape (load_scope (write_task now t db) s sid) = map shape (put_task t (load_scope db s sid))"
  unfolding write_task_def put_task_def by (subst load_scope_set_rows) auto

lemma row_unique:
  assumes "wf_db db" and "t \<in> set (tasks db)" and "u \<in> set (tasks db)" and "t_id t = t_id u"
  shows "t = u"
  using wf_dbD(1) [OF assms(1)] assms(2-) by (auto simp: distinct_map dest: inj_onD)

lemma put_task_outside: "t_id t \<notin> t_id ` set ts \<Longrightarrow> put_task t ts = ts"
  unfolding put_task_def by (rule map_idI) (metis imageI)

lemma wf_db_write_task:
  assumes wf: "wf_db db" and u: "u \<in> set (tasks db)" "t_id u = t_id t"
    and graph: "wf_graph (put_task t (load_scope db (t_scope u) (t_scope_id u)))"
  shows "wf_db (write_task now t db)"
proof -
  have "wf_graph (load_scope (write_task now t db) s sid)" for s sid
  proof (cases "s = t_scope u \<and> sid = t_scope_id u")
    case True
    then show ?thesis using graph wf_graph_shape [OF write_task_load_shape] by simp
  next
    case False
    have "t_id t \<notin> t_id ` set (load_scope db s sid)"
    proof
      assume "t_id t \<in> t_id ` set (load_scope db s sid)"
      then obtain r where "r \<in> set (tasks db)" "t_id r = t_id t" "t_scope r = s" "t_scope_id r = sid"
        by (auto simp: in_load_scope)
      with row_unique [OF wf _ u(1)] u(2) False show False by auto
    qed
    then show ?thesis
      using wf_graph_shape [OF write_task_load_shape] wf_dbD(3) [OF wf] by (simp add: put_task_outside)
  qed
  moreover have "map t_id (tasks (write_task now t db)) = map t_id (tasks db)"
    by (simp add: write_task_def)
  ultimately show ?thesis by (intro wf_db_same_ids [OF wf]) auto
qed

lemma lookup_in_scope:
  assumes "wf_db db"
  shows "lookup_task (load_scope db s sid) i = Some t \<longleftrightarrow>
    lookup_task (tasks db) i = Some t \<and> t_scope t = s \<and> t_scope_id t = sid"
  using distinct_load_scope [OF assms] wf_dbD(1) [OF assms]
  by (auto simp: lookup_task_eq_Some in_load_scope)

lemma get_raw_ok: "get_raw db i = Inr t \<longleftrightarrow> lookup_task (tasks db) i = Some t"
  by (auto simp: get_raw_def split: option.split)

lemma get_raw_row: "get_raw db i = Inr t \<Longrightarrow> t \<in> set (tasks db) \<and> t_id t = i"
  by (auto simp: get_raw_ok dest: lookup_task_Some)

section \<open>Creating\<close>

lemma fold_max_in:
  "fold (\<lambda>y best. if ident best < (ident y :: int) then y else best) qs q \<in> insert q (set qs)"
proof (induction qs arbitrary: q)
  case (Cons y qs)
  show ?case using Cons [of "if ident q < ident y then y else q"] by (auto split: if_splits)
qed simp

lemma newest_last:
  assumes "\<And>r. r \<in> set rows \<Longrightarrow> ident r < ident x"
  shows "newest ident (rows @ [x]) = Some x"
proof (cases rows)
  case Nil
  then show ?thesis by (simp add: newest_def)
next
  case (Cons r rs)
  have "fold (\<lambda>y best. if ident best < ident y then y else best) rs r \<in> set rows"
    using fold_max_in [of ident rs r] Cons by simp
  from assms [OF this] Cons show ?thesis by (simp add: newest_def)
qed

lemma newest_inserted:
  "wf_db db \<Longrightarrow> newest t_id (tasks db @ [new_row now (next_task db) new])
     = Some (new_row now (next_task db) new)"
  by (rule newest_last) (simp add: new_row_def wf_dbD(2))

lemma insert_task_fields [simp]:
  "tasks (insert_task now new db) = tasks db @ [new_row now (next_task db) new]"
  "next_task (insert_task now new db) = next_task db + 1"
  "events (insert_task now new db) = events db" "members (insert_task now new db) = members db"
  by (simp_all add: insert_task_def)

lemma new_row_fields [simp]:
  "t_id (new_row now i new) = i" "t_parent (new_row now i new) = n_parent new"
  "t_depends_on (new_row now i new) = n_depends_on new" "t_scope (new_row now i new) = n_scope new"
  "t_scope_id (new_row now i new) = n_scope_id new" "t_status (new_row now i new) = ''pending''"
  by (simp_all add: new_row_def)

lemma wf_db_insert_task:
  assumes wf: "wf_db db"
    and deps: "set (n_depends_on new) \<subseteq> t_id ` set (load_scope db (n_scope new) (n_scope_id new))"
    and par: "\<And>p. n_parent new = Some p \<Longrightarrow>
      p \<in> t_id ` set (load_scope db (n_scope new) (n_scope_id new))
      \<and> (\<exists>d. at_depth (load_scope db (n_scope new) (n_scope_id new)) p d \<and> Suc d < TASK_DEPTH_MAX)"
  shows "wf_db (insert_task now new db)"
proof -
  have fresh: "next_task db \<notin> t_id ` set (tasks db)" using wf by (auto dest: wf_dbD(2))
  have "wf_graph (load_scope (insert_task now new db) s sid)" for s sid
  proof (cases "n_scope new = s \<and> n_scope_id new = sid")
    case True
    have "wf_graph (load_scope db s sid @ [new_row now (next_task db) new])"
      using True fresh deps par
      by (intro wf_graph_append wf_dbD(3) [OF wf]) (auto simp: in_load_scope)
    with True show ?thesis by (simp add: load_scope_def)
  next
    case False
    then have "load_scope (insert_task now new db) s sid = load_scope db s sid"
      by (auto simp: load_scope_def)
    with wf show ?thesis by (simp add: wf_dbD(3))
  qed
  with wf fresh show ?thesis by (auto simp: wf_db_def)
qed

lemma create_check_ok:
  assumes "create_check jp new db = Inr new'"
  shows "validate_new_task_fields new = Inr ()" and "admit_new_acceptance jp new = Inr new'"
    and "length (load_scope db (n_scope new') (n_scope_id new')) < TASKS_PER_SCOPE_MAX"
    and "create_parent_check (load_scope db (n_scope new') (n_scope_id new')) (n_parent new') = Inr ()"
    and "set (n_depends_on new') \<subseteq> t_id ` set (load_scope db (n_scope new') (n_scope_id new'))"
    and "n_parent new' \<noteq> None \<Longrightarrow> n_depends_on new' \<noteq> [] \<Longrightarrow>
      check_ancestor_dependency (load_scope db (n_scope new') (n_scope_id new'))
        (ancestor_chain (load_scope db (n_scope new') (n_scope_id new')) (n_parent new'))
        (n_depends_on new') = Inr ()"
  using assms
  by (auto simp: create_check_def bind_res_eq_Inr Let_def for_each_ok lookup_task_None
        split: if_splits)

lemma create_parent_check_ok:
  assumes "create_parent_check ts (Some p) = Inr ()"
  shows "p \<in> t_id ` set ts" and "\<exists>d. at_depth ts p d \<and> Suc d < TASK_DEPTH_MAX"
    and "\<exists>t. lookup_task ts p = Some t \<and> is_open t"
  using assms
  by (auto simp: create_parent_check_def bind_res_eq_Inr parent_depth_ok
        split: option.splits if_splits dest!: lookup_task_Some)

lemma wf_db_create_check:
  assumes wf: "wf_db db" and ok: "create_check jp new db = Inr new'"
  shows "wf_db (insert_task now new' db)"
proof (rule wf_db_insert_task [OF wf create_check_ok(5) [OF ok]])
  fix p assume "n_parent new' = Some p"
  with create_check_ok(4) [OF ok]
  have "create_parent_check (load_scope db (n_scope new') (n_scope_id new')) (Some p) = Inr ()"
    by simp
  from create_parent_check_ok(1,2) [OF this]
  show "p \<in> t_id ` set (load_scope db (n_scope new') (n_scope_id new'))
      \<and> (\<exists>d. at_depth (load_scope db (n_scope new') (n_scope_id new')) p d \<and> Suc d < TASK_DEPTH_MAX)"
    by blast
qed

lemma create_insert_result:
  assumes "wf_db db" and "ensure_member_exists db (n_assignee new) ''assignee'' = Inr ()"
  shows "create_insert now new db =
    (let t = new_row now (next_task db) new in
     (Inr t, emit Created t (n_assignee new) (created_detail t)
        (log_activity now (t_id t) (n_assignee new) ''created'' None (insert_task now new db))))"
  using assms by (simp add: create_insert_def newest_inserted Let_def)

lemma create_cases:
  assumes "wf_db db"
  obtains e where "create now jp new db = (Inl e, db)"
  | new' where "create_check jp new db = Inr new'"
      and "ensure_member_exists db (n_assignee new') ''assignee'' = Inr ()"
      and "create now jp new db =
        (let t = new_row now (next_task db) new' in
         (Inr t, emit Created t (n_assignee new') (created_detail t)
            (log_activity now (t_id t) (n_assignee new') ''created'' None (insert_task now new' db))))"
proof (cases "create_check jp new db")
  case (Inl e)
  then show ?thesis using that(1) by (simp add: create_def)
next
  case (Inr new')
  show ?thesis
  proof (cases "ensure_member_exists db (n_assignee new') ''assignee''")
    case (Inl e)
    with Inr show ?thesis using that(1) by (simp add: create_def create_insert_def)
  next
    case ok: (Inr u)
    then have "ensure_member_exists db (n_assignee new') ''assignee'' = Inr ()" by simp
    with Inr show ?thesis
      using that(2) create_insert_result [OF assms] by (simp add: create_def)
  qed
qed

lemma wf_db_log [simp]: "wf_db (log_activity now i a act d db) \<longleftrightarrow> wf_db db"
  by (rule wf_db_cong) (simp add: same_tasks_def)

lemma wf_db_emit [simp]: "wf_db (emit k t a d db) \<longleftrightarrow> wf_db db"
  by (rule wf_db_cong) (simp add: same_tasks_def)

lemma wf_db_transitions [simp]: "wf_db (emit_block_transitions b a actor db) \<longleftrightarrow> wf_db db"
  by (rule wf_db_cong) (simp add: same_tasks_def)

lemma wf_db_verdicts [simp]: "wf_db (fold (emit_verdict actor i ts) ps db) \<longleftrightarrow> wf_db db"
  by (rule wf_db_cong) (simp add: same_tasks_def)

lemma wf_db_create:
  assumes "wf_db db"
  shows "wf_db (snd (create now jp new db))"
  using assms by (cases rule: create_cases [OF assms, where now = now and jp = jp and new = new])
    (simp_all add: Let_def wf_db_create_check)

end
