(* ===== verification/Store_Update.thy ===== *)
theory Store_Update
  imports Store_Invariant
begin

text \<open>
  An update keeps the store's invariant: the cascade of a cancelled branch moves rows only to an
  ancestor of where they were, and a patched row is written only after the graph checks.
\<close>

section \<open>Cancelling a branch\<close>

lemma child_rel_shape_iff:
  "(p, c) \<in> child_rel ts \<longleftrightarrow> (\<exists>ds. (c, Some p, ds) \<in> shape ` set ts)"
proof
  assume "(p, c) \<in> child_rel ts"
  then obtain t where "t \<in> set ts" "t_id t = c" "t_parent t = Some p" by (auto simp: child_rel_def)
  then have "(c, Some p, t_depends_on t) \<in> shape ` set ts" by (intro image_eqI [of _ _ t]) auto
  then show "\<exists>ds. (c, Some p, ds) \<in> shape ` set ts" ..
qed (auto simp: child_rel_def)

lemma child_rel_shape: "map shape us = map shape ts \<Longrightarrow> child_rel us = child_rel ts"
  by (auto simp only: set_eq_iff split_paired_all child_rel_shape_iff simp flip: set_map)

lemma moved_up_trancl:
  assumes "t_id t \<in> t_id ` set ts" and "t_parent t = Some g"
  shows "(g, x) \<in> (child_rel ts)\<^sup>+ \<Longrightarrow> (g, x) \<in> (child_rel (put_task t ts))\<^sup>+"
proof -
  have edge: "(y, x) \<in> child_rel (put_task t ts)" if "(y, x) \<in> child_rel ts" "x \<noteq> t_id t" for x y
    using that by (auto simp: child_rel_def put_task_def)
  have new: "(g, t_id t) \<in> child_rel (put_task t ts)"
    using assms by (force simp: child_rel_def put_task_def)
  show "(g, x) \<in> (child_rel ts)\<^sup>+ \<Longrightarrow> (g, x) \<in> (child_rel (put_task t ts))\<^sup>+"
  proof (induction rule: trancl_induct)
    case (base y)
    then show ?case using edge new by (cases "y = t_id t") auto
  next
    case (step y z)
    then show ?case using edge new by (cases "z = t_id t") (auto intro: trancl_into_trancl)
  qed
qed

text \<open>
  What holds while the cascade runs over the snapshot \<open>ts\<close>: the store is well-formed, the rows
  it has not visited still have their shape, and everything below the cancelled task is still
  below the cancelled task's parent.
\<close>

definition cascade_inv :: "task list \<Rightarrow> task \<Rightarrow> int list \<Rightarrow> db \<Rightarrow> bool" where
  "cascade_inv ts task seen db \<longleftrightarrow> wf_db db \<and>
     (\<forall>t \<in> set ts. t_id t \<notin> set seen \<longrightarrow>
        shape t \<in> shape ` set (load_scope db (t_scope task) (t_scope_id task))) \<and>
     (\<forall>g x. t_parent task = Some g \<longrightarrow> (t_id task, x) \<in> (child_rel ts)\<^sup>* \<longrightarrow>
        (g, x) \<in> (child_rel (load_scope db (t_scope task) (t_scope_id task)))\<^sup>+)"

lemma cascade_inv_log [simp]:
  "cascade_inv ts task seen (log_activity now i a act d db) = cascade_inv ts task seen db"
  by (simp add: cascade_inv_def load_scope_cong [of "log_activity now i a act d db" db])

lemma cascade_inv_seen: "cascade_inv ts task seen db \<Longrightarrow> cascade_inv ts task (seen @ extra) db"
  by (simp add: cascade_inv_def)

lemma shape_put_same:
  assumes "distinct (map t_id ts)" and "u \<in> set ts" and "shape u = shape t"
  shows "map shape (put_task t ts) = map shape ts"
proof -
  have "shape (if t_id r = t_id t then t else r) = shape r" if "r \<in> set ts" for r
  proof (cases "t_id r = t_id t")
    case True
    with assms that have "r = u" by (auto simp: distinct_map inj_on_def)
    with assms show ?thesis by simp
  qed simp
  then show ?thesis by (simp add: put_task_def)
qed

lemma cascade_inv_write:
  assumes inv: "cascade_inv ts task seen db" and ts: "distinct (map t_id ts)"
    and t: "t \<in> set ts" "t_id t \<notin> set seen" and same: "t_id t' = t_id t" "t_depends_on t' = t_depends_on t"
    and below: "(t_id task, t_id t) \<in> (child_rel ts)\<^sup>*"
    and par: "t_parent t' = t_parent t \<or> t_parent t' = t_parent task"
  shows "cascade_inv ts task (seen @ [t_id t]) (write_task now t' db)"
proof -
  let ?sc = "load_scope db (t_scope task) (t_scope_id task)"
  let ?sc' = "load_scope (write_task now t' db) (t_scope task) (t_scope_id task)"
  from inv have wf: "wf_db db"
    and unseen: "\<And>t. t \<in> set ts \<Longrightarrow> t_id t \<notin> set seen \<Longrightarrow> shape t \<in> shape ` set ?sc"
    and under: "\<And>g x. t_parent task = Some g \<Longrightarrow> (t_id task, x) \<in> (child_rel ts)\<^sup>* \<Longrightarrow>
      (g, x) \<in> (child_rel ?sc)\<^sup>+"
    by (auto simp: cascade_inv_def)
  from unseen [OF t] obtain u where u: "u \<in> set ?sc" "shape u = shape t" by auto
  then have row: "u \<in> set (tasks db)" "t_scope u = t_scope task" "t_scope_id u = t_scope_id task"
    by (simp_all add: in_load_scope)
  have ids: "t_id t' \<in> t_id ` set ?sc" using u same by (intro image_eqI [of _ _ u]) auto
  have sh: "map shape ?sc' = map shape (put_task t' ?sc)" by (rule write_task_load_shape)
  have put: "wf_graph (put_task t' ?sc)"
  proof (cases "t_parent t' = t_parent t")
    case True
    then have "shape u = shape t'" using u same by simp
    from wf_graph_shape [OF shape_put_same [OF distinct_load_scope [OF wf] u(1) this]]
    show ?thesis using wf_dbD(3) [OF wf] by simp
  next
    case False
    with par have p: "t_parent t' = t_parent task" by simp
    show ?thesis
    proof (rule wf_graph_move_up [OF wf_dbD(3) [OF wf] u(1)])
      show "t_id t' = t_id u" "t_depends_on t' = t_depends_on u" using u same by auto
      fix g assume "t_parent t' = Some g"
      with p under below u show "(g, t_id u) \<in> (child_rel ?sc)\<^sup>+" by simp
    qed
  qed
  have "wf_db (write_task now t' db)"
    using wf row u same put by (intro wf_db_write_task [of db u t']) auto
  moreover have "shape x \<in> shape ` set ?sc'" if x: "x \<in> set ts" "t_id x \<notin> set (seen @ [t_id t])" for x
  proof -
    from x unseen obtain r where "r \<in> set ?sc" "shape r = shape x" by force
    then have "r \<in> set (put_task t' ?sc)"
      unfolding put_task_def set_map using x same \<open>shape r = shape x\<close>
      by (intro image_eqI [of _ _ r, OF _ \<open>r \<in> set ?sc\<close>]) simp
    then have "shape r \<in> shape ` set (put_task t' ?sc)" by (rule imageI)
    moreover have "shape ` set ?sc' = shape ` set (put_task t' ?sc)"
      using arg_cong [OF sh, of set] by (simp only: set_map)
    ultimately show ?thesis using \<open>shape r = shape x\<close> by (simp only:)
  qed
  moreover have "(g, x) \<in> (child_rel ?sc')\<^sup>+"
    if g: "t_parent task = Some g" "(t_id task, x) \<in> (child_rel ts)\<^sup>*" for g x
  proof (cases "t_parent t' = t_parent t")
    case True
    then have "shape u = shape t'" using u same by simp
    from shape_put_same [OF distinct_load_scope [OF wf] u(1) this]
    show ?thesis using under [OF g] child_rel_shape [of ?sc' ?sc] sh by simp
  next
    case False
    with par g have "t_parent t' = Some g" by simp
    from moved_up_trancl [OF ids this under [OF g]] show ?thesis
      using child_rel_shape [OF sh] by simp
  qed
  ultimately show ?thesis by (simp add: cascade_inv_def)
qed

lemma cascade_row_inv:
  assumes inv: "cascade_inv ts task seen db" and ts: "distinct (map t_id ts)" and t: "t \<in> set ts"
    and q: "set (current # queue) \<subseteq> (child_rel ts)\<^sup>* `` {t_id task}"
    and row: "cascade_row now task actor ts current t (seen, queue, db) = (seen', queue', db')"
  shows "cascade_inv ts task seen' db' \<and> set (current # queue') \<subseteq> (child_rel ts)\<^sup>* `` {t_id task}"
proof (cases "t_parent t = Some current \<and> t_id t \<notin> set seen")
  case False
  with row inv q show ?thesis by (auto simp: cascade_row_def split: if_splits)
next
  case True
  then have "(t_id task, t_id t) \<in> (child_rel ts)\<^sup>*"
    using q t by (auto intro: rtrancl_into_rtrancl child_relI)
  with True have step: "cascade_inv ts task (seen @ [t_id t]) (write_task now t' db)"
    if "t_id t' = t_id t" "t_depends_on t' = t_depends_on t"
      "t_parent t' = t_parent t \<or> t_parent t' = t_parent task" for t'
    using cascade_inv_write [OF inv ts t] that by blast
  show ?thesis
    using row True q step cascade_inv_seen [OF inv] \<open>(t_id task, t_id t) \<in> (child_rel ts)\<^sup>*\<close>
    by (auto simp: cascade_row_def split: if_splits)
qed

lemma cascade_rows_inv:
  assumes "distinct (map t_id ts)"
  shows "set us \<subseteq> set ts \<Longrightarrow> cascade_inv ts task seen db \<Longrightarrow>
    set (current # queue) \<subseteq> (child_rel ts)\<^sup>* `` {t_id task} \<Longrightarrow>
    fold (cascade_row now task actor ts current) us (seen, queue, db) = (seen', queue', db') \<Longrightarrow>
    cascade_inv ts task seen' db' \<and> set queue' \<subseteq> (child_rel ts)\<^sup>* `` {t_id task}"
proof (induction us arbitrary: seen queue db)
  case Nil
  then show ?case by simp
next
  case (Cons t us)
  obtain s q d where row: "cascade_row now task actor ts current t (seen, queue, db) = (s, q, d)"
    by (cases "cascade_row now task actor ts current t (seen, queue, db)")
  from Cons.prems(1) have t: "t \<in> set ts" and us: "set us \<subseteq> set ts" by auto
  from cascade_row_inv [OF Cons.prems(2) assms t Cons.prems(3) row]
  have step: "cascade_inv ts task s d" "set (current # q) \<subseteq> (child_rel ts)\<^sup>* `` {t_id task}" by blast+
  from Cons.prems(4) row
  have rest: "fold (cascade_row now task actor ts current) us (s, q, d) = (seen', queue', db')" by simp
  show ?case by (rule Cons.IH [OF us step rest])
qed

lemma cascade_loop_inv:
  "distinct (map t_id ts) \<Longrightarrow> cascade_inv ts task seen db \<Longrightarrow> set queue \<subseteq> (child_rel ts)\<^sup>* `` {t_id task} \<Longrightarrow>
    wf_db (cascade_loop now task actor ts queue seen db)"
proof (induction now task actor ts queue seen db rule: cascade_loop.induct)
  case (1 now task actor ts seen db)
  then show ?case by (simp add: cascade_inv_def)
next
  case (2 now task actor ts current queue seen db)
  obtain s q d where rows: "fold (cascade_row now task actor ts current) ts (seen, queue, db) = (s, q, d)"
    by (cases "fold (cascade_row now task actor ts current) ts (seen, queue, db)")
  note step = cascade_rows_inv [OF "2.prems"(1) order.refl "2.prems"(2,3) rows]
  show ?case using "2.IH" [OF rows [symmetric] refl "2.prems"(1)] step rows by simp
qed

lemma wf_db_cascade_cancel:
  assumes wf: "wf_db db" and task: "u \<in> set (tasks db)" "shape u = shape task"
    "t_scope u = t_scope task" "t_scope_id u = t_scope_id task"
  shows "wf_db (cascade_cancel now task actor db)"
proof -
  let ?ts = "load_scope db (t_scope task) (t_scope_id task)"
  have "(g, x) \<in> (child_rel ?ts)\<^sup>+"
    if "t_parent task = Some g" "(t_id task, x) \<in> (child_rel ?ts)\<^sup>*" for g x
  proof -
    have "u \<in> set ?ts" using task by (simp add: in_load_scope)
    with task that have "(g, t_id task) \<in> child_rel ?ts" using child_relI [of u ?ts g] by simp
    with that show ?thesis by (metis rtrancl_into_trancl2)
  qed
  with wf have "cascade_inv ?ts task [t_id task] db"
    by (auto simp: cascade_inv_def)
  then show ?thesis
    unfolding cascade_cancel_def by (rule cascade_loop_inv [OF distinct_load_scope [OF wf]]) auto
qed

section \<open>Updating\<close>

lemma invalid_of_ok [simp]: "invalid_of r = Inr x \<longleftrightarrow> r = Inr x"
  by (cases r) (simp_all add: invalid_of_def)

lemma patch_field_ok:
  "patch_field field step acc = Inr (t, ch) \<longleftrightarrow>
     (\<exists>s ch0. acc = Inr (s, ch0) \<and>
        (case field of None \<Rightarrow> t = s \<and> ch = ch0
         | Some v \<Rightarrow> \<exists>extra. step v s = Inr (t, extra) \<and> ch = ch0 @ extra))"
  by (cases acc; cases field) (auto simp: patch_field_def bind_res_eq_Inr)

text \<open>A projection that neither the status patch nor a field's code changes.\<close>

lemma patch_field_keeps:
  assumes "patch_field field step acc = Inr (t, ch)"
    and "\<And>v s u extra. field = Some v \<Longrightarrow> step v s = Inr (u, extra) \<Longrightarrow> p u = p s"
    and "\<And>s ch0. acc = Inr (s, ch0) \<Longrightarrow> p s = x"
  shows "p t = x"
  using assms by (fastforce simp: patch_field_ok split: option.splits)

lemma apply_status_patch_keeps:
  "apply_status_patch t patch = Inr (u, ch) \<Longrightarrow>
     t_id u = t_id t \<and> t_scope u = t_scope t \<and> t_scope_id u = t_scope_id t
     \<and> t_parent u = t_parent t \<and> t_depends_on u = t_depends_on t"
  by (auto simp: apply_status_patch_def split: option.splits if_splits)

lemma patch_acceptance_keeps:
  "patch_acceptance jp a t = Inr (u, ch) \<Longrightarrow>
     t_id u = t_id t \<and> t_scope u = t_scope t \<and> t_scope_id u = t_scope_id t
     \<and> t_parent u = t_parent t \<and> t_depends_on u = t_depends_on t"
  by (auto simp: patch_acceptance_def split: option.splits sum.splits)

lemma apply_patch_key:
  assumes "apply_patch jp task patch = Inr (t, ch)"
  shows "t_id t = t_id task \<and> t_scope t = t_scope task \<and> t_scope_id t = t_scope_id task"
proof -
  let ?p = "\<lambda>t. (t_id t, t_scope t, t_scope_id t)"
  have "?p t = ?p task"
    using assms unfolding apply_patch_def Let_def
    by (elim patch_field_keeps [where p = ?p])
       (auto simp: bind_res_eq_Inr dest: apply_status_patch_keeps patch_acceptance_keeps)
  then show ?thesis by simp
qed

lemma apply_patch_parent:
  assumes "apply_patch jp task patch = Inr (t, ch)" and "p_parent patch = None"
  shows "t_parent t = t_parent task"
  using assms unfolding apply_patch_def Let_def
  by (elim patch_field_keeps [where p = t_parent])
     (auto simp: bind_res_eq_Inr dest: apply_status_patch_keeps patch_acceptance_keeps)

lemma apply_patch_deps:
  assumes "apply_patch jp task patch = Inr (t, ch)" and "p_depends_on patch = None"
  shows "t_depends_on t = t_depends_on task"
  using assms unfolding apply_patch_def Let_def
  by (elim patch_field_keeps [where p = t_depends_on])
     (auto simp: bind_res_eq_Inr dest: apply_status_patch_keeps patch_acceptance_keeps)

lemma update_plan_ok:
  assumes "update_plan jp i patch db = Inr (t, changed)"
  obtains task where "lookup_task (tasks db) i = Some task"
    and "apply_patch jp task patch = Inr (t, changed)"
    and "validate_dates (t_due_at t) (t_deadline_at t) = Inr ()"
  using assms by (auto simp: update_plan_def bind_res_eq_Inr get_raw_ok)

lemma update_commit_cases:
  obtains e where "update_commit now patch t changed db = (Inl e, db)"
  | "update_commit now patch t changed db = (Inr (), write_task now t db)"
    and "p_depends_on patch \<noteq> None \<or> p_parent patch \<noteq> None \<Longrightarrow>
      check_graph_update (insert_by_id t (load_scope db (t_scope t) (t_scope_id t))) t
        (p_parent patch \<noteq> None) = Inr ()"
    and "''assignee'' \<in> set changed \<Longrightarrow> ensure_member_exists db (t_assignee t) ''assignee'' = Inr ()"
proof -
  let ?m = "if ''assignee'' \<in> set changed
    then ensure_member_exists db (t_assignee t) ''assignee'' else Inr ()"
  let ?g = "if p_depends_on patch \<noteq> None \<or> p_parent patch \<noteq> None
    then check_graph_update (insert_by_id t (load_scope db (t_scope t) (t_scope_id t))) t
      (p_parent patch \<noteq> None) else Inr ()"
  have def: "update_commit now patch t changed db =
      (case bind_res ?m (\<lambda>_. ?g) of Inl e \<Rightarrow> (Inl (Invalid e), db)
       | Inr _ \<Rightarrow> (Inr (), write_task now t db))"
    by (simp only: update_commit_def Let_def)
  show ?thesis
  proof (cases "bind_res ?m (\<lambda>_. ?g)")
    case (Inl e)
    with def that(1) show ?thesis by simp
  next
    case (Inr u)
    then have "?m = Inr ()" "?g = Inr ()" by (auto simp: bind_res_eq_Inr)
    with def Inr that(2) show ?thesis by (simp split: if_splits)
  qed
qed

text \<open>The row the repository writes, when the plan was made on the state it is written to.\<close>

lemma wf_db_update_commit:
  assumes wf: "wf_db db" and plan: "update_plan jp i patch db = Inr (t, changed)"
  shows "wf_db (snd (update_commit now patch t changed db))"
proof (cases rule: update_commit_cases [of now patch t changed db])
  case (1 e)
  with wf show ?thesis by simp
next
  case 2
  obtain task where row: "lookup_task (tasks db) i = Some task"
    and patched: "apply_patch jp task patch = Inr (t, changed)"
    using plan by (rule update_plan_ok)
  note task = lookup_task_Some [OF row] and key = apply_patch_key [OF patched]
  let ?sc = "load_scope db (t_scope task) (t_scope_id task)"
  have u: "task \<in> set ?sc" using task by (simp add: in_load_scope)
  then have ins: "insert_by_id t ?sc = put_task t ?sc" using key by (auto simp: insert_by_id_def)
  have "wf_graph (put_task t ?sc)"
  proof (cases "p_depends_on patch \<noteq> None \<or> p_parent patch \<noteq> None")
    case True
    with 2 key ins have "check_graph_update (put_task t ?sc) t (p_parent patch \<noteq> None) = Inr ()"
      by simp
    then have ok: "check_graph_update (put_task t ?sc) t (p_parent patch \<noteq> None) = Inr ()" .
    have "t_id task = t_id t" using key by simp
    from wf_graph_checked_update [OF wf_dbD(3) [OF wf] u this ok]
    show ?thesis using apply_patch_parent [OF patched] by simp
  next
    case False
    with key apply_patch_parent [OF patched] apply_patch_deps [OF patched]
    have "shape task = shape t" by simp
    from wf_graph_shape [OF shape_put_same [OF distinct_load_scope [OF wf] u this]]
    show ?thesis using wf_dbD(3) [OF wf] by simp
  qed
  with 2 show ?thesis
    using wf_db_write_task [OF wf, of task t] task key by simp
qed

lemma update_cases:
  obtains e where "update now jp i patch actor db = (Inl e, db)"
  | t changed where "update_plan jp i patch db = Inr (t, changed)"
      and "update_commit now patch t changed db = (Inr (), write_task now t db)"
proof (cases "update_plan jp i patch db")
  case (Inl e)
  then show ?thesis using that(1) by (simp add: update_def)
next
  case (Inr p)
  obtain t changed where p: "p = (t, changed)" by (cases p)
  show ?thesis
  proof (cases rule: update_commit_cases [of now patch t changed db])
    case (1 e)
    with Inr p show ?thesis using that(1) by (simp add: update_def)
  next
    case 2
    with Inr p show ?thesis using that(2) by simp
  qed
qed

lemma update_events_tasks [simp]:
  "tasks (update_events t changed actor before db) = tasks db"
  "next_task (update_events t changed actor before db) = next_task db"
  "members (update_events t changed actor before db) = members db"
  by (simp_all add: update_events_def Let_def split: option.split)

lemma update_result:
  assumes "update_plan jp i patch db = Inr (t, changed)"
    and "update_commit now patch t changed db = (Inr (), write_task now t db)"
  shows "\<exists>before. update now jp i patch actor db =
    (let db' = update_events t changed actor before
                 (update_effects now t changed actor (write_task now t db))
     in (get db' i, db'))"
  using assms by (simp add: update_def Let_def) (simp add: exI)

lemma write_task_row:
  assumes "u \<in> set (tasks db)" and "t_id u = t_id t"
  shows "\<exists>r \<in> set (tasks (write_task now t db)). shape r = shape t \<and> t_scope r = t_scope u
    \<and> t_scope_id r = t_scope_id u"
  using assms
  by (intro bexI [of _ "t\<lparr>t_scope := t_scope u, t_scope_id := t_scope_id u,
        t_created_at := t_created_at u, t_blocked := t_blocked u, t_updated_at := now\<rparr>"])
     (auto simp: write_task_def image_iff intro!: bexI [of _ u])

lemma wf_db_update:
  assumes wf: "wf_db db"
  shows "wf_db (snd (update now jp i patch actor db))"
proof (cases rule: update_cases [of now jp i patch actor db])
  case (1 e)
  with wf show ?thesis by simp
next
  case (2 t changed)
  obtain task where row: "lookup_task (tasks db) i = Some task"
    and patched: "apply_patch jp task patch = Inr (t, changed)"
    using 2(1) by (rule update_plan_ok)
  note task = lookup_task_Some [OF row] and key = apply_patch_key [OF patched]
  let ?db = "write_task now t db"
  have "wf_db ?db" using wf_db_update_commit [OF wf 2(1), of now] 2(2) by simp
  moreover obtain r where "r \<in> set (tasks ?db)" "shape r = shape t" "t_scope r = t_scope t"
      "t_scope_id r = t_scope_id t"
    using write_task_row [of task db t now] task key by auto
  ultimately have "wf_db (update_effects now t changed actor ?db)"
    unfolding update_effects_def Let_def
    by (auto intro!: wf_db_cascade_cancel [where u = r])
  moreover obtain before where "update now jp i patch actor db =
      (let db' = update_events t changed actor before (update_effects now t changed actor ?db)
       in (get db' i, db'))"
    using update_result [OF 2] by blast
  ultimately show ?thesis
    by (simp add: Let_def wf_db_cong [of "update_events t changed actor before _"] same_tasks_def)
qed

end
