(* ===== verification/Store_Delete.thy ===== *)
theory Store_Delete
  imports Store_Update
begin

text \<open>
  Completing, reopening, deleting, clearing and announcing keep the store's invariant; what a
  delete leaves, row by row.
\<close>

section \<open>Completing and reopening\<close>

lemma mark_done_ids [simp]: "map t_id (tasks (mark_done now i db)) = map t_id (tasks db)"
  by (simp add: mark_done_def)

lemma auto_complete_keeps:
  "auto_complete n now actor i ts current closed_ids acc db = (acc', db') \<Longrightarrow> wf_db db \<Longrightarrow>
     wf_db db' \<and> members db' = members db \<and> next_task db' = next_task db
     \<and> map t_id (tasks db') = map t_id (tasks db) \<and> (events db' = None \<longleftrightarrow> events db = None)"
proof (induction n now actor i ts current closed_ids acc db rule: auto_complete.induct)
  case (2 n now actor i ts current closed_ids acc db)
  then show ?case by (auto split: option.splits if_splits)
qed simp

lemma complete_cases:
  obtains r where "complete now i actor detail db = (r, db)"
  | task acc db' where "lookup_task (tasks db) i = Some task" and "t_status task \<noteq> ''done''"
      and "open_children (load_scope db (t_scope task) (t_scope_id task)) i = []"
      and "auto_complete TASK_DEPTH_MAX now actor i (load_scope db (t_scope task) (t_scope_id task))
             (t_parent task)
             (i # map t_id (filter (\<lambda>t. is_closed_status (t_status t))
                      (load_scope db (t_scope task) (t_scope_id task)))) []
             (log_activity now i actor ''completed'' detail (mark_done now i db)) = (acc, db')"
      and "same_tasks (snd (complete now i actor detail db)) db'"
      and "members (snd (complete now i actor detail db)) = members db'"
proof (cases "get_raw db i")
  case (Inl e)
  then show ?thesis using that(1) by (simp add: complete_def)
next
  case (Inr task)
  let ?sc = "load_scope db (t_scope task) (t_scope_id task)"
  show ?thesis
  proof (cases "t_status task = ''done'' \<or> open_children ?sc i \<noteq> []")
    case True
    with Inr have "\<exists>r. complete now i actor detail db = (r, db)"
      by (auto simp: complete_def Let_def)
    with that(1) show ?thesis by blast
  next
    case False
    obtain acc db' where auto: "auto_complete TASK_DEPTH_MAX now actor i ?sc (t_parent task)
        (i # map t_id (filter (\<lambda>t. is_closed_status (t_status t)) ?sc)) []
        (log_activity now i actor ''completed'' detail (mark_done now i db)) = (acc, db')"
      by (cases "auto_complete TASK_DEPTH_MAX now actor i ?sc (t_parent task)
        (i # map t_id (filter (\<lambda>t. is_closed_status (t_status t)) ?sc)) []
        (log_activity now i actor ''completed'' detail (mark_done now i db))")
    have "same_tasks (snd (complete now i actor detail db)) db'
        \<and> members (snd (complete now i actor detail db)) = members db'"
      using Inr False auto
      by (cases "get_raw db' i") (simp_all add: complete_def Let_def same_tasks_def)
    with Inr False auto that(2) show ?thesis by (simp add: get_raw_ok)
  qed
qed

lemma wf_db_complete:
  assumes "wf_db db"
  shows "wf_db (snd (complete now i actor detail db))"
proof (cases rule: complete_cases [of now i actor detail db])
  case (1 r)
  with assms show ?thesis by simp
next
  case (2 task acc db')
  with auto_complete_keeps [OF 2(4)] assms have "wf_db db'" by simp
  with wf_db_cong [OF 2(5)] show ?thesis by simp
qed

lemma wf_db_reopen:
  assumes "wf_db db"
  shows "wf_db (snd (reopen now i actor db))"
proof -
  let ?db = "set_rows i (\<lambda>r. r\<lparr>t_status := ''pending'', t_completed_at := None,
    t_due_announced := None, t_overdue_announced := None, t_updated_at := now\<rparr>) db"
  have "wf_db ?db" by (rule wf_db_set_rows_shape [OF assms]) auto
  moreover have "snd (reopen now i actor db) = db \<or> same_tasks (snd (reopen now i actor db)) ?db"
  proof (cases "get_raw db i")
    case (Inr task)
    let ?db' = "log_activity now i actor ''reopened'' None ?db"
    from Inr show ?thesis
      by (cases "get_raw ?db' i") (auto simp: reopen_def Let_def same_tasks_def)
  qed (simp add: reopen_def)
  ultimately show ?thesis using assms wf_db_cong by metis
qed

section \<open>Deleting\<close>

lemma fold_delete_rows:
  "fold delete_rows ids db =
     db\<lparr>task_notes := filter (\<lambda>n. note_task n \<notin> set ids) (task_notes db),
        task_activity := filter (\<lambda>a. act_task a \<notin> set ids) (task_activity db),
        tasks := filter (\<lambda>t. t_id t \<notin> set ids) (tasks db)\<rparr>"
proof (induction ids arbitrary: db)
  case (Cons i ids)
  then show ?case by (simp add: delete_rows_def conj_commute)
qed simp

definition stripped :: "string \<Rightarrow> int set \<Rightarrow> task \<Rightarrow> task" where
  "stripped now gone r =
     (if \<exists>d \<in> set (t_depends_on r). d \<in> gone then (strip_deps gone r)\<lparr>t_updated_at := now\<rparr> else r)"

lemma stripped_shape: "shape (stripped now gone r) = shape (strip_deps gone r)"
  by (auto simp: stripped_def strip_deps_def filter_id_conv)

lemma stripped_links [simp]:
  "t_parent (stripped now gone r) = t_parent r"
  "t_depends_on (stripped now gone r) = filter (\<lambda>d. d \<notin> gone) (t_depends_on r)"
  using stripped_shape [of now gone r] by simp_all

lemma stripped_key [simp]:
  "t_id (stripped now gone r) = t_id r" "t_scope (stripped now gone r) = t_scope r"
  "t_scope_id (stripped now gone r) = t_scope_id r" "t_status (stripped now gone r) = t_status r"
  by (simp_all add: stripped_def strip_deps_def)

lemma strip_step:
  assumes dist: "distinct (map t_id (tasks db))" and t: "t \<in> set (tasks db)" "t_id t \<notin> set gone"
  shows "tasks (strip_dangling now gone t db) =
    map (\<lambda>r. if r = t then stripped now (set gone) r else r) (tasks db)"
proof (cases "\<exists>d \<in> set (t_depends_on t). d \<in> set gone")
  case True
  have "(if t_id r = t_id t then (strip_deps (set gone) t)\<lparr>t_scope := t_scope r,
      t_scope_id := t_scope_id r, t_created_at := t_created_at r, t_blocked := t_blocked r,
      t_updated_at := now\<rparr> else r) = (if r = t then stripped now (set gone) r else r)"
    if "r \<in> set (tasks db)" for r
  proof (cases "t_id r = t_id t")
    case same: True
    then have "r = t" using dist t that by (auto simp: distinct_map inj_on_def)
    then show ?thesis using True by (simp add: stripped_def strip_deps_def)
  qed auto
  with True t show ?thesis
    by (auto simp: strip_dangling_def list_ex_iff write_task_def)
next
  case False
  then have "stripped now (set gone) t = t" by (auto simp: stripped_def)
  then have "map (\<lambda>r. if r = t then stripped now (set gone) r else r) (tasks db) = tasks db"
    by (intro map_idI) auto
  with False t show ?thesis by (simp add: strip_dangling_def list_ex_iff)
qed

lemma fold_strip_dangling:
  assumes "distinct (map t_id (tasks db))" and "set ts \<subseteq> set (tasks db)" and "distinct (map t_id ts)"
    and "t_id ` set ts \<inter> set gone = {}"
  shows "tasks (fold (strip_dangling now gone) ts db) =
    map (\<lambda>r. if r \<in> set ts then stripped now (set gone) r else r) (tasks db)"
  using assms
proof (induction ts arbitrary: db)
  case Nil
  then show ?case by simp
next
  case (Cons t ts)
  let ?db = "strip_dangling now gone t db"
  have step: "tasks ?db = map (\<lambda>r. if r = t then stripped now (set gone) r else r) (tasks db)"
    using Cons.prems by (intro strip_step) auto
  have ids: "map t_id (tasks ?db) = map t_id (tasks db)" by (simp add: step)
  have other: "u \<noteq> t" "t_id u \<noteq> t_id t" if "u \<in> set ts" for u
    using Cons.prems(3) that by (auto simp: rev_image_eqI)
  then have "set ts \<subseteq> set (tasks ?db)"
    using Cons.prems(2) unfolding step by (fastforce simp: image_iff)
  then have "tasks (fold (strip_dangling now gone) ts ?db) =
      map (\<lambda>r. if r \<in> set ts then stripped now (set gone) r else r) (tasks ?db)"
    using Cons.prems by (intro Cons.IH) (auto simp: ids)
  also have "\<dots> = map (\<lambda>r. if r \<in> set (t # ts) then stripped now (set gone) r else r) (tasks db)"
    unfolding step list.map_comp
  proof (rule map_cong [OF refl], unfold comp_def)
    fix r assume "r \<in> set (tasks db)"
    have "stripped now (set gone) t \<notin> set ts" using other(2) by fastforce
    then show "(if (if r = t then stripped now (set gone) r else r) \<in> set ts
        then stripped now (set gone) (if r = t then stripped now (set gone) r else r)
        else if r = t then stripped now (set gone) r else r) =
      (if r \<in> set (t # ts) then stripped now (set gone) r else r)" using other(1) by auto
  qed
  finally show ?case by simp
qed

lemma strip_gone: "t_id t \<in> set gone \<Longrightarrow> strip_dangling now gone t db = db"
  by (simp add: strip_dangling_def)

lemma fold_strip_filter:
  "fold (strip_dangling now gone) ts db =
     fold (strip_dangling now gone) (filter (\<lambda>t. t_id t \<notin> set gone) ts) db"
  by (induction ts arbitrary: db) (auto simp: strip_gone)

text \<open>The rows a delete leaves: everything outside the subtree, without references into it.\<close>

lemma delete_rows_left:
  assumes wf: "wf_db db" and row: "lookup_task (tasks db) i = Some task"
  defines "sc \<equiv> load_scope db (t_scope task) (t_scope_id task)"
  defines "gone \<equiv> subtree_ids_from sc i"
  shows "tasks (snd (delete now i actor db)) =
      map (\<lambda>r. if r \<in> set sc then stripped now (set gone) r else r)
        (filter (\<lambda>r. t_id r \<notin> set gone) (tasks db))"
    and "fst (delete now i actor db) = Inr (length gone)"
    and "next_task (snd (delete now i actor db)) = next_task db"
    and "members (snd (delete now i actor db)) = members db"
proof -
  let ?db1 = "fold delete_rows gone db"
  let ?db2 = "fold (strip_dangling now gone) sc ?db1"
  have gone: "gone = subtree_walk sc [i] [i]" by (simp add: gone_def subtree_ids_from_def)
  have del: "delete now i actor db = (Inr (length gone),
      if events ?db2 \<noteq> None
      then emit_block_transitions sc (load_scope ?db2 (t_scope task) (t_scope_id task)) actor ?db2
      else ?db2)"
    using row by (simp add: delete_def get_raw_def Let_def gone sc_def)
  then show "fst (delete now i actor db) = Inr (length gone)" by simp
  have strip: "members (strip_dangling now gone t x) = members x"
    "next_task (strip_dangling now gone t x) = next_task x" for t x
    by (simp_all add: strip_dangling_def)
  have frame: "members ?db2 = members db" "next_task ?db2 = next_task db"
    by (simp_all add: fold_keeps [where p = members] fold_keeps [where p = next_task] strip
          fold_delete_rows)
  with del show "next_task (snd (delete now i actor db)) = next_task db"
    and "members (snd (delete now i actor db)) = members db" by simp_all
  let ?sc = "filter (\<lambda>t. t_id t \<notin> set gone) sc"
  have "tasks ?db2 = map (\<lambda>r. if r \<in> set ?sc then stripped now (set gone) r else r) (tasks ?db1)"
    unfolding fold_strip_filter [of now gone sc]
  proof (rule fold_strip_dangling)
    show "distinct (map t_id (tasks ?db1))"
      using wf_dbD(1) [OF wf] by (simp add: fold_delete_rows distinct_map_filter)
    show "distinct (map t_id ?sc)"
      using distinct_load_scope [OF wf] by (simp add: sc_def distinct_map_filter)
  qed (auto simp: fold_delete_rows sc_def in_load_scope)
  also have "\<dots> = map (\<lambda>r. if r \<in> set sc then stripped now (set gone) r else r)
        (filter (\<lambda>r. t_id r \<notin> set gone) (tasks db))"
    by (simp add: fold_delete_rows cong: map_cong)
  finally show "tasks (snd (delete now i actor db)) =
      map (\<lambda>r. if r \<in> set sc then stripped now (set gone) r else r)
        (filter (\<lambda>r. t_id r \<notin> set gone) (tasks db))"
    using del by simp
qed

lemma load_scope_map:
  assumes "tasks db = map f rs" and "\<And>r. t_scope (f r) = t_scope r"
    and "\<And>r. t_scope_id (f r) = t_scope_id r"
  shows "load_scope db s sid = map f (filter (\<lambda>r. t_scope r = s \<and> t_scope_id r = sid) rs)"
  by (simp add: load_scope_def assms filter_map o_def)

lemma wf_db_delete:
  assumes wf: "wf_db db"
  shows "wf_db (snd (delete now i actor db))"
proof (cases "lookup_task (tasks db) i")
  case None
  with wf show ?thesis by (simp add: delete_def get_raw_def)
next
  case (Some task)
  let ?sc = "load_scope db (t_scope task) (t_scope_id task)"
  let ?gone = "set (subtree_ids_from ?sc i)" and ?db = "snd (delete now i actor db)"
  note rows = delete_rows_left [OF wf Some, of now actor]
  have inside: "t_id r \<in> ?gone \<Longrightarrow> r \<in> set (tasks db) \<Longrightarrow> r \<in> set ?sc" for r
  proof -
    assume r: "t_id r \<in> ?gone" "r \<in> set (tasks db)"
    from r have "(i, t_id r) \<in> (child_rel ?sc)\<^sup>*" by (simp add: subtree.set_walk)
    then have "\<exists>u \<in> set ?sc. t_id u = t_id r"
    proof (cases rule: rtranclE)
      case base
      with lookup_task_Some [OF Some] show ?thesis
        by (intro bexI [of _ task]) (simp_all add: in_load_scope)
    next
      case (step y)
      then show ?thesis by (auto simp: child_rel_iff)
    qed
    then obtain u where "u \<in> set ?sc" "t_id u = t_id r" ..
    with r show ?thesis using row_unique [OF wf] by (auto simp: in_load_scope)
  qed
  have "wf_graph (load_scope ?db s sid)" for s sid
  proof (cases "s = t_scope task \<and> sid = t_scope_id task")
    case True
    have "load_scope ?db s sid = map (stripped now ?gone) (filter (\<lambda>r. t_id r \<notin> ?gone) ?sc)"
      using True by (subst load_scope_map [OF rows(1)])
        (auto simp: in_load_scope load_scope_def conj_commute intro!: map_cong filter_cong)
    then have sh: "map shape (load_scope ?db s sid) =
        map shape (map (strip_deps ?gone) (filter (\<lambda>r. t_id r \<notin> ?gone) ?sc))" by simp
    have "child_rel ?sc `` ?gone \<subseteq> ?gone" by (auto intro: subtree.walk_closed)
    then show ?thesis
      unfolding wf_graph_shape [OF sh] by (rule wf_graph_delete [OF wf_dbD(3) [OF wf]])
  next
    case False
    let ?f = "\<lambda>r. if r \<in> set ?sc then stripped now ?gone r else r"
    let ?in = "filter (\<lambda>r. t_scope r = s \<and> t_scope_id r = sid)"
    have "load_scope ?db s sid = map ?f (?in (filter (\<lambda>r. t_id r \<notin> ?gone) (tasks db)))"
      by (rule load_scope_map [OF rows(1)]) simp_all
    also have "\<dots> = ?in (filter (\<lambda>r. t_id r \<notin> ?gone) (tasks db))"
      using False by (intro map_idI) (auto simp: in_load_scope)
    also have "\<dots> = load_scope db s sid"
      unfolding filter_filter load_scope_def [of db s sid]
    proof (rule filter_cong [OF refl])
      fix r assume "r \<in> set (tasks db)"
      with inside [of r] False
      show "(t_id r \<notin> ?gone \<and> t_scope r = s \<and> t_scope_id r = sid) =
          (t_scope r = s \<and> t_scope_id r = sid)" unfolding in_load_scope by blast
    qed
    finally have "load_scope ?db s sid = load_scope db s sid" .
    with wf show ?thesis by (simp add: wf_dbD(3))
  qed
  moreover have ids: "map t_id (tasks ?db) = map t_id (filter (\<lambda>r. t_id r \<notin> ?gone) (tasks db))"
    by (simp add: rows(1))
  have "distinct (map t_id (tasks ?db))"
    unfolding ids using wf_dbD(1) [OF wf] by (simp add: distinct_map_filter)
  moreover have "t_id t < next_task ?db" if "t \<in> set (tasks ?db)" for t
  proof -
    from that have "t_id t \<in> set (map t_id (tasks ?db))" by simp
    then have "t_id t \<in> t_id ` set (tasks db)" unfolding ids by auto
    with wf show ?thesis by (auto simp: rows(3) dest: wf_dbD(2))
  qed
  ultimately show ?thesis by (simp add: wf_db_def)
qed

lemma wf_db_clear_loop:
  "wf_db db \<Longrightarrow> wf_db (snd (clear_loop now ts closed_only targets n db))"
proof (induction now ts closed_only targets n db rule: clear_loop.induct)
  case (2 now by_id closed_only t targets n db)
  obtain r db' where del: "delete now (t_id t) None db = (r, db')"
    by (cases "delete now (t_id t) None db")
  have "wf_db db'" using wf_db_delete [OF "2.prems", of now "t_id t" None] del by simp
  with 2 del show ?case by (auto split: sum.splits)
qed simp

lemma wf_db_clear: "wf_db db \<Longrightarrow> wf_db (snd (clear now s sid closed_only db))"
  by (simp add: clear_def Let_def wf_db_clear_loop)

section \<open>Time\<close>

lemma wf_db_announce_one: "wf_db (snd st) \<Longrightarrow> wf_db (snd (announce_one now t st))"
  by (cases st) (auto simp: announce_one_def Let_def intro!: wf_db_set_rows_shape)

lemma wf_db_announce_due:
  assumes "wf_db db"
  shows "wf_db (snd (announce_due now db))"
proof -
  have "wf_db (snd st) \<Longrightarrow> wf_db (snd (fold (announce_one now) ts st))" for ts st
    by (induction ts arbitrary: st) (simp_all add: wf_db_announce_one)
  with assms show ?thesis by (simp add: announce_due_def split: prod.split) (metis snd_conv)
qed

section \<open>Notes and imports\<close>

lemma wf_db_post: "wf_db db \<Longrightarrow> wf_db (snd (post now i author m kind content db))"
  by (auto simp: post_def Let_def wf_db_def load_scope_def split: sum.splits option.splits)

lemma wf_db_import_status: "wf_db db \<Longrightarrow> wf_db (snd (import_status now jp i status db))"
  using wf_db_complete [of db now i "Some import_actor" None]
    wf_db_update [of db now jp i "task_patch_default\<lparr>p_status := Some ''in_progress''\<rparr>"
      "Some import_actor"]
  by (auto simp: import_status_def split: sum.splits prod.splits)

lemma wf_db_import_loop: "wf_db db \<Longrightarrow> wf_db (snd (import_loop now jp sid index items n db))"
proof (induction now jp sid index items n db rule: import_loop.induct)
  case (2 now jp sid index title status items n db)
  obtain r db1 where cr: "create now jp (import_task sid title index) db = (r, db1)"
    by (cases "create now jp (import_task sid title index) db")
  have db1: "wf_db db1" using wf_db_create [OF "2.prems", of now jp "import_task sid title index"] cr by simp
  show ?case
  proof (cases "trim title = [] \<or> isl r")
    case True
    with 2 cr db1 show ?thesis by (cases r) auto
  next
    case False
    then obtain t where r: "r = Inr t" by (cases r) auto
    obtain u db2 where st: "import_status now jp (t_id t) status db1 = (u, db2)"
      by (cases "import_status now jp (t_id t) status db1")
    have "wf_db db2" using wf_db_import_status [OF db1, of now jp "t_id t" status] st by simp
    with 2 False r cr st show ?thesis by (cases u) auto
  qed
qed simp

lemma wf_db_import_v01: "wf_db db \<Longrightarrow> wf_db (snd (import_v01 now jp sid items db))"
  by (simp add: import_v01_def wf_db_import_loop)

end
