(* ===== verification/Store_Rows.thy ===== *)
theory Store_Rows
  imports Store_Delete
begin

text \<open>
  Properties of single rows that every operation keeps, as an interface: a predicate that
  survives each shape of write the repository makes holds of every row of every reachable store.
  Two predicates are shown to: the field bounds, and the agreement of status and completion stamp.
\<close>

section \<open>The interface\<close>

locale row_property =
  fixes ok :: "task \<Rightarrow> bool"
  assumes mixed: "ok t \<Longrightarrow> ok r \<Longrightarrow> t_id t = t_id r \<Longrightarrow>
      ok (t\<lparr>t_scope := t_scope r, t_scope_id := t_scope_id r, t_created_at := t_created_at r,
            t_blocked := t_blocked r, t_updated_at := now\<rparr>)"
    and finished: "ok t \<Longrightarrow>
      ok (t\<lparr>t_status := ''done'', t_completed_at := Some now, t_updated_at := now\<rparr>)"
    and cancelled: "ok t \<Longrightarrow> ok (t\<lparr>t_status := ''cancelled''\<rparr>)"
    and moved: "ok t \<Longrightarrow> ok (t\<lparr>t_parent := p\<rparr>)"
    and reopened: "ok t \<Longrightarrow> ok (t\<lparr>t_status := ''pending'', t_completed_at := None,
      t_due_announced := None, t_overdue_announced := None, t_updated_at := now\<rparr>)"
    and announced: "ok t \<Longrightarrow> ok (t\<lparr>t_due_announced := Some now\<rparr>)"
      "ok t \<Longrightarrow> ok (t\<lparr>t_overdue_announced := Some now\<rparr>)"
    and stripped: "ok t \<Longrightarrow> ok (strip_deps gone t)"
    and patched: "ok t \<Longrightarrow> apply_patch jp t patch = Inr (t', ch) \<Longrightarrow>
      validate_dates (t_due_at t') (t_deadline_at t') = Inr () \<Longrightarrow> ok t'"
    and created: "validate_new_task_fields new = Inr () \<Longrightarrow>
      admit_new_acceptance jp new = Inr new' \<Longrightarrow> ok (new_row now i new')"
begin

abbreviation rows_ok :: "db \<Rightarrow> bool" where
  "rows_ok db \<equiv> \<forall>t \<in> set (tasks db). ok t"

lemma rows_set_rows:
  "rows_ok db \<Longrightarrow> (\<And>r. r \<in> set (tasks db) \<Longrightarrow> t_id r = i \<Longrightarrow> ok r \<Longrightarrow> ok (f r)) \<Longrightarrow> rows_ok (set_rows i f db)"
  by auto

lemma rows_write_task: "rows_ok db \<Longrightarrow> ok t \<Longrightarrow> rows_ok (write_task now t db)"
  unfolding write_task_def by (rule rows_set_rows) (auto intro: mixed)

lemma rows_mark_done: "rows_ok db \<Longrightarrow> rows_ok (mark_done now i db)"
  unfolding mark_done_def by (rule rows_set_rows) (auto intro: finished)

lemma rows_scope: "rows_ok db \<Longrightarrow> \<forall>t \<in> set (load_scope db s sid). ok t"
  by (simp add: in_load_scope)

lemma rows_cascade_row:
  assumes "rows_ok (snd (snd st))" and "ok t"
  shows "rows_ok (snd (snd (cascade_row now task actor ts c t st)))"
proof -
  obtain seen queue db where st: "st = (seen, queue, db)" by (cases st)
  with assms have db: "rows_ok db" by simp
  have "rows_ok (write_task now (t\<lparr>t_parent := t_parent task\<rparr>) db)"
    by (rule rows_write_task [OF db moved [OF assms(2)]])
  moreover have "rows_ok (write_task now (t\<lparr>t_status := ''cancelled''\<rparr>) db)"
    by (rule rows_write_task [OF db cancelled [OF assms(2)]])
  ultimately show ?thesis using db by (simp add: st cascade_row_def)
qed

lemma rows_cascade_fold:
  "rows_ok (snd (snd st)) \<Longrightarrow> \<forall>t \<in> set us. ok t \<Longrightarrow>
     rows_ok (snd (snd (fold (cascade_row now task actor ts c) us st)))"
proof (induction us arbitrary: st)
  case (Cons t us)
  from Cons.prems(2) have "ok t" by simp
  from Cons.IH [OF rows_cascade_row [OF Cons.prems(1) this]] Cons.prems(2) show ?case by simp
qed simp

lemma rows_cascade_loop:
  "\<forall>t \<in> set ts. ok t \<Longrightarrow> rows_ok db \<Longrightarrow> rows_ok (cascade_loop now task actor ts queue seen db)"
proof (induction now task actor ts queue seen db rule: cascade_loop.induct)
  case (2 now task actor ts c queue seen db)
  obtain s q d where rows: "fold (cascade_row now task actor ts c) ts (seen, queue, db) = (s, q, d)"
    by (cases "fold (cascade_row now task actor ts c) ts (seen, queue, db)")
  have "rows_ok d"
    using rows_cascade_fold [of "(seen, queue, db)" ts now task actor ts c] "2.prems" rows by simp
  with "2.IH" [OF rows [symmetric] refl "2.prems"(1)] rows show ?case by simp
qed simp

lemma rows_update_effects:
  assumes "rows_ok db"
  shows "rows_ok (update_effects now t changed actor db)"
proof -
  have "rows_ok (cascade_cancel now t actor db')" if "tasks db' = tasks db" for db'
    unfolding cascade_cancel_def by (rule rows_cascade_loop) (use assms that in \<open>simp_all add: in_load_scope\<close>)
  from this [of db] this [of "log_activity now (t_id t) actor ''updated''
      (Some (JObj [(''fields'', JArr (map JStr changed))])) db"] assms
  show ?thesis by (simp add: update_effects_def Let_def)
qed

lemma rows_create:
  assumes "wf_db db" and "rows_ok db"
  shows "rows_ok (snd (create now jp new db))"
proof (cases rule: create_cases [OF assms(1), where now = now and jp = jp and new = new])
  case (2 new')
  have "ok (new_row now (next_task db) new')"
    by (rule created [OF create_check_ok(1,2) [OF 2(1)]])
  with 2(3) assms(2) show ?thesis by (simp add: Let_def)
qed (use assms(2) in simp)

lemma rows_update: "rows_ok db \<Longrightarrow> rows_ok (snd (update now jp i patch actor db))"
proof (cases rule: update_cases [of now jp i patch actor db])
  case (2 t changed)
  assume db: "rows_ok db"
  obtain task where task: "lookup_task (tasks db) i = Some task"
    and ok: "apply_patch jp task patch = Inr (t, changed)"
      "validate_dates (t_due_at t) (t_deadline_at t) = Inr ()"
    using 2(1) by (rule update_plan_ok)
  have "ok t" using patched [OF _ ok] lookup_task_Some [OF task] db by simp
  from rows_update_effects [OF rows_write_task [OF db this]] update_result [OF 2, of actor]
  show ?thesis by (auto simp: Let_def)
qed simp

lemma rows_auto_complete:
  "rows_ok db \<Longrightarrow> rows_ok (snd (auto_complete n now actor i ts current closed_ids acc db))"
proof (induction n now actor i ts current closed_ids acc db rule: auto_complete.induct)
  case (2 n now actor i ts current closed_ids acc db)
  then show ?case
    using rows_mark_done [OF "2.prems"] by (simp split: option.split)
qed simp

lemma rows_complete: "rows_ok db \<Longrightarrow> rows_ok (snd (complete now i actor detail db))"
proof (cases rule: complete_cases [of now i actor detail db])
  case (2 task acc db')
  assume "rows_ok db"
  from rows_auto_complete [of "log_activity now i actor ''completed'' detail (mark_done now i db)"]
    rows_mark_done [OF this] 2(4) have "rows_ok db'" by (metis log_activity_tasks(1) snd_conv)
  with 2(5) show ?thesis by (simp add: same_tasks_def)
qed simp

lemma rows_reopen: "rows_ok db \<Longrightarrow> rows_ok (snd (reopen now i actor db))"
proof -
  let ?db = "set_rows i (\<lambda>r. r\<lparr>t_status := ''pending'', t_completed_at := None,
    t_due_announced := None, t_overdue_announced := None, t_updated_at := now\<rparr>) db"
  assume db: "rows_ok db"
  have "rows_ok ?db" by (rule rows_set_rows [OF db]) (rule reopened)
  moreover have "tasks (snd (reopen now i actor db)) \<in> {tasks db, tasks ?db}"
    by (auto simp: reopen_def Let_def split: sum.split option.split)
  ultimately show ?thesis using db by auto
qed

lemma rows_delete: "wf_db db \<Longrightarrow> rows_ok db \<Longrightarrow> rows_ok (snd (delete now i actor db))"
proof (cases "lookup_task (tasks db) i")
  case None
  assume "rows_ok db"
  with None show ?thesis by (simp add: delete_def get_raw_def)
next
  case (Some task)
  assume wf: "wf_db db" and db: "rows_ok db"
  have "ok (stripped now g r)" if "ok r" for g r
    using mixed [OF stripped [OF that] that] that by (auto simp: stripped_def strip_deps_def)
  with db show ?thesis unfolding delete_rows_left(1) [OF wf Some] by auto
qed

lemma rows_clear_loop:
  "wf_db db \<Longrightarrow> rows_ok db \<Longrightarrow> rows_ok (snd (clear_loop now ts closed_only targets n db))"
proof (induction now ts closed_only targets n db rule: clear_loop.induct)
  case (2 now by_id closed_only t targets n db)
  obtain r db' where del: "delete now (t_id t) None db = (r, db')"
    by (cases "delete now (t_id t) None db")
  have "wf_db db'" "rows_ok db'"
    using wf_db_delete [OF "2.prems"(1), of now "t_id t" None] rows_delete [OF "2.prems", of now "t_id t" None]
      del by simp_all
  with 2 del show ?case by (auto split: sum.splits)
qed simp

lemma rows_announce_due:
  assumes db: "rows_ok db"
  shows "rows_ok (snd (announce_due now db))"
proof -
  have one: "rows_ok (snd (announce_one now t st))" if "rows_ok (snd st)" for t st
  proof -
    obtain a b db where st: "st = ((a, b), db)" by (metis prod.collapse)
    have due: "rows_ok (set_rows i (\<lambda>r. r\<lparr>t_due_announced := Some now\<rparr>) db)"
      and overdue: "rows_ok db' \<Longrightarrow> rows_ok (set_rows i (\<lambda>r. r\<lparr>t_overdue_announced := Some now\<rparr>) db')"
      if "rows_ok db" for db db' i
      using that by (auto intro!: rows_set_rows announced)
    from that st have "rows_ok db" by simp
    then show ?thesis
      using due [OF \<open>rows_ok db\<close>, of "t_id t"] overdue [OF \<open>rows_ok db\<close>, of db "t_id t"]
        overdue [OF \<open>rows_ok db\<close>, of "emit Due t None (JObj [(''due_at'', jstr_opt (t_due_at t))])
          (set_rows (t_id t) (\<lambda>r. r\<lparr>t_due_announced := Some now\<rparr>) db)" "t_id t"]
      by (simp add: st announce_one_def Let_def del: set_rows_fields(1))
  qed
  have many: "rows_ok (snd (fold (announce_one now) us st))" if "rows_ok (snd st)" for us st
    using that
  proof (induction us arbitrary: st)
    case (Cons u us)
    show ?case using Cons.IH [OF one [OF Cons.prems]] by simp
  qed simp
  obtain counts db' where
    run: "fold (announce_one now) (list_time_announcable db (day_of now)) ((0, 0), db) = (counts, db')"
    by (cases "fold (announce_one now) (list_time_announcable db (day_of now)) ((0, 0), db)")
  have "rows_ok db'" using many [of "((0, 0), db)" "list_time_announcable db (day_of now)"] db run
    by simp
  with run show ?thesis by (simp add: announce_due_def)
qed

lemma rows_import_loop:
  "wf_db db \<Longrightarrow> rows_ok db \<Longrightarrow> rows_ok (snd (import_loop now jp sid index items n db))"
proof (induction now jp sid index items n db rule: import_loop.induct)
  case (2 now jp sid index title status items n db)
  let ?new = "import_task sid title index"
  obtain r db1 where cr: "create now jp ?new db = (r, db1)" by (cases "create now jp ?new db")
  then have db1: "wf_db db1" "rows_ok db1"
    using wf_db_create [OF "2.prems"(1), of now jp ?new] rows_create [OF "2.prems", of now jp ?new] by simp_all
  show ?case
  proof (cases "trim title = [] \<or> isl r")
    case True
    with 2 cr db1 show ?thesis by (cases r) auto
  next
    case False
    then obtain t where r: "r = Inr t" by (cases r) auto
    obtain u db2 where st: "import_status now jp (t_id t) status db1 = (u, db2)"
      by (cases "import_status now jp (t_id t) status db1")
    have "wf_db db2" using wf_db_import_status [OF db1(1), of now jp "t_id t" status] st by simp
    moreover have "rows_ok (snd (import_status now jp (t_id t) status db1))"
      using rows_complete [OF db1(2), of now "t_id t" "Some import_actor" None] db1(2)
        rows_update [OF db1(2), of now jp "t_id t"
          "task_patch_default\<lparr>p_status := Some ''in_progress''\<rparr>" "Some import_actor"]
      by (auto simp: import_status_def split: sum.splits prod.splits)
    ultimately show ?thesis using 2 False r cr st by (cases u) auto
  qed
qed simp

lemma rows_clear: "wf_db db \<Longrightarrow> rows_ok db \<Longrightarrow> rows_ok (snd (clear now s sid closed_only db))"
  unfolding clear_def Let_def by (rule rows_clear_loop)

lemma rows_import: "wf_db db \<Longrightarrow> rows_ok db \<Longrightarrow> rows_ok (snd (import_v01 now jp sid items db))"
  using rows_import_loop [of db now jp sid 0 items 0] by (simp add: import_v01_def)

end

section \<open>The field bounds\<close>

definition valid_status :: "string \<Rightarrow> bool" where
  "valid_status s = (s \<in> {''pending'', ''in_progress'', ''cancelled'', ''done''})"

definition valid_fields :: "task \<Rightarrow> bool" where
  "valid_fields t = (is_ok (validate_scope (t_scope t) (t_scope_id t))
     \<and> is_ok (validate_title (t_title t)) \<and> is_ok (validate_priority (t_priority t))
     \<and> valid_status (t_status t) \<and> length (t_depends_on t) \<le> TASK_DEPS_MAX
     \<and> (case t_acceptance t of None \<Rightarrow> True | Some a \<Rightarrow> is_ok (validate_acceptance a)))"

definition valid_row :: "task \<Rightarrow> bool" where
  "valid_row t = (valid_fields t \<and> is_ok (validate_dates (t_due_at t) (t_deadline_at t)))"

lemma is_ok_unit: "is_ok (r :: ('e, unit) result) \<longleftrightarrow> r = Inr ()"
  by (cases r) auto

lemma admitted_valid: "admit_acceptance jp v = Inr c \<Longrightarrow> is_ok (validate_acceptance c)"
  by (simp add: admit_ok is_ok_unit)

lemma patch_field_inv:
  assumes "patch_field field step acc = Inr (t, ch)"
    and "\<And>v s u extra. field = Some v \<Longrightarrow> step v s = Inr (u, extra) \<Longrightarrow> Q s \<Longrightarrow> Q u"
    and "\<And>s ch0. acc = Inr (s, ch0) \<Longrightarrow> Q s"
  shows "Q t"
  using assms by (fastforce simp: patch_field_ok split: option.splits)

lemma valid_fields_simps [simp]:
  "valid_fields (t\<lparr>t_description := a\<rparr>) = valid_fields t"
  "valid_fields (t\<lparr>t_labels := b\<rparr>) = valid_fields t"
  "valid_fields (t\<lparr>t_tool_scope := b\<rparr>) = valid_fields t"
  "valid_fields (t\<lparr>t_due_at := a\<rparr>) = valid_fields t"
  "valid_fields (t\<lparr>t_deadline_at := a\<rparr>) = valid_fields t"
  "valid_fields (t\<lparr>t_due_announced := a\<rparr>) = valid_fields t"
  "valid_fields (t\<lparr>t_overdue_announced := a\<rparr>) = valid_fields t"
  "valid_fields (t\<lparr>t_recurrence := a\<rparr>) = valid_fields t"
  "valid_fields (t\<lparr>t_assignee := a\<rparr>) = valid_fields t"
  "valid_fields (t\<lparr>t_project := a\<rparr>) = valid_fields t"
  "valid_fields (t\<lparr>t_sort_order := n\<rparr>) = valid_fields t"
  "valid_fields (t\<lparr>t_completed_at := a\<rparr>) = valid_fields t"
  "valid_fields (t\<lparr>t_updated_at := c\<rparr>) = valid_fields t"
  "valid_fields (t\<lparr>t_parent := i\<rparr>) = valid_fields t"
  by (simp_all add: valid_fields_def)

lemma valid_status_update:
  "valid_status s \<Longrightarrow> valid_fields t \<Longrightarrow> valid_fields (t\<lparr>t_status := s\<rparr>)"
  by (simp add: valid_fields_def)

lemma apply_status_patch_result:
  assumes "apply_status_patch t patch = Inr (u, ch)"
  shows "u = t \<or> (\<exists>s c. valid_status s \<and> s \<noteq> ''done''
     \<and> (\<not> is_closed_status s \<longrightarrow> c = None) \<and> u = t\<lparr>t_status := s, t_completed_at := c\<rparr>)"
proof (cases "p_status patch")
  case None
  with assms show ?thesis by (simp add: apply_status_patch_def)
next
  case (Some s)
  let ?c = "if s \<noteq> ''cancelled'' then None else t_completed_at t"
  have three: "s = ''pending'' \<or> s = ''in_progress'' \<or> s = ''cancelled''"
  proof (rule ccontr)
    assume "\<not> ?thesis"
    with assms Some show False by (simp add: apply_status_patch_def split: if_split_asm)
  qed
  with assms Some have "u = t\<lparr>t_status := s, t_completed_at := ?c\<rparr>"
    by (simp only: apply_status_patch_def option.case if_True) simp
  moreover from three have "valid_status s" "s \<noteq> ''done''" "\<not> is_closed_status s \<longrightarrow> ?c = None"
    by (auto simp: valid_status_def)
  ultimately show ?thesis by blast
qed

lemma valid_status_patch:
  "apply_status_patch t patch = Inr (u, ch) \<Longrightarrow> valid_fields t \<Longrightarrow> valid_fields u"
  by (drule apply_status_patch_result) (auto simp: valid_status_update)

lemma valid_patch_acceptance:
  "patch_acceptance jp a t = Inr (u, ch) \<Longrightarrow> valid_fields t \<Longrightarrow> valid_fields u"
  by (auto simp: patch_acceptance_def valid_fields_def dest: admitted_valid
        split: option.splits sum.splits)

lemma valid_title: "validate_title s = Inr u \<Longrightarrow> valid_fields t \<Longrightarrow> valid_fields (t\<lparr>t_title := s\<rparr>)"
  by (simp add: valid_fields_def)

lemma valid_priority:
  "validate_priority n = Inr u \<Longrightarrow> valid_fields t \<Longrightarrow> valid_fields (t\<lparr>t_priority := n\<rparr>)"
  by (simp add: valid_fields_def)

lemma valid_deps:
  "length ds \<le> TASK_DEPS_MAX \<Longrightarrow> valid_fields t \<Longrightarrow> valid_fields (t\<lparr>t_depends_on := ds\<rparr>)"
  by (simp add: valid_fields_def)

lemma apply_patch_valid:
  assumes "apply_patch jp t patch = Inr (t', ch)" and "valid_fields t"
  shows "valid_fields t'"
  using assms(1) unfolding apply_patch_def Let_def
  by (elim patch_field_inv [where Q = valid_fields])
     (auto simp: bind_res_eq_Inr intro: valid_status_patch [OF _ assms(2)] valid_patch_acceptance
        valid_title valid_priority valid_deps)

lemma new_row_valid:
  assumes "validate_new_task_fields new = Inr ()" and "admit_new_acceptance jp new = Inr new'"
  shows "valid_row (new_row now i new')"
proof -
  have same: "n_scope new' = n_scope new" "n_scope_id new' = n_scope_id new" "n_title new' = n_title new"
    "n_priority new' = n_priority new" "n_depends_on new' = n_depends_on new"
    "n_due_at new' = n_due_at new" "n_deadline_at new' = n_deadline_at new"
    "case n_acceptance new' of None \<Rightarrow> True | Some a \<Rightarrow> is_ok (validate_acceptance a)"
    using assms(2)
    by (auto simp: admit_new_acceptance_def dest: admitted_valid split: option.splits sum.splits)
  then show ?thesis
    using assms(1)
    by (simp add: valid_row_def valid_fields_def new_row_def validate_new_task_fields_def
          bind_res_eq_Inr is_ok_unit valid_status_def)
qed

interpretation fields: row_property valid_row
proof unfold_locales
  show "valid_row t'" if "valid_row t" "apply_patch jp t patch = Inr (t', ch)"
    "validate_dates (t_due_at t') (t_deadline_at t') = Inr ()" for t jp patch t' ch
    using that apply_patch_valid by (auto simp: valid_row_def)
  show "valid_row (strip_deps gone t)" if "valid_row t" for t gone
    using that le_trans [OF length_filter_le] by (auto simp: valid_row_def valid_fields_def strip_deps_def)
  show "valid_row (new_row now i new')" if "validate_new_task_fields new = Inr ()"
    "admit_new_acceptance jp new = Inr new'" for new jp new' now i
    using that by (rule new_row_valid)
qed (auto simp: valid_row_def valid_fields_def valid_status_def)

section \<open>The completion stamp\<close>

definition stamp_ok :: "task \<Rightarrow> bool" where
  "stamp_ok t = ((t_status t = ''done'' \<longrightarrow> t_completed_at t \<noteq> None)
     \<and> (\<not> is_closed_status (t_status t) \<longrightarrow> t_completed_at t = None))"

lemma stamp_ok_simps [simp]:
  "stamp_ok (t\<lparr>t_title := c\<rparr>) = stamp_ok t"
  "stamp_ok (t\<lparr>t_priority := n\<rparr>) = stamp_ok t"
  "stamp_ok (t\<lparr>t_description := a\<rparr>) = stamp_ok t"
  "stamp_ok (t\<lparr>t_labels := b\<rparr>) = stamp_ok t"
  "stamp_ok (t\<lparr>t_tool_scope := b\<rparr>) = stamp_ok t"
  "stamp_ok (t\<lparr>t_due_at := a\<rparr>) = stamp_ok t"
  "stamp_ok (t\<lparr>t_deadline_at := a\<rparr>) = stamp_ok t"
  "stamp_ok (t\<lparr>t_due_announced := a\<rparr>) = stamp_ok t"
  "stamp_ok (t\<lparr>t_overdue_announced := a\<rparr>) = stamp_ok t"
  "stamp_ok (t\<lparr>t_recurrence := a\<rparr>) = stamp_ok t"
  "stamp_ok (t\<lparr>t_assignee := a\<rparr>) = stamp_ok t"
  "stamp_ok (t\<lparr>t_project := a\<rparr>) = stamp_ok t"
  "stamp_ok (t\<lparr>t_sort_order := n\<rparr>) = stamp_ok t"
  "stamp_ok (t\<lparr>t_parent := i\<rparr>) = stamp_ok t"
  "stamp_ok (t\<lparr>t_depends_on := ds\<rparr>) = stamp_ok t"
  "stamp_ok (t\<lparr>t_acceptance := j\<rparr>) = stamp_ok t"
  by (simp_all add: stamp_ok_def)

lemma stamp_ok_acceptance: "patch_acceptance jp a t = Inr (u, ch) \<Longrightarrow> stamp_ok t \<Longrightarrow> stamp_ok u"
  by (auto simp: patch_acceptance_def split: option.splits sum.splits)

lemma apply_patch_stamp:
  assumes "apply_patch jp t patch = Inr (t', ch)" and "stamp_ok t"
  shows "stamp_ok t'"
proof -
  have "stamp_ok u" if "apply_status_patch t patch = Inr (u, c)" for u c
    using apply_status_patch_result [OF that] assms(2) by (auto simp: stamp_ok_def)
  then show ?thesis
    using assms(1) unfolding apply_patch_def Let_def
    by (elim patch_field_inv [where Q = stamp_ok])
       (auto simp: bind_res_eq_Inr intro: stamp_ok_acceptance)
qed

interpretation stamps: row_property stamp_ok
proof unfold_locales
  show "stamp_ok t'" if "stamp_ok t" "apply_patch jp t patch = Inr (t', ch)" for t jp patch t' ch
    using that apply_patch_stamp by blast
qed (auto simp: stamp_ok_def is_closed_status_def strip_deps_def new_row_def)

end
