(* ===== verification/Members.thy ===== *)
theory Members
  imports Task_Model "HOL-Library.Product_Lexorder"
begin

text \<open>
  The board's members (\<open>members.rs\<close>): the repository's operations on the roster, the bounds
  of a member's fields, and the invariant they keep. The printer of a profile is \<open>ser\<close>,
  \<open>serde_json::to_string\<close>.
\<close>

section \<open>Bounds and ids\<close>

definition HUMAN_MEMBER_ID :: string where "HUMAN_MEMBER_ID = ''human''"
definition ROUTER_MEMBER_PREFIX :: string where "ROUTER_MEMBER_PREFIX = ''router:''"
definition ROUTER_GLOBAL_MEMBER_ID :: string where "ROUTER_GLOBAL_MEMBER_ID = ''router:global''"
definition MEMBER_ID_MAX_BYTES :: nat where "MEMBER_ID_MAX_BYTES = 128"
definition MEMBER_NAME_MAX_BYTES :: nat where "MEMBER_NAME_MAX_BYTES = 200"
definition MEMBER_AVATAR_MAX_BYTES :: nat where "MEMBER_AVATAR_MAX_BYTES = 512"
definition MEMBER_PROFILE_MAX_BYTES :: nat where "MEMBER_PROFILE_MAX_BYTES = 8 * 1024"
definition MEMBERS_MAX :: nat where "MEMBERS_MAX = 1000"

definition router_member_id :: "string option \<Rightarrow> string" where
  "router_member_id workspace_id = (case workspace_id of
     None \<Rightarrow> ROUTER_GLOBAL_MEMBER_ID | Some i \<Rightarrow> ROUTER_MEMBER_PREFIX @ i)"

definition is_protected_member :: "string \<Rightarrow> bool" where
  "is_protected_member i = (i = HUMAN_MEMBER_ID \<or> starts_with i ROUTER_MEMBER_PREFIX)"

definition validate_member ::
  "string \<Rightarrow> string \<Rightarrow> string option \<Rightarrow> string \<Rightarrow> (invalid, unit) result" where
  "validate_member i name avatar profile_json =
     (if i = [] then Inl MemberIdEmpty
      else if MEMBER_ID_MAX_BYTES < byte_len i then Inl (MemberIdTooLong (byte_len i))
      else if trim name = [] then Inl MemberNameEmpty
      else if MEMBER_NAME_MAX_BYTES < byte_len name then Inl (MemberNameTooLong (byte_len name))
      else if (case avatar of None \<Rightarrow> False | Some a \<Rightarrow> MEMBER_AVATAR_MAX_BYTES < byte_len a)
      then Inl (AvatarTooLong (byte_len (the avatar)))
      else if MEMBER_PROFILE_MAX_BYTES < byte_len profile_json
      then Inl (ProfileTooLong (byte_len profile_json))
      else Inr ())"

section \<open>Operations\<close>

definition find_member :: "db \<Rightarrow> string \<Rightarrow> member option" where
  "find_member db i = find (\<lambda>m. m_id m = i) (members db)"

definition member_of_new :: "string \<Rightarrow> new_member \<Rightarrow> member" where
  "member_of_new now new = \<lparr>m_id = nm_id new, m_name = nm_name new, m_avatar = nm_avatar new,
     m_kind = nm_kind new, m_owner_kind = nm_owner_kind new, m_owner_id = nm_owner_id new,
     m_status = nm_status new, m_profile = nm_profile new, m_created_at = now,
     m_updated_at = now\<rparr>"

definition member_create :: "string \<Rightarrow> json_printer \<Rightarrow> new_member \<Rightarrow> member op" where
  "member_create now ser new db =
     (case validate_member (nm_id new) (nm_name new) (nm_avatar new) (ser (nm_profile new)) of
        Inl e \<Rightarrow> (Inl (Invalid e), db)
      | Inr _ \<Rightarrow>
          if MEMBERS_MAX \<le> length (members db) then (Inl (Invalid MemberLimit), db)
          else if find_member db (nm_id new) \<noteq> None
          then (Inl (Invalid (MemberExists (nm_id new))), db)
          else (let db = db\<lparr>members := members db @ [member_of_new now new]\<rparr>
            in (case find_member db (nm_id new) of
                  None \<Rightarrow> (Inl (NotFound (NoMember (nm_id new))), db)
                | Some m \<Rightarrow> (Inr m, db))))"

definition member_get :: "db \<Rightarrow> string \<Rightarrow> (storage_error, member) result" where
  "member_get db i = (case find_member db i of
     None \<Rightarrow> Inl (NotFound (NoMember i)) | Some m \<Rightarrow> Inr m)"

definition member_exists :: "db \<Rightarrow> string \<Rightarrow> bool" where
  "member_exists db i = (find_member db i \<noteq> None)"

definition member_list :: "db \<Rightarrow> member list" where
  "member_list db = sort_key (\<lambda>m. (m_created_at m, m_id m)) (members db)"

text \<open>\<open>owner_id IS ?1\<close> compares \<open>NULL\<close> with \<open>NULL\<close> as equal.\<close>

definition list_for_workspace :: "db \<Rightarrow> string option \<Rightarrow> member list" where
  "list_for_workspace db workspace_id =
     sort_key (\<lambda>m. (m_created_at m, m_id m))
       (filter (\<lambda>m. m_owner_kind m = OHuman
          \<or> m_owner_kind m = OWorkspace \<and> m_owner_id m = workspace_id) (members db))"

definition unwrap_or :: "'a option \<Rightarrow> 'a \<Rightarrow> 'a" where
  "unwrap_or v d = (case v of None \<Rightarrow> d | Some x \<Rightarrow> x)"

definition set_members :: "string \<Rightarrow> (member \<Rightarrow> member) \<Rightarrow> db \<Rightarrow> db" where
  "set_members i f db = db\<lparr>members := map (\<lambda>m. if m_id m = i then f m else m) (members db)\<rparr>"

definition member_update :: "string \<Rightarrow> json_printer \<Rightarrow> string \<Rightarrow> member_patch \<Rightarrow> member op" where
  "member_update now ser i patch db =
     (case find_member db i of
        None \<Rightarrow> (Inl (NotFound (NoMember i)), db)
      | Some current \<Rightarrow>
          (let name = unwrap_or (mp_name patch) (m_name current);
               avatar = unwrap_or (mp_avatar patch) (m_avatar current);
               owner_id = unwrap_or (mp_owner_id patch) (m_owner_id current);
               status = unwrap_or (mp_status patch) (m_status current);
               profile = unwrap_or (mp_profile patch) (m_profile current)
           in case validate_member i name avatar (ser profile) of
                Inl e \<Rightarrow> (Inl (Invalid e), db)
              | Inr _ \<Rightarrow>
                  (let db = set_members i (\<lambda>m. m\<lparr>m_name := name, m_avatar := avatar,
                         m_owner_id := owner_id, m_status := status, m_profile := profile,
                         m_updated_at := now\<rparr>) db
                   in (case find_member db i of
                         None \<Rightarrow> (Inl (NotFound (NoMember i)), db)
                       | Some m \<Rightarrow> (Inr m, db)))))"

text \<open>The count of rows a statement changed is the count of rows its predicate selects.\<close>

definition set_status :: "string \<Rightarrow> string \<Rightarrow> member_status \<Rightarrow> unit op" where
  "set_status now i status db =
     (let affected = length (filter (\<lambda>m. m_id m = i) (members db));
          db = set_members i (\<lambda>m. m\<lparr>m_status := status, m_updated_at := now\<rparr>) db
      in if affected = 0 then (Inl (NotFound (NoMember i)), db) else (Inr (), db))"

definition member_delete :: "string \<Rightarrow> bool op" where
  "member_delete i db =
     (if is_protected_member i then (Inl (Invalid (ProtectedMember i)), db)
      else (let affected = length (filter (\<lambda>m. m_id m = i) (members db))
        in (Inr (0 < affected), db\<lparr>members := filter (\<lambda>m. m_id m \<noteq> i) (members db)\<rparr>)))"

definition ensure_router :: "string \<Rightarrow> json_printer \<Rightarrow> string option \<Rightarrow> member op" where
  "ensure_router now ser workspace_id db =
     (let i = router_member_id workspace_id in
      case find_member db i of
        Some m \<Rightarrow> (Inr m, db)
      | None \<Rightarrow> member_create now ser
          \<lparr>nm_id = i, nm_name = ''Task Router'', nm_avatar = None, nm_kind = MAgent,
           nm_owner_kind = OWorkspace, nm_owner_id = workspace_id, nm_status = Idle,
           nm_profile = JObj [(''role'', JStr ''router'')]\<rparr> db)"

definition member_count :: "db \<Rightarrow> nat" where
  "member_count db = length (members db)"

section \<open>The rows the migration seeds\<close>

definition seeded_human :: "string \<Rightarrow> member" where
  "seeded_human now = \<lparr>m_id = ''human'', m_name = ''You'', m_avatar = None, m_kind = MHuman,
     m_owner_kind = OHuman, m_owner_id = None, m_status = Idle, m_profile = JObj [],
     m_created_at = now, m_updated_at = now\<rparr>"

definition seeded_router :: "string \<Rightarrow> member" where
  "seeded_router now = \<lparr>m_id = ''router:global'', m_name = ''Task Router'', m_avatar = None,
     m_kind = MAgent, m_owner_kind = OWorkspace, m_owner_id = None, m_status = Idle,
     m_profile = JObj [(''role'', JStr ''router'')], m_created_at = now, m_updated_at = now\<rparr>"

definition seeded_db :: "string \<Rightarrow> task_event list option \<Rightarrow> db" where
  "seeded_db now sink = empty_db\<lparr>members := [seeded_human now, seeded_router now], events := sink\<rparr>"

section \<open>Facts\<close>

lemma find_member_Some: "find_member db i = Some m \<Longrightarrow> m \<in> set (members db) \<and> m_id m = i"
  by (auto simp: find_member_def find_Some_iff)

lemma find_member_None: "find_member db i = None \<longleftrightarrow> i \<notin> m_id ` set (members db)"
  by (auto simp: find_member_def find_None_iff)

lemma find_member_cong: "members a = members b \<Longrightarrow> find_member a i = find_member b i"
  by (simp add: find_member_def)

lemma find_member_appended:
  "i \<notin> m_id ` set ms \<Longrightarrow> m_id m = i \<Longrightarrow> find (\<lambda>m. m_id m = i) (ms @ [m]) = Some m"
  by (induction ms) auto

lemma set_members_fields [simp]:
  "members (set_members i f db) = map (\<lambda>m. if m_id m = i then f m else m) (members db)"
  "tasks (set_members i f db) = tasks db" "next_task (set_members i f db) = next_task db"
  by (simp_all add: set_members_def)

definition member_ok :: "json_printer \<Rightarrow> member \<Rightarrow> bool" where
  "member_ok ser m = is_ok (validate_member (m_id m) (m_name m) (m_avatar m) (ser (m_profile m)))"

text \<open>The roster: unique ids, bounded fields, bounded length, and the members the board needs.\<close>

definition roster_ok :: "json_printer \<Rightarrow> member list \<Rightarrow> bool" where
  "roster_ok ser ms \<longleftrightarrow> distinct (map m_id ms) \<and> (\<forall>m \<in> set ms. member_ok ser m)
     \<and> length ms \<le> MEMBERS_MAX"

lemma roster_append:
  assumes "roster_ok ser ms" and "m_id m \<notin> m_id ` set ms" and "member_ok ser m"
    and "length ms < MEMBERS_MAX"
  shows "roster_ok ser (ms @ [m])"
  using assms by (auto simp: roster_ok_def)

lemma roster_map:
  assumes "roster_ok ser ms" and "\<And>m. m \<in> set ms \<Longrightarrow> m_id (f m) = m_id m"
    and "\<And>m. m \<in> set ms \<Longrightarrow> member_ok ser m \<Longrightarrow> member_ok ser (f m)"
  shows "roster_ok ser (map f ms)"
proof -
  have "map m_id (map f ms) = map m_id ms" using assms(2) by simp
  with assms(1) have "distinct (map m_id (map f ms))" by (simp only: roster_ok_def)
  moreover have "\<forall>m \<in> set (map f ms). member_ok ser m" using assms by (auto simp: roster_ok_def)
  ultimately show ?thesis using assms(1) by (simp only: roster_ok_def length_map)
qed

lemma ids_map: "(\<And>m. m_id (f m) = m_id m) \<Longrightarrow> m_id ` set (map f ms) = m_id ` set ms"
  by (induction ms) auto

lemma roster_filter: "roster_ok ser ms \<Longrightarrow> roster_ok ser (filter p ms)"
  unfolding roster_ok_def
  by (auto simp: distinct_map_filter intro: le_trans [OF length_filter_le])

lemma member_create_cases:
  obtains e where "member_create now ser new db = (Inl e, db)"
  | "member_ok ser (member_of_new now new)" and "length (members db) < MEMBERS_MAX"
      and "nm_id new \<notin> m_id ` set (members db)"
      and "member_create now ser new db =
        (Inr (member_of_new now new), db\<lparr>members := members db @ [member_of_new now new]\<rparr>)"
proof (cases "validate_member (nm_id new) (nm_name new) (nm_avatar new) (ser (nm_profile new))")
  case (Inl e)
  then show ?thesis using that(1) by (simp add: member_create_def)
next
  case (Inr u)
  show ?thesis
  proof (cases "MEMBERS_MAX \<le> length (members db) \<or> find_member db (nm_id new) \<noteq> None")
    case True
    then have "\<exists>e. member_create now ser new db = (Inl e, db)"
      using Inr by (auto simp: member_create_def)
    with that(1) show ?thesis by blast
  next
    case False
    then have fresh: "nm_id new \<notin> m_id ` set (members db)" by (simp add: find_member_None)
    have "find_member (db\<lparr>members := members db @ [member_of_new now new]\<rparr>) (nm_id new)
        = Some (member_of_new now new)"
      using find_member_appended [OF fresh] by (simp add: find_member_def member_of_new_def)
    with Inr False have "member_create now ser new db =
        (Inr (member_of_new now new), db\<lparr>members := members db @ [member_of_new now new]\<rparr>)"
      by (simp add: member_create_def Let_def)
    moreover have "member_ok ser (member_of_new now new)"
      using Inr by (simp add: member_ok_def member_of_new_def)
    ultimately show ?thesis using that(2) False fresh by simp
  qed
qed

lemma roster_create:
  assumes "roster_ok ser (members db)"
  shows "roster_ok ser (members (snd (member_create now ser new db)))"
    and "set (members db) \<subseteq> set (members (snd (member_create now ser new db)))"
proof -
  have "roster_ok ser (members (snd (member_create now ser new db)))
      \<and> set (members db) \<subseteq> set (members (snd (member_create now ser new db)))"
  proof (cases rule: member_create_cases [of now ser new db])
    case (1 e)
    with assms show ?thesis by simp
  next
    case 2
    have "m_id (member_of_new now new) \<notin> m_id ` set (members db)"
      using 2(3) by (simp add: member_of_new_def)
    from roster_append [OF assms this 2(1,2)] 2(4) show ?thesis by auto
  qed
  then show "roster_ok ser (members (snd (member_create now ser new db)))"
    and "set (members db) \<subseteq> set (members (snd (member_create now ser new db)))" by blast+
qed

lemma roster_router:
  assumes "roster_ok ser (members db)"
  shows "roster_ok ser (members (snd (ensure_router now ser w db)))"
    and "set (members db) \<subseteq> set (members (snd (ensure_router now ser w db)))"
  using roster_create [OF assms] assms
  by (auto simp: ensure_router_def Let_def split: option.split)

lemma roster_update:
  assumes ok: "roster_ok ser (members db)"
  shows "roster_ok ser (members (snd (member_update now ser i patch db)))"
    and "m_id ` set (members (snd (member_update now ser i patch db))) = m_id ` set (members db)"
proof -
  have "roster_ok ser (members (snd (member_update now ser i patch db)))
      \<and> m_id ` set (members (snd (member_update now ser i patch db))) = m_id ` set (members db)"
  proof (cases "find_member db i")
    case None
    with ok show ?thesis by (simp add: member_update_def)
  next
    case (Some current)
    let ?name = "unwrap_or (mp_name patch) (m_name current)"
    let ?avatar = "unwrap_or (mp_avatar patch) (m_avatar current)"
    let ?profile = "unwrap_or (mp_profile patch) (m_profile current)"
    let ?f = "\<lambda>m. m\<lparr>m_name := ?name, m_avatar := ?avatar,
        m_owner_id := unwrap_or (mp_owner_id patch) (m_owner_id current),
        m_status := unwrap_or (mp_status patch) (m_status current), m_profile := ?profile,
        m_updated_at := now\<rparr>"
    show ?thesis
    proof (cases "validate_member i ?name ?avatar (ser ?profile)")
      case (Inl e)
      with Some ok show ?thesis by (simp add: member_update_def)
    next
      case (Inr u)
      have "members (snd (member_update now ser i patch db)) =
          map (\<lambda>m. if m_id m = i then ?f m else m) (members db)"
        using Some Inr by (simp add: member_update_def Let_def split: option.split)
      moreover have "roster_ok ser (map (\<lambda>m. if m_id m = i then ?f m else m) (members db))"
        by (rule roster_map [OF ok]) (use Inr in \<open>auto simp: member_ok_def\<close>)
      moreover have "map m_id (map (\<lambda>m. if m_id m = i then ?f m else m) (members db))
          = map m_id (members db)" by simp
      ultimately show ?thesis by (metis list.set_map)
    qed
  qed
  then show "roster_ok ser (members (snd (member_update now ser i patch db)))"
    and "m_id ` set (members (snd (member_update now ser i patch db))) = m_id ` set (members db)"
    by blast+
qed

lemma roster_set_status:
  assumes "roster_ok ser (members db)"
  shows "roster_ok ser (members (snd (set_status now i st db)))"
    and "m_id ` set (members (snd (set_status now i st db))) = m_id ` set (members db)"
proof -
  let ?f = "\<lambda>m. if m_id m = i then m\<lparr>m_status := st, m_updated_at := now\<rparr> else m"
  have "members (snd (set_status now i st db)) = map ?f (members db)"
    by (simp add: set_status_def Let_def)
  moreover have "roster_ok ser (map ?f (members db))"
    by (rule roster_map [OF assms]) (auto simp: member_ok_def)
  moreover have "m_id ` set (map ?f (members db)) = m_id ` set (members db)"
    by (rule ids_map) simp
  ultimately show "roster_ok ser (members (snd (set_status now i st db)))"
    and "m_id ` set (members (snd (set_status now i st db))) = m_id ` set (members db)"
    by simp_all
qed

lemma roster_delete:
  assumes "roster_ok ser (members db)"
  shows "roster_ok ser (members (snd (member_delete i db)))"
    and "is_protected_member j \<Longrightarrow> j \<in> m_id ` set (members db) \<Longrightarrow>
      j \<in> m_id ` set (members (snd (member_delete i db)))"
  using roster_filter [OF assms] assms by (auto simp: member_delete_def)

lemma seeded_roster:
  "byte_len (ser (JObj [])) \<le> MEMBER_PROFILE_MAX_BYTES \<Longrightarrow>
   byte_len (ser (JObj [(''role'', JStr ''router'')])) \<le> MEMBER_PROFILE_MAX_BYTES \<Longrightarrow>
   roster_ok ser (members (seeded_db now sink))"
  by (simp add: seeded_db_def roster_ok_def member_ok_def validate_member_def seeded_human_def
        seeded_router_def MEMBERS_MAX_def MEMBER_ID_MAX_BYTES_def MEMBER_NAME_MAX_BYTES_def
        utf8_len_def code_def trim_def trim_start_def trim_end_def is_whitespace_def)

end
