(* ===== verification/Store_Reachable.thy ===== *)
theory Store_Reachable
  imports Store_Rows Members
begin

text \<open>
  The store as a transition system: every public operation of the two repositories is a step,
  with any arguments and at any time of the clock, failed calls included. What holds in every
  reachable state.
\<close>

section \<open>Task operations leave the roster alone\<close>

lemma cascade_row_members [simp]:
  "members (snd (snd (cascade_row now task actor ts c t st))) = members (snd (snd st))"
  by (cases st) (simp add: cascade_row_def)

lemma cascade_loop_members [simp]:
  "members (cascade_loop now task actor ts queue seen db) = members db"
proof (induction now task actor ts queue seen db rule: cascade_loop.induct)
  case (2 now task actor ts c queue seen db)
  obtain s q d where rows: "fold (cascade_row now task actor ts c) ts (seen, queue, db) = (s, q, d)"
    by (cases "fold (cascade_row now task actor ts c) ts (seen, queue, db)")
  have "members d = members db"
    using fold_keeps [where p = "\<lambda>st. members (snd (snd st))" and f = "cascade_row now task actor ts c"
        and xs = ts and s = "(seen, queue, db)"] rows by simp
  with "2.IH" [OF rows [symmetric] refl] rows show ?case by simp
qed simp

lemma cascade_cancel_members [simp]: "members (cascade_cancel now t actor db) = members db"
  by (simp add: cascade_cancel_def del: cascade_loop.simps)

lemma create_members [simp]: "members (snd (create now jp new db)) = members db"
  by (simp add: create_def create_insert_def Let_def split: sum.split option.split)

lemma update_members [simp]: "members (snd (update now jp i patch actor db)) = members db"
proof (cases rule: update_cases [of now jp i patch actor db])
  case (2 t changed)
  from update_result [OF 2, of actor] show ?thesis
    by (auto simp: Let_def update_effects_def)
qed simp

lemma auto_complete_members [simp]:
  "members (snd (auto_complete n now actor i ts current closed_ids acc db)) = members db"
  by (induction n now actor i ts current closed_ids acc db rule: auto_complete.induct)
     (simp_all split: option.split)

lemma complete_members [simp]: "members (snd (complete now i actor detail db)) = members db"
proof (cases rule: complete_cases [of now i actor detail db])
  case (2 task acc db')
  have "members db' = members db"
    using auto_complete_members [of TASK_DEPTH_MAX now actor i
        "load_scope db (t_scope task) (t_scope_id task)" "t_parent task"
        "i # map t_id (filter (\<lambda>t. is_closed_status (t_status t))
           (load_scope db (t_scope task) (t_scope_id task)))" "[]"
        "log_activity now i actor ''completed'' detail (mark_done now i db)"] 2(4) by simp
  with 2(6) show ?thesis by simp
qed simp

lemma reopen_members [simp]: "members (snd (reopen now i actor db)) = members db"
  by (simp add: reopen_def Let_def split: sum.split option.split)

lemma post_members [simp]: "members (snd (post now i author m kind content db)) = members db"
  by (simp add: post_def Let_def split: sum.split option.split)

lemma strip_dangling_members [simp]: "members (strip_dangling now gone t db) = members db"
  by (simp add: strip_dangling_def)

lemma delete_members [simp]: "members (snd (delete now i actor db)) = members db"
  by (simp add: delete_def Let_def fold_keeps [where p = members] fold_delete_rows split: sum.split)

lemma clear_loop_members [simp]:
  "members (snd (clear_loop now ts closed_only targets n db)) = members db"
proof (induction now ts closed_only targets n db rule: clear_loop.induct)
  case (2 now by_id closed_only t targets n db)
  obtain r db' where del: "delete now (t_id t) None db = (r, db')"
    by (cases "delete now (t_id t) None db")
  have "members db' = members db" using delete_members [of now "t_id t" None db] del by simp
  with 2 del show ?case by (auto split: sum.splits)
qed simp

lemma clear_members [simp]: "members (snd (clear now s sid closed_only db)) = members db"
  by (simp add: clear_def Let_def)

lemma announce_one_members [simp]: "members (snd (announce_one now t st)) = members (snd st)"
  by (cases st) (auto simp: announce_one_def Let_def)

lemma announce_members [simp]: "members (snd (announce_due now db)) = members db"
proof -
  have "members (snd (fold (announce_one now) us st)) = members (snd st)" for us st
    by (induction us arbitrary: st) simp_all
  from this [of "list_time_announcable db (day_of now)" "((0, 0), db)"]
  show ?thesis
    by (cases "fold (announce_one now) (list_time_announcable db (day_of now)) ((0, 0), db)")
       (simp add: announce_due_def)
qed

lemma import_status_members [simp]: "members (snd (import_status now jp i status db)) = members db"
proof -
  let ?done = "complete now i (Some import_actor) None db"
  let ?go = "update now jp i (task_patch_default\<lparr>p_status := Some ''in_progress''\<rparr>) (Some import_actor) db"
  obtain a x b y where eq: "?done = (a, x)" "?go = (b, y)" by (cases ?done; cases ?go)
  then have "members x = members db" "members y = members db"
    using complete_members [of now i "Some import_actor" None db]
      update_members [of now jp i "task_patch_default\<lparr>p_status := Some ''in_progress''\<rparr>"
        "Some import_actor" db] by simp_all
  with eq show ?thesis by (simp add: import_status_def split: sum.split)
qed

lemma import_loop_members [simp]:
  "members (snd (import_loop now jp sid index items n db)) = members db"
proof (induction now jp sid index items n db rule: import_loop.induct)
  case (2 now jp sid index title status items n db)
  let ?new = "import_task sid title index"
  obtain r db1 where cr: "create now jp ?new db = (r, db1)" by (cases "create now jp ?new db")
  then have db1: "members db1 = members db" using create_members [of now jp ?new db] by simp
  show ?case
  proof (cases "trim title = [] \<or> isl r")
    case True
    with 2 cr db1 show ?thesis by (cases r) auto
  next
    case False
    then obtain t where r: "r = Inr t" by (cases r) auto
    obtain u db2 where st: "import_status now jp (t_id t) status db1 = (u, db2)"
      by (cases "import_status now jp (t_id t) status db1")
    have "members db2 = members db1"
      using import_status_members [of now jp "t_id t" status db1] st by simp
    with 2 False r cr st db1 show ?thesis by (cases u) auto
  qed
qed simp

lemma import_members [simp]: "members (snd (import_v01 now jp sid items db)) = members db"
  by (simp add: import_v01_def)

section \<open>Steps\<close>

inductive store_step :: "json_parser \<Rightarrow> json_printer \<Rightarrow> db \<Rightarrow> db \<Rightarrow> bool" for jp ser where
  create: "store_step jp ser db (snd (create now jp new db))"
| update: "store_step jp ser db (snd (update now jp i patch actor db))"
| complete: "store_step jp ser db (snd (complete now i actor detail db))"
| reopen: "store_step jp ser db (snd (reopen now i actor db))"
| post: "store_step jp ser db (snd (post now i author member_id kind content db))"
| log: "store_step jp ser db (log_activity now i actor action detail db)"
| delete: "store_step jp ser db (snd (delete now i actor db))"
| clear: "store_step jp ser db (snd (clear now scope scope_id closed_only db))"
| announce: "store_step jp ser db (snd (announce_due now db))"
| import_list: "store_step jp ser db (snd (import_v01 now jp session_id items db))"
| member_create: "store_step jp ser db (snd (member_create now ser new_m db))"
| member_update: "store_step jp ser db (snd (member_update now ser member_id mpatch db))"
| member_status: "store_step jp ser db (snd (set_status now member_id mstatus db))"
| member_delete: "store_step jp ser db (snd (member_delete member_id db))"
| router: "store_step jp ser db (snd (ensure_router now ser workspace_id db))"

inductive reachable :: "json_parser \<Rightarrow> json_printer \<Rightarrow> db \<Rightarrow> bool" for jp ser where
  init: "reachable jp ser (seeded_db now sink)"
| step: "reachable jp ser db \<Longrightarrow> store_step jp ser db db' \<Longrightarrow> reachable jp ser db'"

lemma member_ops_tasks:
  "tasks (snd (member_create now ser new db)) = tasks db"
  "next_task (snd (member_create now ser new db)) = next_task db"
  "tasks (snd (member_update now ser i patch db)) = tasks db"
  "next_task (snd (member_update now ser i patch db)) = next_task db"
  "tasks (snd (set_status now i st db)) = tasks db"
  "next_task (snd (set_status now i st db)) = next_task db"
  "tasks (snd (member_delete i db)) = tasks db"
  "next_task (snd (member_delete i db)) = next_task db"
  by (simp_all add: member_create_def member_update_def set_status_def member_delete_def Let_def
        split: sum.split option.split)

lemma ensure_router_tasks:
  "tasks (snd (ensure_router now ser w db)) = tasks db"
  "next_task (snd (ensure_router now ser w db)) = next_task db"
  by (simp_all add: ensure_router_def Let_def member_ops_tasks split: option.split)

lemma post_tasks:
  "tasks (snd (post now i author m kind content db)) = tasks db"
  "next_task (snd (post now i author m kind content db)) = next_task db"
  by (simp_all add: post_def Let_def split: sum.split option.split)

lemmas quiet_ops = member_ops_tasks ensure_router_tasks post_tasks log_activity_tasks

lemma wf_db_quiet: "wf_db db \<Longrightarrow> tasks db' = tasks db \<Longrightarrow> next_task db' = next_task db \<Longrightarrow> wf_db db'"
  using wf_db_cong [of db' db] by (simp add: same_tasks_def)

lemma wf_db_step: "store_step jp ser db db' \<Longrightarrow> wf_db db \<Longrightarrow> wf_db db'"
  by (induction rule: store_step.induct)
     (simp_all add: wf_db_create wf_db_update wf_db_complete wf_db_reopen wf_db_delete wf_db_clear
       wf_db_announce_due wf_db_import_v01 wf_db_quiet quiet_ops)

lemma wf_db_seeded: "wf_db (seeded_db now sink)"
  by (rule wf_db_quiet [OF wf_db_empty]) (simp_all add: seeded_db_def)

lemma wf_db_reachable: "reachable jp ser db \<Longrightarrow> wf_db db"
  by (induction rule: reachable.induct) (auto simp: wf_db_seeded intro: wf_db_step)

context row_property begin

lemma rows_step: "store_step jp ser db db' \<Longrightarrow> wf_db db \<Longrightarrow> rows_ok db \<Longrightarrow> rows_ok db'"
  by (induction rule: store_step.induct)
     ((rule rows_create rows_update rows_complete rows_reopen rows_delete rows_clear
        rows_announce_due rows_import; assumption) | simp only: quiet_ops)+

lemma rows_reachable: "reachable jp ser db \<Longrightarrow> rows_ok db"
proof (induction rule: reachable.induct)
  case (init now sink)
  then show ?case by (simp add: seeded_db_def empty_db_def)
next
  case (step db db')
  then show ?case using rows_step wf_db_reachable by blast
qed

end

section \<open>The roster\<close>

definition board_ok :: "json_printer \<Rightarrow> member list \<Rightarrow> bool" where
  "board_ok ser ms \<longleftrightarrow> roster_ok ser ms \<and> HUMAN_MEMBER_ID \<in> m_id ` set ms
     \<and> ROUTER_GLOBAL_MEMBER_ID \<in> m_id ` set ms"

lemma board_ok_grow: "board_ok ser ms \<Longrightarrow> roster_ok ser ns \<Longrightarrow> set ms \<subseteq> set ns \<Longrightarrow> board_ok ser ns"
  by (auto simp: board_ok_def)

lemma board_ok_ids:
  "board_ok ser ms \<Longrightarrow> roster_ok ser ns \<Longrightarrow> m_id ` set ns = m_id ` set ms \<Longrightarrow> board_ok ser ns"
  by (simp add: board_ok_def)

lemma protected_ids: "is_protected_member HUMAN_MEMBER_ID" "is_protected_member ROUTER_GLOBAL_MEMBER_ID"
  by (simp_all add: is_protected_member_def starts_with_def ROUTER_MEMBER_PREFIX_def
        ROUTER_GLOBAL_MEMBER_ID_def)

lemma board_ok_step: "store_step jp ser db db' \<Longrightarrow> board_ok ser (members db) \<Longrightarrow> board_ok ser (members db')"
proof (induction rule: store_step.induct)
  case (member_create db now new_m)
  then have "roster_ok ser (members db)" by (simp add: board_ok_def)
  from board_ok_grow [OF member_create roster_create [OF this]] show ?case .
next
  case (member_update db now member_id mpatch)
  then have "roster_ok ser (members db)" by (simp add: board_ok_def)
  from board_ok_ids [OF member_update roster_update [OF this]] show ?case .
next
  case (member_status db now member_id mstatus)
  then have "roster_ok ser (members db)" by (simp add: board_ok_def)
  from board_ok_ids [OF member_status roster_set_status [OF this]] show ?case .
next
  case (member_delete db member_id)
  then show ?case using roster_delete [of ser db] protected_ids by (simp add: board_ok_def)
next
  case (router db now workspace_id)
  then have "roster_ok ser (members db)" by (simp add: board_ok_def)
  from board_ok_grow [OF router roster_router [OF this]] show ?case .
qed simp_all

section \<open>A sample board\<close>

text \<open>
  A plan (\<open>#1\<close>) with a step (\<open>#2\<close>) and a review (\<open>#3\<close>) that waits for the step,
  built through the operations; the other theories evaluate theirs on it too.
\<close>

definition sample_parser :: json_parser where "sample_parser s = None"
definition sample_printer :: json_printer where "sample_printer v = ''{}''"
definition sample_now :: string where "sample_now = ''2026-07-20 09:00:00''"

definition sample_new :: "string \<Rightarrow> int option \<Rightarrow> int list \<Rightarrow> new_task" where
  "sample_new title parent deps = new_task_default\<lparr>n_scope := ''global'', n_title := title,
     n_priority := 2, n_parent := parent, n_depends_on := deps\<rparr>"

definition sample_create :: "new_task \<Rightarrow> db \<Rightarrow> db" where
  "sample_create new db = snd (create sample_now sample_parser new db)"

definition sample_plan :: db where
  "sample_plan = sample_create (sample_new ''plan'' None []) (seeded_db sample_now (Some []))"

definition sample_step :: db where
  "sample_step = sample_create (sample_new ''step'' (Some 1) []) sample_plan"

definition sample_board :: db where
  "sample_board = sample_create (sample_new ''review'' None [2]) sample_step"

lemma reachable_sample_create:
  "reachable sample_parser ser db \<Longrightarrow> reachable sample_parser ser (sample_create new db)"
  unfolding sample_create_def by (rule reachable.step [OF _ store_step.create])

lemma reachable_samples:
  "reachable sample_parser ser sample_plan" "reachable sample_parser ser sample_step"
  "reachable sample_parser ser sample_board"
  by (simp_all add: sample_plan_def sample_step_def sample_board_def reachable_sample_create
        reachable.init)

lemma sample_rows:
  "map (\<lambda>t. (t_id t, t_parent t, t_depends_on t, t_status t)) (tasks sample_board) =
     [(1, None, [], ''pending''), (2, Some 1, [], ''pending''), (3, None, [2], ''pending'')]"
  by code_simp

section \<open>What holds in every reachable state\<close>

text \<open>
  C1: Whatever operations run, in whatever order, failing ones included, task ids stay unique
  and below the sequence, every parent and dependency names a task of the same scope, no task
  depends on itself through any chain, and every parent chain ends within \<open>TASK_DEPTH_MAX\<close>
  steps.
\<close>

theorem reachable_graphs_well_formed:
  assumes "reachable jp ser db"
  shows "wf_db db"
  using assms by (rule wf_db_reachable)

theorem reachable_graphs_well_formed_witness: "length (tasks sample_board) = 3 \<and> wf_db sample_board"
proof
  show "length (tasks sample_board) = 3" by code_simp
  show "wf_db sample_board" by (rule reachable_graphs_well_formed [OF reachable_samples(3)])
qed

text \<open>
  Every row of a reachable store keeps the write boundary's bounds: a known scope with the
  id it needs, a title of 1 to 500 bytes, a priority from 1 to 4, at most 100 dependencies, one of
  the four statuses, a canonical acceptance check, and no deadline before the defer date; the
  patches of an update cannot get around the checks of a create.
\<close>

theorem reachable_rows_valid:
  assumes "reachable jp ser db"
  shows "list_all valid_row (tasks db)"
  using fields.rows_reachable [OF assms] by (simp add: list_all_iff)

text \<open>
  C2: A done task always carries its completion stamp and an open task never does, through
  completions, cascades, reopenings and status patches.
\<close>

theorem reachable_stamps:
  assumes "reachable jp ser db" and "t \<in> set (tasks db)"
  shows "(t_status t = ''done'' \<longrightarrow> t_completed_at t \<noteq> None) \<and> (is_open t \<longrightarrow> t_completed_at t = None)"
  using stamps.rows_reachable [OF assms(1)] assms(2) by (auto simp: stamp_ok_def)

definition sample_finished :: db where
  "sample_finished = snd (complete sample_now 2 None None sample_board)"

lemma reachable_finished: "reachable sample_parser ser sample_finished"
  unfolding sample_finished_def by (rule reachable.step [OF reachable_samples(3) store_step.complete])

theorem reachable_stamps_witness:
  "map t_status (tasks sample_finished) = [''done'', ''done'', ''pending'']
   \<and> t_completed_at (tasks sample_finished ! 1) \<noteq> None"
proof
  show st: "map t_status (tasks sample_finished) = [''done'', ''done'', ''pending'']" by code_simp
  have "tasks sample_finished ! 1 \<in> set (tasks sample_finished)"
    using arg_cong [OF st, of length] by (intro nth_mem) simp
  moreover have "t_status (tasks sample_finished ! 1) = ''done''" by code_simp
  ultimately show "t_completed_at (tasks sample_finished ! 1) \<noteq> None"
    using reachable_stamps [OF reachable_finished] by blast
qed

text \<open>
  The roster keeps unique ids, bounded fields and at most \<open>MEMBERS_MAX\<close> members, and the
  human and the global router are on it in every reachable state: no sequence of operations leaves
  a board nobody can be asked or nobody can route on. The printer is \<open>serde_json\<close>'s, of which
  only the length of the two seeded profiles matters.
\<close>

theorem reachable_board:
  assumes "byte_len (ser (JObj [])) \<le> MEMBER_PROFILE_MAX_BYTES"
    and "byte_len (ser (JObj [(''role'', JStr ''router'')])) \<le> MEMBER_PROFILE_MAX_BYTES"
    and "reachable jp ser db"
  shows "board_ok ser (members db)"
  using assms(3)
proof (induction rule: reachable.induct)
  case (init now sink)
  then show ?case using seeded_roster [OF assms(1,2), of now sink]
    by (simp add: board_ok_def seeded_db_def seeded_human_def seeded_router_def HUMAN_MEMBER_ID_def
          ROUTER_GLOBAL_MEMBER_ID_def)
qed (rule board_ok_step)

end
