(* ===== verification/Task_Schedule.thy ===== *)
theory Task_Schedule
  imports Store_Reachable "HOL-Library.Product_Lexorder"
begin

text \<open>
  Reading a scope: \<open>list\<close>, \<open>next_admitted\<close>, \<open>next\<close> and \<open>counts\<close> of
  \<open>tasks.rs\<close>. The scheduler's comparator is the code's chain of \<open>then\<close>s; Rust's
  \<open>sort_by\<close> is a stable sort, here by insertion.
\<close>

section \<open>Listing\<close>

definition list_tasks :: "db \<Rightarrow> string \<Rightarrow> string option \<Rightarrow> bool \<Rightarrow> task list" where
  "list_tasks db scope scope_id include_closed =
     (let ts = load_scope db (normalize_scope scope) scope_id;
          statuses = map_of (rev (map (\<lambda>t. (t_id t, t_status t)) ts));
          ts = map (\<lambda>t. t\<lparr>t_blocked := list_ex (\<lambda>dep. case statuses dep of
                  None \<Rightarrow> False | Some s \<Rightarrow> \<not> is_closed_status s) (t_depends_on t)\<rparr>) ts;
          ts = (if include_closed then ts
                else filter (\<lambda>t. \<not> is_closed_status (t_status t)) ts)
      in sort_key (\<lambda>t. (t_sort_order t, t_id t)) ts)"

definition counts :: "db \<Rightarrow> string \<Rightarrow> string option \<Rightarrow> nat \<times> nat" where
  "counts db scope scope_id =
     (let ts = load_scope db (normalize_scope scope) scope_id;
          closed_count = length (filter (\<lambda>t. is_closed_status (t_status t)) ts)
      in (length ts - closed_count, closed_count))"

section \<open>The order of the scheduler\<close>

datatype ordering = Less | Equal | Greater

fun reverse :: "ordering \<Rightarrow> ordering" where
  "reverse Less = Greater" | "reverse Equal = Equal" | "reverse Greater = Less"

fun then_cmp :: "ordering \<Rightarrow> ordering \<Rightarrow> ordering" where
  "then_cmp Equal o2 = o2"
| "then_cmp o1 o2 = o1"

definition cmp :: "'a::linorder \<Rightarrow> 'a \<Rightarrow> ordering" where
  "cmp a b = (if a < b then Less else if a = b then Equal else Greater)"

fun cmp_due :: "string option \<Rightarrow> string option \<Rightarrow> ordering" where
  "cmp_due (Some x) (Some y) = cmp x y"
| "cmp_due (Some _) None = Less"
| "cmp_due None (Some _) = Greater"
| "cmp_due None None = Equal"

fun insert_by :: "('a \<Rightarrow> 'a \<Rightarrow> ordering) \<Rightarrow> 'a \<Rightarrow> 'a list \<Rightarrow> 'a list" where
  "insert_by f x [] = [x]"
| "insert_by f x (y # ys) = (if f x y = Greater then y # insert_by f x ys else x # y # ys)"

definition sort_by :: "('a \<Rightarrow> 'a \<Rightarrow> ordering) \<Rightarrow> 'a list \<Rightarrow> 'a list" where
  "sort_by f xs = foldr (insert_by f) xs []"

text \<open>\<open>depth_of\<close>: the walk over the parents of the open tasks, at most as long as the list.\<close>

function depth_walk :: "(int \<Rightarrow> int option) \<Rightarrow> nat \<Rightarrow> nat \<Rightarrow> int \<Rightarrow> nat" where
  "depth_walk parents bound depth cursor =
     (case parents cursor of
        None \<Rightarrow> depth
      | Some p \<Rightarrow> if bound \<le> Suc depth then Suc depth
                  else depth_walk parents bound (Suc depth) p)"
  by pat_completeness auto
termination
  by (relation "measure (\<lambda>(ps, b, d, c). b - d)") auto

declare depth_walk.simps [simp del]

definition open_parents :: "task list \<Rightarrow> int \<Rightarrow> int option" where
  "open_parents ts = map_of (rev (List.map_filter (\<lambda>t. map_option (Pair (t_id t)) (t_parent t)) ts))"

definition depth_of :: "task list \<Rightarrow> int \<Rightarrow> nat" where
  "depth_of ts i = depth_walk (open_parents ts) (length ts) 0 i"

definition candidate_cmp :: "task list \<Rightarrow> task \<Rightarrow> task \<Rightarrow> ordering" where
  "candidate_cmp ts a b =
     (let a_progress = (if t_status a \<noteq> ''in_progress'' then 1 else 0 :: int);
          b_progress = (if t_status b \<noteq> ''in_progress'' then 1 else 0);
          a_deep = depth_of ts (t_id a) - 1; b_deep = depth_of ts (t_id b) - 1
      in then_cmp (cmp a_progress b_progress)
        (then_cmp (cmp a_deep b_deep)
        (then_cmp (cmp (t_priority a) (t_priority b))
        (then_cmp (cmp_due (t_due_at a) (t_due_at b))
        (then_cmp (cmp (t_sort_order a) (t_sort_order b)) (cmp (t_id a) (t_id b)))))))"

definition next_candidates :: "task list \<Rightarrow> (task \<Rightarrow> bool) \<Rightarrow> task list" where
  "next_candidates ts admit =
     (let open_ch = List.map_filter t_parent ts
      in filter (\<lambda>t. \<not> t_blocked t \<and> t_id t \<notin> set open_ch \<and> admit t) ts)"

definition next_admitted :: "db \<Rightarrow> string \<Rightarrow> string option \<Rightarrow> (task \<Rightarrow> bool) \<Rightarrow> task option" where
  "next_admitted db scope scope_id admit =
     (let ts = list_tasks db scope scope_id False
      in case sort_by (candidate_cmp ts) (next_candidates ts admit) of
           [] \<Rightarrow> None | t # _ \<Rightarrow> Some t)"

definition next_task_of :: "db \<Rightarrow> string \<Rightarrow> string option \<Rightarrow> task option" where
  "next_task_of db scope scope_id = next_admitted db scope scope_id (\<lambda>_. True)"

section \<open>Sorting by a comparator\<close>

text \<open>What the standard library asks of a comparator: a total order.\<close>

locale comparator_order =
  fixes f :: "'a \<Rightarrow> 'a \<Rightarrow> ordering"
  assumes refl: "f x x = Equal"
    and swap: "f y x = reverse (f x y)"
    and trans: "f x y \<noteq> Greater \<Longrightarrow> f y z \<noteq> Greater \<Longrightarrow> f x z \<noteq> Greater"
begin

lemma total: "f x y = Greater \<Longrightarrow> f y x \<noteq> Greater"
  by (simp add: swap [of y x])

lemma set_insert_by: "set (insert_by f x ys) = insert x (set ys)"
  by (induction ys) auto

lemma mset_sort_by: "set (sort_by f xs) = set xs \<and> length (sort_by f xs) = length xs"
proof (induction xs)
  case Nil
  then show ?case by (simp add: sort_by_def)
next
  case (Cons x xs)
  have "length (insert_by f x ys) = Suc (length ys)" for ys by (induction ys) auto
  with Cons show ?case by (simp add: sort_by_def set_insert_by)
qed

lemma sorted_insert_by:
  "sorted_wrt (\<lambda>a b. f a b \<noteq> Greater) ys \<Longrightarrow> sorted_wrt (\<lambda>a b. f a b \<noteq> Greater) (insert_by f x ys)"
proof (induction ys)
  case (Cons y ys)
  show ?case
  proof (cases "f x y = Greater")
    case True
    with Cons show ?thesis by (auto simp: set_insert_by dest: total)
  next
    case False
    with Cons.prems trans [OF False] show ?thesis by auto
  qed
qed simp

lemma sorted_sort_by: "sorted_wrt (\<lambda>a b. f a b \<noteq> Greater) (sort_by f xs)"
  by (induction xs) (simp_all add: sort_by_def sorted_insert_by)

lemma sort_by_Nil_iff: "sort_by f xs = [] \<longleftrightarrow> xs = []"
  using mset_sort_by [of xs] by (metis length_0_conv)

lemma hd_minimal:
  assumes "sort_by f xs = y # ys"
  shows "y \<in> set xs \<and> (\<forall>x \<in> set xs. f y x \<noteq> Greater)"
proof -
  from mset_sort_by [of xs] assms have xs: "set xs = insert y (set ys)" by auto
  have "f y x \<noteq> Greater" if "x \<in> insert y (set ys)" for x
    using that sorted_sort_by [of xs] assms by (auto simp: refl)
  with xs show ?thesis by simp
qed

end

lemma cmp_Greater: "cmp a b = Greater \<longleftrightarrow> b < a" and cmp_Less: "cmp a b = Less \<longleftrightarrow> a < b"
  and cmp_Equal: "cmp a b = Equal \<longleftrightarrow> a = b"
  by (auto simp: cmp_def)

text \<open>The candidate order is the lexicographic order of its keys.\<close>

definition due_key :: "string option \<Rightarrow> bool \<times> string" where
  "due_key d = (case d of None \<Rightarrow> (True, []) | Some s \<Rightarrow> (False, s))"

definition candidate_key :: "task list \<Rightarrow> task \<Rightarrow> int \<times> nat \<times> int \<times> (bool \<times> string) \<times> int \<times> int" where
  "candidate_key ts t = ((if t_status t \<noteq> ''in_progress'' then 1 else 0), depth_of ts (t_id t) - 1,
     t_priority t, due_key (t_due_at t), t_sort_order t, t_id t)"

lemma cmp_due_key: "cmp_due a b = cmp (due_key a) (due_key b)"
  by (cases a; cases b) (auto simp: due_key_def cmp_def)

lemma then_cmp_lex: "then_cmp (cmp a b) (cmp c d) = cmp (a, c) (b, d)"
  by (auto simp: cmp_def)

lemma candidate_cmp_key: "candidate_cmp ts a b = cmp (candidate_key ts a) (candidate_key ts b)"
  by (simp only: candidate_cmp_def candidate_key_def Let_def cmp_due_key then_cmp_lex)

lemma key_comparator: "comparator_order (\<lambda>a b. cmp (k a) (k b))"
  by unfold_locales (auto simp: cmp_def split: if_splits)

interpretation candidates: comparator_order "candidate_cmp ts" for ts
  using key_comparator [of "candidate_key ts"] by (simp only: candidate_cmp_key [abs_def])

section \<open>Rows carry no blocked flag\<close>

lemma apply_patch_blocked:
  assumes "apply_patch jp t patch = Inr (t', ch)"
  shows "t_blocked t' = t_blocked t"
proof -
  have status: "t_blocked u = t_blocked t" if "apply_status_patch t patch = Inr (u, c)" for u c
    using apply_status_patch_result [OF that] by auto
  have acceptance: "t_blocked u = t_blocked v" if "patch_acceptance jp a v = Inr (u, c)" for a v u c
    using that by (auto simp: patch_acceptance_def split: option.splits sum.splits)
  show ?thesis
    using assms unfolding apply_patch_def Let_def
    by (elim patch_field_keeps [where p = t_blocked])
       (auto simp: bind_res_eq_Inr dest: status acceptance)
qed

interpretation flags: row_property "\<lambda>t. \<not> t_blocked t"
  by unfold_locales (simp_all add: apply_patch_blocked strip_deps_def new_row_def)

section \<open>What a listing holds\<close>

lemma statuses_lookup:
  assumes "distinct (map t_id ts)"
  shows "map_of (rev (map (\<lambda>t. (t_id t, t_status t)) ts)) i = map_option t_status (lookup_task ts i)"
proof -
  have "distinct (map fst (map (\<lambda>t. (t_id t, t_status t)) ts))" using assms by (simp add: comp_def)
  then have "map_of (rev (map (\<lambda>t. (t_id t, t_status t)) ts)) = map_of (map (\<lambda>t. (t_id t, t_status t)) ts)"
    by (subst map_of_inject_set) (simp_all add: rev_map [symmetric] comp_def)
  moreover have "map_of (map (\<lambda>t. (t_id t, t_status t)) ts) i = map_option t_status (lookup_task ts i)"
    by (induction ts) (auto simp: lookup_task_def)
  ultimately show ?thesis by simp
qed

definition flagged :: "task list \<Rightarrow> task \<Rightarrow> task" where
  "flagged ts t = t\<lparr>t_blocked := is_blocked ts t\<rparr>"

lemma flagged_simps [simp]:
  "t_id (flagged ts t) = t_id t" "t_status (flagged ts t) = t_status t"
  "t_parent (flagged ts t) = t_parent t" "t_blocked (flagged ts t) = is_blocked ts t"
  "t_depends_on (flagged ts t) = t_depends_on t" "t_sort_order (flagged ts t) = t_sort_order t"
  by (simp_all add: flagged_def)

lemma list_tasks_flagged:
  assumes "wf_db db"
  shows "list_tasks db scope sid include_closed =
    (let ts = load_scope db (normalize_scope scope) sid
     in sort_key (\<lambda>t. (t_sort_order t, t_id t))
          (filter (\<lambda>t. include_closed \<or> is_open t) (map (flagged ts) ts)))"
proof -
  let ?ts = "load_scope db (normalize_scope scope) sid"
  have "(\<lambda>t. t\<lparr>t_blocked := list_ex (\<lambda>dep. case map_of (rev (map (\<lambda>t. (t_id t, t_status t)) ?ts)) dep of
      None \<Rightarrow> False | Some s \<Rightarrow> \<not> is_closed_status s) (t_depends_on t)\<rparr>) = flagged ?ts"
    by (simp add: statuses_lookup [OF distinct_load_scope [OF assms]] flagged_def is_blocked_def
          fun_eq_iff case_map_option comp_def cong: option.case_cong)
  then show ?thesis by (simp add: list_tasks_def Let_def)
qed

lemma in_list_tasks:
  assumes "wf_db db"
  shows "t \<in> set (list_tasks db scope sid include_closed) \<longleftrightarrow>
    (\<exists>r \<in> set (load_scope db (normalize_scope scope) sid).
       t = flagged (load_scope db (normalize_scope scope) sid) r \<and> (include_closed \<or> is_open r))"
  unfolding list_tasks_flagged [OF assms] Let_def by auto

text \<open>
  The two readers agree: every task \<open>list\<close> returns, closed ones included, is exactly what
  \<open>get\<close> returns for its id, the derived \<open>blocked\<close> flag included, although the one derives
  it from a map of statuses and the other from a map of rows.
\<close>

theorem list_agrees_with_get:
  assumes "reachable jp ser db" and "t \<in> set (list_tasks db scope sid include_closed)"
  shows "get db (t_id t) = Inr t"
proof -
  note wf = wf_db_reachable [OF assms(1)]
  let ?ts = "load_scope db (normalize_scope scope) sid"
  obtain r where r: "r \<in> set ?ts" "t = flagged ?ts r" using assms(2) in_list_tasks [OF wf] by blast
  then have row: "lookup_task (tasks db) (t_id r) = Some r" and
    sc: "t_scope r = normalize_scope scope" "t_scope_id r = sid"
    using lookup_task_distinct [OF wf_dbD(1) [OF wf]] by (auto simp: in_load_scope)
  have "\<not> t_blocked r" using flags.rows_reachable [OF assms(1)] r by (simp add: in_load_scope)
  then have "flagged ?ts r = r" if "t_depends_on r = []"
    using that by (simp add: flagged_def is_blocked_def)
  with row r sc show ?thesis
    by (auto simp: get_def get_raw_def bind_res_eq_Inr flagged_def)
qed

section \<open>What the scheduler chooses\<close>

definition actionable :: "task list \<Rightarrow> task \<Rightarrow> bool" where
  "actionable ts t \<longleftrightarrow> is_open t
     \<and> (\<forall>dep \<in> set (t_depends_on t). \<forall>d \<in> set ts. t_id d = dep \<longrightarrow> \<not> is_open d)
     \<and> (\<forall>c \<in> set ts. t_parent c = Some (t_id t) \<longrightarrow> \<not> is_open c)"

lemma in_map_filter: "y \<in> set (List.map_filter f xs) \<longleftrightarrow> (\<exists>x \<in> set xs. f x = Some y)"
  by (induction xs) (auto simp: List.map_filter_simps split: option.split)

lemma next_candidates_actionable:
  assumes wf: "wf_db db"
  shows "t \<in> set (next_candidates (list_tasks db scope sid False) admit) \<longleftrightarrow>
    (\<exists>r \<in> set (load_scope db (normalize_scope scope) sid).
       t = flagged (load_scope db (normalize_scope scope) sid) r
       \<and> actionable (load_scope db (normalize_scope scope) sid) r \<and> admit t)"
proof -
  let ?ts = "load_scope db (normalize_scope scope) sid"
  have blocked: "is_blocked ?ts r \<longleftrightarrow>
      (\<exists>dep \<in> set (t_depends_on r). \<exists>d \<in> set ?ts. t_id d = dep \<and> is_open d)" for r
    using distinct_load_scope [OF wf] by (auto simp: is_blocked_iff lookup_task_eq_Some)
  have child: "i \<in> set (List.map_filter t_parent (list_tasks db scope sid False)) \<longleftrightarrow>
      (\<exists>c \<in> set ?ts. t_parent c = Some i \<and> is_open c)" for i
  proof -
    have "(\<exists>x \<in> set (list_tasks db scope sid False). t_parent x = Some i) \<longleftrightarrow>
        (\<exists>r \<in> set ?ts. is_open r \<and> t_parent (flagged ?ts r) = Some i)"
      unfolding Bex_def in_list_tasks [OF wf] by blast
    then show ?thesis by (auto simp: in_map_filter)
  qed
  show ?thesis
    by (auto simp: next_candidates_def Let_def child in_list_tasks [OF wf] blocked actionable_def)
qed

text \<open>
  C8: \<open>next_admitted\<close> returns an open task of the scope that waits for no open dependency, has
  no open child and is admitted, and no other such task comes before it in the scheduler's order
  (in progress first, then depth of scaffolding, priority, due date, sort order, id); it returns
  nothing only when no admitted task is actionable.
\<close>

theorem next_admitted_is_best:
  fixes scope :: string and sid :: "string option"
  assumes wf: "wf_db db"
  defines "ts \<equiv> load_scope db (normalize_scope scope) sid"
  defines "ranked \<equiv> list_tasks db scope sid False"
  shows "case next_admitted db scope sid admit of
      None \<Rightarrow> \<forall>r \<in> set ts. actionable ts r \<longrightarrow> \<not> admit (flagged ts r)
    | Some t \<Rightarrow> (\<exists>r \<in> set ts. t = flagged ts r \<and> actionable ts r) \<and> admit t
        \<and> (\<forall>r \<in> set ts. actionable ts r \<longrightarrow> admit (flagged ts r) \<longrightarrow>
             candidate_key ranked t \<le> candidate_key ranked (flagged ts r))"
proof (cases "sort_by (candidate_cmp ranked) (next_candidates ranked admit)")
  case Nil
  then have "next_candidates ranked admit = []" by (simp add: candidates.sort_by_Nil_iff)
  then have "\<not> (actionable ts r \<and> admit (flagged ts r))" if "r \<in> set ts" for r
    using next_candidates_actionable [OF wf, of "flagged ts r" scope sid admit] that
    by (auto simp: ts_def ranked_def)
  with Nil show ?thesis by (auto simp: next_admitted_def ranked_def)
next
  case (Cons t rest)
  from candidates.hd_minimal [OF Cons]
  have t: "t \<in> set (next_candidates ranked admit)"
    and min: "\<And>x. x \<in> set (next_candidates ranked admit) \<Longrightarrow> candidate_key ranked t \<le> candidate_key ranked x"
    by (auto simp: candidate_cmp_key cmp_Greater not_less)
  from t have "(\<exists>r \<in> set ts. t = flagged ts r \<and> actionable ts r) \<and> admit t"
    using next_candidates_actionable [OF wf] unfolding ts_def ranked_def by blast
  moreover have "candidate_key ranked t \<le> candidate_key ranked (flagged ts r)"
    if "r \<in> set ts" "actionable ts r" "admit (flagged ts r)" for r
    using that next_candidates_actionable [OF wf] unfolding ts_def ranked_def
    by (intro min [unfolded ranked_def]) blast
  moreover have "next_admitted db scope sid admit = Some t"
    using Cons by (simp add: next_admitted_def ranked_def)
  ultimately show ?thesis by simp
qed

theorem next_admitted_is_best_witness:
  "\<exists>t. next_admitted sample_board ''global'' None (\<lambda>_. True) = Some t \<and> t_id t = 2
     \<and> (\<exists>r \<in> set (load_scope sample_board ''global'' None).
          t = flagged (load_scope sample_board ''global'' None) r
          \<and> actionable (load_scope sample_board ''global'' None) r)"
proof -
  have "map_option t_id (next_admitted sample_board ''global'' None (\<lambda>_. True)) = Some 2" by code_simp
  then obtain t where t: "next_admitted sample_board ''global'' None (\<lambda>_. True) = Some t" "t_id t = 2"
    by auto
  have scope: "normalize_scope ''global'' = ''global''" by code_simp
  from next_admitted_is_best [OF wf_db_reachable [OF reachable_samples(3)], of "''global''" None
    "\<lambda>_. True", unfolded scope t(1) option.case]
  show ?thesis using t by blast
qed

section \<open>Progress and deadlock\<close>

text \<open>Who waits for whom among the open tasks: for its open dependencies and its open children.\<close>

definition waits_for :: "task list \<Rightarrow> (int \<times> int) set" where
  "waits_for ts = {(a, b). \<exists>t \<in> set ts. \<exists>u \<in> set ts. is_open t \<and> is_open u \<and> t_id t = a \<and> t_id u = b
     \<and> (b \<in> set (t_depends_on t) \<or> t_parent u = Some a)}"

lemma finite_waits_for: "finite (waits_for ts)"
  by (rule finite_subset [of _ "(t_id ` set ts) \<times> (t_id ` set ts)"]) (auto simp: waits_for_def)

lemma open_sink_actionable:
  assumes "distinct (map t_id ts)" and "t \<in> set ts" and "is_open t"
    and "\<And>b. (t_id t, b) \<notin> waits_for ts"
  shows "actionable ts t"
  using assms(2-) unfolding actionable_def waits_for_def by blast

text \<open>
  C7: The plan is never silently stuck: as long as the open tasks of a scope do not wait for each
  other in a circle, through dependencies and children alike, \<open>next\<close> returns a task whenever
  one is open.
\<close>

theorem next_makes_progress:
  assumes wf: "wf_db db" and acyc: "acyclic (waits_for (load_scope db (normalize_scope scope) sid))"
    and t: "t \<in> set (load_scope db (normalize_scope scope) sid)" and open_t: "is_open t"
  shows "next_task_of db scope sid \<noteq> None"
proof
  let ?ts = "load_scope db (normalize_scope scope) sid"
  assume none: "next_task_of db scope sid = None"
  have "wf ((waits_for ?ts)\<inverse>)"
    using acyc finite_waits_for by (intro finite_acyclic_wf_converse)
  then obtain x where x: "x \<in> t_id ` {u \<in> set ?ts. is_open u}"
    and min: "\<And>y. (y, x) \<in> (waits_for ?ts)\<inverse> \<Longrightarrow> y \<notin> t_id ` {u \<in> set ?ts. is_open u}"
    using wfE_min [of "(waits_for ?ts)\<inverse>" "t_id t" "t_id ` {u \<in> set ?ts. is_open u}"] t open_t by blast
  from x obtain u where u: "u \<in> set ?ts" "is_open u" "t_id u = x" by auto
  have "(x, b) \<notin> waits_for ?ts" for b
    using min [of b] by (auto simp: waits_for_def)
  with u have "actionable ?ts u"
    using open_sink_actionable [OF distinct_load_scope [OF wf]] by blast
  with u next_candidates_actionable [OF wf, of "flagged ?ts u" scope sid "\<lambda>_. True"]
  have "next_candidates (list_tasks db scope sid False) (\<lambda>_. True) \<noteq> []" by auto
  with none show False
    by (auto simp: next_task_of_def next_admitted_def Let_def candidates.sort_by_Nil_iff split: list.splits)
qed

lemma sample_waits: "acyclic (waits_for (load_scope sample_board s sid))"
proof -
  let ?rows = "[(1, None, [], ''pending''), (2, Some 1, [], ''pending''), (3, None, [2], ''pending'')]"
  have "(t_id t, t_parent t, t_depends_on t, t_status t) \<in> set ?rows" if "t \<in> set (tasks sample_board)" for t
    unfolding sample_rows [symmetric] using that by simp
  then have "waits_for (load_scope sample_board s sid) \<subseteq> (measure (\<lambda>x. if x = 2 then 0 else 1))\<inverse>"
    unfolding waits_for_def by (fastforce simp: in_load_scope)
  then have "acyclic ((waits_for (load_scope sample_board s sid))\<inverse>)"
    by (intro wf_acyclic wf_subset [OF wf_measure [of "\<lambda>x. if x = 2 then 0 else 1"]]) auto
  then show ?thesis by simp
qed

theorem next_makes_progress_witness:
  "is_open (tasks sample_board ! 0) \<and> next_task_of sample_board ''global'' None \<noteq> None"
proof
  show open_t: "is_open (tasks sample_board ! 0)" by code_simp
  have "tasks sample_board ! 0 \<in> set (load_scope sample_board (normalize_scope ''global'') None)"
  proof -
    have "t_scope (tasks sample_board ! 0) = normalize_scope ''global''"
      "t_scope_id (tasks sample_board ! 0) = None" "0 < length (tasks sample_board)" by code_simp+
    then show ?thesis by (simp add: in_load_scope)
  qed
  from next_makes_progress [OF wf_db_reachable [OF reachable_samples(3)] sample_waits this open_t]
  show "next_task_of sample_board ''global'' None \<noteq> None" .
qed

text \<open>Two plans, each with a step: the first plan's step waits for the second plan, the second
  plan's step waits for the first plan.\<close>

definition deadlocked :: db where
  "deadlocked =
     sample_create (sample_new ''first step'' (Some 1) [2])
     (sample_create (sample_new ''second step'' (Some 2) [1])
     (sample_create (sample_new ''second plan'' None [])
     (sample_create (sample_new ''first plan'' None []) (seeded_db sample_now None))))"


end
