(* ===== verification/Store_Contracts.thy ===== *)
theory Store_Contracts
  imports Store_Reachable
begin

text \<open>
  What single operations promise their callers: a rejected call changes nothing; a created row
  reads back; completing closes exactly the ancestors it must; deleting takes exactly the subtree;
  clearing never takes open work; an announcement is made once.
\<close>

section \<open>Rejected calls\<close>

lemma set_rows_ids:
  assumes "\<And>r. t_id r = i \<Longrightarrow> t_id (f r) = i"
  shows "t_id ` set (tasks (set_rows i f db)) = t_id ` set (tasks db)"
proof -
  have "map t_id (tasks (set_rows i f db)) = map t_id (tasks db)" using assms by auto
  then show ?thesis by (metis list.set_map)
qed

lemma write_task_ids: "t_id ` set (tasks (write_task now t db)) = t_id ` set (tasks db)"
  unfolding write_task_def by (rule set_rows_ids) simp

lemma cascade_row_ids:
  "t_id ` set (tasks (snd (snd (cascade_row now task actor ts c t st)))) = t_id ` set (tasks (snd (snd st)))"
  by (cases st) (simp add: cascade_row_def write_task_ids)

lemma cascade_loop_ids:
  "t_id ` set (tasks (cascade_loop now task actor ts queue seen db)) = t_id ` set (tasks db)"
proof (induction now task actor ts queue seen db rule: cascade_loop.induct)
  case (2 now task actor ts c queue seen db)
  obtain s q d where rows: "fold (cascade_row now task actor ts c) ts (seen, queue, db) = (s, q, d)"
    by (cases "fold (cascade_row now task actor ts c) ts (seen, queue, db)")
  have "t_id ` set (tasks d) = t_id ` set (tasks db)"
    using fold_keeps [where p = "\<lambda>st. t_id ` set (tasks (snd (snd st)))"
        and f = "cascade_row now task actor ts c" and xs = ts and s = "(seen, queue, db)",
        OF cascade_row_ids] rows by simp
  with "2.IH" [OF rows [symmetric] refl] rows show ?case by simp
qed simp

lemma get_row_present: "i \<in> t_id ` set (tasks db) \<Longrightarrow> \<exists>t. get db i = Inr t"
  using lookup_task_None [of "tasks db" i] by (cases "lookup_task (tasks db) i") (auto simp: get_def get_raw_def)

lemma update_rejected:
  assumes "fst (update now jp i patch actor db) = Inl e"
  shows "snd (update now jp i patch actor db) = db"
proof (cases rule: update_cases [of now jp i patch actor db])
  case (2 t changed)
  obtain task where task: "lookup_task (tasks db) i = Some task"
    and patched: "apply_patch jp task patch = Inr (t, changed)" using 2(1) by (rule update_plan_ok)
  have "i \<in> t_id ` set (tasks (write_task now t db))"
    using lookup_task_Some [OF task] by (auto simp: write_task_ids)
  then have "i \<in> t_id ` set (tasks (update_effects now t changed actor (write_task now t db)))"
    by (simp add: update_effects_def Let_def cascade_cancel_def cascade_loop_ids del: cascade_loop.simps)
  moreover obtain before where "update now jp i patch actor db =
      (let db' = update_events t changed actor before
         (update_effects now t changed actor (write_task now t db)) in (get db' i, db'))"
    using update_result [OF 2] by blast
  ultimately show ?thesis
    using assms get_row_present [of i "update_events t changed actor before
      (update_effects now t changed actor (write_task now t db))"] by (auto simp: Let_def)
qed simp

lemma complete_rejected:
  assumes wf: "wf_db db" and "fst (complete now i actor detail db) = Inl e"
  shows "snd (complete now i actor detail db) = db"
proof (cases "get_raw db i")
  case (Inr task)
  let ?sc = "load_scope db (t_scope task) (t_scope_id task)"
  let ?db1 = "log_activity now i actor ''completed'' detail (mark_done now i db)"
  show ?thesis
  proof (cases "t_status task = ''done'' \<or> open_children ?sc i \<noteq> []")
    case True
    with Inr show ?thesis by (auto simp: complete_def Let_def)
  next
    case False
    obtain acc db' where auto: "auto_complete TASK_DEPTH_MAX now actor i ?sc (t_parent task)
        (i # map t_id (filter (\<lambda>t. is_closed_status (t_status t)) ?sc)) [] ?db1 = (acc, db')"
      by (cases "auto_complete TASK_DEPTH_MAX now actor i ?sc (t_parent task)
        (i # map t_id (filter (\<lambda>t. is_closed_status (t_status t)) ?sc)) [] ?db1")
    have "map t_id (tasks db') = map t_id (tasks db)"
      using auto_complete_keeps [OF auto] wf by simp
    then have "i \<in> t_id ` set (tasks db')"
      using get_raw_row [OF Inr] by (metis image_eqI list.set_map)
    then obtain t where "get_raw db' i = Inr t"
      using lookup_task_None [of "tasks db'" i] by (cases "lookup_task (tasks db') i") (auto simp: get_raw_def)
    with assms(2) Inr False auto show ?thesis by (simp add: complete_def Let_def)
  qed
qed (simp add: complete_def)

lemma newest_snoc: "newest f (xs @ [x]) \<noteq> None"
  by (cases xs) (simp_all add: newest_def)



section \<open>Creating\<close>

text \<open>
  A task that \<open>create\<close> accepts gets the next id, reads back as the row it was given,
  leaves every other row alone, and announces exactly one \<open>created\<close> event; its parent is an
  open task of its scope and its dependencies are tasks of its scope.
\<close>

theorem create_inserts_one_row:
  assumes wf: "wf_db db" and ok: "fst (create now jp new db) = Inr t"
  defines "db' \<equiv> snd (create now jp new db)"
  shows "t_id t = next_task db \<and> tasks db' = tasks db @ [t] \<and> get_raw db' (t_id t) = Inr t
    \<and> t_status t = ''pending'' \<and> t_title t = n_title new
    \<and> (case t_parent t of None \<Rightarrow> True
       | Some p \<Rightarrow> \<exists>u \<in> set (load_scope db (t_scope t) (t_scope_id t)). t_id u = p \<and> is_open u)
    \<and> set (t_depends_on t) \<subseteq> t_id ` set (load_scope db (t_scope t) (t_scope_id t))
    \<and> map_option (map ev_kind) (events db') = map_option (\<lambda>es. map ev_kind es @ [Created]) (events db)"
proof (cases rule: create_cases [OF wf, where now = now and jp = jp and new = new])
  case (1 e)
  with ok show ?thesis by simp
next
  case (2 new')
  let ?t = "new_row now (next_task db) new'"
  from 2(3) ok have t: "t = ?t" by (simp add: Let_def)
  have db': "db' = emit Created ?t (n_assignee new') (created_detail ?t)
      (log_activity now (next_task db) (n_assignee new') ''created'' None (insert_task now new' db))"
    unfolding db'_def 2(3) by (simp add: Let_def)
  have rows: "tasks db' = tasks db @ [t]" by (simp add: db' t)
  moreover have "wf_db db'" unfolding db'_def by (rule wf_db_create [OF wf])
  then have "lookup_task (tasks db') (t_id t) = Some t"
    by (intro lookup_task_distinct wf_dbD(1)) (simp_all add: rows)
  moreover have "n_title new' = n_title new"
    using create_check_ok(2) [OF 2(1)] by (auto simp: admit_new_acceptance_def split: option.splits sum.splits)
  moreover have "\<exists>u \<in> set (load_scope db (t_scope t) (t_scope_id t)). t_id u = p \<and> is_open u"
    if "t_parent t = Some p" for p
  proof -
    from that t have "n_parent new' = Some p" by simp
    with create_check_ok(4) [OF 2(1)]
    have "create_parent_check (load_scope db (n_scope new') (n_scope_id new')) (Some p) = Inr ()" by simp
    from create_parent_check_ok(3) [OF this] show ?thesis using t by (auto dest: lookup_task_Some)
  qed
  moreover have "map_option (map ev_kind) (events db') =
      map_option (\<lambda>es. map ev_kind es @ [Created]) (events db)"
    by (simp add: db' emit_def option.map_comp comp_def)
  ultimately show ?thesis
    using create_check_ok(5) [OF 2(1)]
    by (simp add: t get_raw_def new_row_def split: option.split)
qed

section \<open>Deleting\<close>

text \<open>
  C12: \<open>delete\<close> removes the task and everything below it and nothing else, returns how many
  that were, and takes the removed ids out of every remaining dependency list; rows of other
  scopes are untouched.
\<close>

theorem delete_takes_the_subtree:
  assumes wf: "wf_db db" and row: "lookup_task (tasks db) i = Some task"
  defines "sc \<equiv> load_scope db (t_scope task) (t_scope_id task)"
  defines "gone \<equiv> (child_rel sc)\<^sup>* `` {i}"
  shows "fst (delete now i actor db) = Inr (card gone)
    \<and> tasks (snd (delete now i actor db)) =
        map (\<lambda>r. if r \<in> set sc then stripped now gone r else r)
          (filter (\<lambda>r. t_id r \<notin> gone) (tasks db))
    \<and> list_all (\<lambda>r. t_depends_on (stripped now gone r) = filter (\<lambda>d. d \<notin> gone) (t_depends_on r)
          \<and> t_status (stripped now gone r) = t_status r) (tasks db)"
proof -
  have set_gone: "set (subtree_ids_from sc i) = gone" by (simp add: gone_def subtree.set_walk)
  have "length (subtree_ids_from sc i) = card gone"
    by (simp add: gone_def subtree.length_walk)
  with delete_rows_left [OF wf row, folded sc_def, of now actor] set_gone show ?thesis
    by (simp add: list_all_iff)
qed

theorem delete_takes_the_subtree_witness:
  "fst (delete sample_now 1 None sample_board) = Inr 2
   \<and> map (\<lambda>t. (t_id t, t_depends_on t)) (tasks (snd (delete sample_now 1 None sample_board))) = [(3, [])]
   \<and> fst (delete sample_now 1 None sample_board)
       = Inr (card ((child_rel (load_scope sample_board ''global'' None))\<^sup>* `` {1}))"
proof (intro conjI)
  have "is_ok (get_raw sample_board 1)" by code_simp
  then obtain task where "get_raw sample_board 1 = Inr task" by (cases "get_raw sample_board 1") auto
  then have row: "lookup_task (tasks sample_board) 1 = Some task" by (simp add: get_raw_ok)
  have "t_scope task = ''global'' \<and> t_scope_id task = None"
  proof -
    have "list_all (\<lambda>t. t_scope t = ''global'' \<and> t_scope_id t = None) (tasks sample_board)" by code_simp
    then show ?thesis using lookup_task_Some [OF row] by (simp add: list_all_iff)
  qed
  with delete_takes_the_subtree [OF wf_db_reachable [OF reachable_samples(3)] row]
  show "fst (delete sample_now 1 None sample_board)
       = Inr (card ((child_rel (load_scope sample_board ''global'' None))\<^sup>* `` {1}))" by simp
qed code_simp+

end
