(* ===== verification/Store_Completion.thy ===== *)
theory Store_Completion
  imports Store_Contracts
begin

text \<open>
  What \<open>complete\<close> closes: the task, and upwards every ancestor without an acceptance check
  whose last open child has just closed.
\<close>

section \<open>The ancestors the loop reaches\<close>

fun auto_ancestors :: "nat \<Rightarrow> task list \<Rightarrow> int option \<Rightarrow> int list \<Rightarrow> int list" where
  "auto_ancestors 0 ts current closed_ids = []"
| "auto_ancestors (Suc n) ts current closed_ids =
     (case current of
        None \<Rightarrow> []
      | Some p \<Rightarrow>
          (case lookup_task ts p of
             None \<Rightarrow> []
           | Some parent \<Rightarrow>
               if p \<in> set closed_ids \<or> t_acceptance parent \<noteq> None
                 \<or> \<not> list_all (\<lambda>t. t_parent t = Some p \<longrightarrow> t_id t \<in> set closed_ids) ts
               then [] else p # auto_ancestors n ts (t_parent parent) (p # closed_ids)))"

definition finished :: "string \<Rightarrow> int set \<Rightarrow> task \<Rightarrow> task" where
  "finished now done_ids r =
     (if t_id r \<in> done_ids
      then r\<lparr>t_status := ''done'', t_completed_at := Some now, t_updated_at := now\<rparr> else r)"

lemma finished_finished: "finished now A (finished now B r) = finished now (A \<union> B) r"
  by (simp add: finished_def)

lemma finished_none [simp]: "finished now {} = (\<lambda>r. r)"
  by (simp add: finished_def fun_eq_iff)

lemma mark_done_finished: "tasks (mark_done now i db) = map (finished now {i}) (tasks db)"
  by (simp add: mark_done_def finished_def)

lemma auto_complete_ancestors:
  "auto_complete n now actor i ts current closed_ids acc db = (acc', db') \<Longrightarrow>
     acc' = acc @ auto_ancestors n ts current closed_ids
     \<and> tasks db' = map (finished now (set (auto_ancestors n ts current closed_ids))) (tasks db)"
proof (induction n now actor i ts current closed_ids acc db rule: auto_complete.induct)
  case (1 now actor i ts current closed_ids acc db)
  then show ?case by simp
next
  case (2 n now actor i ts current closed_ids acc db)
  show ?case
  proof (cases "current = None \<or> lookup_task ts (the current) = None")
    case True
    then have "auto_ancestors (Suc n) ts current closed_ids = []" by (cases current) auto
    with True 2(2) show ?thesis by (cases current) auto
  next
    case False
    then obtain p parent where p: "current = Some p" "lookup_task ts p = Some parent" by auto
    show ?thesis
    proof (cases "p \<in> set closed_ids \<or> t_acceptance parent \<noteq> None
        \<or> \<not> list_all (\<lambda>t. t_parent t = Some p \<longrightarrow> t_id t \<in> set closed_ids) ts")
      case True
      with p have "auto_ancestors (Suc n) ts current closed_ids = []" by simp
      with True 2(2) p show ?thesis by (simp split: if_splits)
    next
      case False
      with "2.IH" [OF p] 2(2) p show ?thesis
        by (simp add: mark_done_finished finished_finished Un_commute cong: map_cong)
    qed
  qed
qed

fun climbs :: "task list \<Rightarrow> int \<Rightarrow> int list \<Rightarrow> bool" where
  "climbs ts i [] = True"
| "climbs ts i (p # ps) = (parent_of ts i = Some p \<and> climbs ts p ps)"

definition stays_open :: "task list \<Rightarrow> int set \<Rightarrow> int \<Rightarrow> bool" where
  "stays_open ts closed_ids q \<longleftrightarrow> (\<exists>r \<in> set ts. t_id r = q
     \<and> (q \<in> closed_ids \<or> t_acceptance r \<noteq> None
        \<or> (\<exists>c \<in> set ts. t_parent c = Some q \<and> t_id c \<notin> closed_ids)))"

lemma auto_ancestors_spec:
  assumes dist: "distinct (map t_id ts)"
    and parents: "\<forall>t \<in> set ts. \<forall>p. t_parent t = Some p \<longrightarrow> p \<in> t_id ` set ts"
  shows "at_depth ts j d \<Longrightarrow> d \<le> n \<Longrightarrow> ps = auto_ancestors n ts (parent_of ts j) closed_ids \<Longrightarrow>
    climbs ts j ps
    \<and> (\<forall>p \<in> set ps. p \<notin> set closed_ids \<and> (\<exists>r \<in> set ts. t_id r = p \<and> t_acceptance r = None)
         \<and> (\<forall>c \<in> set ts. t_parent c = Some p \<longrightarrow> t_id c \<in> set closed_ids \<union> set ps))
    \<and> (\<forall>q. parent_of ts (last (j # ps)) = Some q \<longrightarrow> stays_open ts (set closed_ids \<union> set ps) q)"
proof (induction n arbitrary: j d ps closed_ids)
  case 0
  then show ?case by (auto elim: at_depth_0E)
next
  case (Suc n)
  show ?case
  proof (cases "parent_of ts j")
    case None
    with Suc.prems show ?thesis by simp
  next
    case (Some p)
    then obtain u where "lookup_task ts j = Some u" "t_parent u = Some p"
      by (auto simp: parent_of_def bind_eq_Some_conv)
    then have "p \<in> t_id ` set ts" using parents lookup_task_Some by blast
    then obtain parent where parent: "lookup_task ts p = Some parent"
      by (metis lookup_task_None not_Some_eq)
    note row = lookup_task_Some [OF parent]
    from Suc.prems(1) Some obtain d' where d': "d = Suc d'" "at_depth ts p d'"
      by (auto simp: at_depth_iff [of ts j])
    show ?thesis
    proof (cases "p \<in> set closed_ids \<or> t_acceptance parent \<noteq> None
        \<or> \<not> list_all (\<lambda>t. t_parent t = Some p \<longrightarrow> t_id t \<in> set closed_ids) ts")
      case True
      with Suc.prems(3) Some parent have "ps = []" by simp
      moreover have "stays_open ts (set closed_ids) p"
        using True row by (auto simp: stays_open_def list_all_iff)
      ultimately show ?thesis using Some by simp
    next
      case False
      let ?qs = "auto_ancestors n ts (t_parent parent) (p # closed_ids)"
      have ps: "ps = p # ?qs" using Suc.prems(3) Some parent False by simp
      have "t_parent parent = parent_of ts p" using parent by (simp add: parent_of_def)
      from Suc.IH [OF d'(2), of ?qs "p # closed_ids"] this d'(1) Suc.prems(2)
      have IH: "climbs ts p ?qs"
        "\<forall>p' \<in> set ?qs. p' \<notin> set (p # closed_ids) \<and> (\<exists>r \<in> set ts. t_id r = p' \<and> t_acceptance r = None)
           \<and> (\<forall>c \<in> set ts. t_parent c = Some p' \<longrightarrow> t_id c \<in> set (p # closed_ids) \<union> set ?qs)"
        "\<forall>q. parent_of ts (last (p # ?qs)) = Some q \<longrightarrow> stays_open ts (set (p # closed_ids) \<union> set ?qs) q"
        by simp_all
      have un: "set (p # closed_ids) \<union> set ?qs = set closed_ids \<union> set ps" unfolding ps by auto
      from False row have "\<forall>c \<in> set ts. t_parent c = Some p \<longrightarrow> t_id c \<in> set closed_ids"
        by (simp add: list_all_iff)
      with IH(2) False row have "\<forall>p' \<in> set ps. p' \<notin> set closed_ids
          \<and> (\<exists>r \<in> set ts. t_id r = p' \<and> t_acceptance r = None)
          \<and> (\<forall>c \<in> set ts. t_parent c = Some p' \<longrightarrow> t_id c \<in> set closed_ids \<union> set ps)"
        unfolding un unfolding ps by auto
      with IH(1,3) Some show ?thesis unfolding un by (simp add: ps)
    qed
  qed
qed

section \<open>The contract of completion\<close>

text \<open>The rows after a completion, by the ancestors its loop reaches.\<close>

lemma complete_shape:
  assumes row: "lookup_task (tasks db) i = Some task"
    and ok: "fst (complete now i actor detail db) = Inr out" and fresh: "\<not> co_already_done out"
  defines "sc \<equiv> load_scope db (t_scope task) (t_scope_id task)"
  shows "open_children sc i = []"
    and "co_auto_completed out = auto_ancestors TASK_DEPTH_MAX sc (t_parent task)
      (i # map t_id (filter (\<lambda>t. is_closed_status (t_status t)) sc))"
    and "tasks (snd (complete now i actor detail db)) =
      map (finished now (insert i (set (co_auto_completed out)))) (tasks db)"
proof -
  have raw: "get_raw db i = Inr task" using row by (simp add: get_raw_ok)
  have not_done: "t_status task \<noteq> ''done''" and no_open: "open_children sc i = []"
    using ok fresh raw by (auto simp: complete_def Let_def sc_def split: if_splits)
  let ?C = "i # map t_id (filter (\<lambda>t. is_closed_status (t_status t)) sc)"
  let ?db1 = "log_activity now i actor ''completed'' detail (mark_done now i db)"
  obtain acc db' where auto: "auto_complete TASK_DEPTH_MAX now actor i sc (t_parent task) ?C [] ?db1 = (acc, db')"
    by (cases "auto_complete TASK_DEPTH_MAX now actor i sc (t_parent task) ?C [] ?db1")
  from auto_complete_ancestors [OF auto]
  have acc: "acc = auto_ancestors TASK_DEPTH_MAX sc (t_parent task) ?C"
    and rows: "tasks db' = map (finished now (set acc)) (map (finished now {i}) (tasks db))"
    by (simp_all add: mark_done_finished)
  have out: "co_auto_completed out = acc \<and> tasks (snd (complete now i actor detail db)) = tasks db'"
    using ok raw not_done no_open auto unfolding sc_def
    by (cases "get_raw db' i") (auto simp: complete_def Let_def)
  then show "tasks (snd (complete now i actor detail db)) =
      map (finished now (insert i (set (co_auto_completed out)))) (tasks db)"
    by (simp add: rows finished_finished Un_commute)
  from no_open out acc show "open_children sc i = []"
    "co_auto_completed out = auto_ancestors TASK_DEPTH_MAX sc (t_parent task) ?C" by simp_all
qed

text \<open>
  C9: A completion closes the task and climbs from it, ancestor by ancestor, exactly as far as
  it must: every ancestor it closes was open, carries no acceptance check and has no open child
  left, it stops only at one that is closed already, has its own check or still has an open child,
  and no row besides is changed.
\<close>

theorem complete_closes_exactly:
  fixes i :: int
  assumes wf: "wf_db db" and row: "lookup_task (tasks db) i = Some task"
    and ok: "fst (complete now i actor detail db) = Inr out" and fresh: "\<not> co_already_done out"
  defines "sc \<equiv> load_scope db (t_scope task) (t_scope_id task)"
    and "ps \<equiv> co_auto_completed out"
  defines "now_closed \<equiv> insert i (set ps) \<union> t_id ` {r \<in> set sc. \<not> is_open r}"
  shows "tasks (snd (complete now i actor detail db)) = map (finished now (insert i (set ps))) (tasks db)
    \<and> (\<forall>c \<in> set sc. t_parent c = Some i \<longrightarrow> \<not> is_open c)
    \<and> climbs sc i ps
    \<and> (\<forall>p \<in> set ps. (\<exists>r \<in> set sc. t_id r = p \<and> is_open r \<and> t_acceptance r = None)
         \<and> (\<forall>c \<in> set sc. t_parent c = Some p \<longrightarrow> t_id c \<in> now_closed))
    \<and> (\<forall>q. parent_of sc (last (i # ps)) = Some q \<longrightarrow> stays_open sc now_closed q)"
proof -
  let ?C = "i # map t_id (filter (\<lambda>t. is_closed_status (t_status t)) sc)"
  note shape = complete_shape [OF row ok fresh, folded sc_def ps_def]
  have task: "task \<in> set sc" "t_id task = i"
    using lookup_task_Some [OF row] by (auto simp: sc_def in_load_scope)
  note g = wf_graphD [OF wf_dbD(3) [OF wf, of "t_scope task" "t_scope_id task", folded sc_def]]
  obtain d where d: "at_depth sc i d" "d < TASK_DEPTH_MAX" using g(5) [OF task(1)] task(2) by auto
  have par: "parent_of sc i = t_parent task" using parent_of_row [OF g(1) task(1)] task(2) by simp
  have C: "set ?C \<union> set ps = now_closed" by (auto simp: now_closed_def)
  have psq: "ps = auto_ancestors TASK_DEPTH_MAX sc (parent_of sc i) ?C" using shape(2) par by simp
  have pars: "\<forall>t \<in> set sc. \<forall>p. t_parent t = Some p \<longrightarrow> p \<in> t_id ` set sc" using g(2) by blast
  note spec = auto_ancestors_spec [OF g(1) pars d(1) less_imp_le [OF d(2)] psq, unfolded C]
  have "\<forall>c \<in> set sc. t_parent c = Some i \<longrightarrow> \<not> is_open c"
    using shape(1) by (auto simp: open_children_def filter_empty_conv)
  moreover have "\<exists>r \<in> set sc. t_id r = p \<and> is_open r \<and> t_acceptance r = None"
    if p: "p \<in> set ps" for p
  proof -
    from bspec [OF conjunct1 [OF conjunct2 [OF spec]] p]
    obtain r where r: "r \<in> set sc" "t_id r = p" "t_acceptance r = None"
      and out: "p \<notin> set ?C" by (elim conjE bexE)
    have "is_open r"
    proof
      assume "is_closed_status (t_status r)"
      with r have "p \<in> set ?C" by auto
      with out show False by contradiction
    qed
    with r show ?thesis by blast
  qed
  ultimately show ?thesis
    using spec shape(3) by blast
qed

theorem complete_closes_exactly_witness:
  "\<exists>out. fst (complete sample_now 2 None None sample_board) = Inr out \<and> co_auto_completed out = [1]
     \<and> tasks sample_finished = map (finished sample_now {2, 1}) (tasks sample_board)"
proof -
  let ?r = "fst (complete sample_now 2 None None sample_board)"
  have "(case ?r of Inl e \<Rightarrow> False | Inr out \<Rightarrow> co_auto_completed out = [1] \<and> \<not> co_already_done out)"
    by code_simp
  then obtain out where out: "?r = Inr out" "co_auto_completed out = [1]" "\<not> co_already_done out"
    by (cases ?r) auto
  have "is_ok (get_raw sample_board 2)" by code_simp
  then obtain task where "lookup_task (tasks sample_board) 2 = Some task"
    by (cases "get_raw sample_board 2") (auto simp: get_raw_ok)
  from complete_closes_exactly [OF wf_db_reachable [OF reachable_samples(3)] this out(1,3)] out
  show ?thesis by (simp add: sample_finished_def)
qed

end
