(* ===== verification/Store_Sweeps.thy ===== *)
theory Store_Sweeps
  imports Store_Completion
begin

text \<open>
  Operations over a whole scope or the whole store: what \<open>clear\<close> keeps and removes, and what
  a sweep of \<open>announce_due\<close> announces.
\<close>

section \<open>Clearing\<close>

definition key :: "task \<Rightarrow> int \<times> int option \<times> string \<times> string option \<times> string" where
  "key t = (t_id t, t_parent t, t_scope t, t_scope_id t, t_status t)"

lemma key_eq: "key a = key b \<longleftrightarrow> t_id a = t_id b \<and> t_parent a = t_parent b \<and> t_scope a = t_scope b
    \<and> t_scope_id a = t_scope_id b \<and> t_status a = t_status b"
  by (simp add: key_def)

lemma key_stripped: "key (stripped now g r) = key r"
  by (simp add: key_eq)

lemma delete_keys:
  assumes "wf_db db" and "lookup_task (tasks db) i = Some task"
  defines "gone \<equiv> (child_rel (load_scope db (t_scope task) (t_scope_id task)))\<^sup>* `` {i}"
  shows "map key (tasks (snd (delete now i actor db))) = map key (filter (\<lambda>r. t_id r \<notin> gone) (tasks db))"
    and "fst (delete now i actor db) = Inr (card gone)"
  using delete_rows_left [OF assms(1,2), of now actor]
  by (simp_all add: gone_def subtree.set_walk subtree.length_walk key_stripped)

lemma gone_ids:
  assumes wf: "wf_db db" and row: "lookup_task (tasks db) i = Some task"
  shows "(child_rel (load_scope db (t_scope task) (t_scope_id task)))\<^sup>* `` {i} \<subseteq> t_id ` set (tasks db)"
proof
  fix x assume "x \<in> (child_rel (load_scope db (t_scope task) (t_scope_id task)))\<^sup>* `` {i}"
  then have "(i, x) \<in> (child_rel (load_scope db (t_scope task) (t_scope_id task)))\<^sup>*" by simp
  then show "x \<in> t_id ` set (tasks db)"
  proof (cases rule: rtranclE)
    case base
    with lookup_task_Some [OF row] show ?thesis by auto
  next
    case (step y)
    then show ?thesis by (auto simp: child_rel_iff in_load_scope)
  qed
qed

lemma delete_count:
  assumes wf: "wf_db db" and row: "lookup_task (tasks db) i = Some task"
    and del: "delete now i actor db = (Inr n, db')"
  shows "length (tasks db) = n + length (tasks db')"
proof -
  let ?gone = "(child_rel (load_scope db (t_scope task) (t_scope_id task)))\<^sup>* `` {i}"
  have "length (tasks db') = length (filter (\<lambda>r. t_id r \<notin> ?gone) (tasks db))" and n: "n = card ?gone"
    using delete_keys [OF wf row, of now actor] del by (auto dest: map_eq_imp_length_eq)
  moreover have "length (filter (\<lambda>r. t_id r \<in> ?gone) (tasks db)) = card ?gone"
  proof -
    have "distinct (map t_id (filter (\<lambda>r. t_id r \<in> ?gone) (tasks db)))"
      using wf_dbD(1) [OF wf] by (simp add: distinct_map_filter)
    moreover have "set (map t_id (filter (\<lambda>r. t_id r \<in> ?gone) (tasks db))) = ?gone"
      using gone_ids [OF wf row] by auto
    ultimately show ?thesis by (metis distinct_card length_map)
  qed
  ultimately show ?thesis
    using sum_length_filter_compl [of "\<lambda>r. t_id r \<in> ?gone" "tasks db"] by simp
qed

lemma delete_ok:
  assumes "wf_db db" and "lookup_task (tasks db) i = Some task"
  shows "\<exists>n db'. delete now i actor db = (Inr n, db')"
  using delete_keys(2) [OF assms, of now actor] by (cases "delete now i actor db") simp

lemma key_row:
  assumes "wf_db db0" and "u \<in> set (tasks db0)" and "key r \<in> key ` set (tasks db0)" and "t_id r = t_id u"
  shows "key r = key u"
proof -
  from assms(3) obtain v where "v \<in> set (tasks db0)" "key r = key v" by auto
  moreover from this assms(4) have "t_id v = t_id u" by (simp add: key_eq)
  ultimately show ?thesis using row_unique [OF assms(1) _ assms(2)] by metis
qed

lemma child_rel_keys:
  assumes "key ` set (tasks db) \<subseteq> key ` set (tasks db0)"
  shows "child_rel (load_scope db s sid) \<subseteq> child_rel (load_scope db0 s sid)"
proof (rule subrelI)
  fix p c assume "(p, c) \<in> child_rel (load_scope db s sid)"
  then obtain r where r: "r \<in> set (tasks db)" "t_scope r = s" "t_scope_id r = sid" "t_id r = c" "t_parent r = Some p"
    by (auto simp: child_rel_iff in_load_scope)
  with assms obtain v where "v \<in> set (tasks db0)" "key r = key v" by blast
  with r show "(p, c) \<in> child_rel (load_scope db0 s sid)" by (auto simp: child_rel_iff in_load_scope key_eq)
qed

text \<open>A closed target without open descendants takes no open row with it.\<close>

lemma clear_keeps_open:
  assumes wf0: "wf_db db0" and ts: "ts = load_scope db0 s sid" and target: "target \<in> set ts"
    and closed_t: "\<not> is_open target" and none: "\<not> has_open_descendant ts (t_id target)"
    and keys: "key ` set (tasks db) \<subseteq> key ` set (tasks db0)"
    and row: "lookup_task (tasks db) (t_id target) = Some r"
    and u: "u \<in> set (tasks db)" "is_open u"
  shows "(t_id target, t_id u) \<notin> (child_rel (load_scope db (t_scope r) (t_scope_id r)))\<^sup>*"
proof
  assume reach: "(t_id target, t_id u) \<in> (child_rel (load_scope db (t_scope r) (t_scope_id r)))\<^sup>*"
  have target0: "target \<in> set (tasks db0)" "t_scope target = s" "t_scope_id target = sid"
    using target ts by (simp_all add: in_load_scope)
  note r = lookup_task_Some [OF row]
  then have "key r = key target" using key_row [OF wf0 target0(1)] keys by blast
  then have "t_scope r = s" "t_scope_id r = sid" using target0 by (simp_all add: key_eq)
  with reach child_rel_keys [OF keys, of s sid] ts
  have reach: "(t_id target, t_id u) \<in> (child_rel ts)\<^sup>*" using rtrancl_mono [of _ "child_rel ts"] by blast
  from u keys obtain u0 where u0: "u0 \<in> set (tasks db0)" "key u = key u0" by blast
  then have open0: "is_open u0" "t_id u0 = t_id u" using u by (simp_all add: key_eq)
  show False
  proof (cases "t_id u = t_id target")
    case True
    with u0 open0 row_unique [OF wf0 u0(1) target0(1)] closed_t show False by simp
  next
    case False
    with reach obtain v where v: "v \<in> set ts" "t_id v = t_id u"
      by (cases rule: rtranclE) (auto simp: child_rel_iff)
    then have "v = u0" using row_unique [OF wf0, of v u0] u0 open0 ts by (simp add: in_load_scope)
    with v have "lookup_task ts (t_id u) = Some u0"
      using lookup_task_distinct [OF distinct_load_scope [OF wf0, of s sid], folded ts, of v] by simp
    with none reach False open0 show False
      by (auto simp: has_open_descendant_def list_ex_iff subtree.set_walk)
  qed
qed

text \<open>
  While the loop runs over the snapshot: every row left has an unchanged key, and so does every
  open row of the snapshot.
\<close>

lemma clear_loop_invariant:
  assumes wf0: "wf_db db0"
  shows "ts = load_scope db0 s sid \<Longrightarrow>
    set targets \<subseteq> {t \<in> set ts. \<not> closed_only \<or> \<not> is_open t} \<Longrightarrow> wf_db db \<Longrightarrow>
    key ` set (tasks db) \<subseteq> key ` set (tasks db0) \<Longrightarrow>
    clear_loop now ts closed_only targets n db = (r, db') \<Longrightarrow>
    key ` set (tasks db') \<subseteq> key ` set (tasks db)
    \<and> (\<exists>m. r = Inr (n + m) \<and> length (tasks db) = m + length (tasks db'))
    \<and> (closed_only \<longrightarrow> (\<forall>u \<in> set (tasks db). is_open u \<longrightarrow> key u \<in> key ` set (tasks db')))
    \<and> (\<not> closed_only \<longrightarrow> t_id ` set targets \<inter> t_id ` set (tasks db') = {})"
proof (induction now ts closed_only targets n db arbitrary: r db' rule: clear_loop.induct)
  case (1 now by_id closed_only deleted db)
  then show ?case by auto
next
  case (2 now by_id closed_only target targets deleted db)
  have ids: "t_id ` set (tasks a) \<subseteq> t_id ` set (tasks b)" if "key ` set (tasks a) \<subseteq> key ` set (tasks b)" for a b
  proof
    fix x assume "x \<in> t_id ` set (tasks a)"
    then obtain v where "v \<in> set (tasks a)" "t_id v = x" by auto
    moreover from this that obtain w where "w \<in> set (tasks b)" "key v = key w" by blast
    ultimately show "x \<in> t_id ` set (tasks b)" by (auto simp: key_eq)
  qed
  have targets: "set targets \<subseteq> {t \<in> set by_id. \<not> closed_only \<or> \<not> is_open t}"
    and target: "target \<in> set by_id" "\<not> closed_only \<or> \<not> is_open target" using "2.prems"(2) by auto
  show ?case
  proof (cases "closed_only \<and> has_open_descendant by_id (t_id target)")
    case True
    from "2.IH"(1) [OF True "2.prems"(1) targets "2.prems"(3,4)] "2.prems"(5) True show ?thesis by simp
  next
    case False
    show ?thesis
    proof (cases "lookup_task (tasks db) (t_id target)")
      case None
      then have "get_raw db (t_id target) = Inl (NotFound (NoTask (t_id target)))" by (simp add: get_raw_def)
      with "2.IH"(2) [OF False this "2.prems"(1) targets "2.prems"(3,4)] "2.prems"(5) False
      have rest: "key ` set (tasks db') \<subseteq> key ` set (tasks db)
          \<and> (\<exists>m. r = Inr (deleted + m) \<and> length (tasks db) = m + length (tasks db'))
          \<and> (closed_only \<longrightarrow> (\<forall>u \<in> set (tasks db). is_open u \<longrightarrow> key u \<in> key ` set (tasks db')))
          \<and> (\<not> closed_only \<longrightarrow> t_id ` set targets \<inter> t_id ` set (tasks db') = {})" by simp
      with None ids [of db' db] show ?thesis by (auto simp: lookup_task_None)
    next
      case (Some row)
      then have raw: "get_raw db (t_id target) = Inr row" by (simp add: get_raw_def)
      obtain n1 db1 where del: "delete now (t_id target) None db = (Inr n1, db1)"
        using delete_ok [OF "2.prems"(3) Some] by blast
      let ?gone = "(child_rel (load_scope db (t_scope row) (t_scope_id row)))\<^sup>* `` {t_id target}"
      have keys1: "map key (tasks db1) = map key (filter (\<lambda>r. t_id r \<notin> ?gone) (tasks db))"
        using delete_keys(1) [OF "2.prems"(3) Some, of now None] del by simp
      have "key ` set (tasks db1) = set (map key (tasks db1))" by (simp only: set_map)
      also have "\<dots> = key ` {r \<in> set (tasks db). t_id r \<notin> ?gone}"
        unfolding keys1 by (simp only: set_map set_filter)
      finally have set1: "key ` set (tasks db1) = key ` {r \<in> set (tasks db). t_id r \<notin> ?gone}" .
      have wf1: "wf_db db1" using wf_db_delete [OF "2.prems"(3), of now "t_id target" None] del by simp
      have sub1: "key ` set (tasks db1) \<subseteq> key ` set (tasks db)" unfolding set1 by auto
      have "clear_loop now by_id closed_only targets (deleted + n1) db1 = (r, db')"
        using "2.prems"(5) False raw del by simp
      from "2.IH"(3) [OF False raw del [symmetric] refl "2.prems"(1) targets wf1
          order.trans [OF sub1 "2.prems"(4)] this]
      have rest: "key ` set (tasks db') \<subseteq> key ` set (tasks db1)
          \<and> (\<exists>m. r = Inr (deleted + n1 + m) \<and> length (tasks db1) = m + length (tasks db'))
          \<and> (closed_only \<longrightarrow> (\<forall>u \<in> set (tasks db1). is_open u \<longrightarrow> key u \<in> key ` set (tasks db')))
          \<and> (\<not> closed_only \<longrightarrow> t_id ` set targets \<inter> t_id ` set (tasks db') = {})" .
      have count: "length (tasks db) = n1 + length (tasks db1)"
        by (rule delete_count [OF "2.prems"(3) Some del])
      have gone_i: "t_id target \<notin> t_id ` set (tasks db1)"
      proof
        assume "t_id target \<in> t_id ` set (tasks db1)"
        then obtain v where "v \<in> set (tasks db1)" "t_id v = t_id target" by auto
        moreover from this(1) set1 obtain w where "w \<in> set (tasks db)" "t_id w \<notin> ?gone" "key v = key w" by blast
        ultimately show False by (simp add: key_eq)
      qed
      have kept: "key u \<in> key ` set (tasks db')"
        if c: "closed_only" and u: "u \<in> set (tasks db)" "is_open u" for u
      proof -
        have "t_id u \<notin> ?gone"
          using clear_keeps_open [OF wf0 "2.prems"(1) target(1) _ _ "2.prems"(4) Some u] target(2) c False
          by simp
        with u have "key u \<in> key ` set (tasks db1)" unfolding set1 by blast
        then obtain v where "v \<in> set (tasks db1)" "key u = key v" by blast
        moreover from this u have "is_open v" by (simp add: key_eq)
        ultimately show ?thesis using rest c by simp
      qed
      have "\<exists>m. r = Inr (deleted + m) \<and> length (tasks db) = m + length (tasks db')"
      proof -
        from rest obtain m where "r = Inr (deleted + n1 + m)" "length (tasks db1) = m + length (tasks db')" by blast
        with count show ?thesis by (intro exI [of _ "n1 + m"]) simp
      qed
      moreover have "\<not> closed_only \<longrightarrow> t_id ` set (target # targets) \<inter> t_id ` set (tasks db') = {}"
      proof
        assume all: "\<not> closed_only"
        from ids [of db' db1] rest gone_i have "t_id target \<notin> t_id ` set (tasks db')" by blast
        with rest all show "t_id ` set (target # targets) \<inter> t_id ` set (tasks db') = {}" by simp
      qed
      moreover have "key ` set (tasks db') \<subseteq> key ` set (tasks db)" using rest sub1 by blast
      ultimately show ?thesis using kept by simp
    qed
  qed
qed

text \<open>
  C13: Clearing the closed tasks of a scope never takes open work with it, not even below a closed
  parent: every open row of the store is still there with its parent and status. Clearing
  everything leaves the scope empty. Either way rows are only removed, and the number returned is
  the number removed.
\<close>

theorem clear_spares_open_work:
  fixes now scope :: string and sid :: "string option" and closed_only :: bool
  assumes wf: "wf_db db"
  defines "out \<equiv> clear now scope sid closed_only db"
  shows "(\<exists>m. fst out = Inr m \<and> length (tasks db) = m + length (tasks (snd out)))
    \<and> key ` set (tasks (snd out)) \<subseteq> key ` set (tasks db)
    \<and> (closed_only \<longrightarrow> (\<forall>u \<in> set (tasks db). is_open u \<longrightarrow> key u \<in> key ` set (tasks (snd out))))
    \<and> (\<not> closed_only \<longrightarrow> load_scope (snd out) (normalize_scope scope) sid = [])"
proof -
  let ?ts = "load_scope db (normalize_scope scope) sid"
  let ?targets = "sort_key (\<lambda>t. - int (parent_depth_lenient ?ts (t_id t)))
      (filter (\<lambda>t. \<not> closed_only \<or> is_closed_status (t_status t)) ?ts)"
  obtain r db' where run: "clear_loop now ?ts closed_only ?targets 0 db = (r, db')"
    by (cases "clear_loop now ?ts closed_only ?targets 0 db")
  have targets: "set ?targets = {t \<in> set ?ts. \<not> closed_only \<or> \<not> is_open t}" by simp
  note inv = clear_loop_invariant [OF wf refl equalityD1 [OF targets] wf order.refl run]
  have out: "out = (r, db')" using run by (simp add: out_def clear_def Let_def)
  have "load_scope db' (normalize_scope scope) sid = []" if all: "\<not> closed_only"
  proof (rule ccontr)
    assume "load_scope db' (normalize_scope scope) sid \<noteq> []"
    then obtain v where "v \<in> set (load_scope db' (normalize_scope scope) sid)"
      using hd_in_set by blast
    then have v: "v \<in> set (tasks db')" "t_scope v = normalize_scope scope" "t_scope_id v = sid"
      by (simp_all add: in_load_scope)
    from v(1) inv obtain w where w: "w \<in> set (tasks db)" "key v = key w" by blast
    with v have "w \<in> set ?ts" by (simp add: in_load_scope key_eq)
    with all have "w \<in> set ?targets" by simp
    with inv all have "t_id w \<notin> t_id ` set (tasks db')" by blast
    with v(1) w(2) show False by (metis imageI key_eq)
  qed
  with inv show ?thesis by (simp add: out)
qed

theorem clear_spares_open_work_witness:
  "fst (clear sample_now ''global'' None True sample_finished) = Inr 2
   \<and> (\<exists>m. fst (clear sample_now ''global'' None True sample_finished) = Inr m
        \<and> length (tasks sample_finished)
            = m + length (tasks (snd (clear sample_now ''global'' None True sample_finished))))"
proof
  show "fst (clear sample_now ''global'' None True sample_finished) = Inr 2" by code_simp
qed (use clear_spares_open_work [OF wf_db_reachable [OF reachable_finished]] in blast)

section \<open>Announcing\<close>

definition announce_row :: "string \<Rightarrow> task \<Rightarrow> task" where
  "announce_row now t = t\<lparr>
     t_due_announced := (if due_crossed (day_of now) t then Some now else t_due_announced t),
     t_overdue_announced :=
       (if overdue_crossed (day_of now) t then Some now else t_overdue_announced t)\<rparr>"

definition announce_events :: "string \<Rightarrow> task \<Rightarrow> (task_event_kind \<times> int) list" where
  "announce_events now t =
     (if due_crossed (day_of now) t then [(Due, t_id t)] else [])
     @ (if overdue_crossed (day_of now) t then [(Overdue, t_id t)] else [])"

abbreviation event_ids :: "db \<Rightarrow> (task_event_kind \<times> int) list option" where
  "event_ids db \<equiv> map_option (map (\<lambda>e. (ev_kind e, ev_task e))) (events db)"

lemma announce_same: "r\<lparr>t_due_announced := t_due_announced r,
    t_overdue_announced := t_overdue_announced r\<rparr> = (r :: task)"
  "r\<lparr>t_due_announced := t_due_announced r, t_overdue_announced := m\<rparr> = r\<lparr>t_overdue_announced := m\<rparr>"
  "r\<lparr>t_due_announced := m, t_overdue_announced := t_overdue_announced r\<rparr> = r\<lparr>t_due_announced := m\<rparr>"
  by (cases r; simp)+

lemma announce_one_effect:
  assumes "distinct (map t_id (tasks db))" and "t \<in> set (tasks db)"
  shows "\<exists>db'. announce_one now t ((a, b), db) =
      ((a + length (filter (\<lambda>e. fst e = Due) (announce_events now t)),
        b + length (filter (\<lambda>e. fst e = Overdue) (announce_events now t))), db')
    \<and> tasks db' = map (\<lambda>r. if r = t then announce_row now r else r) (tasks db)
    \<and> event_ids db' = map_option (\<lambda>es. es @ announce_events now t) (event_ids db)"
proof -
  let ?f = "\<lambda>r. r\<lparr>
     t_due_announced := (if due_crossed (day_of now) t then Some now else t_due_announced r),
     t_overdue_announced := (if overdue_crossed (day_of now) t then Some now else t_overdue_announced r)\<rparr>"
  have "\<exists>db'. announce_one now t ((a, b), db) =
      ((a + length (filter (\<lambda>e. fst e = Due) (announce_events now t)),
        b + length (filter (\<lambda>e. fst e = Overdue) (announce_events now t))), db')
    \<and> tasks db' = map (\<lambda>r. if t_id r = t_id t then ?f r else r) (tasks db)
    \<and> event_ids db' = map_option (\<lambda>es. es @ announce_events now t) (event_ids db)"
    by (cases "due_crossed (day_of now) t"; cases "overdue_crossed (day_of now) t")
       (simp_all add: announce_one_def announce_events_def Let_def emit_def option.map_comp comp_def
          announce_same cong: if_cong)
  moreover have "map (\<lambda>r. if t_id r = t_id t then ?f r else r) (tasks db) =
      map (\<lambda>r. if r = t then announce_row now r else r) (tasks db)"
  proof (rule map_cong [OF refl])
    fix r assume "r \<in> set (tasks db)"
    then have "t_id r = t_id t \<longleftrightarrow> r = t" using assms by (auto simp: distinct_map inj_on_def)
    then show "(if t_id r = t_id t then ?f r else r) = (if r = t then announce_row now r else r)"
      by (simp add: announce_row_def)
  qed
  ultimately show ?thesis by simp
qed

lemma fold_announce:
  "distinct (map t_id (tasks db)) \<Longrightarrow> set ts \<subseteq> set (tasks db) \<Longrightarrow> distinct ts \<Longrightarrow>
   \<exists>db'. fold (announce_one now) ts ((a, b), db) =
      ((a + length (filter (due_crossed (day_of now)) ts),
        b + length (filter (overdue_crossed (day_of now)) ts)), db')
    \<and> tasks db' = map (\<lambda>r. if r \<in> set ts then announce_row now r else r) (tasks db)
    \<and> event_ids db' = map_option (\<lambda>es. es @ concat (map (announce_events now) ts)) (event_ids db)"
proof (induction ts arbitrary: a b db)
  case Nil
  then show ?case by (simp add: option.map_id [unfolded id_def])
next
  case (Cons t ts)
  from Cons.prems(2) have t: "t \<in> set (tasks db)" by simp
  let ?a = "a + length (filter (\<lambda>e. fst e = Due) (announce_events now t))"
  let ?b = "b + length (filter (\<lambda>e. fst e = Overdue) (announce_events now t))"
  obtain db1 where one: "announce_one now t ((a, b), db) = ((?a, ?b), db1)"
      "tasks db1 = map (\<lambda>r. if r = t then announce_row now r else r) (tasks db)"
      "event_ids db1 = map_option (\<lambda>es. es @ announce_events now t) (event_ids db)"
    using announce_one_effect [OF Cons.prems(1) t] by blast
  have ids: "map t_id (tasks db1) = map t_id (tasks db)" by (simp add: one(2) announce_row_def)
  have other: "u \<noteq> t" "announce_row now t \<noteq> u" if "u \<in> set ts" for u
  proof -
    show "u \<noteq> t" using Cons.prems(3) that by auto
    moreover have "t_id u = t_id t \<longleftrightarrow> u = t"
      using Cons.prems(1,2) that by (auto simp: distinct_map inj_on_def)
    ultimately show "announce_row now t \<noteq> u" by (auto simp: announce_row_def)
  qed
  have sub: "set ts \<subseteq> set (tasks db1)"
    using Cons.prems(2) other(1) unfolding one(2) by (fastforce simp: image_iff)
  from Cons.IH [of db1 ?a ?b] sub Cons.prems(1,3) ids
  obtain db' where rest: "fold (announce_one now) ts ((?a, ?b), db1) =
      ((?a + length (filter (due_crossed (day_of now)) ts),
        ?b + length (filter (overdue_crossed (day_of now)) ts)), db')"
      "tasks db' = map (\<lambda>r. if r \<in> set ts then announce_row now r else r) (tasks db1)"
      "event_ids db' = map_option (\<lambda>es. es @ concat (map (announce_events now) ts)) (event_ids db1)"
    by auto
  have "tasks db' = map (\<lambda>r. if r \<in> set (t # ts) then announce_row now r else r) (tasks db)"
    unfolding rest(2) one(2) list.map_comp by (rule map_cong) (use other in auto)
  moreover have "event_ids db' =
      map_option (\<lambda>es. es @ concat (map (announce_events now) (t # ts))) (event_ids db)"
    unfolding rest(3) one(3) by (cases "events db") simp_all
  moreover have "?a = a + (if due_crossed (day_of now) t then 1 else 0)"
    "?b = b + (if overdue_crossed (day_of now) t then 1 else 0)" by (simp_all add: announce_events_def)
  ultimately show ?case using rest(1) one(1) by (intro exI [of _ db']) simp
qed

lemma announcable_iff:
  "t \<in> set (list_time_announcable db today) \<longleftrightarrow>
     t \<in> set (tasks db) \<and> is_open t \<and> (due_crossed today t \<or> overdue_crossed today t)"
  by (auto simp: list_time_announcable_def due_crossed_def overdue_crossed_def day_of_def
        cong: option.case_cong)

text \<open>
  C14: A sweep announces each open card at most once per crossing: it emits one \<open>due\<close> event
  for every open card whose defer day has come and one \<open>overdue\<close> event for every one whose
  deadline day has passed, unless announced before, stamps exactly those, returns their counts, and
  a second sweep on the same day finds nothing and changes nothing.
\<close>

theorem announce_due_once:
  fixes now :: string
  assumes wf: "wf_db db"
  defines "pending \<equiv> list_time_announcable db (day_of now)"
    and "db' \<equiv> snd (announce_due now db)"
  shows "fst (announce_due now db) = Inr (length (filter (due_crossed (day_of now)) pending),
        length (filter (overdue_crossed (day_of now)) pending))
    \<and> tasks db' = map (\<lambda>r. if is_open r then announce_row now r else r) (tasks db)
    \<and> event_ids db' = map_option (\<lambda>es. es @ concat (map (announce_events now) pending)) (event_ids db)
    \<and> (\<forall>later. day_of later = day_of now \<longrightarrow> announce_due later db' = (Inr (0, 0), db'))"
proof -
  have dist: "distinct pending"
    using wf_dbD(1) [OF wf] by (simp add: pending_def list_time_announcable_def distinct_map)
  have sub: "set pending \<subseteq> set (tasks db)" by (auto simp: pending_def announcable_iff)
  from fold_announce [OF wf_dbD(1) [OF wf] sub dist, of now 0 0]
  obtain db1 where fold: "fold (announce_one now) pending ((0, 0), db) =
      ((length (filter (due_crossed (day_of now)) pending),
        length (filter (overdue_crossed (day_of now)) pending)), db1)"
    "tasks db1 = map (\<lambda>r. if r \<in> set pending then announce_row now r else r) (tasks db)"
    "event_ids db1 = map_option (\<lambda>es. es @ concat (map (announce_events now) pending)) (event_ids db)"
    by auto
  then have "announce_due now db = (Inr (length (filter (due_crossed (day_of now)) pending),
        length (filter (overdue_crossed (day_of now)) pending)), db1)"
    by (simp add: announce_due_def pending_def)
  with fold have run: "announce_due now db = (Inr (length (filter (due_crossed (day_of now)) pending),
        length (filter (overdue_crossed (day_of now)) pending)), db')"
    and rows: "tasks db' = map (\<lambda>r. if r \<in> set pending then announce_row now r else r) (tasks db)"
    and evs: "event_ids db' = map_option (\<lambda>es. es @ concat (map (announce_events now) pending)) (event_ids db)"
    by (simp_all add: db'_def)
  have same: "announce_row now r = r" if "\<not> due_crossed (day_of now) r" "\<not> overdue_crossed (day_of now) r" for r
    using that by (simp add: announce_row_def announce_same)
  have rows': "tasks db' = map (\<lambda>r. if is_open r then announce_row now r else r) (tasks db)"
    unfolding rows by (rule map_cong) (auto simp: pending_def announcable_iff same)
  have none: "list_time_announcable db' (day_of now) = []"
  proof (rule ccontr)
    assume "list_time_announcable db' (day_of now) \<noteq> []"
    then obtain t where "t \<in> set (list_time_announcable db' (day_of now))" using hd_in_set by blast
    then have t: "t \<in> set (tasks db')" "is_open t" "due_crossed (day_of now) t \<or> overdue_crossed (day_of now) t"
      by (auto simp: announcable_iff)
    from t(1) have "t \<in> (\<lambda>r. if is_open r then announce_row now r else r) ` set (tasks db)"
      unfolding rows' by (simp only: set_map)
    then obtain r where "t = (if is_open r then announce_row now r else r)" by (rule imageE)
    with t(2,3) show False
      by (auto simp: announce_row_def due_crossed_def overdue_crossed_def split: if_splits)
  qed
  have "announce_due later db' = (Inr (0, 0), db')" if "day_of later = day_of now" for later
    using none that by (simp add: announce_due_def)
  with run rows' evs show ?thesis by simp
qed

text \<open>A card whose defer day has come and whose deadline has passed, and one that is not due.\<close>

definition sample_dated :: db where
  "sample_dated =
     sample_create (sample_new ''tax'' None [] \<lparr>n_due_at := Some ''2026-07-10'',
         n_deadline_at := Some ''2026-07-19T18:00:00Z''\<rparr>)
       (sample_create (sample_new ''trip'' None [] \<lparr>n_due_at := Some ''2026-08-01''\<rparr>)
          (seeded_db sample_now (Some [])))"

lemma reachable_dated: "reachable sample_parser ser sample_dated"
  by (simp add: sample_dated_def reachable_sample_create reachable.init)

theorem announce_due_once_witness:
  "fst (announce_due sample_now sample_dated) = Inr (1, 1)
   \<and> announce_due ''2026-07-20 23:59:59'' (snd (announce_due sample_now sample_dated))
       = (Inr (0, 0), snd (announce_due sample_now sample_dated))"
proof
  show "fst (announce_due sample_now sample_dated) = Inr (1, 1)" by code_simp
  have "day_of ''2026-07-20 23:59:59'' = day_of sample_now" by code_simp
  with announce_due_once [OF wf_db_reachable [OF reachable_dated]]
  show "announce_due ''2026-07-20 23:59:59'' (snd (announce_due sample_now sample_dated))
       = (Inr (0, 0), snd (announce_due sample_now sample_dated))" by blast
qed

end
