(* ===== verification/Store_Events.thy ===== *)
theory Store_Events
  imports Store_Reachable
begin

text \<open>
  The lifecycle events of a mutation, and the interleavings that the locks of \<open>create\<close> and
  \<open>update\<close> leave open.
\<close>

section \<open>Transitions of the derived flag\<close>

definition transition :: "task list \<Rightarrow> task list \<Rightarrow> string option \<Rightarrow> task \<Rightarrow> task_event option" where
  "transition before after actor t =
     (if t_id t \<in> t_id ` set before
         \<and> (t_id t \<in> set (blocked_ids before)) \<noteq> (t_id t \<in> set (blocked_ids after))
      then Some \<lparr>ev_kind = (if t_id t \<in> set (blocked_ids after) then Blocked else Unblocked),
             ev_task = t_id t, ev_scope = t_scope t, ev_scope_id = t_scope_id t, ev_actor = actor,
             ev_detail = JObj [(''depends_on'', JArr (map jint (t_depends_on t)))]\<rparr>
      else None)"

lemma emit_append:
  "events db = Some es \<Longrightarrow> emit k t actor d db = db\<lparr>events := Some (es @
     [\<lparr>ev_kind = k, ev_task = t_id t, ev_scope = t_scope t, ev_scope_id = t_scope_id t,
       ev_actor = actor, ev_detail = d\<rparr>])\<rparr>"
  by (simp add: emit_def)

lemma emit_block_transitions_events:
  "events db = Some es \<Longrightarrow> emit_block_transitions before after actor db =
     db\<lparr>events := Some (es @ List.map_filter (transition before after actor) after)\<rparr>"
proof -
  let ?step = "\<lambda>t db. if t_id t \<notin> set (map t_id before) then db
    else (let before_blocked = t_id t \<in> set (blocked_ids before);
              after_blocked = t_id t \<in> set (blocked_ids after)
      in if before_blocked = after_blocked then db
         else emit (if after_blocked then Blocked else Unblocked) t actor
                (JObj [(''depends_on'', JArr (map jint (t_depends_on t)))]) db)"
  have step: "?step t db = db\<lparr>events := Some (es @ List.map_filter (transition before after actor) [t])\<rparr>"
    if "events db = Some es" for t es and db :: db
    using that by (simp add: transition_def Let_def emit_append List.map_filter_simps)
  have loop: "fold ?step ts db = db\<lparr>events := Some (es @ List.map_filter (transition before after actor) ts)\<rparr>"
    if "events db = Some es" for ts es and db :: db
    using that
  proof (induction ts arbitrary: es db)
    case Nil
    then show ?case by (simp add: List.map_filter_simps)
  next
    case (Cons t ts)
    note s = step [OF Cons.prems, of t]
    have "fold ?step ts (?step t db) = (?step t db)\<lparr>events := Some ((es @ List.map_filter (transition before after actor) [t])
        @ List.map_filter (transition before after actor) ts)\<rparr>"
      by (rule Cons.IH) (simp only: s, simp)
    then show ?case unfolding fold_Cons comp_def s by (simp add: List.map_filter_simps split: option.split)
  qed
  assume "events db = Some es"
  then show ?thesis using loop [of db es after] by (simp add: emit_block_transitions_def Let_def)
qed

lemma transition_kind:
  assumes wf: "distinct (map t_id before)" "distinct (map t_id after)"
    and u: "u \<in> set before" and t: "t \<in> set after" and same: "t_id u = t_id t"
  shows "map_option ev_kind (transition before after actor t) =
    (if is_blocked before u = is_blocked after t then None
     else Some (if is_blocked after t then Blocked else Unblocked))"
proof -
  have "t_id t \<in> t_id ` set before" using u same by (metis imageI)
  then show ?thesis
    using blocked_ids_iff [OF wf(1) u] blocked_ids_iff [OF wf(2) t] same by (auto simp: transition_def)
qed

text \<open>The tasks whose flag differs between two snapshots, as a reader of either sees it.\<close>

definition flag_changes :: "task list \<Rightarrow> task list \<Rightarrow> (task_event_kind \<times> int) list" where
  "flag_changes before after = List.map_filter (\<lambda>u. case lookup_task before (t_id u) of
      None \<Rightarrow> None
    | Some old \<Rightarrow> if is_blocked before old = is_blocked after u then None
        else Some (if is_blocked after u then Blocked else Unblocked, t_id u)) after"

lemma transitions_are_flag_changes:
  assumes dist: "distinct (map t_id before)" and dist': "distinct (map t_id after)"
    and ids: "map t_id after = map t_id before"
  shows "map (\<lambda>e. (ev_kind e, ev_task e)) (List.map_filter (transition before after actor) after) =
    flag_changes before after"
proof -
  have one: "map_option (\<lambda>e. (ev_kind e, ev_task e)) (transition before after actor u) =
      (case lookup_task before (t_id u) of None \<Rightarrow> None
       | Some old \<Rightarrow> if is_blocked before old = is_blocked after u then None
           else Some (if is_blocked after u then Blocked else Unblocked, t_id u))"
    if u: "u \<in> set after" for u
  proof -
    from u ids have "t_id u \<in> t_id ` set before" by (metis image_eqI list.set_map)
    then obtain old where old: "lookup_task before (t_id u) = Some old"
      using lookup_task_None [of before "t_id u"] by (cases "lookup_task before (t_id u)") auto
    have task: "ev_task e = t_id u" if "transition before after actor u = Some e" for e
      using that by (auto simp: transition_def split: if_splits)
    from transition_kind [OF dist dist' _ u, of old actor] lookup_task_Some [OF old] old task show ?thesis
      by (cases "transition before after actor u") (auto split: if_splits)
  qed
  have "map g (List.map_filter h us) = List.map_filter (\<lambda>u. map_option g (h u)) us" for g h us
    by (induction us) (auto simp: List.map_filter_simps split: option.split)
  moreover have "List.map_filter h us = List.map_filter k us" if "\<And>u. u \<in> set us \<Longrightarrow> h u = k u" for h k us
    using that by (induction us) (auto simp: List.map_filter_simps split: option.split)
  ultimately show ?thesis
    unfolding flag_changes_def using one by (metis (no_types, lifting))
qed

text \<open>
  Reopening a closed task tells its dependents: after the status event, the sink receives one
  \<open>blocked\<close> or \<open>unblocked\<close> event for exactly those tasks of the scope whose derived flag
  differs between the state before and the state after, with the flag's new value, and none for any
  other task.
\<close>

theorem reopen_reports_transitions:
  fixes now :: string and actor :: "string option"
  assumes wf: "wf_db db" and row: "lookup_task (tasks db) i = Some task"
    and closed_t: "\<not> is_open task" and sink: "events db = Some es"
  defines "before \<equiv> load_scope db (t_scope task) (t_scope_id task)"
  defines "db' \<equiv> snd (reopen now i actor db)"
  defines "after \<equiv> load_scope db' (t_scope task) (t_scope_id task)"
  shows "map_option (map (\<lambda>e. (ev_kind e, ev_task e))) (events db') =
      Some (map (\<lambda>e. (ev_kind e, ev_task e)) es @ [(StatusChanged, i)]
        @ flag_changes before after)"
proof -
  let ?f = "\<lambda>r. r\<lparr>t_status := ''pending'', t_completed_at := None, t_due_announced := None,
      t_overdue_announced := None, t_updated_at := now\<rparr>"
  let ?db1 = "log_activity now i actor ''reopened'' None (set_rows i ?f db)"
  have "i \<in> t_id ` set (tasks ?db1)"
  proof -
    have "map t_id (tasks ?db1) = map t_id (tasks db)" by simp
    with lookup_task_Some [OF row] show ?thesis by (metis image_eqI list.set_map)
  qed
  then obtain t where t: "lookup_task (tasks ?db1) i = Some t"
    using lookup_task_None [of "tasks ?db1" i] by (cases "lookup_task (tasks ?db1) i") auto
  let ?db2 = "emit StatusChanged t actor
      (JObj [(''reopened'', JBool True), (''status'', JStr (t_status t))]) ?db1"
  have sink2: "events ?db2 = Some (es @ [\<lparr>ev_kind = StatusChanged, ev_task = t_id t, ev_scope = t_scope t,
      ev_scope_id = t_scope_id t, ev_actor = actor,
      ev_detail = JObj [(''reopened'', JBool True), (''status'', JStr (t_status t))]\<rparr>])"
    using sink by (simp add: emit_def)
  let ?after = "load_scope ?db2 (t_scope task) (t_scope_id task)"
  have db': "db' = emit_block_transitions before ?after actor ?db2"
    using row closed_t sink t unfolding db'_def before_def
    by (simp add: reopen_def get_raw_def Let_def)
  have after: "after = ?after" unfolding after_def db' by (rule load_scope_cong) simp
  have rows: "after = map (\<lambda>r. if t_id r = i then ?f r else r) before"
    unfolding after before_def
    by (simp only: load_scope_cong [of ?db2 "set_rows i ?f db"] emit_tasks log_activity_tasks)
       (rule load_scope_set_rows; simp)
  have dist: "distinct (map t_id before)" unfolding before_def by (rule distinct_load_scope [OF wf])
  have ids: "map t_id after = map t_id before" unfolding rows by simp
  with dist have dist': "distinct (map t_id after)" by simp
  have "map (\<lambda>e. (ev_kind e, ev_task e)) (List.map_filter (transition before after actor) after) =
      flag_changes before after"
    by (rule transitions_are_flag_changes [OF dist dist' ids])
  then show ?thesis
    using lookup_task_Some [OF t]
    by (simp add: db' emit_block_transitions_events [OF sink2, of before] after)
qed

section \<open>Interleavings\<close>

text \<open>
  C39: \<open>create\<close> checks the parent under one guard and inserts under another: when the parent
  is completed in between, the store holds an open child of a done task, which both a creation
  after the completion and a completion after the creation would have refused.
\<close>

definition race_child :: new_task where "race_child = sample_new ''late'' (Some 2) []"

theorem create_races_complete:
  "(case create_check sample_parser race_child sample_board of
      Inl e \<Rightarrow> False
    | Inr new \<Rightarrow>
        map (\<lambda>t. (t_id t, t_parent t, t_status t)) (tasks (snd (create_insert sample_now new sample_finished)))
          = [(1, None, ''done''), (2, Some 1, ''done''), (3, None, ''pending''), (4, Some 2, ''pending'')])
   \<and> fst (create sample_now sample_parser race_child sample_finished) = Inl (Invalid (ClosedParent ''done'' 2))
   \<and> fst (complete sample_now 2 None None (sample_create race_child sample_board))
       = Inl (Invalid (OpenChildren 2 [4]))"
  by (intro conjI) code_simp+

text \<open>
  C38: \<open>update\<close> reads the row it patches before it takes the guard under which it writes:
  when the task is completed in between, a change of the title alone writes the stale row back, and
  the recorded verdict is gone (status and completion stamp), without an error.
\<close>

definition race_patch :: task_patch where
  "race_patch = task_patch_default\<lparr>p_title := Some ''renamed''\<rparr>"

theorem update_races_complete:
  "map_option t_status (lookup_task (tasks sample_finished) 2) = Some ''done''
   \<and> (case update_plan sample_parser 2 race_patch sample_board of
        Inl e \<Rightarrow> False
      | Inr (t, changed) \<Rightarrow>
          is_ok (fst (update_commit sample_now race_patch t changed sample_finished)))
   \<and> (case update_plan sample_parser 2 race_patch sample_board of
        Inl e \<Rightarrow> False
      | Inr (t, changed) \<Rightarrow>
          map_option t_status (lookup_task (tasks
            (snd (update_commit sample_now race_patch t changed sample_finished))) 2) = Some ''pending'')"
  by (intro conjI) code_simp+

end
