(* ===== verification/Store_Cascade.thy ===== *)
theory Store_Cascade
  imports Store_Reachable
begin

text \<open>
  What is left below a cancelled task: the cascade closes the whole branch, except the subtrees
  of children with an acceptance contract of their own, which it moves out of the branch.
\<close>

section \<open>Rows and writes\<close>

lemma load_scope_write:
  "load_scope (write_task now t db) s sid =
     map (\<lambda>r. if t_id r = t_id t
              then t\<lparr>t_scope := t_scope r, t_scope_id := t_scope_id r, t_created_at := t_created_at r,
                     t_blocked := t_blocked r, t_updated_at := now\<rparr> else r) (load_scope db s sid)"
  unfolding write_task_def by (rule load_scope_set_rows) simp_all

text \<open>
  The state of the walk over the snapshot \<open>ts\<close>: \<open>kept\<close> are the visited rows that stay in the
  branch; everything under one that has left the queue has been visited.
\<close>

definition walk_state ::
  "task list \<Rightarrow> task \<Rightarrow> int set \<Rightarrow> int list \<Rightarrow> (int \<Rightarrow> bool) \<Rightarrow> db \<Rightarrow> bool" where
  "walk_state ts task kept seen handled db \<longleftrightarrow>
     kept \<subseteq> set seen
     \<and> (\<forall>k \<in> kept. (t_id task, k) \<in> (child_rel ts)\<^sup>*)
     \<and> (\<forall>k \<in> kept. handled k \<longrightarrow> (\<forall>t \<in> set ts. t_parent t = Some k \<longrightarrow> t_id t \<in> set seen))
     \<and> (\<forall>r \<in> set (load_scope db (t_scope task) (t_scope_id task)).
          \<exists>t \<in> set ts. t_id t = t_id r
            \<and> (if t_id r \<in> kept then t_parent r = t_parent t \<and> \<not> is_open r
               else if t_id r \<in> set seen then t_parent r = t_parent task
               else t_parent r = t_parent t \<and> t_status r = t_status t))"

lemma walk_state_log [simp]:
  "walk_state ts task kept seen handled (log_activity now i a act d db)
     = walk_state ts task kept seen handled db"
  by (simp add: walk_state_def load_scope_cong [of "log_activity now i a act d db" db])

lemma walk_state_row:
  assumes st: "walk_state ts task kept seen (\<lambda>k. k \<notin> set (current # queue)) db"
    and dist: "distinct (map t_id ts)" and t: "t \<in> set ts" and cur: "current \<in> kept"
    and queue: "set queue \<subseteq> kept"
    and row: "cascade_row now task actor ts current t (seen, queue, db) = (seen', queue', db')"
  shows "\<exists>kept'. walk_state ts task kept' seen' (\<lambda>k. k \<notin> set (current # queue')) db'
    \<and> kept \<subseteq> kept' \<and> set queue' \<subseteq> kept' \<and> set seen \<subseteq> set seen'
    \<and> (t_parent t = Some current \<longrightarrow> t_id t \<in> set seen')"
proof (cases "t_parent t = Some current \<and> t_id t \<notin> set seen")
  case False
  with row have "seen' = seen" "queue' = queue" "db' = db" by (auto simp: cascade_row_def split: if_splits)
  with st queue False show ?thesis by (intro exI [of _ kept]) auto
next
  case True
  let ?i = "t_id t"
  from st have kept_seen: "kept \<subseteq> set seen"
    and desc: "\<And>k. k \<in> kept \<Longrightarrow> (t_id task, k) \<in> (child_rel ts)\<^sup>*"
    and handled: "\<And>k t. k \<in> kept \<Longrightarrow> k \<notin> set (current # queue) \<Longrightarrow> t \<in> set ts \<Longrightarrow>
      t_parent t = Some k \<Longrightarrow> t_id t \<in> set seen"
    and rows: "\<And>r. r \<in> set (load_scope db (t_scope task) (t_scope_id task)) \<Longrightarrow>
      \<exists>t \<in> set ts. t_id t = t_id r
            \<and> (if t_id r \<in> kept then t_parent r = t_parent t \<and> \<not> is_open r
               else if t_id r \<in> set seen then t_parent r = t_parent task
               else t_parent r = t_parent t \<and> t_status r = t_status t)"
    unfolding walk_state_def by blast+
  have uniq: "u = t" if "u \<in> set ts" "t_id u = ?i" for u
    using that t dist by (auto simp: distinct_map inj_on_def)
  have below: "(t_id task, ?i) \<in> (child_rel ts)\<^sup>*"
    using desc [OF cur] True t by (auto intro: rtrancl_into_rtrancl child_relI)
  have state: "walk_state ts task kept' (seen @ [?i]) (\<lambda>k. k \<notin> set (current # queue')) db'"
    if kept': "kept' = kept \<or> kept' = insert ?i kept \<and> ?i \<in> set queue'" and q: "set queue \<subseteq> set queue'"
      and row_i: "\<And>r. r \<in> set (load_scope db' (t_scope task) (t_scope_id task)) \<Longrightarrow> t_id r = ?i \<Longrightarrow>
        (if ?i \<in> kept' then t_parent r = t_parent t \<and> \<not> is_open r else t_parent r = t_parent task)"
      and other: "\<And>r. r \<in> set (load_scope db' (t_scope task) (t_scope_id task)) \<Longrightarrow> t_id r \<noteq> ?i \<Longrightarrow>
        r \<in> set (load_scope db (t_scope task) (t_scope_id task))"
    for kept' queue'
    unfolding walk_state_def
  proof (intro conjI ballI impI)
    show "kept' \<subseteq> set (seen @ [?i])" using kept' kept_seen by auto
    show "(t_id task, k) \<in> (child_rel ts)\<^sup>*" if "k \<in> kept'" for k
      using kept' that desc below by auto
    show "t_id u \<in> set (seen @ [?i])"
      if "k \<in> kept'" "k \<notin> set (current # queue')" "u \<in> set ts" "t_parent u = Some k" for k u
      using that kept' q handled [of k u] by auto
    fix r assume r: "r \<in> set (load_scope db' (t_scope task) (t_scope_id task))"
    show "\<exists>t \<in> set ts. t_id t = t_id r
            \<and> (if t_id r \<in> kept' then t_parent r = t_parent t \<and> \<not> is_open r
               else if t_id r \<in> set (seen @ [?i]) then t_parent r = t_parent task
               else t_parent r = t_parent t \<and> t_status r = t_status t)"
    proof (cases "t_id r = ?i")
      case True
      with row_i [OF r] t show ?thesis by (intro bexI [of _ t]) auto
    next
      case False
      with kept' have "t_id r \<in> kept' \<longleftrightarrow> t_id r \<in> kept" by auto
      with False rows [OF other [OF r False]] show ?thesis by auto
    qed
  qed
  show ?thesis
  proof (cases "own_contract ts task current t")
    case own: True
    let ?t = "t\<lparr>t_parent := t_parent task\<rparr>"
    have eq: "seen' = seen @ [?i]" "queue' = queue"
      and db': "load_scope db' (t_scope task) (t_scope_id task) =
        load_scope (write_task now ?t db) (t_scope task) (t_scope_id task)"
      using row True own by (auto simp: cascade_row_def intro: load_scope_cong)
    have "?i \<notin> kept" using kept_seen True by auto
    then have "walk_state ts task kept seen' (\<lambda>k. k \<notin> set (current # queue')) db'"
      unfolding eq(1) by (intro state) (auto simp: db' load_scope_write eq(2) split: if_splits)
    with eq queue show ?thesis by (intro exI [of _ kept]) auto
  next
    case False
    let ?t = "t\<lparr>t_status := ''cancelled''\<rparr>"
    have eq: "seen' = seen @ [?i]" "queue' = queue @ [?i]"
      using row True False by (auto simp: cascade_row_def)
    have db': "load_scope db' (t_scope task) (t_scope_id task) =
        (if is_open t then load_scope (write_task now ?t db) (t_scope task) (t_scope_id task)
         else load_scope db (t_scope task) (t_scope_id task))"
      using row True False by (auto simp: cascade_row_def intro: load_scope_cong)
    have keep: "t_parent r = t_parent t \<and> t_status r = t_status t"
      if "r \<in> set (load_scope db (t_scope task) (t_scope_id task))" "t_id r = ?i" for r
    proof -
      have "?i \<notin> kept" using kept_seen True by auto
      with rows [OF that(1)] that(2) True obtain u where "u \<in> set ts" "t_id u = ?i"
        "t_parent r = t_parent u" "t_status r = t_status u" by auto
      with uniq show ?thesis by blast
    qed
    have "walk_state ts task (insert ?i kept) seen' (\<lambda>k. k \<notin> set (current # queue')) db'"
      unfolding eq(1) by (intro state) (auto simp: db' load_scope_write eq(2) keep split: if_splits)
    with eq queue show ?thesis by (intro exI [of _ "insert ?i kept"]) auto
  qed
qed

lemma walk_state_rows:
  assumes dist: "distinct (map t_id ts)"
  shows "walk_state ts task kept seen (\<lambda>k. k \<notin> set (current # queue)) db \<Longrightarrow> set us \<subseteq> set ts \<Longrightarrow>
    current \<in> kept \<Longrightarrow> set queue \<subseteq> kept \<Longrightarrow>
    fold (cascade_row now task actor ts current) us (seen, queue, db) = (seen', queue', db') \<Longrightarrow>
    \<exists>kept'. walk_state ts task kept' seen' (\<lambda>k. k \<notin> set (current # queue')) db'
      \<and> kept \<subseteq> kept' \<and> set queue' \<subseteq> kept' \<and> set seen \<subseteq> set seen'
      \<and> (\<forall>t \<in> set us. t_parent t = Some current \<longrightarrow> t_id t \<in> set seen')"
proof (induction us arbitrary: seen queue db kept)
  case Nil
  then show ?case by (intro exI [of _ kept]) auto
next
  case (Cons t us)
  obtain s q d where row: "cascade_row now task actor ts current t (seen, queue, db) = (s, q, d)"
    by (cases "cascade_row now task actor ts current t (seen, queue, db)")
  from Cons.prems(2) have t: "t \<in> set ts" "set us \<subseteq> set ts" by auto
  obtain k1 where k1: "walk_state ts task k1 s (\<lambda>k. k \<notin> set (current # q)) d"
    "kept \<subseteq> k1" "set q \<subseteq> k1" "set seen \<subseteq> set s" "t_parent t = Some current \<longrightarrow> t_id t \<in> set s"
    using walk_state_row [OF Cons.prems(1) dist t(1) Cons.prems(3,4) row] by blast
  have "fold (cascade_row now task actor ts current) us (s, q, d) = (seen', queue', db')"
    using Cons.prems(5) row by simp
  from Cons.IH [OF k1(1) t(2) _ k1(3) this] Cons.prems(3) k1(2)
  obtain k2 where "walk_state ts task k2 seen' (\<lambda>k. k \<notin> set (current # queue')) db'"
    "k1 \<subseteq> k2" "set queue' \<subseteq> k2" "set s \<subseteq> set seen'"
    "\<forall>t \<in> set us. t_parent t = Some current \<longrightarrow> t_id t \<in> set seen'" by blast
  with k1 show ?case by (intro exI [of _ k2]) auto
qed

lemma walk_state_loop:
  "distinct (map t_id ts) \<Longrightarrow> walk_state ts task kept seen (\<lambda>k. k \<notin> set queue) db \<Longrightarrow> set queue \<subseteq> kept \<Longrightarrow>
   \<exists>kept' seen'. kept \<subseteq> kept' \<and>
     walk_state ts task kept' seen' (\<lambda>k. True) (cascade_loop now task actor ts queue seen db)"
proof (induction now task actor ts queue seen db arbitrary: kept rule: cascade_loop.induct)
  case (1 now task actor ts seen db)
  then show ?case by auto
next
  case (2 now task actor ts current queue seen db)
  obtain s q d where rows: "fold (cascade_row now task actor ts current) ts (seen, queue, db) = (s, q, d)"
    by (cases "fold (cascade_row now task actor ts current) ts (seen, queue, db)")
  have cur: "current \<in> kept" "set queue \<subseteq> kept" using "2.prems"(3) by auto
  from walk_state_rows [OF "2.prems"(1,2) order.refl cur rows]
  obtain k1 where k1: "walk_state ts task k1 s (\<lambda>k. k \<notin> set (current # q)) d" "kept \<subseteq> k1" "set q \<subseteq> k1"
    "\<forall>t \<in> set ts. t_parent t = Some current \<longrightarrow> t_id t \<in> set s" by blast
  have "walk_state ts task k1 s (\<lambda>k. k \<notin> set q) d"
    using k1(1,4) unfolding walk_state_def by auto
  from "2.IH" [OF rows [symmetric] refl "2.prems"(1) this k1(3)] rows k1(2) show ?case by auto
qed

lemma kept_children:
  assumes wf: "wf_graph ts" and task: "u \<in> set ts" "t_id u = t_id task" "t_parent u = t_parent task"
    and st: "walk_state ts task kept seen (\<lambda>k. True) db"
    and r: "r \<in> set (load_scope db (t_scope task) (t_scope_id task))" "t_parent r = Some k" "k \<in> kept"
  shows "t_id r \<in> kept"
proof (rule ccontr)
  assume out: "t_id r \<notin> kept"
  from st r(1) obtain t where t: "t \<in> set ts" "t_id t = t_id r"
    "if t_id r \<in> kept then t_parent r = t_parent t \<and> \<not> is_open r
     else if t_id r \<in> set seen then t_parent r = t_parent task
     else t_parent r = t_parent t \<and> t_status r = t_status t"
    unfolding walk_state_def by blast
  show False
  proof (cases "t_id r \<in> set seen")
    case True
    with t out r(2) have "t_parent task = Some k" by simp
    with task have "(k, t_id task) \<in> child_rel ts" by (metis child_relI)
    moreover have "(t_id task, k) \<in> (child_rel ts)\<^sup>*" using st r(3) unfolding walk_state_def by blast
    ultimately have "(t_id task, t_id task) \<in> (child_rel ts)\<^sup>+" by (metis rtrancl_into_trancl1)
    moreover obtain d where "at_depth ts (t_id task) d" using wf_graphD(5) [OF wf task(1)] task(2) by auto
    ultimately show False using not_own_descendant [OF wf_graphD(1) [OF wf]] by blast
  next
    case False
    with t out r(2) have "t_parent t = Some k" by simp
    with st r(3) t(1) have "t_id t \<in> set seen" unfolding walk_state_def by blast
    with False t(2) show False by simp
  qed
qed

lemma cascade_closes:
  fixes now :: string and actor :: "string option"
  assumes wf: "wf_db db" and u: "u \<in> set (load_scope db (t_scope task) (t_scope_id task))"
    "t_id u = t_id task" "t_parent u = t_parent task" "\<not> is_open u"
  defines "sc \<equiv> load_scope (cascade_cancel now task actor db) (t_scope task) (t_scope_id task)"
  shows "r \<in> set sc \<Longrightarrow> (t_id task, t_id r) \<in> (child_rel sc)\<^sup>* \<Longrightarrow> \<not> is_open r"
proof -
  let ?ts = "load_scope db (t_scope task) (t_scope_id task)"
  have uniq: "r = u" if "r \<in> set ?ts" "t_id r = t_id task" for r
    using row_unique [OF wf] that u by (auto simp: in_load_scope)
  have "walk_state ?ts task {t_id task} [t_id task] (\<lambda>k. k \<notin> set [t_id task]) db"
    unfolding walk_state_def
  proof (intro conjI ballI impI)
    fix r assume r: "r \<in> set ?ts"
    show "\<exists>t \<in> set ?ts. t_id t = t_id r
        \<and> (if t_id r \<in> {t_id task} then t_parent r = t_parent t \<and> \<not> is_open r
           else if t_id r \<in> set [t_id task] then t_parent r = t_parent task
           else t_parent r = t_parent t \<and> t_status r = t_status t)"
      by (rule bexI [of _ r]) (use uniq [OF r] u r in auto)
  qed auto
  from walk_state_loop [OF distinct_load_scope [OF wf] this, of now actor]
  obtain kept seen where "{t_id task} \<subseteq> kept"
    and st: "walk_state ?ts task kept seen (\<lambda>k. True) (cascade_cancel now task actor db)"
    unfolding cascade_cancel_def by (auto simp del: cascade_loop.simps)
  note child = kept_children [OF wf_dbD(3) [OF wf] u(1-3) st, folded sc_def]
  have "x \<in> kept" if "(t_id task, x) \<in> (child_rel sc)\<^sup>*" for x
    using that
  proof (induction rule: rtrancl_induct)
    case base
    with \<open>{t_id task} \<subseteq> kept\<close> show ?case by simp
  next
    case (step y z)
    then show ?case using child by (auto simp: child_rel_iff)
  qed
  moreover have "\<not> is_open r" if "r \<in> set sc" "t_id r \<in> kept" for r
  proof -
    have "\<exists>t \<in> set ?ts. t_id t = t_id r
      \<and> (if t_id r \<in> kept then t_parent r = t_parent t \<and> \<not> is_open r
         else if t_id r \<in> set seen then t_parent r = t_parent task
         else t_parent r = t_parent t \<and> t_status r = t_status t)"
      using st that(1) [unfolded sc_def] unfolding walk_state_def by (elim conjE) (drule (1) bspec)
    with that(2) show ?thesis by auto
  qed
  ultimately show "r \<in> set sc \<Longrightarrow> (t_id task, t_id r) \<in> (child_rel sc)\<^sup>* \<Longrightarrow> \<not> is_open r" by blast
qed

section \<open>Cancelling through an update\<close>

lemma patch_field_changed:
  "patch_field field step acc = Inr (t, ch) \<Longrightarrow> (\<And>s ch0. acc = Inr (s, ch0) \<Longrightarrow> x \<in> set ch0) \<Longrightarrow> x \<in> set ch"
  by (cases field) (auto simp: patch_field_ok)

lemma status_patch_cancel:
  assumes "apply_status_patch t patch = Inr (u, ch)" and "p_status patch = Some ''cancelled''"
  shows "t_status u = ''cancelled''" and "t_status t \<noteq> ''cancelled'' \<Longrightarrow> ''status'' \<in> set ch"
  using assms by (auto simp: apply_status_patch_def)

lemma patch_acceptance_status: "patch_acceptance jp a t = Inr (u, ch) \<Longrightarrow> t_status u = t_status t"
  by (auto simp: patch_acceptance_def split: option.splits sum.splits)

lemma apply_patch_cancel:
  assumes "apply_patch jp task patch = Inr (t, ch)" and "p_status patch = Some ''cancelled''"
    and "t_status task \<noteq> ''cancelled''"
  shows "t_status t = ''cancelled'' \<and> ''status'' \<in> set ch"
proof
  show "''status'' \<in> set ch"
    using assms(1) unfolding apply_patch_def Let_def
    by (elim patch_field_changed) (rule status_patch_cancel(2) [OF _ assms(2,3)])
  show "t_status t = ''cancelled''"
    using assms(1) unfolding apply_patch_def Let_def
    by (elim patch_field_keeps [where p = t_status])
       (auto simp: bind_res_eq_Inr dest: patch_acceptance_status intro: status_patch_cancel(1) [OF _ assms(2)])
qed

text \<open>
  C10: When an update cancels a task, nothing open is left below it: every task that is still a
  descendant of the cancelled one afterwards is closed, at any depth; what carries its own
  acceptance contract has been moved out of the branch instead.
\<close>

theorem cancel_closes_the_branch:
  fixes now :: string and actor :: "string option" and jp :: json_parser
  assumes wf: "wf_db db" and row: "lookup_task (tasks db) i = Some task"
    and not_cancelled: "t_status task \<noteq> ''cancelled''" and patch: "p_status patch = Some ''cancelled''"
    and ok: "is_ok (fst (update now jp i patch actor db))"
  defines "sc \<equiv> load_scope (snd (update now jp i patch actor db)) (t_scope task) (t_scope_id task)"
  shows "list_all (\<lambda>r. (i, t_id r) \<in> (child_rel sc)\<^sup>* \<longrightarrow> \<not> is_open r) sc"
proof (cases rule: update_cases [of now jp i patch actor db])
  case (1 e)
  with ok show ?thesis by simp
next
  case (2 t changed)
  have patched: "apply_patch jp task patch = Inr (t, changed)"
    using 2(1) row by (auto elim: update_plan_ok)
  note key = apply_patch_key [OF patched] and cancel = apply_patch_cancel [OF patched patch not_cancelled]
  let ?db1 = "write_task now t db"
  let ?db2 = "log_activity now (t_id t) actor ''updated''
    (Some (JObj [(''fields'', JArr (map JStr changed))])) ?db1"
  have wf1: "wf_db ?db2" using wf_db_update_commit [OF wf 2(1), of now] 2(2) by simp
  have effects: "update_effects now t changed actor ?db1 = cascade_cancel now t actor ?db2"
    using cancel by (auto simp: update_effects_def Let_def)
  obtain before where "snd (update now jp i patch actor db) =
      update_events t changed actor before (cascade_cancel now t actor ?db2)"
    using update_result [OF 2, of actor] by (auto simp: Let_def effects)
  then have sc: "sc = load_scope (cascade_cancel now t actor ?db2) (t_scope t) (t_scope_id t)"
    unfolding sc_def using key by (auto intro: load_scope_cong)
  let ?u = "t\<lparr>t_scope := t_scope task, t_scope_id := t_scope_id task, t_created_at := t_created_at task,
    t_blocked := t_blocked task, t_updated_at := now\<rparr>"
  have "task \<in> set (load_scope db (t_scope t) (t_scope_id t))"
    using lookup_task_Some [OF row] key by (simp add: in_load_scope)
  then have "?u \<in> set (load_scope ?db2 (t_scope t) (t_scope_id t))"
    unfolding load_scope_cong [of ?db2 ?db1, OF log_activity_tasks(1)] load_scope_write set_map
    by (rule image_eqI [rotated]) (use lookup_task_Some [OF row] key in simp)
  from cascade_closes [OF wf1 this] cancel key lookup_task_Some [OF row]
  show ?thesis unfolding sc by (simp add: list_all_iff)
qed

text \<open>A plan with a step that has its own check; below the step, a note without one.\<close>

definition sample_check :: json where
  "sample_check = JObj [(''command'', JStr ''cargo test''), (''kind'', JStr ''command'')]"

definition sample_branch :: db where
  "sample_branch =
     sample_create (sample_new ''note'' (Some 2) [])
     (sample_create (sample_new ''repair'' (Some 2) [] \<lparr>n_acceptance := Some sample_check\<rparr>) sample_step)"

lemma reachable_branch: "reachable sample_parser ser sample_branch"
  by (simp add: sample_branch_def reachable_sample_create reachable_samples)

definition cancel_patch :: task_patch where
  "cancel_patch = task_patch_default\<lparr>p_status := Some ''cancelled''\<rparr>"

theorem cancel_closes_the_branch_witness:
  "map (\<lambda>t. (t_id t, t_parent t, t_status t))
     (tasks (snd (update sample_now sample_parser 2 cancel_patch None sample_branch)))
   = [(1, None, ''pending''), (2, Some 1, ''cancelled''), (3, Some 1, ''pending''), (4, Some 2, ''cancelled'')]
   \<and> list_all (\<lambda>r. (2, t_id r) \<in> (child_rel (load_scope
         (snd (update sample_now sample_parser 2 cancel_patch None sample_branch)) ''global'' None))\<^sup>*
       \<longrightarrow> \<not> is_open r)
     (load_scope (snd (update sample_now sample_parser 2 cancel_patch None sample_branch)) ''global'' None)"
proof
  have "is_ok (get_raw sample_branch 2)" by code_simp
  then obtain task where row: "lookup_task (tasks sample_branch) 2 = Some task"
    by (cases "get_raw sample_branch 2") (auto simp: get_raw_ok)
  have "list_all (\<lambda>t. t_scope t = ''global'' \<and> t_scope_id t = None \<and> t_status t \<noteq> ''cancelled'')
    (tasks sample_branch)" by code_simp
  then have task: "t_scope task = ''global''" "t_scope_id task = None" "t_status task \<noteq> ''cancelled''"
    using lookup_task_Some [OF row] by (simp_all add: list_all_iff)
  have "p_status cancel_patch = Some ''cancelled''" by (simp add: cancel_patch_def)
  moreover have "is_ok (fst (update sample_now sample_parser 2 cancel_patch None sample_branch))" by code_simp
  ultimately show "list_all (\<lambda>r. (2, t_id r) \<in> (child_rel (load_scope
         (snd (update sample_now sample_parser 2 cancel_patch None sample_branch)) ''global'' None))\<^sup>*
       \<longrightarrow> \<not> is_open r)
     (load_scope (snd (update sample_now sample_parser 2 cancel_patch None sample_branch)) ''global'' None)"
    using cancel_closes_the_branch [OF wf_db_reachable [OF reachable_branch] row task(3)]
    unfolding task(1,2) by blast
qed code_simp

end
