(* ===== verification/Task_Filter.thy ===== *)
theory Task_Filter
  imports Task_Model
begin

text \<open>
  The task filter language (\<open>task_filter.rs\<close>): the lexer, the parser with its depth bound,
  and the evaluation of an expression on a task; then the grammar the parser accepts and the
  canonical text of an expression.

  The parser's \<open>tokens\<close> and \<open>pos\<close> are the list of the tokens from \<open>pos\<close> on; the
  lexer's \<open>chars\<close> and index are the characters that are left.
\<close>

section \<open>Expressions\<close>

datatype filter_expr =
    And filter_expr filter_expr
  | Or filter_expr filter_expr
  | Not filter_expr
  | Atom filter_atom

definition FILTER_INPUT_MAX_BYTES :: nat where
  "FILTER_INPUT_MAX_BYTES = 4096"

definition FILTER_DEPTH_MAX :: nat where
  "FILTER_DEPTH_MAX = 32"

section \<open>Evaluation\<close>

definition iso_day :: "string \<Rightarrow> string" where
  "iso_day value = take 10 value"

definition due_date :: "task \<Rightarrow> string option" where
  "due_date t = map_option iso_day (t_due_at t)"

definition deadline_date :: "task \<Rightarrow> string option" where
  "deadline_date t = map_option iso_day (t_deadline_at t)"

definition is_some_and :: "'a option \<Rightarrow> ('a \<Rightarrow> bool) \<Rightarrow> bool" where
  "is_some_and x p = (case x of None \<Rightarrow> False | Some y \<Rightarrow> p y)"

fun atom_matches :: "filter_atom \<Rightarrow> task \<Rightarrow> string \<Rightarrow> bool" where
  "atom_matches (Priority p) t today = (t_priority t = p)"
| "atom_matches (Label l) t today = list_ex (\<lambda>x. eq_ignore_ascii_case x l) (t_labels t)"
| "atom_matches (Project p) t today = is_some_and (t_project t) (\<lambda>x. eq_ignore_ascii_case x p)"
| "atom_matches Is_Overdue t today =
     (t_status t \<noteq> ''done'' \<and> t_status t \<noteq> ''cancelled''
      \<and> is_some_and (deadline_date t) (\<lambda>d. d < today))"
| "atom_matches Is_Today t today = is_some_and (due_date t) (\<lambda>d. d = today)"
| "atom_matches NoDate t today = (t_due_at t = None)"
| "atom_matches NoDeadline t today = (t_deadline_at t = None)"
| "atom_matches NoLabel t today = (t_labels t = [])"
| "atom_matches Subtask t today = (t_parent t \<noteq> None)"
| "atom_matches (DueBefore date) t today = is_some_and (due_date t) (\<lambda>d. d < date)"
| "atom_matches (DueAfter date) t today = is_some_and (due_date t) (\<lambda>d. d > date)"
| "atom_matches (DeadlineBefore date) t today = is_some_and (deadline_date t) (\<lambda>d. d < date)"
| "atom_matches (DeadlineAfter date) t today = is_some_and (deadline_date t) (\<lambda>d. d > date)"
| "atom_matches (Search s) t today =
     (let needle = to_lowercase s
      in str_contains (to_lowercase (t_title t)) needle
         \<or> is_some_and (t_description t) (\<lambda>d. str_contains (to_lowercase d) needle))"
| "atom_matches (Status s) t today = (t_status t = s)"
| "atom_matches Is_Blocked t today = t_blocked t"

fun matches :: "filter_expr \<Rightarrow> task \<Rightarrow> string \<Rightarrow> bool" where
  "matches (And a b) t today = (matches a t today \<and> matches b t today)"
| "matches (Or a b) t today = (matches a t today \<or> matches b t today)"
| "matches (Not e) t today = (\<not> matches e t today)"
| "matches (Atom a) t today = atom_matches a t today"

section \<open>The lexer\<close>

text \<open>The UTF-8 bytes of a string (code points below U+0100 take one byte or two).\<close>

definition as_bytes :: "string \<Rightarrow> nat list" where
  "as_bytes s = concat (map (\<lambda>c. if code c < 128 then [code c]
     else [192 + code c div 64, 128 + code c mod 64]) s)"

definition is_digit_byte :: "nat \<Rightarrow> bool" where
  "is_digit_byte b = (48 \<le> b \<and> b \<le> 57)"

definition is_iso_date :: "string \<Rightarrow> bool" where
  "is_iso_date s =
     (let bytes = as_bytes s
      in length bytes = 10 \<and> bytes ! 4 = 45 \<and> bytes ! 7 = 45
         \<and> list_all (\<lambda>(idx, b). idx \<in> {4, 7} \<or> is_digit_byte b) (enumerate 0 bytes))"

definition is_operator :: "char \<Rightarrow> bool" where
  "is_operator c = (c \<in> set ''&|!()'')"

definition skip_ws :: "string \<Rightarrow> string" where
  "skip_ws s = dropWhile is_whitespace s"

definition in_word :: "char \<Rightarrow> bool" where
  "in_word c = (\<not> (is_whitespace c \<or> is_operator c))"

definition take_word :: "string \<Rightarrow> string \<times> string" where
  "take_word s = (takeWhile in_word s, dropWhile in_word s)"

definition in_free_text :: "char \<Rightarrow> bool" where
  "in_free_text c = (c \<notin> set ''&|)'')"

definition take_until_operator :: "string \<Rightarrow> string \<times> string" where
  "take_until_operator s = (trim (takeWhile in_free_text s), dropWhile in_free_text s)"

text \<open>The \<open>due\<close> and \<open>deadline\<close> keywords: a bound and its date.\<close>

definition lex_date :: "string \<Rightarrow> string \<Rightarrow> (filter_error, token \<times> string) result" where
  "lex_date lower i =
     (case take_until_operator i of (s, after) \<Rightarrow>
        let on_deadline = (lower = ''deadline''); lower_rest = to_lowercase s
        in bind_res
             (if starts_with lower_rest ''before:''
              then Inr (if on_deadline then DeadlineBefore else DueBefore, drop (length ''before:'') s)
              else if starts_with lower_rest ''after:''
              then Inr (if on_deadline then DeadlineAfter else DueAfter, drop (length ''after:'') s)
              else Inl (FUnknownKeyword (lower @ '' '' @ s)))
             (\<lambda>(build, raw_date).
                let date = trim raw_date
                in if \<not> is_iso_date date then Inl (FInvalidDate date)
                   else Inr (TAtom (build date), after)))"

definition lex_no :: "string \<Rightarrow> (filter_error, token \<times> string) result" where
  "lex_no i =
     (case take_word (skip_ws i) of (follow, after) \<Rightarrow>
        let other = to_lowercase follow
        in if other = ''date'' then Inr (TAtom NoDate, after)
           else if other = ''deadline'' then Inr (TAtom NoDeadline, after)
           else if other = ''label'' then Inr (TAtom NoLabel, after)
           else Inl (FUnknownKeyword (''no '' @ other)))"

definition lex_search :: "string \<Rightarrow> (filter_error, token \<times> string) result" where
  "lex_search s =
     (case take_until_operator s of (s', after) \<Rightarrow>
        let body = trim (drop (length ''search:'') s')
        in if body = [] then Inl (FUnexpectedEnd ''search text'') else Inr (TAtom (Search body), after))"

text \<open>The keywords that are one word.\<close>

definition keyword :: "string \<Rightarrow> filter_atom option" where
  "keyword lower =
     map_of [(''p1'', Priority 1), (''p2'', Priority 2), (''p3'', Priority 3), (''p4'', Priority 4),
             (''overdue'', Is_Overdue), (''today'', Is_Today), (''subtask'', Subtask),
             (''blocked'', Is_Blocked),
             (''pending'', Status lower), (''in_progress'', Status lower),
             (''done'', Status lower), (''cancelled'', Status lower)] lower"

definition lex_word :: "string \<Rightarrow> (filter_error, token \<times> string) result" where
  "lex_word s =
     (case take_word s of (word, i) \<Rightarrow>
        if word = [] then Inl (FUnexpectedChar (take 1 s))
        else let lower = to_lowercase word
          in if starts_with lower ''search:'' then lex_search s
             else case keyword lower of
               Some atom \<Rightarrow> Inr (TAtom atom, i)
             | None \<Rightarrow>
                 if lower = ''no'' then lex_no i
                 else if lower = ''due'' \<or> lower = ''deadline'' then lex_date lower i
                 else Inl (FUnknownKeyword lower))"

text \<open>\<open>@label\<close> and \<open>#project\<close>: a word right after the sigil.\<close>

definition lex_sigil ::
  "(string \<Rightarrow> filter_atom) \<Rightarrow> string \<Rightarrow> string \<Rightarrow> (filter_error, token \<times> string) result" where
  "lex_sigil mk sigil s =
     (case take_word s of (word, i) \<Rightarrow>
        if word = [] then Inl (FUnknownKeyword sigil) else Inr (TAtom (mk word), i))"

lemma length_take_until_operator [simp]: "take_until_operator s = (b, r) \<Longrightarrow> length r \<le> length s"
  by (auto simp: take_until_operator_def length_dropWhile_le)

lemma length_take_word [simp]: "take_word s = (w, r) \<Longrightarrow> length r + length w = length s"
  using takeWhile_dropWhile_id [of in_word s] unfolding take_word_def
  by (metis Pair_inject add.commute length_append)

lemma length_lex_date: "lex_date lower s = Inr (t, r) \<Longrightarrow> length r \<le> length s"
  by (cases "take_until_operator s")
     (auto simp: lex_date_def Let_def bind_res_eq_Inr split: if_splits prod.splits)

lemma length_lex_no:
  assumes "lex_no s = Inr (t, r)"
  shows "length r \<le> length s"
proof -
  obtain w a where w: "take_word (skip_ws s) = (w, a)" by (cases "take_word (skip_ws s)")
  with assms have "r = a" by (auto simp: lex_no_def Let_def split: if_splits)
  with length_take_word [OF w] show ?thesis
    using length_dropWhile_le [of is_whitespace s] by (simp add: skip_ws_def)
qed

lemma length_lex_sigil: "lex_sigil mk c s = Inr (t, r) \<Longrightarrow> length r \<le> length s"
  by (cases "take_word s") (auto simp: lex_sigil_def dest: length_take_word split: if_splits)

lemma search_consumes:
  assumes "starts_with (to_lowercase (fst (take_word s))) ''search:''" and "lex_search s = Inr (t, r)"
  shows "length r < length s"
proof -
  obtain b a where b: "take_until_operator s = (b, a)" by (cases "take_until_operator s")
  with assms(2) have r: "r = a" by (auto simp: lex_search_def Let_def split: if_splits)
  from assms(1) obtain c s' where s: "s = c # s'" "in_word c"
    by (cases s) (auto simp: take_word_def starts_with_def to_lowercase_def split: if_splits)
  then have "in_free_text c" by (auto simp: in_word_def in_free_text_def is_operator_def)
  with b s(1) have "a = dropWhile in_free_text s'" by (auto simp: take_until_operator_def)
  with r s(1) length_dropWhile_le [of in_free_text s'] show ?thesis by simp
qed

lemma length_lex_word: "lex_word s = Inr (t, r) \<Longrightarrow> length r < length s"
proof -
  assume lex: "lex_word s = Inr (t, r)"
  obtain w i where w: "take_word s = (w, i)" by (cases "take_word s")
  show ?thesis
  proof (cases "starts_with (to_lowercase w) ''search:''")
    case True
    with lex w have "lex_search s = Inr (t, r)" by (auto simp: lex_word_def Let_def split: if_splits)
    with search_consumes True w show ?thesis by simp
  next
    case False
    with lex w have "w \<noteq> []" and "length r \<le> length i"
      by (auto simp: lex_word_def Let_def dest: length_lex_no length_lex_date
          split: if_splits option.splits)
    with length_take_word [OF w] show ?thesis by (cases w) auto
  qed
qed

function lex :: "string \<Rightarrow> (filter_error, token list) result" where
  "lex [] = Inr []"
| "lex (c # s) =
     (if c \<in> set [CHR '' '', CHR 0x09, CHR 0x0A, CHR 0x0D] then lex s
      else case
          (if c = CHR ''&'' then Inr (TAmp, s)
           else if c = CHR ''|'' then Inr (TPipe, s)
           else if c = CHR ''!'' then Inr (TBang, s)
           else if c = CHR ''('' then Inr (TLParen, s)
           else if c = CHR '')'' then Inr (TRParen, s)
           else if c = CHR ''@'' then lex_sigil Label ''@'' s
           else if c = CHR ''#'' then lex_sigil Project ''#'' s
           else lex_word (c # s)) of
        Inl e \<Rightarrow> Inl e
      | Inr (t, rest) \<Rightarrow> bind_res (lex rest) (\<lambda>ts. Inr (t # ts)))"
  by pat_completeness auto

termination
proof (relation "measure length")
  fix c s x t rest
  assume "\<not> c \<in> set [CHR '' '', CHR 0x09, CHR 0x0A, CHR 0x0D]"
    and "(if c = CHR ''&'' then Inr (TAmp, s)
           else if c = CHR ''|'' then Inr (TPipe, s)
           else if c = CHR ''!'' then Inr (TBang, s)
           else if c = CHR ''('' then Inr (TLParen, s)
           else if c = CHR '')'' then Inr (TRParen, s)
           else if c = CHR ''@'' then lex_sigil Label ''@'' s
           else if c = CHR ''#'' then lex_sigil Project ''#'' s
           else lex_word (c # s)) = Inr x" and "(t, rest) = x"
  then have "length rest < length (c # s)"
    using length_lex_word [of "c # s"] by (auto split: if_splits dest: length_lex_sigil)
  then show "(rest, c # s) \<in> measure length" by simp
qed auto

section \<open>The parser\<close>

text \<open>
  \<open>or_loop\<close> and \<open>and_loop\<close> are the \<open>while\<close> loops of \<open>parse_or\<close> and \<open>parse_and\<close>. They run
  below a depth that has passed the bound, so each level is entered at most
  \<open>FILTER_DEPTH_MAX\<close> times.
\<close>

type_synonym parsed = "(filter_error, filter_expr \<times> token list) result"

function parse_or :: "nat \<Rightarrow> token list \<Rightarrow> parsed"
  and or_loop :: "nat \<Rightarrow> filter_expr \<Rightarrow> token list \<Rightarrow> parsed"
  and parse_and :: "nat \<Rightarrow> token list \<Rightarrow> parsed"
  and and_loop :: "nat \<Rightarrow> filter_expr \<Rightarrow> token list \<Rightarrow> parsed"
  and parse_unary :: "nat \<Rightarrow> token list \<Rightarrow> parsed" where
  "parse_or depth ts =
     (if depth \<ge> FILTER_DEPTH_MAX then Inl FTooDeep
      else case parse_and (depth + 1) ts of
        Inl e \<Rightarrow> Inl e
      | Inr (left, rest) \<Rightarrow> or_loop depth left rest)"
| "or_loop depth left ts =
     (case ts of
        TPipe # us \<Rightarrow>
          (case parse_and (depth + 1) us of
             Inl e \<Rightarrow> Inl e
           | Inr (right, rest) \<Rightarrow> or_loop depth (Or left right) rest)
      | _ \<Rightarrow> Inr (left, ts))"
| "parse_and depth ts =
     (if depth \<ge> FILTER_DEPTH_MAX then Inl FTooDeep
      else case parse_unary (depth + 1) ts of
        Inl e \<Rightarrow> Inl e
      | Inr (left, rest) \<Rightarrow> and_loop depth left rest)"
| "and_loop depth left ts =
     (case ts of
        TAmp # us \<Rightarrow>
          (case parse_unary (depth + 1) us of
             Inl e \<Rightarrow> Inl e
           | Inr (right, rest) \<Rightarrow> and_loop depth (And left right) rest)
      | _ \<Rightarrow> Inr (left, ts))"
| "parse_unary depth ts =
     (if depth \<ge> FILTER_DEPTH_MAX then Inl FTooDeep
      else case ts of
        TBang # us \<Rightarrow>
          (case parse_unary (depth + 1) us of
             Inl e \<Rightarrow> Inl e
           | Inr (inner, rest) \<Rightarrow> Inr (Not inner, rest))
      | TLParen # us \<Rightarrow>
          (case parse_or (depth + 1) us of
             Inl e \<Rightarrow> Inl e
           | Inr (inner, TRParen # rest) \<Rightarrow> Inr (inner, rest)
           | Inr (inner, _) \<Rightarrow> Inl (FUnexpectedEnd '')''))
      | TAtom atom # us \<Rightarrow> Inr (Atom atom, us)
      | other # us \<Rightarrow> Inl (FUnexpectedToken other)
      | [] \<Rightarrow> Inl (FUnexpectedEnd ''expression''))"
  by pat_completeness auto

text \<open>What a call leaves is no longer than what it was given; the loops end because of it.\<close>

lemma parser_consumes:
  "parse_or_or_loop_parse_and_and_loop_parse_unary_dom (Inl (Inl (d, ts))) \<Longrightarrow>
     parse_or d ts = Inr (e, rest) \<Longrightarrow> length rest \<le> length ts"
  "parse_or_or_loop_parse_and_and_loop_parse_unary_dom (Inl (Inr (d, l, ts))) \<Longrightarrow>
     or_loop d l ts = Inr (e, rest) \<Longrightarrow> length rest \<le> length ts"
  "parse_or_or_loop_parse_and_and_loop_parse_unary_dom (Inr (Inl (d, ts))) \<Longrightarrow>
     parse_and d ts = Inr (e, rest) \<Longrightarrow> length rest \<le> length ts"
  "parse_or_or_loop_parse_and_and_loop_parse_unary_dom (Inr (Inr (Inl (d, l, ts)))) \<Longrightarrow>
     and_loop d l ts = Inr (e, rest) \<Longrightarrow> length rest \<le> length ts"
  "parse_or_or_loop_parse_and_and_loop_parse_unary_dom (Inr (Inr (Inr (d, ts)))) \<Longrightarrow>
     parse_unary d ts = Inr (e, rest) \<Longrightarrow> length rest \<le> length ts"
proof (induction d ts and d l ts and d ts and d l ts and d ts arbitrary: e rest and e rest and e rest and e rest and e rest
    rule: parse_or_or_loop_parse_and_and_loop_parse_unary.pinduct)
  case (1 depth ts)
  from 1(4) obtain l r where r: "\<not> FILTER_DEPTH_MAX \<le> depth" "parse_and (depth + 1) ts = Inr (l, r)"
    "or_loop depth l r = Inr (e, rest)"
    unfolding parse_or.psimps [OF 1(1)]
    by (cases "parse_and (depth + 1) ts") (auto split: if_splits)
  from 1(2) [OF r(1,2)] 1(3) [OF r(1,2) refl r(3)] show ?case by simp
next
  case (2 depth left ts)
  note IH = 2(2,3)
  consider "rest = ts" | us r i where "ts = TPipe # us" "parse_and (depth + 1) us = Inr (r, i)"
    "or_loop depth (Or left r) i = Inr (e, rest)"
  proof (cases "\<exists>us. ts = TPipe # us")
    case True
    with 2(4) that(2) show ?thesis
      by (cases "parse_and (depth + 1) (tl ts)") (auto simp: or_loop.psimps [OF 2(1)])
  next
    case False
    then have "or_loop depth left ts = Inr (left, ts)"
      by (auto simp: or_loop.psimps [OF 2(1)] split: list.split token.split)
    with 2(4) that(1) show ?thesis by simp
  qed
  then show ?case
  proof cases
    case 2
    from IH(1) [OF 2(1) refl 2(2)] IH(2) [OF 2(1) refl 2(2) refl 2(3)] show ?thesis using 2(1) by simp
  qed simp
next
  case (3 depth ts)
  from 3(4) obtain l r where r: "\<not> FILTER_DEPTH_MAX \<le> depth" "parse_unary (depth + 1) ts = Inr (l, r)"
    "and_loop depth l r = Inr (e, rest)"
    unfolding parse_and.psimps [OF 3(1)]
    by (cases "parse_unary (depth + 1) ts") (auto split: if_splits)
  from 3(2) [OF r(1,2)] 3(3) [OF r(1,2) refl r(3)] show ?case by simp
next
  case (4 depth left ts)
  note IH = 4(2,3)
  consider "rest = ts" | us r i where "ts = TAmp # us" "parse_unary (depth + 1) us = Inr (r, i)"
    "and_loop depth (And left r) i = Inr (e, rest)"
  proof (cases "\<exists>us. ts = TAmp # us")
    case True
    with 4(4) that(2) show ?thesis
      by (cases "parse_unary (depth + 1) (tl ts)") (auto simp: and_loop.psimps [OF 4(1)])
  next
    case False
    then have "and_loop depth left ts = Inr (left, ts)"
      by (auto simp: and_loop.psimps [OF 4(1)] split: list.split token.split)
    with 4(4) that(1) show ?thesis by simp
  qed
  then show ?case
  proof cases
    case 2
    from IH(1) [OF 2(1) refl 2(2)] IH(2) [OF 2(1) refl 2(2) refl 2(3)] show ?thesis using 2(1) by simp
  qed simp
next
  case (5 depth ts)
  then show ?case
    by (auto simp: parse_unary.psimps split: if_splits list.splits token.splits sum.splits)
       (meson le_SucI le_trans Suc_leD)+
qed

text \<open>
  The order of the calls: by the levels left, then loops after entries, then by tokens. An entry
  at or beyond the bound is last of all, since it fails at once.
\<close>

definition levels_left :: "nat \<Rightarrow> nat" where
  "levels_left depth = FILTER_DEPTH_MAX - depth"

definition entry_rank :: "nat \<Rightarrow> nat" where
  "entry_rank depth = (if depth < FILTER_DEPTH_MAX then 2 else 0)"

termination parse_or
proof (relation "measures
    [\<lambda>x. case x of Inl (Inl (d, ts)) \<Rightarrow> levels_left d | Inl (Inr (d, l, ts)) \<Rightarrow> levels_left d
       | Inr (Inl (d, ts)) \<Rightarrow> levels_left d | Inr (Inr (Inl (d, l, ts))) \<Rightarrow> levels_left d
       | Inr (Inr (Inr (d, ts))) \<Rightarrow> levels_left d,
     \<lambda>x. case x of Inl (Inl (d, ts)) \<Rightarrow> entry_rank d | Inl (Inr _) \<Rightarrow> 1
       | Inr (Inl (d, ts)) \<Rightarrow> entry_rank d | Inr (Inr (Inl _)) \<Rightarrow> 1
       | Inr (Inr (Inr (d, ts))) \<Rightarrow> entry_rank d,
     \<lambda>x. case x of Inl (Inr (d, l, ts)) \<Rightarrow> length ts | Inr (Inr (Inl (d, l, ts))) \<Rightarrow> length ts | _ \<Rightarrow> 0]")
qed (auto simp: levels_left_def entry_rank_def dest: parser_consumes)

declare parse_or.simps [simp del] or_loop.simps [simp del] parse_and.simps [simp del]
  and_loop.simps [simp del] parse_unary.simps [simp del]

definition parse :: "string \<Rightarrow> (filter_error, filter_expr) result" where
  "parse input =
     (if FILTER_INPUT_MAX_BYTES < byte_len input then Inl (FTooLong (byte_len input))
      else bind_res (lex input) (\<lambda>tokens.
        if tokens = [] then Inl FEmpty
        else case parse_or 0 tokens of
          Inl e \<Rightarrow> Inl e
        | Inr (expr, []) \<Rightarrow> Inr expr
        | Inr (expr, t # _) \<Rightarrow> Inl (FUnexpectedToken t)))"

section \<open>The grammar\<close>

text \<open>
  What the parser accepts, \<open>k\<close> levels deep: \<open>|\<close> and \<open>&\<close> associate to the left,
  \<open>&\<close> binds tighter, \<open>!\<close> tightest.
\<close>

inductive or_expr :: "nat \<Rightarrow> token list \<Rightarrow> filter_expr \<Rightarrow> bool"
  and and_expr :: "nat \<Rightarrow> token list \<Rightarrow> filter_expr \<Rightarrow> bool"
  and unary_expr :: "nat \<Rightarrow> token list \<Rightarrow> filter_expr \<Rightarrow> bool" where
  or_single: "and_expr k ts e \<Longrightarrow> or_expr (Suc k) ts e"
| or_more: "or_expr (Suc k) ts l \<Longrightarrow> and_expr k us r \<Longrightarrow> or_expr (Suc k) (ts @ TPipe # us) (Or l r)"
| and_single: "unary_expr k ts e \<Longrightarrow> and_expr (Suc k) ts e"
| and_more: "and_expr (Suc k) ts l \<Longrightarrow> unary_expr k us r \<Longrightarrow> and_expr (Suc k) (ts @ TAmp # us) (And l r)"
| negation: "unary_expr k ts e \<Longrightarrow> unary_expr (Suc k) (TBang # ts) (Not e)"
| parens: "or_expr k ts e \<Longrightarrow> unary_expr (Suc k) (TLParen # ts @ [TRParen]) e"
| atom: "unary_expr (Suc k) [TAtom a] (Atom a)"

lemma parser_sound:
  "parse_or d ts = Inr (e, rest) \<Longrightarrow> \<exists>us. ts = us @ rest \<and> or_expr (FILTER_DEPTH_MAX - d) us e"
  "or_loop d l ts = Inr (e, rest) \<Longrightarrow> d < FILTER_DEPTH_MAX \<Longrightarrow> or_expr (FILTER_DEPTH_MAX - d) vs l \<Longrightarrow>
     \<exists>us. ts = us @ rest \<and> or_expr (FILTER_DEPTH_MAX - d) (vs @ us) e"
  "parse_and d ts = Inr (e, rest) \<Longrightarrow> \<exists>us. ts = us @ rest \<and> and_expr (FILTER_DEPTH_MAX - d) us e"
  "and_loop d l ts = Inr (e, rest) \<Longrightarrow> d < FILTER_DEPTH_MAX \<Longrightarrow> and_expr (FILTER_DEPTH_MAX - d) vs l \<Longrightarrow>
     \<exists>us. ts = us @ rest \<and> and_expr (FILTER_DEPTH_MAX - d) (vs @ us) e"
  "parse_unary d ts = Inr (e, rest) \<Longrightarrow> \<exists>us. ts = us @ rest \<and> unary_expr (FILTER_DEPTH_MAX - d) us e"
proof (induction d ts and d l ts and d ts and d l ts and d ts
    arbitrary: e rest and e rest vs and e rest and e rest vs and e rest
    rule: parse_or_or_loop_parse_and_and_loop_parse_unary.induct)
  case (1 depth ts)
  note IH = 1(1,2)
  from 1(3) obtain l r where r: "\<not> FILTER_DEPTH_MAX \<le> depth" "parse_and (depth + 1) ts = Inr (l, r)"
    "or_loop depth l r = Inr (e, rest)"
    unfolding parse_or.simps [of depth] by (cases "parse_and (depth + 1) ts") (auto split: if_splits)
  from IH(1) [OF r(1,2)] obtain us where us: "ts = us @ r"
    "or_expr (FILTER_DEPTH_MAX - depth) us l"
    using or_single [of "FILTER_DEPTH_MAX - (depth + 1)"] r(1) by (auto simp: Suc_diff_Suc)
  with IH(2) [OF r(1,2) refl r(3) _ us(2)] r(1) show ?case by auto
next
  case (2 depth left ts)
  note IH = 2(1,2)
  show ?case
  proof (cases "\<exists>us r i. ts = TPipe # us \<and> parse_and (depth + 1) us = Inr (r, i)
      \<and> or_loop depth (Or left r) i = Inr (e, rest)")
    case True
    then obtain us r i where r: "ts = TPipe # us" "parse_and (depth + 1) us = Inr (r, i)"
      "or_loop depth (Or left r) i = Inr (e, rest)" by blast
    from IH(1) [OF r(1) refl r(2)] obtain ws where ws: "us = ws @ i"
      "and_expr (FILTER_DEPTH_MAX - (depth + 1)) ws r" by blast
    have "or_expr (FILTER_DEPTH_MAX - depth) (vs @ TPipe # ws) (Or left r)"
      using or_more [of "FILTER_DEPTH_MAX - (depth + 1)" vs left, OF _ ws(2)] 2(4,5)
      by (simp add: Suc_diff_Suc)
    from IH(2) [OF r(1) refl r(2) refl r(3) 2(4) this] show ?thesis using r(1) ws(1) by auto
  next
    case False
    then have "rest = ts" "e = left"
      using 2(3) unfolding or_loop.simps [of depth left ts]
      by (auto split: list.splits token.splits sum.splits)
    with 2(5) show ?thesis by auto
  qed
next
  case (3 depth ts)
  note IH = 3(1,2)
  from 3(3) obtain l r where r: "\<not> FILTER_DEPTH_MAX \<le> depth" "parse_unary (depth + 1) ts = Inr (l, r)"
    "and_loop depth l r = Inr (e, rest)"
    unfolding parse_and.simps [of depth] by (cases "parse_unary (depth + 1) ts") (auto split: if_splits)
  from IH(1) [OF r(1,2)] obtain us where us: "ts = us @ r"
    "and_expr (FILTER_DEPTH_MAX - depth) us l"
    using and_single [of "FILTER_DEPTH_MAX - (depth + 1)"] r(1) by (auto simp: Suc_diff_Suc)
  with IH(2) [OF r(1,2) refl r(3) _ us(2)] r(1) show ?case by auto
next
  case (4 depth left ts)
  note IH = 4(1,2)
  show ?case
  proof (cases "\<exists>us r i. ts = TAmp # us \<and> parse_unary (depth + 1) us = Inr (r, i)
      \<and> and_loop depth (And left r) i = Inr (e, rest)")
    case True
    then obtain us r i where r: "ts = TAmp # us" "parse_unary (depth + 1) us = Inr (r, i)"
      "and_loop depth (And left r) i = Inr (e, rest)" by blast
    from IH(1) [OF r(1) refl r(2)] obtain ws where ws: "us = ws @ i"
      "unary_expr (FILTER_DEPTH_MAX - (depth + 1)) ws r" by blast
    have "and_expr (FILTER_DEPTH_MAX - depth) (vs @ TAmp # ws) (And left r)"
      using and_more [of "FILTER_DEPTH_MAX - (depth + 1)" vs left, OF _ ws(2)] 4(4,5)
      by (simp add: Suc_diff_Suc)
    from IH(2) [OF r(1) refl r(2) refl r(3) 4(4) this] show ?thesis using r(1) ws(1) by auto
  next
    case False
    then have "rest = ts" "e = left"
      using 4(3) unfolding and_loop.simps [of depth left ts]
      by (auto split: list.splits token.splits sum.splits)
    with 4(5) show ?thesis by auto
  qed
next
  case (5 depth ts)
  from 5(3) have d: "\<not> FILTER_DEPTH_MAX \<le> depth"
    by (auto simp: parse_unary.simps [of depth] split: if_splits)
  then have k: "FILTER_DEPTH_MAX - depth = Suc (FILTER_DEPTH_MAX - (depth + 1))" by simp
  note IH = 5(1,2)
  from 5(3) d consider us i where "ts = TBang # us" "parse_unary (depth + 1) us = Inr (i, rest)" "e = Not i"
    | us where "ts = TLParen # us" "parse_or (depth + 1) us = Inr (e, TRParen # rest)"
    | a where "ts = TAtom a # rest" "e = Atom a"
    unfolding parse_unary.simps [of depth] by (auto split: list.splits token.splits sum.splits)
  then show ?case
  proof cases
    case 1
    from IH(1) [OF d 1(1) refl 1(2)] show ?thesis
      unfolding k 1(1,3) by (auto intro: negation exI [of _ "TBang # _"])
  next
    case 2
    from IH(2) [OF d 2(1) refl 2(2)] obtain vs where vs: "us = vs @ TRParen # rest"
      "or_expr (FILTER_DEPTH_MAX - (depth + 1)) vs e" by blast
    from parens [OF vs(2)] show ?thesis
      unfolding k 2(1) vs(1) by (intro exI [of _ "TLParen # vs @ [TRParen]"]) simp
  next
    case 3
    then show ?thesis unfolding k by (intro exI [of _ "[TAtom a]"]) (simp add: atom)
  qed
qed

text \<open>
  And conversely, what follows an expression does not change how it is read, as long as it does
  not go on with an operator that binds tighter.
\<close>

definition no_amp :: "token list \<Rightarrow> bool" where
  "no_amp ts = (case ts of TAmp # _ \<Rightarrow> False | _ \<Rightarrow> True)"

lemma and_loop_stops: "no_amp rest \<Longrightarrow> and_loop d l rest = Inr (l, rest)"
  by (auto simp: and_loop.simps [of d l rest] no_amp_def split: list.splits token.splits)

lemma parser_complete:
  "or_expr k ts e \<Longrightarrow> (\<And>d rest. d + k = FILTER_DEPTH_MAX \<Longrightarrow> no_amp rest \<Longrightarrow>
     parse_or d (ts @ rest) = or_loop d e rest)"
  "and_expr k ts e \<Longrightarrow> (\<And>d rest. d + k = FILTER_DEPTH_MAX \<Longrightarrow>
     parse_and d (ts @ rest) = and_loop d e rest)"
  "unary_expr k ts e \<Longrightarrow> (\<And>d rest. d + k = FILTER_DEPTH_MAX \<Longrightarrow>
     parse_unary d (ts @ rest) = Inr (e, rest))"
proof (induction rule: or_expr_and_expr_unary_expr.inducts)
  case (or_single k ts e)
  then show ?case by (simp add: parse_or.simps [of d] and_loop_stops)
next
  case (or_more k ts l us r)
  have "parse_or d ((ts @ TPipe # us) @ rest) = or_loop d l (TPipe # us @ rest)"
    using or_more.IH(1) [of d "TPipe # us @ rest"] or_more.prems(1) by (simp add: no_amp_def)
  also have "\<dots> = or_loop d (Or l r) rest"
    using or_more.IH(2) [of "d + 1" rest] or_more.prems
    by (simp add: or_loop.simps [of d l "TPipe # _"] and_loop_stops)
  finally show ?case .
next
  case (and_single k ts e)
  then show ?case by (simp add: parse_and.simps [of d])
next
  case (and_more k ts l us r)
  have "parse_and d ((ts @ TAmp # us) @ rest) = and_loop d l (TAmp # us @ rest)"
    using and_more.IH(1) [of d "TAmp # us @ rest"] and_more.prems(1) by simp
  also have "\<dots> = and_loop d (And l r) rest"
    using and_more.IH(2) [of "d + 1" rest] and_more.prems
    by (simp add: and_loop.simps [of d l "TAmp # _"])
  finally show ?case .
next
  case (negation k ts e)
  then show ?case by (simp add: parse_unary.simps [of d])
next
  case (parens k ts e)
  have "or_loop (d + 1) e (TRParen # rest) = Inr (e, TRParen # rest)"
    by (simp add: or_loop.simps [of "Suc d" e "TRParen # _"])
  with parens.IH [of "d + 1" "TRParen # rest"] parens.prems show ?case
    by (simp add: parse_unary.simps [of d] no_amp_def)
next
  case (atom k a)
  then show ?case by (simp add: parse_unary.simps [of d])
qed

lemma or_expr_nonempty: "or_expr k [] e \<Longrightarrow> False" "and_expr k [] e \<Longrightarrow> False" "unary_expr k [] e \<Longrightarrow> False"
proof -
  have "or_expr k ts e \<Longrightarrow> ts \<noteq> []" "and_expr k ts e \<Longrightarrow> ts \<noteq> []" "unary_expr k ts e \<Longrightarrow> ts \<noteq> []" for ts
    by (induction rule: or_expr_and_expr_unary_expr.inducts) auto
  then show "or_expr k [] e \<Longrightarrow> False" "and_expr k [] e \<Longrightarrow> False" "unary_expr k [] e \<Longrightarrow> False" by blast+
qed

lemma parse_tokens: "parse_or 0 ts = Inr (e, []) \<longleftrightarrow> or_expr FILTER_DEPTH_MAX ts e"
proof
  assume "parse_or 0 ts = Inr (e, [])"
  from parser_sound(1) [OF this] show "or_expr FILTER_DEPTH_MAX ts e" by simp
next
  assume "or_expr FILTER_DEPTH_MAX ts e"
  from parser_complete(1) [OF this, of 0 "[]"] show "parse_or 0 ts = Inr (e, [])"
    by (simp add: no_amp_def or_loop.simps [of 0 e "[]"])
qed

text \<open>
  C26: The parser accepts exactly the grammar: an input is parsed to an expression if and only if
  it is at most \<open>FILTER_INPUT_MAX_BYTES\<close> long, its characters lex, and its tokens derive the
  expression with \<open>|\<close> below \<open>&\<close> below \<open>!\<close>, both operators to the left, within
  \<open>FILTER_DEPTH_MAX\<close> levels. In particular an expression is never read in two ways.
\<close>

theorem parse_iff_grammar:
  "parse input = Inr e \<longleftrightarrow>
     byte_len input \<le> FILTER_INPUT_MAX_BYTES
     \<and> (\<exists>ts. lex input = Inr ts \<and> or_expr FILTER_DEPTH_MAX ts e)"
proof -
  have "(case parse_or 0 ts of Inl e \<Rightarrow> Inl e | Inr (expr, []) \<Rightarrow> Inr expr
      | Inr (expr, t # _) \<Rightarrow> Inl (FUnexpectedToken t)) = Inr e
    \<longleftrightarrow> or_expr FILTER_DEPTH_MAX ts e" for ts
    unfolding parse_tokens [symmetric] by (auto split: sum.split prod.split list.split)
  then show ?thesis
    using or_expr_nonempty(1) [of FILTER_DEPTH_MAX e]
    by (cases "lex input") (auto simp: parse_def bind_res_eq_Inr)
qed

end
