(* ===== verification/Filter_Text.thy ===== *)
theory Filter_Text
  imports Task_Filter
begin

text \<open>
  The text of a filter expression: a canonical print with as few parentheses as the grammar
  allows, and the proof that the lexer and the parser read it back.
\<close>

section \<open>Printing\<close>

fun print_atom :: "filter_atom \<Rightarrow> string" where
  "print_atom (Priority p) = ''p'' @ [''1234'' ! nat (p - 1)]"
| "print_atom (Label l) = ''@'' @ l"
| "print_atom (Project p) = ''#'' @ p"
| "print_atom Is_Overdue = ''overdue''"
| "print_atom Is_Today = ''today''"
| "print_atom NoDate = ''no date''"
| "print_atom NoDeadline = ''no deadline''"
| "print_atom NoLabel = ''no label''"
| "print_atom Subtask = ''subtask''"
| "print_atom (DueBefore d) = ''due before:'' @ d"
| "print_atom (DueAfter d) = ''due after:'' @ d"
| "print_atom (DeadlineBefore d) = ''deadline before:'' @ d"
| "print_atom (DeadlineAfter d) = ''deadline after:'' @ d"
| "print_atom (Search s) = ''search:'' @ s"
| "print_atom (Status s) = s"
| "print_atom Is_Blocked = ''blocked''"

fun print_token :: "token \<Rightarrow> string" where
  "print_token TAmp = ''&''"
| "print_token TPipe = ''|''"
| "print_token TBang = ''!''"
| "print_token TLParen = ''(''"
| "print_token TRParen = '')''"
| "print_token (TAtom a) = print_atom a"

definition print_tokens :: "token list \<Rightarrow> string" where
  "print_tokens ts = concat (map (\<lambda>t. print_token t @ '' '') ts)"

text \<open>An expression with its precedence: 0 for \<open>|\<close>, 1 for \<open>&\<close>, 2 for the rest.\<close>

definition wrap :: "nat \<Rightarrow> nat \<times> token list \<Rightarrow> token list" where
  "wrap p x = (if fst x < p then TLParen # snd x @ [TRParen] else snd x)"

primrec unparse :: "filter_expr \<Rightarrow> nat \<times> token list" where
  "unparse (Or a b) = (0, wrap 0 (unparse a) @ TPipe # wrap 1 (unparse b))"
| "unparse (And a b) = (1, wrap 1 (unparse a) @ TAmp # wrap 2 (unparse b))"
| "unparse (Not e) = (2, TBang # wrap 2 (unparse e))"
| "unparse (Atom a) = (2, [TAtom a])"

definition print_expr :: "filter_expr \<Rightarrow> string" where
  "print_expr e = print_tokens (wrap 0 (unparse e))"

text \<open>The levels that suffice to read it.\<close>

primrec levels :: "filter_expr \<Rightarrow> nat" where
  "levels (Or a b) = max (levels a) (levels b + 1) + 2"
| "levels (And a b) = max (levels a) (levels b + 1) + 2"
| "levels (Not e) = levels e + 3"
| "levels (Atom a) = 3"

text \<open>The atoms the language has a word for.\<close>

definition word_ok :: "string \<Rightarrow> bool" where
  "word_ok w = (w \<noteq> [] \<and> list_all in_word w)"

fun atom_ok :: "filter_atom \<Rightarrow> bool" where
  "atom_ok (Priority p) = (1 \<le> p \<and> p \<le> 4)"
| "atom_ok (Label l) = word_ok l"
| "atom_ok (Project p) = word_ok p"
| "atom_ok (DueBefore d) = is_iso_date d"
| "atom_ok (DueAfter d) = is_iso_date d"
| "atom_ok (DeadlineBefore d) = is_iso_date d"
| "atom_ok (DeadlineAfter d) = is_iso_date d"
| "atom_ok (Search s) = (s \<noteq> [] \<and> trim s = s \<and> list_all in_free_text s)"
| "atom_ok (Status s) = (s \<in> {''pending'', ''in_progress'', ''done'', ''cancelled''})"
| "atom_ok _ = True"

primrec expr_ok :: "filter_expr \<Rightarrow> bool" where
  "expr_ok (Or a b) = (expr_ok a \<and> expr_ok b)"
| "expr_ok (And a b) = (expr_ok a \<and> expr_ok b)"
| "expr_ok (Not e) = expr_ok e"
| "expr_ok (Atom a) = atom_ok a"

section \<open>The tokens parse\<close>

lemma expr_Suc:
  "or_expr k ts e \<Longrightarrow> or_expr (Suc k) ts e"
  "and_expr k ts e \<Longrightarrow> and_expr (Suc k) ts e"
  "unary_expr k ts e \<Longrightarrow> unary_expr (Suc k) ts e"
  by (induction rule: or_expr_and_expr_unary_expr.inducts)
     (auto intro: or_expr_and_expr_unary_expr.intros)

lemma expr_mono:
  assumes "k \<le> n"
  shows "or_expr k ts e \<Longrightarrow> or_expr n ts e" "and_expr k ts e \<Longrightarrow> and_expr n ts e"
    "unary_expr k ts e \<Longrightarrow> unary_expr n ts e"
  using assms by (induction rule: dec_induct) (simp_all add: expr_Suc)

text \<open>One level up each: an operand of a tighter level serves as one of a looser level.\<close>

lemma unparse_derives:
  "or_expr (levels e) (wrap 0 (unparse e)) e \<and> and_expr (levels e) (wrap 1 (unparse e)) e
   \<and> unary_expr (levels e) (wrap 2 (unparse e)) e"
proof (induction e)
  case (And a b)
  let ?n = "max (levels a) (levels b + 1)"
  obtain k where k: "?n = Suc k" "levels b \<le> k" by (cases ?n) auto
  have "and_expr ?n (snd (unparse (And a b))) (And a b)"
    using and_more [of k "wrap 1 (unparse a)" a "wrap 2 (unparse b)" b] And
      expr_mono(2) [of "levels a" ?n] expr_mono(3) [of "levels b" k] k by auto
  then have "and_expr (Suc (Suc ?n)) (snd (unparse (And a b))) (And a b)"
    and o: "or_expr (Suc ?n) (snd (unparse (And a b))) (And a b)"
    by (auto intro: expr_Suc or_single)
  moreover from o have "unary_expr (Suc (Suc ?n)) (TLParen # snd (unparse (And a b)) @ [TRParen]) (And a b)"
    by (rule parens)
  ultimately show ?case using expr_Suc(1) [OF o] by (simp add: wrap_def)
next
  case (Or a b)
  let ?n = "max (levels a) (levels b + 1)"
  obtain k where k: "?n = Suc k" "levels b \<le> k" by (cases ?n) auto
  have o: "or_expr ?n (snd (unparse (Or a b))) (Or a b)"
    using or_more [of k "wrap 0 (unparse a)" a "wrap 1 (unparse b)" b] Or
      expr_mono(1) [of "levels a" ?n] expr_mono(2) [of "levels b" k] k by auto
  then have u: "unary_expr (Suc ?n) (TLParen # snd (unparse (Or a b)) @ [TRParen]) (Or a b)"
    by (rule parens)
  from expr_Suc(1) [OF expr_Suc(1) [OF o]] expr_Suc(3) [OF u] and_single [OF u]
  show ?case by (simp add: wrap_def)
next
  case (Not e)
  then have u: "unary_expr (Suc (levels e)) (snd (unparse (Not e))) (Not e)" by (auto intro: negation)
  from or_single [OF and_single [OF u]] expr_Suc(2) [OF and_single [OF u]] expr_Suc(3) [OF expr_Suc(3) [OF u]]
  show ?case by (simp add: wrap_def numeral_3_eq_3)
next
  case (Atom a)
  have u: "unary_expr (Suc 0) [TAtom a] (Atom a)" by (rule atom)
  from or_single [OF and_single [OF u]] expr_Suc(2) [OF and_single [OF u]] expr_Suc(3) [OF expr_Suc(3) [OF u]]
  show ?case by (simp add: wrap_def numeral_3_eq_3)
qed

section \<open>The characters lex\<close>

lemma trim_pad:
  assumes "s \<noteq> []" "\<not> is_whitespace (hd s)" "\<not> is_whitespace (last s)"
    "list_all is_whitespace u" "list_all is_whitespace v"
  shows "trim (u @ s @ v) = s"
proof -
  have "dropWhile is_whitespace (u @ s @ v) = s @ v"
    using assms by (cases s) (auto simp: list_all_iff)
  moreover have "dropWhile is_whitespace (rev v @ rev s) = rev s"
    using assms by (subst dropWhile_append2)
      (auto simp: list_all_iff dropWhile_eq_self_iff hd_rev)
  ultimately show ?thesis by (simp add: trim_def trim_start_def trim_end_def)
qed

lemma trim_fixed:
  assumes "trim s = s" and "s \<noteq> []"
  shows "\<not> is_whitespace (hd s)" and "\<not> is_whitespace (last s)"
proof -
  have len: "length (trim s) \<le> length (trim_start s)" "length (trim_start s) \<le> length s"
    using length_dropWhile_le [of is_whitespace "rev (trim_start s)"] length_dropWhile_le [of is_whitespace s]
    unfolding trim_def trim_start_def trim_end_def by simp_all
  have shorter: "length (dropWhile is_whitespace (c # t)) < length (c # t)" if "is_whitespace c" for c t
    using that length_dropWhile_le [of is_whitespace t] by simp
  show hd: "\<not> is_whitespace (hd s)"
    using assms len shorter [of "hd s" "tl s"] by (auto simp: trim_start_def)
  then have "trim_start s = s" using assms(2) by (cases s) (auto simp: trim_start_def)
  then have "length (dropWhile is_whitespace (rev s)) = length (rev s)"
    using arg_cong [OF assms(1), of length] by (simp add: trim_def trim_end_def)
  then show "\<not> is_whitespace (last s)"
    using shorter [of "last s" "rev (butlast s)"] assms(2)
    by (metis append_butlast_last_id nat_neq_iff rev.simps(2) rev_rev_ident rev_append append_Cons append_Nil)
qed

text \<open>What may follow an atom: the end, or an operator that free text stops at.\<close>

definition stops :: "string \<Rightarrow> bool" where
  "stops rest = (rest = [] \<or> hd rest \<in> set ''&|)'')"

lemma free_text_stops:
  assumes "list_all in_free_text s" and "stops rest"
  shows "take_until_operator (s @ '' '' @ rest) = (trim (s @ '' ''), rest)"
proof -
  have "takeWhile in_free_text (s @ '' '' @ rest) = s @ '' ''"
    and "dropWhile in_free_text (s @ '' '' @ rest) = rest"
    using assms by (auto simp: stops_def list_all_iff in_free_text_def takeWhile_append2
        dropWhile_append2 takeWhile_eq_Nil_iff dropWhile_eq_self_iff)
  then show ?thesis by (simp add: take_until_operator_def)
qed

lemma space_ends_word: "list_all in_word w \<Longrightarrow> take_word (w @ '' '' @ rest) = (w, '' '' @ rest)"
  by (auto simp: take_word_def list_all_iff takeWhile_append2 dropWhile_append2 in_word_def
      is_whitespace_def code_def)


lemma lex_space [simp]: "lex (CHR '' '' # rest) = lex rest"
  by simp

lemma lex_token:
  assumes "t \<in> {TAmp, TPipe, TBang, TLParen, TRParen}"
  shows "lex (print_token t @ '' '' @ rest) = bind_res (lex rest) (\<lambda>ts. Inr (t # ts))"
  using assms by (elim insertE emptyE) simp_all

lemma iso_chars:
  assumes "is_iso_date d"
  shows "d \<noteq> []" and "c \<in> set d \<Longrightarrow> c = CHR ''-'' \<or> is_ascii_digit c"
proof -
  show "d \<noteq> []" using assms by (auto simp: is_iso_date_def as_bytes_def Let_def)
  assume c: "c \<in> set d"
  have b: "b = 45 \<or> is_digit_byte b" if "b \<in> set (as_bytes d)" for b
  proof -
    from that obtain i where i: "i < length (as_bytes d)" "as_bytes d ! i = b" by (auto simp: in_set_conv_nth)
    then have "(i, b) \<in> set (enumerate 0 (as_bytes d))"
      by (auto simp: in_set_enumerate_eq)
    with assms i show ?thesis by (fastforce simp: is_iso_date_def Let_def list_all_iff)
  qed
  have "code c < 128"
  proof (rule ccontr)
    assume "\<not> code c < 128"
    with c have "192 + code c div 64 \<in> set (as_bytes d)" by (auto simp: as_bytes_def)
    from b [OF this] show False by (simp add: is_digit_byte_def)
  qed
  with c have "code c \<in> set (as_bytes d)" by (auto simp: as_bytes_def)
  from b [OF this] show "c = CHR ''-'' \<or> is_ascii_digit c"
    using code_inj [of c "CHR ''-''"] by (auto simp: is_digit_byte_def is_ascii_digit_def code_def)
qed

lemma iso_free:
  assumes "is_iso_date d"
  shows "list_all in_free_text d" "\<not> is_whitespace (hd d)" "\<not> is_whitespace (last d)"
proof -
  have "in_free_text c \<and> \<not> is_whitespace c" if "c \<in> set d" for c
    using iso_chars(2) [OF assms that]
    by (auto simp: in_free_text_def is_whitespace_def is_ascii_digit_def code_def)
  then show "list_all in_free_text d" "\<not> is_whitespace (hd d)" "\<not> is_whitespace (last d)"
    using iso_chars(1) [OF assms] by (auto simp: list_all_iff)
qed

declare lex.simps(2) [simp del]

lemma lex_other:
  assumes "in_word c" and "c \<notin> set ''@#''"
  shows "lex (c # s) = (case lex_word (c # s) of Inl e \<Rightarrow> Inl e
    | Inr (t, rest) \<Rightarrow> bind_res (lex rest) (\<lambda>ts. Inr (t # ts)))"
proof -
  have "list_all (\<lambda>c. \<not> in_word c) ([CHR '' '', CHR 0x09, CHR 0x0A, CHR 0x0D] @ ''&|!()'')"
    by code_simp
  then have ws: "c \<notin> set [CHR '' '', CHR 0x09, CHR 0x0A, CHR 0x0D]" and "c \<notin> set ''&|!()''"
    using assms(1) unfolding list_all_iff set_append by blast+
  then have ops: "c \<noteq> CHR ''&''" "c \<noteq> CHR ''|''" "c \<noteq> CHR ''!''" "c \<noteq> CHR ''(''" "c \<noteq> CHR '')''"
      "c \<noteq> CHR ''@''" "c \<noteq> CHR ''#''"
    using assms(2) by simp_all
  show ?thesis by (simp only: lex.simps(2) ws ops if_False)
qed

text \<open>A word that is a literal: the lexer splits it off and looks it up.\<close>

lemma lex_keyword:
  assumes "list_all in_word w" "w \<noteq> []" "hd w \<notin> set ''@#''" "keyword (to_lowercase w) = Some a"
    "\<not> starts_with (to_lowercase w) ''search:''"
  shows "lex (w @ '' '' @ rest) = bind_res (lex rest) (\<lambda>ts. Inr (TAtom a # ts))"
proof -
  obtain c v where w: "w = c # v" using assms(2) by (cases w) auto
  have "lex_word (w @ '' '' @ rest) = Inr (TAtom a, '' '' @ rest)"
    using assms by (simp add: lex_word_def space_ends_word [simplified])
  moreover have "lex (w @ '' '' @ rest) = (case lex_word (w @ '' '' @ rest) of Inl e \<Rightarrow> Inl e
      | Inr (t, rest) \<Rightarrow> bind_res (lex rest) (\<lambda>ts. Inr (t # ts)))"
    using assms(1,3) lex_other [of c] unfolding w by simp
  ultimately show ?thesis by simp
qed

lemma lex_two_words:
  assumes "list_all in_word w" "w \<noteq> []" "hd w \<notin> set ''@#''"
    "\<not> starts_with (to_lowercase w) ''search:''" "keyword (to_lowercase w) = None"
    "(if to_lowercase w = ''no'' then lex_no ('' '' @ r)
      else if to_lowercase w = ''due'' \<or> to_lowercase w = ''deadline''
      then lex_date (to_lowercase w) ('' '' @ r)
      else Inl (FUnknownKeyword (to_lowercase w))) = Inr (TAtom a, i)"
  shows "lex (w @ '' '' @ r) = bind_res (lex i) (\<lambda>ts. Inr (TAtom a # ts))"
proof -
  obtain c v where w: "w = c # v" using assms(2) by (cases w) auto
  have "lex_word (w @ '' '' @ r) = Inr (TAtom a, i)"
    unfolding lex_word_def space_ends_word [OF assms(1)] Let_def using assms(2,4-6) by (auto split: if_splits)
  moreover have "lex (w @ '' '' @ r) = (case lex_word (w @ '' '' @ r) of Inl e \<Rightarrow> Inl e
      | Inr (t, rest) \<Rightarrow> bind_res (lex rest) (\<lambda>ts. Inr (t # ts)))"
    using assms(1,3) lex_other [of c] unfolding w by simp
  ultimately show ?thesis by simp
qed

lemma lex_no_word:
  assumes "list_all in_word v" "v \<noteq> []"
    "(to_lowercase v, a) \<in> {(''date'', NoDate), (''deadline'', NoDeadline), (''label'', NoLabel)}"
  shows "lex (''no '' @ v @ '' '' @ rest) = bind_res (lex rest) (\<lambda>ts. Inr (TAtom a # ts))"
proof -
  have "\<not> is_whitespace (hd v)" using assms(1,2) by (cases v) (auto simp: in_word_def)
  then have "skip_ws ('' '' @ v @ '' '' @ rest) = v @ '' '' @ rest"
    using assms(2) by (cases v) (auto simp: skip_ws_def is_whitespace_def code_def)
  then have "lex_no ('' '' @ v @ '' '' @ rest) = Inr (TAtom a, '' '' @ rest)"
    unfolding lex_no_def using assms(3) by (auto simp: space_ends_word [OF assms(1), simplified])
  moreover have "list_all in_word ''no''" "\<not> starts_with (to_lowercase ''no'') ''search:''"
    "keyword (to_lowercase ''no'') = None" "to_lowercase ''no'' = ''no''" by code_simp+
  ultimately have "lex (''no'' @ '' '' @ v @ '' '' @ rest) = bind_res (lex ('' '' @ rest)) (\<lambda>ts. Inr (TAtom a # ts))"
    by (intro lex_two_words) simp_all
  then show ?thesis by simp
qed

lemma lex_due_word:
  assumes "is_iso_date d" "stops rest"
    "(w, b, mk) \<in> {(''due'', ''before:'', DueBefore), (''due'', ''after:'', DueAfter),
       (''deadline'', ''before:'', DeadlineBefore), (''deadline'', ''after:'', DeadlineAfter)}"
  shows "lex (w @ '' '' @ b @ d @ '' '' @ rest) = bind_res (lex rest) (\<lambda>ts. Inr (TAtom (mk d) # ts))"
proof -
  have wb: "w \<in> {''due'', ''deadline''}" "b \<in> {''before:'', ''after:''}" using assms(3) by auto
  have "list_all (list_all in_word) [''due'', ''deadline'']"
    "list_all (\<lambda>w. \<not> starts_with (to_lowercase w) ''search:'' \<and> keyword (to_lowercase w) = None
       \<and> to_lowercase w = w \<and> hd w \<notin> set ''@#'') [''due'', ''deadline'']"
    "list_all (\<lambda>b. list_all in_free_text ('' '' @ b) \<and> \<not> is_whitespace (hd b)) [''before:'', ''after:'']"
    by code_simp+
  with wb have w: "list_all in_word w" "\<not> starts_with (to_lowercase w) ''search:''"
      "keyword (to_lowercase w) = None" "to_lowercase w = w" "hd w \<notin> set ''@#''"
    and b: "list_all in_free_text ('' '' @ b)" "\<not> is_whitespace (hd b)" by auto
  have ne: "b \<noteq> []" "w \<noteq> []" "w \<noteq> ''no''" using wb by auto
  note iso = iso_free [OF assms(1)] iso_chars(1) [OF assms(1)]
  have "take_until_operator ((('' '' @ b) @ d) @ '' '' @ rest) = (trim ((('' '' @ b) @ d) @ '' ''), rest)"
    using b(1) iso(1) assms(2) by (intro free_text_stops) (auto simp: list_all_iff)
  moreover have "trim ('' '' @ (b @ d) @ '' '') = b @ d"
    using b(2) iso ne by (intro trim_pad) (auto simp: is_whitespace_def code_def)
  ultimately have take: "take_until_operator ('' '' @ b @ d @ '' '' @ rest) = (b @ d, rest)" by simp
  have "trim d = d" using trim_pad [OF iso(4,2,3), of "[]" "[]"] by simp
  then have "lex_date w ('' '' @ b @ d @ '' '' @ rest) = Inr (TAtom (mk d), rest)"
    unfolding lex_date_def take using assms(1,3)
    by (auto simp: to_lowercase_def starts_with_def to_lower_def code_def)
  with w ne wb(1) show ?thesis by (intro lex_two_words) auto
qed

lemma lex_word_search:
  "fst (take_word s) \<noteq> [] \<Longrightarrow> starts_with (to_lowercase (fst (take_word s))) ''search:'' \<Longrightarrow>
   lex_word s = lex_search s"
  by (cases "take_word s") (simp add: lex_word_def)

lemma lex_search_word:
  assumes "s \<noteq> []" "trim s = s" "list_all in_free_text s" "stops rest"
  shows "lex (''search:'' @ s @ '' '' @ rest) = bind_res (lex rest) (\<lambda>ts. Inr (TAtom (Search s) # ts))"
proof -
  have lit: "list_all (\<lambda>c. in_free_text c \<and> in_word c) ''search:''" "\<not> is_whitespace (CHR ''s'')"
    "in_word (CHR ''s'')" by code_simp+
  note ws = trim_fixed [OF assms(2,1)]
  have "take_until_operator ((''search:'' @ s) @ '' '' @ rest) = (trim ((''search:'' @ s) @ '' ''), rest)"
    using lit(1) assms(3,4) by (intro free_text_stops) (auto simp: list_all_iff)
  moreover have "trim ([] @ (''search:'' @ s) @ '' '') = ''search:'' @ s"
    using ws assms(1) lit(2) by (intro trim_pad) (auto simp: is_whitespace_def code_def)
  ultimately have "lex_search (''search:'' @ s @ '' '' @ rest) = Inr (TAtom (Search s), rest)"
    using assms(1,2) by (simp add: lex_search_def)
  moreover have "fst (take_word (''search:'' @ s @ '' '' @ rest)) = ''search:'' @ takeWhile in_word (s @ '' '' @ rest)"
    using lit(1) by (simp add: take_word_def)
  then have "starts_with (to_lowercase (fst (take_word (''search:'' @ s @ '' '' @ rest)))) ''search:''"
    and "fst (take_word (''search:'' @ s @ '' '' @ rest)) \<noteq> []"
    by (simp_all add: to_lowercase_def starts_with_def to_lower_def code_def)
  ultimately have "lex_word (''search:'' @ s @ '' '' @ rest) = Inr (TAtom (Search s), rest)"
    by (metis lex_word_search)
  with lex_other [OF lit(3), of "''earch:'' @ s @ '' '' @ rest"] show ?thesis by simp
qed

lemma lex_sigil_word:
  assumes "word_ok w"
  shows "lex (''@'' @ w @ '' '' @ rest) = bind_res (lex rest) (\<lambda>ts. Inr (TAtom (Label w) # ts))"
    and "lex (''#'' @ w @ '' '' @ rest) = bind_res (lex rest) (\<lambda>ts. Inr (TAtom (Project w) # ts))"
  using assms by (simp_all add: word_ok_def lex.simps(2) lex_sigil_def space_ends_word [simplified])

definition literal_words :: "(string \<times> filter_atom) list" where
  "literal_words =
     [(''p1'', Priority 1), (''p2'', Priority 2), (''p3'', Priority 3), (''p4'', Priority 4),
      (''overdue'', Is_Overdue), (''today'', Is_Today), (''subtask'', Subtask), (''blocked'', Is_Blocked),
      (''pending'', Status ''pending''), (''in_progress'', Status ''in_progress''),
      (''done'', Status ''done''), (''cancelled'', Status ''cancelled'')]"

lemma keyword_literals:
  "list_all (\<lambda>(w, a). list_all in_word w \<and> w \<noteq> [] \<and> hd w \<notin> set ''@#''
      \<and> keyword (to_lowercase w) = Some a \<and> \<not> starts_with (to_lowercase w) ''search:'')
     literal_words"
  by code_simp

lemma lex_atom:
  assumes "atom_ok a" and "stops rest"
  shows "lex (print_atom a @ '' '' @ rest) = bind_res (lex rest) (\<lambda>ts. Inr (TAtom a # ts))"
proof -
  have kw: "lex (w @ '' '' @ rest) = bind_res (lex rest) (\<lambda>ts. Inr (TAtom b # ts))"
    if "(w, b) \<in> set literal_words" for w b
    using keyword_literals [unfolded list_all_iff, rule_format, OF that]
    by (intro lex_keyword) (auto simp: list_all_iff)
  have no: "lex (''no '' @ v @ '' '' @ rest) = bind_res (lex rest) (\<lambda>ts. Inr (TAtom b # ts))"
    if "(v, b) \<in> {(''date'', NoDate), (''deadline'', NoDeadline), (''label'', NoLabel)}" for v b
  proof -
    have "list_all (\<lambda>v. list_all in_word v \<and> v \<noteq> [] \<and> to_lowercase v = v) [''date'', ''deadline'', ''label'']"
      by code_simp
    with that show ?thesis by (intro lex_no_word) auto
  qed
  show ?thesis
  proof (cases a)
    case (Priority p)
    with assms(1) have "p \<in> {1, 2, 3, 4}" by auto
    with Priority show ?thesis
      using kw [of "''p1''"] kw [of "''p2''"] kw [of "''p3''"] kw [of "''p4''"]
      by (auto simp: literal_words_def)
  next
    case (Status s)
    with assms(1) kw [of s a] show ?thesis by (auto simp: literal_words_def)
  qed (use assms kw [of "print_atom a" a] no [of _ a] lex_sigil_word lex_search_word
      lex_due_word [OF _ assms(2), of _ "''due''" "''before:''" DueBefore]
      lex_due_word [OF _ assms(2), of _ "''due''" "''after:''" DueAfter]
      lex_due_word [OF _ assms(2), of _ "''deadline''" "''before:''" DeadlineBefore]
      lex_due_word [OF _ assms(2), of _ "''deadline''" "''after:''" DeadlineAfter] in \<open>simp_all add: literal_words_def\<close>)
qed

text \<open>In a printed expression an atom is followed by the end or by an operator that ends it.\<close>

fun closes :: "token list \<Rightarrow> bool" where
  "closes [] = True"
| "closes (t # ts) = (t \<in> {TAmp, TPipe, TRParen})"

fun spaced :: "token list \<Rightarrow> bool" where
  "spaced [] = True"
| "spaced (t # ts) = ((case t of TAtom a \<Rightarrow> atom_ok a \<and> closes ts | _ \<Rightarrow> True) \<and> spaced ts)"

lemma spaced_append: "spaced ts \<Longrightarrow> spaced us \<Longrightarrow> closes us \<Longrightarrow> spaced (ts @ us)"
proof (induction ts)
  case (Cons t ts)
  then show ?case by (cases ts) (auto split: token.splits)
qed simp

lemma spaced_unparse: "expr_ok e \<Longrightarrow> spaced (snd (unparse e))"
proof (induction e)
  case (Atom a)
  then show ?case by simp
qed (auto simp: wrap_def intro!: spaced_append)

lemma lex_print_tokens: "spaced ts \<Longrightarrow> lex (print_tokens ts) = Inr ts"
proof (induction ts)
  case Nil
  then show ?case by (simp add: print_tokens_def)
next
  case (Cons t ts)
  have "stops (print_tokens ts)" if "closes ts"
    using that by (cases ts) (auto simp: stops_def print_tokens_def)
  with Cons show ?case
    using lex_token [of t "print_tokens ts"] lex_atom [of _ "print_tokens ts"]
    by (cases t) (simp_all add: print_tokens_def)
qed


definition sample_filter :: filter_expr where
  "sample_filter = Or (And (Atom (Priority 1)) (Not (Atom (Search ''red  tape''))))
     (And (Or (Atom (DeadlineBefore ''2026-08-01'')) (Atom NoDate)) (Atom (Label ''rust'')))"


end
