(* ===== verification/Task_Query.thy ===== *)
theory Task_Query
  imports Task_Schedule Filter_Text
begin

text \<open>
  \<open>query\<close> of \<open>tasks.rs\<close>: the filter language run over a listing, and what it has to
  agree with: the dependency graph for \<open>blocked\<close>, the announcement sweep for
  \<open>overdue\<close>.
\<close>

definition query ::
  "string \<Rightarrow> db \<Rightarrow> string \<Rightarrow> string option \<Rightarrow> string \<Rightarrow> (storage_error, task list) result" where
  "query today db scope scope_id input =
     (case parse input of
        Inl e \<Rightarrow> Inl (Invalid (BadFilter e))
      | Inr expr \<Rightarrow>
          Inr (filter (\<lambda>t. matches expr t today) (list_tasks db scope scope_id True)))"

lemma is_some_and_simps [simp]:
  "is_some_and None p = False" "is_some_and (Some x) p = p x"
  by (simp_all add: is_some_and_def)

lemma sort_key_map: "sort_key k (map f xs) = map f (sort_key (\<lambda>x. k (f x)) xs)"
proof -
  have "insort_key k (f x) (map f ys) = map f (insort_key (\<lambda>x. k (f x)) x ys)" for x ys
    by (induction ys) auto
  then show ?thesis by (induction xs) auto
qed

text \<open>
  Querying \<open>blocked\<close> finds the tasks that wait: in a reachable store the result is, in
  listing order, exactly the tasks of the scope with an open dependency, whatever their rows
  hold in the \<open>blocked\<close> field.
\<close>

theorem query_blocked_reads_the_graph:
  assumes "reachable jp ser db"
  shows "case query today db scope sid ''blocked'' of
      Inl _ \<Rightarrow> False
    | Inr ts \<Rightarrow> map t_id ts = map t_id (filter (is_blocked (load_scope db (normalize_scope scope) sid))
        (sort_key (\<lambda>t. (t_sort_order t, t_id t)) (load_scope db (normalize_scope scope) sid)))"
proof -
  let ?ts = "load_scope db (normalize_scope scope) sid"
  let ?k = "\<lambda>t. (t_sort_order t, t_id t)"
  have "parse ''blocked'' = Inr (Atom Is_Blocked)" by code_simp
  then have q: "query today db scope sid ''blocked'' = Inr (filter t_blocked (list_tasks db scope sid True))"
    by (simp add: query_def)
  have "list_tasks db scope sid True = sort_key ?k (map (flagged ?ts) ?ts)"
    unfolding list_tasks_flagged [OF wf_db_reachable [OF assms]] by (simp add: Let_def)
  also have "\<dots> = map (flagged ?ts) (sort_key ?k ?ts)"
    by (simp add: sort_key_map)
  finally show ?thesis unfolding q by (simp add: filter_map comp_def)
qed

text \<open>
  What the sweep announces as overdue is what the query calls overdue: a task is announced
  exactly when the \<open>overdue\<close> atom matches it on that day and no announcement was made
  before.
\<close>

theorem overdue_query_agrees_with_sweep:
  "(t \<in> set (list_time_announcable db today) \<and> overdue_crossed today t) =
   (t \<in> set (tasks db) \<and> matches (Atom Is_Overdue) t today \<and> t_overdue_announced t = None)"
  by (cases "t_deadline_at t")
     (auto simp: list_time_announcable_def overdue_crossed_def deadline_date_def iso_day_def day_of_def
        is_closed_status_def)

end
