(* ===== verification/Declared_Invariants.thy ===== *)
theory Declared_Invariants
  imports Acceptance
begin

text \<open>
  The file prohibitions a user states in chat (\<open>tasks.rs\<close>, from
  \<open>DECLARED_INVARIANTS_FILE\<close> on): extracting them from the text, keeping them in the
  workspace's registry, and lifting them on an explicit yes.

  The registry is a JSON document; \<open>jp\<close> is \<open>serde_json::from_str\<close> and \<open>pretty\<close>
  is \<open>to_string_pretty\<close>, which cannot fail on the values built here.
\<close>

record declared_invariant =
  inv_kind :: string
  inv_glob :: string
  inv_source :: string
  inv_scope :: string

definition DECLARED_INVARIANTS_VERSION :: nat where "DECLARED_INVARIANTS_VERSION = 1"

section \<open>The words\<close>

definition INVARIANT_NEGATIONS :: "string list" where
  "INVARIANT_NEGATIONS =
     [''never'', ''do not'', ''don'' @ [squote] @ ''t'', ''dont'', ''must not'', ''mustn'' @ [squote] @ ''t'',
      ''cannot'', ''can not'', ''shall not'', ''should not'', ''shouldn'' @ [squote] @ ''t'', ''hands off'']"

definition INVARIANT_DECLARATIONS :: "string list" where
  "INVARIANT_DECLARATIONS =
     [''read-only'', ''readonly'', ''is read only'', ''are read only'', ''as read only'',
      ''off-limits'', ''off limits'']"

definition INVARIANT_AMBIGUITY :: "string list" where
  "INVARIANT_AMBIGUITY =
     [''if '', ''unless'', ''except'', ''when '', ''while '', ''maybe'', ''might'', ''probably'',
      ''not sure'', ''unsure'', ''you can '', ''you may '', ''feel free'', ''ok to '', ''okay to '',
      ''fine to '', ''allowed to'', ''prefer not'', ''try not'']"

definition MODIFY :: "string list" where
  "MODIFY = [''edit'', ''modify'', ''change'', ''rewrite'', ''overwrite'', ''alter'', ''update'',
     ''touch'', ''write'', ''patch'']"

definition DELETE :: "string list" where
  "DELETE = [''delete'', ''remove'', ''erase'', ''unlink'', ''wipe'', '' rm '']"

definition CREATE :: "string list" where
  "CREATE = [''create'', ''add '', ''new file'', ''generate'', ''scaffold'']"

definition mentions :: "string \<Rightarrow> string list \<Rightarrow> bool" where
  "mentions lower words = list_ex (str_contains lower) words"

definition prohibited_kinds :: "string \<Rightarrow> bool \<Rightarrow> bool \<Rightarrow> string list" where
  "prohibited_kinds lower negated declared =
     (let add = (\<lambda>b kind kinds. if b \<and> kind \<notin> set kinds then kinds @ [kind] else kinds)
      in add (negated \<and> mentions lower CREATE) ''no_create_under''
          (add (negated \<and> mentions lower DELETE) ''no_delete''
          (add (negated \<and> mentions lower MODIFY) ''read_only''
          (add declared ''read_only'' []))))"

section \<open>Sentences\<close>

definition terminator :: "char \<Rightarrow> bool" where
  "terminator c = (c \<in> set ''.!?;'' \<or> c = CHR 0x0A)"

text \<open>\<open>cur\<close> is the text from \<open>start\<close> on, in reverse.\<close>

fun split_sentences_from :: "string \<Rightarrow> string \<Rightarrow> string list" where
  "split_sentences_from cur [] = (if cur = [] then [] else [rev cur])"
| "split_sentences_from cur (c # rest) =
     (if terminator c \<and> (c = CHR 0x0A \<or> rest = [] \<or> is_ascii_whitespace (hd rest))
      then rev (c # cur) # split_sentences_from [] rest
      else split_sentences_from (c # cur) rest)"

definition split_sentences :: "string \<Rightarrow> string list" where
  "split_sentences s = split_sentences_from [] s"

section \<open>Globs\<close>

fun strip_dot_slash :: "string \<Rightarrow> string" where
  "strip_dot_slash (a # b # s) =
     (if a = CHR ''.'' \<and> b = CHR ''/'' then strip_dot_slash s else a # b # s)"
| "strip_dot_slash s = s"

text \<open>\<open>replace("//", "/")\<close>: left to right, without overlap.\<close>

fun replace_double :: "string \<Rightarrow> string" where
  "replace_double (a # b # s) =
     (if a = CHR ''/'' \<and> b = CHR ''/'' then CHR ''/'' # replace_double s
      else a # replace_double (b # s))"
| "replace_double s = s"

lemma length_replace_double: "length (replace_double s) \<le> length s"
  by (induction s rule: replace_double.induct) auto

lemma replace_double_shrinks: "str_contains s ''//'' \<Longrightarrow> length (replace_double s) < length s"
proof (induction s rule: replace_double.induct)
  case (1 a b s)
  then show ?case using length_replace_double [of s] by auto
qed simp_all

function collapse :: "string \<Rightarrow> string" where
  "collapse key = (if str_contains key ''//'' then collapse (replace_double key) else key)"
  by pat_completeness auto
termination
  by (relation "measure length") (simp_all add: replace_double_shrinks)

declare collapse.simps [simp del]

function pop_slashes :: "string \<Rightarrow> string" where
  "pop_slashes key =
     (if 1 < byte_len key \<and> ends_with key ''/'' then pop_slashes (butlast key) else key)"
  by pat_completeness auto
termination
  by (relation "measure length") (auto simp: ends_with_def suffix_def)

declare pop_slashes.simps [simp del]

definition normalize_invariant_glob :: "string \<Rightarrow> string" where
  "normalize_invariant_glob glob =
     pop_slashes (collapse (strip_dot_slash (to_lowercase (replace_char backslash (CHR ''/'') glob))))"

section \<open>Extracting\<close>

definition push_invariant :: "string \<Rightarrow> string \<Rightarrow> string \<Rightarrow> string
    \<Rightarrow> declared_invariant list \<Rightarrow> declared_invariant list" where
  "push_invariant scope source glob kind out =
     (if list_ex (\<lambda>e. inv_kind e = kind \<and> inv_glob e = glob) out then out
      else out @ [\<lparr>inv_kind = kind, inv_glob = glob, inv_source = source, inv_scope = scope\<rparr>])"

definition extract_token :: "string \<Rightarrow> string \<Rightarrow> string list \<Rightarrow> string
    \<Rightarrow> declared_invariant list \<Rightarrow> declared_invariant list" where
  "extract_token scope source kinds token out =
     (let cleaned = trim_path_token token in
      if cleaned = [] \<or> \<not> looks_like_path cleaned then out
      else (let glob = normalize_invariant_glob cleaned in
        if glob = [] then out else fold (push_invariant scope source glob) kinds out))"

definition sentence_source :: "string \<Rightarrow> string" where
  "sentence_source sentence = trim (trim_end_matches (\<lambda>c. c \<in> set ''.!;'') (trim sentence))"

definition sentence_kinds :: "string \<Rightarrow> string list" where
  "sentence_kinds sentence =
     (let source = sentence_source sentence; lower = to_lowercase source in
      if source = [] then []
      else if ends_with (trim_end sentence) ''?'' \<or> str_contains lower '' or should '' then []
      else if mentions lower INVARIANT_AMBIGUITY then []
      else (let negated = mentions lower INVARIANT_NEGATIONS;
                declared = mentions lower INVARIANT_DECLARATIONS
            in if \<not> negated \<and> \<not> declared then [] else prohibited_kinds lower negated declared))"

definition extract_sentence :: "string \<Rightarrow> string
    \<Rightarrow> declared_invariant list \<Rightarrow> declared_invariant list" where
  "extract_sentence scope sentence out =
     (let kinds = sentence_kinds sentence in
      if kinds = [] then out
      else fold (extract_token scope (sentence_source sentence) kinds)
             (split_whitespace (sentence_source sentence)) out)"

definition extract_declared_invariants :: "string \<Rightarrow> string \<Rightarrow> declared_invariant list" where
  "extract_declared_invariants s scope = fold (extract_sentence scope) (split_sentences s) []"

section \<open>The registry\<close>

text \<open>
  \<open>from_value\<close> of the derived \<open>Deserialize\<close>: an object with the four string fields, or
  the four strings in order; any other entry fails the whole list.
\<close>

definition invariant_of_json :: "json \<Rightarrow> declared_invariant option" where
  "invariant_of_json v =
     (case v of
        JObj kvs \<Rightarrow>
          (case (get_str v ''kind'', get_str v ''glob'', get_str v ''source'', get_str v ''scope'') of
             (Some k, Some g, Some s, Some sc) \<Rightarrow>
               Some \<lparr>inv_kind = k, inv_glob = g, inv_source = s, inv_scope = sc\<rparr>
           | _ \<Rightarrow> None)
      | JArr [JStr k, JStr g, JStr s, JStr sc] \<Rightarrow>
          Some \<lparr>inv_kind = k, inv_glob = g, inv_source = s, inv_scope = sc\<rparr>
      | _ \<Rightarrow> None)"

definition json_of_invariant :: "declared_invariant \<Rightarrow> json" where
  "json_of_invariant i = JObj [(''glob'', JStr (inv_glob i)), (''kind'', JStr (inv_kind i)),
     (''scope'', JStr (inv_scope i)), (''source'', JStr (inv_source i))]"

fun invariants_of_json :: "json list \<Rightarrow> declared_invariant list option" where
  "invariants_of_json [] = Some []"
| "invariants_of_json (v # vs) =
     (case (invariant_of_json v, invariants_of_json vs) of
        (Some i, Some invs) \<Rightarrow> Some (i # invs) | _ \<Rightarrow> None)"

definition parse_declared_invariants :: "json_parser \<Rightarrow> string \<Rightarrow> declared_invariant list" where
  "parse_declared_invariants jp existing_json =
     (case jp existing_json of
        None \<Rightarrow> []
      | Some v \<Rightarrow>
          (case jget v ''invariants'' of
             Some (JArr vs) \<Rightarrow> (case invariants_of_json vs of None \<Rightarrow> [] | Some invs \<Rightarrow> invs)
           | _ \<Rightarrow> []))"

definition registry_document :: "declared_invariant list \<Rightarrow> json" where
  "registry_document invs = JObj [(''invariants'', JArr (map json_of_invariant invs)),
     (''version'', JNum (PosInt DECLARED_INVARIANTS_VERSION))]"

definition merge_one :: "declared_invariant \<Rightarrow> declared_invariant list \<times> nat
    \<Rightarrow> declared_invariant list \<times> nat" where
  "merge_one i acc = (case acc of (merged, added) \<Rightarrow>
     if list_ex (\<lambda>e. inv_kind e = inv_kind i \<and> inv_glob e = inv_glob i) merged then (merged, added)
     else (merged @ [i], Suc added))"

definition merge_declared_invariants ::
  "json_parser \<Rightarrow> json_printer \<Rightarrow> string \<Rightarrow> declared_invariant list \<Rightarrow> string option" where
  "merge_declared_invariants jp pretty existing_json fresh =
     (case fold merge_one fresh (parse_declared_invariants jp existing_json, 0) of
        (merged, added) \<Rightarrow>
          if added = 0 then None else Some (pretty (registry_document merged)))"

definition strip_slashes :: "string \<Rightarrow> string" where
  "strip_slashes s = trim_end_matches (\<lambda>c. c = CHR ''/'') s"

definition declared_invariants_for :: "json_parser \<Rightarrow> string \<Rightarrow> string \<Rightarrow> declared_invariant list" where
  "declared_invariants_for jp existing_json glob =
     (let wanted = strip_slashes (trim glob)
      in filter (\<lambda>i. wanted \<noteq> [] \<and> strip_slashes (inv_glob i) = wanted)
           (parse_declared_invariants jp existing_json))"

definition lift_declared_invariants ::
  "json_parser \<Rightarrow> json_printer \<Rightarrow> string \<Rightarrow> string \<Rightarrow> string option" where
  "lift_declared_invariants jp pretty existing_json glob =
     (let wanted = strip_slashes (trim glob);
          all_invariants = parse_declared_invariants jp existing_json;
          kept = filter (\<lambda>i. wanted = [] \<or> strip_slashes (inv_glob i) \<noteq> wanted) all_invariants
      in if length kept = length all_invariants then None else Some (pretty (registry_document kept)))"

section \<open>The explicit yes\<close>

definition YES :: "string list" where
  "YES = [''yes'', ''y'', ''yep'', ''yeah'', ''sure'', ''ok'', ''okay'', ''allow'', ''lift'', ''go'']"

definition NEGATIONS :: "string list" where
  "NEGATIONS = [''no'', ''not'', ''don'' @ [squote] @ ''t'', ''dont'', ''never'', ''wait'', ''stop'', ''keep'']"

definition is_explicit_yes :: "string \<Rightarrow> bool" where
  "is_explicit_yes reply =
     (case filter (\<lambda>w. w \<noteq> []) (split_on (\<lambda>c. \<not> (is_alphanumeric c \<or> c = squote))
             (to_lowercase (trim reply))) of
        [] \<Rightarrow> False
      | first # words \<Rightarrow> first \<in> set YES \<and> \<not> list_ex (\<lambda>w. w \<in> set NEGATIONS) (first # words))"

section \<open>Properties\<close>

lemma concat_split_from: "concat (split_sentences_from cur s) = rev cur @ s"
  by (induction cur s rule: split_sentences_from.induct) auto

lemma split_from_nonempty: "x \<in> set (split_sentences_from cur s) \<Longrightarrow> x \<noteq> []"
  by (induction cur s rule: split_sentences_from.induct) (auto split: if_splits)

lemma split_from_ends:
  "xs @ x # y # ys = split_sentences_from cur s \<Longrightarrow> terminator (last x)"
proof (induction cur s arbitrary: xs rule: split_sentences_from.induct)
  case (1 cur)
  then show ?case by (auto split: if_splits simp: append_eq_Cons_conv Cons_eq_append_conv)
next
  case (2 cur c rest)
  show ?case
  proof (cases "terminator c \<and> (c = CHR 0x0A \<or> rest = [] \<or> is_ascii_whitespace (hd rest))")
    case True
    with 2 show ?thesis by (cases xs) auto
  next
    case False
    with 2 show ?thesis by auto
  qed
qed

text \<open>
  Sentences lose nothing: in order they are the text, none is empty, and every one but the
  last ends with a terminator.
\<close>

theorem split_sentences_partition:
  "concat (split_sentences s) = s \<and> list_all (\<lambda>x. x \<noteq> []) (split_sentences s)
   \<and> list_all (\<lambda>x. terminator (last x)) (butlast (split_sentences s))"
proof (intro conjI)
  show "concat (split_sentences s) = s" by (simp add: split_sentences_def concat_split_from)
  show "list_all (\<lambda>x. x \<noteq> []) (split_sentences s)"
    using split_from_nonempty by (auto simp: split_sentences_def list_all_iff)
  show "list_all (\<lambda>x. terminator (last x)) (butlast (split_sentences s))"
    unfolding list_all_iff
  proof
    fix x assume "x \<in> set (butlast (split_sentences s))"
    then obtain xs ys where "butlast (split_sentences s) = xs @ x # ys" by (auto dest: split_list)
    moreover have "split_sentences s \<noteq> []" using calculation by auto
    ultimately have "split_sentences s = xs @ x # ys @ [last (split_sentences s)]"
      by (metis append_butlast_last_id append_Cons append_assoc)
    then show "terminator (last x)"
      using split_from_ends [of xs x _ _ "[]" s]
      unfolding split_sentences_def by (cases ys) (metis append_Cons append_Nil)+
  qed
qed

text \<open>A glob in the canonical spelling.\<close>

definition canonical_glob :: "string \<Rightarrow> bool" where
  "canonical_glob g \<longleftrightarrow> backslash \<notin> set g \<and> to_lowercase g = g \<and> \<not> starts_with g ''./''
     \<and> \<not> str_contains g ''//'' \<and> (ends_with g ''/'' \<longrightarrow> g = ''/'')"

lemma canonical_normalize: "canonical_glob g \<Longrightarrow> normalize_invariant_glob g = g"
proof -
  assume g: "canonical_glob g"
  then have "replace_char backslash (CHR ''/'') g = g"
    by (auto simp: canonical_glob_def replace_char_def intro: map_idI)
  moreover have "strip_dot_slash g = g"
    using g by (cases g rule: strip_dot_slash.cases) (auto simp: canonical_glob_def starts_with_def)
  moreover have "pop_slashes g = g"
    using g by (subst pop_slashes.simps) (auto simp: canonical_glob_def utf8_len_def code_def)
  ultimately show "normalize_invariant_glob g = g"
    using g by (simp add: normalize_invariant_glob_def canonical_glob_def collapse.simps)
qed

lemma set_glob_steps:
  "set (strip_dot_slash s) \<subseteq> set s" "set (replace_double s) \<subseteq> set s"
  "set (collapse s) \<subseteq> set s" "set (pop_slashes s) \<subseteq> set s"
proof -
  show double: "set (replace_double s) \<subseteq> set s" for s
    by (induction s rule: replace_double.induct) auto
  show "set (strip_dot_slash s) \<subseteq> set s"
    by (induction s rule: strip_dot_slash.induct) auto
  show "set (collapse s) \<subseteq> set s"
  proof (induction s rule: collapse.induct)
    case (1 key)
    with double [of key] show ?case by (subst collapse.simps) auto
  qed
  show "set (pop_slashes s) \<subseteq> set s"
  proof (induction s rule: pop_slashes.induct)
    case (1 key)
    then show ?case by (subst pop_slashes.simps) (auto dest: in_set_butlastD)
  qed
qed

lemma strip_dot_slash_done: "\<not> starts_with (strip_dot_slash s) ''./''"
  by (induction s rule: strip_dot_slash.induct) (auto simp: starts_with_def)

lemma hd_replace_double: "s \<noteq> [] \<Longrightarrow> replace_double s \<noteq> [] \<and> hd (replace_double s) = hd s"
  by (cases s rule: replace_double.cases) auto

lemma replace_double_start: "\<not> starts_with s ''./'' \<Longrightarrow> \<not> starts_with (replace_double s) ''./''"
proof (cases s rule: replace_double.cases)
  case (1 a b t)
  assume "\<not> starts_with s ''./''"
  with 1 hd_replace_double [of "b # t"] show ?thesis
    by (cases "replace_double (b # t)") (auto simp: starts_with_def)
qed auto

lemma collapse_done:
  "\<not> str_contains (collapse s) ''//'' \<and> (\<not> starts_with s ''./'' \<longrightarrow> \<not> starts_with (collapse s) ''./'')"
proof (induction s rule: collapse.induct)
  case (1 key)
  then show ?case
    using replace_double_start [of key] by (cases "str_contains key ''//''") (simp_all add: collapse.simps [of key])
qed

lemma pop_slashes_done:
  "(ends_with (pop_slashes s) ''/'' \<longrightarrow> pop_slashes s = ''/'') \<and> prefix (pop_slashes s) s"
proof (induction s rule: pop_slashes.induct)
  case (1 key)
  show ?case
  proof (cases "1 < byte_len key \<and> ends_with key ''/''")
    case True
    with 1 show ?thesis
      by (simp add: pop_slashes.simps [of key]) (meson prefix_order.trans prefixeq_butlast)
  next
    case False
    have "key = ''/''" if "ends_with key ''/''"
    proof -
      from that obtain ys where key: "key = ys @ ''/''" by (auto simp: ends_with_def suffix_def)
      moreover have "ys = []" using False that unfolding key by (cases ys) (auto simp: utf8_len_def)
      ultimately show ?thesis by simp
    qed
    moreover have "pop_slashes key = key" using False by (subst pop_slashes.simps) auto
    ultimately show ?thesis by simp
  qed
qed

lemma to_lower_idem: "to_lower (to_lower c) = to_lower c"
  by (auto simp: to_lower_def)

lemma to_lower_backslash: "to_lower c = backslash \<Longrightarrow> c = backslash"
proof -
  assume eq: "to_lower c = backslash"
  have "code (to_lower c) = (if 65 \<le> code c \<and> code c \<le> 90
      \<or> 192 \<le> code c \<and> code c \<le> 222 \<and> code c \<noteq> 215 then code c + 32 else code c)"
    by (simp add: to_lower_def)
  moreover have "code (to_lower c) = 92" unfolding eq by (simp add: code_def)
  ultimately have "code c = code backslash" by (simp add: code_def split: if_splits)
  then show "c = backslash" by simp
qed

lemma to_lower_slash [simp]: "to_lower (CHR ''/'') = CHR ''/''"
  by (simp add: to_lower_def code_def)

lemma normalize_canonical: "canonical_glob (normalize_invariant_glob g)"
proof -
  let ?l = "to_lowercase (replace_char backslash (CHR ''/'') g)"
  let ?s = "strip_dot_slash ?l" and ?n = "normalize_invariant_glob g"
  have "set ?n \<subseteq> set ?l"
    unfolding normalize_invariant_glob_def using set_glob_steps by (meson order.trans)
  moreover have "to_lower c = c \<and> c \<noteq> backslash" if "c \<in> set ?l" for c
    using that to_lower_backslash
    by (auto simp: to_lowercase_def replace_char_def to_lower_idem split: if_splits)
  ultimately have chars: "to_lower c = c \<and> c \<noteq> backslash" if "c \<in> set ?n" for c
    using that by blast
  have pre: "prefix ?n (collapse ?s)" and slash: "ends_with ?n ''/'' \<Longrightarrow> ?n = ''/''"
    using pop_slashes_done [of "collapse ?s"] by (simp_all add: normalize_invariant_glob_def)
  have fin: "\<not> str_contains (collapse ?s) ''//''" "\<not> starts_with (collapse ?s) ''./''"
    using collapse_done [of ?s] strip_dot_slash_done by auto
  have "\<not> str_contains ?n ''//''"
    using fin(1) pre by (auto simp: str_contains_iff dest: prefix_imp_sublist intro: sublist_order.order.trans)
  moreover have "\<not> starts_with ?n ''./''"
    using fin(2) pre by (auto simp: starts_with_def intro: prefix_order.trans)
  moreover have "to_lowercase ?n = ?n" using chars by (auto simp: to_lowercase_def intro: map_idI)
  ultimately show ?thesis using chars slash by (auto simp: canonical_glob_def)
qed

text \<open>
  A file has one identity in the registry: normalisation always yields a canonical glob (no
  backslash, no capital, no leading \<open>./\<close>, no doubled and no trailing slash), and leaves
  exactly the canonical globs alone.
\<close>

theorem glob_normalization_canonical:
  "canonical_glob (normalize_invariant_glob g)
   \<and> normalize_invariant_glob (normalize_invariant_glob g) = normalize_invariant_glob g
   \<and> (normalize_invariant_glob g = g \<longleftrightarrow> canonical_glob g)"
  using normalize_canonical [of g] canonical_normalize by metis

text \<open>What one entry is known by.\<close>

definition inv_key :: "declared_invariant \<Rightarrow> string \<times> string" where
  "inv_key i = (inv_kind i, inv_glob i)"

lemma known_iff:
  "list_ex (\<lambda>e. inv_kind e = k \<and> inv_glob e = g) out \<longleftrightarrow> (k, g) \<in> inv_key ` set out"
  by (auto simp: list_ex_iff inv_key_def)

lemma push_invariant_key:
  "inv_key ` set (push_invariant scope source glob kind out) = insert (kind, glob) (inv_key ` set out)"
  "distinct (map inv_key out) \<Longrightarrow> distinct (map inv_key (push_invariant scope source glob kind out))"
  unfolding push_invariant_def known_iff by (auto simp: inv_key_def)

lemma fold_push_key:
  "inv_key ` set (fold (push_invariant scope source glob) kinds out)
     = (\<lambda>k. (k, glob)) ` set kinds \<union> inv_key ` set out"
  "distinct (map inv_key out) \<Longrightarrow> distinct (map inv_key (fold (push_invariant scope source glob) kinds out))"
  by (induction kinds arbitrary: out) (auto simp: push_invariant_key)

text \<open>The globs a sentence names.\<close>

definition named_globs :: "string \<Rightarrow> string set" where
  "named_globs source = {g. g \<noteq> [] \<and> (\<exists>token \<in> set (split_whitespace source).
     trim_path_token token \<noteq> [] \<and> looks_like_path (trim_path_token token)
     \<and> g = normalize_invariant_glob (trim_path_token token))}"

lemma fold_extract_token:
  "inv_key ` set (fold (extract_token scope source kinds) tokens out) =
     set kinds \<times> {g. g \<noteq> [] \<and> (\<exists>token \<in> set tokens. trim_path_token token \<noteq> []
        \<and> looks_like_path (trim_path_token token) \<and> g = normalize_invariant_glob (trim_path_token token))}
     \<union> inv_key ` set out"
  "distinct (map inv_key out) \<Longrightarrow> distinct (map inv_key (fold (extract_token scope source kinds) tokens out))"
proof -
  have one: "inv_key ` set (extract_token scope source kinds token out) =
      set kinds \<times> {g. g \<noteq> [] \<and> trim_path_token token \<noteq> [] \<and> looks_like_path (trim_path_token token)
        \<and> g = normalize_invariant_glob (trim_path_token token)} \<union> inv_key ` set out"
    for token out by (auto simp: extract_token_def Let_def fold_push_key)
  have dist: "distinct (map inv_key out) \<Longrightarrow> distinct (map inv_key (extract_token scope source kinds token out))"
    for token out by (simp add: extract_token_def Let_def fold_push_key)
  show "inv_key ` set (fold (extract_token scope source kinds) tokens out) =
     set kinds \<times> {g. g \<noteq> [] \<and> (\<exists>token \<in> set tokens. trim_path_token token \<noteq> []
        \<and> looks_like_path (trim_path_token token) \<and> g = normalize_invariant_glob (trim_path_token token))}
     \<union> inv_key ` set out"
    by (induction tokens arbitrary: out) (auto simp: one)
  show "distinct (map inv_key out) \<Longrightarrow> distinct (map inv_key (fold (extract_token scope source kinds) tokens out))"
    by (induction tokens arbitrary: out) (auto simp: dist)
qed

lemma extract_sentence_key:
  "inv_key ` set (extract_sentence scope sentence out) =
     set (sentence_kinds sentence) \<times> named_globs (sentence_source sentence) \<union> inv_key ` set out"
  "distinct (map inv_key out) \<Longrightarrow> distinct (map inv_key (extract_sentence scope sentence out))"
  by (auto simp: extract_sentence_def Let_def fold_extract_token named_globs_def)

text \<open>An entry quotes its sentence.\<close>

lemma extract_sentence_entries:
  assumes "i \<in> set (extract_sentence scope sentence out)" and "i \<notin> set out"
  shows "inv_source i = sentence_source sentence \<and> inv_scope i = scope"
proof -
  have "\<forall>i \<in> set (push_invariant scope source glob kind out). i \<in> set out
      \<or> inv_source i = source \<and> inv_scope i = scope" for source glob kind out
    by (auto simp: push_invariant_def)
  then have "\<forall>i \<in> set (fold (push_invariant scope source glob) kinds out). i \<in> set out
      \<or> inv_source i = source \<and> inv_scope i = scope" for source glob kinds out
    by (induction kinds arbitrary: out) (simp, simp, blast)
  then have "\<forall>i \<in> set (extract_token scope source kinds token out). i \<in> set out
      \<or> inv_source i = source \<and> inv_scope i = scope" for source kinds token out
    by (auto simp: extract_token_def Let_def)
  then have "\<forall>i \<in> set (fold (extract_token scope source kinds) tokens out). i \<in> set out
      \<or> inv_source i = source \<and> inv_scope i = scope" for source kinds tokens out
    by (induction tokens arbitrary: out) (simp, simp, blast)
  from this [of "sentence_source sentence" "sentence_kinds sentence" "split_whitespace (sentence_source sentence)" out]
    assms show ?thesis by (auto simp: extract_sentence_def Let_def split: if_splits)
qed

lemma trims_inside: "sublist (trim s) s" "sublist (trim_end_matches p s) s"
proof -
  have "prefix (rev (dropWhile p (rev s))) s" for p and s :: string
    using suffix_dropWhile [of p "rev s"] by (simp add: suffix_to_prefix)
  moreover have "suffix (dropWhile p s) s" for p and s :: string by (rule suffix_dropWhile)
  ultimately show "sublist (trim_end_matches p s) s" "sublist (trim s) s"
    unfolding trim_end_matches_def trim_def trim_start_def trim_end_def
    by (meson prefix_imp_sublist suffix_imp_sublist sublist_order.order.trans)+
qed

lemma source_inside: "sublist (sentence_source sentence) sentence"
  unfolding sentence_source_def using trims_inside by (meson sublist_order.order.trans)


section \<open>The registry accumulates and lifts\<close>

lemma invariants_roundtrip: "invariants_of_json (map json_of_invariant invs) = Some invs"
  by (induction invs) (auto simp: invariant_of_json_def json_of_invariant_def get_str_def)

lemma parse_registry:
  "jp doc = Some (registry_document invs) \<Longrightarrow> parse_declared_invariants jp doc = invs"
  by (simp add: parse_declared_invariants_def registry_document_def invariants_roundtrip)

lemma fold_merge:
  assumes "fold merge_one fresh (old, n) = (merged, m)"
  shows "\<exists>new. merged = old @ new \<and> set new \<subseteq> set fresh \<and> m = n + length new
    \<and> inv_key ` set merged = inv_key ` set old \<union> inv_key ` set fresh
    \<and> (distinct (map inv_key old) \<longrightarrow> distinct (map inv_key merged))"
  using assms
proof (induction fresh arbitrary: old n)
  case (Cons i fresh)
  have step: "merge_one i (old, n) = (if inv_key i \<in> inv_key ` set old then (old, n) else (old @ [i], Suc n))"
    by (simp add: merge_one_def known_iff) (simp add: inv_key_def)
  show ?case
  proof (cases "inv_key i \<in> inv_key ` set old")
    case True
    with Cons step show ?thesis by (fastforce simp: insert_absorb)
  next
    case False
    with Cons.prems step have "fold merge_one fresh (old @ [i], Suc n) = (merged, m)" by simp
    from Cons.IH [OF this] obtain new where "merged = (old @ [i]) @ new" "set new \<subseteq> set fresh"
      "m = Suc n + length new" "inv_key ` set merged = inv_key ` set (old @ [i]) \<union> inv_key ` set fresh"
      "distinct (map inv_key (old @ [i])) \<longrightarrow> distinct (map inv_key merged)" by blast
    with False show ?thesis by (intro exI [of _ "i # new"]) auto
  qed
qed simp

text \<open>
  Prohibitions accumulate: merging what a turn declared into the registry keeps every entry
  that was there, in place, appends entries of that turn only, ends with the keys of both, and
  writes nothing when the turn declares nothing new.
\<close>

theorem merge_accumulates:
  assumes serde: "\<And>invs. jp (pretty (registry_document invs)) = Some (registry_document invs)"
  shows "case merge_declared_invariants jp pretty doc fresh of
      None \<Rightarrow> inv_key ` set fresh \<subseteq> inv_key ` set (parse_declared_invariants jp doc)
    | Some doc' \<Rightarrow> \<exists>new. new \<noteq> [] \<and> set new \<subseteq> set fresh
        \<and> parse_declared_invariants jp doc' = parse_declared_invariants jp doc @ new
        \<and> inv_key ` set (parse_declared_invariants jp doc')
           = inv_key ` set (parse_declared_invariants jp doc) \<union> inv_key ` set fresh"
proof -
  obtain merged m where fold: "fold merge_one fresh (parse_declared_invariants jp doc, 0) = (merged, m)"
    by (cases "fold merge_one fresh (parse_declared_invariants jp doc, 0)")
  from fold_merge [OF fold] obtain new
    where new: "merged = parse_declared_invariants jp doc @ new" "set new \<subseteq> set fresh" "m = 0 + length new"
    "inv_key ` set merged = inv_key ` set (parse_declared_invariants jp doc) \<union> inv_key ` set fresh" by blast
  show ?thesis
  proof (cases "new = []")
    case True
    with new(1,4) have "inv_key ` set fresh \<subseteq> inv_key ` set (parse_declared_invariants jp doc)"
      by (metis append_Nil2 sup_ge2)
    with True new(3) fold show ?thesis by (simp add: merge_declared_invariants_def)
  next
    case False
    with new(3) fold have merge: "merge_declared_invariants jp pretty doc fresh = Some (pretty (registry_document merged))"
      by (simp add: merge_declared_invariants_def)
    show ?thesis
      unfolding merge option.case parse_registry [of jp, OF serde [of merged]] using new False by blast
  qed
qed

lemma length_filter_eq: "length (filter p xs) = length xs \<longleftrightarrow> (\<forall>x \<in> set xs. p x)"
  by (metis filter_True length_filter_less nat_neq_iff)

text \<open>
  Lifting takes back exactly one path: afterwards no entry answers for it, every other entry
  is still there in its place, and the document is rewritten only when an entry was removed.
\<close>

theorem lift_removes_exactly:
  assumes serde: "\<And>invs. jp (pretty (registry_document invs)) = Some (registry_document invs)"
  shows "case lift_declared_invariants jp pretty doc glob of
      None \<Rightarrow> declared_invariants_for jp doc glob = []
    | Some doc' \<Rightarrow> declared_invariants_for jp doc glob \<noteq> [] \<and> declared_invariants_for jp doc' glob = []
        \<and> parse_declared_invariants jp doc' =
            filter (\<lambda>i. i \<notin> set (declared_invariants_for jp doc glob)) (parse_declared_invariants jp doc)"
proof -
  let ?all = "parse_declared_invariants jp doc"
  let ?kept = "filter (\<lambda>i. strip_slashes (trim glob) = [] \<or> strip_slashes (inv_glob i) \<noteq> strip_slashes (trim glob)) ?all"
  have none: "length ?kept = length ?all \<longleftrightarrow> declared_invariants_for jp doc glob = []"
    by (auto simp: declared_invariants_for_def Let_def filter_empty_conv length_filter_eq)
  have rest: "?kept = filter (\<lambda>i. i \<notin> set (declared_invariants_for jp doc glob)) ?all"
    by (auto simp: declared_invariants_for_def Let_def intro: filter_cong)
  have "parse_declared_invariants jp (pretty (registry_document ?kept)) = ?kept"
    by (rule parse_registry [of jp, OF serde])
  with none rest show ?thesis
    by (auto simp: lift_declared_invariants_def declared_invariants_for_def Let_def filter_empty_conv)
qed

text \<open>A parser and a printer that agree on registry documents: every field with its length in front.\<close>

definition pack :: "string \<Rightarrow> string" where
  "pack s = replicate (length s) (CHR ''1'') @ ''0'' @ s"

definition unpack :: "string \<Rightarrow> string \<times> string" where
  "unpack t = (let n = length (takeWhile (\<lambda>c. c = CHR ''1'') t); r = drop (Suc n) t in (take n r, drop n r))"

lemma unpack_pack: "unpack (pack s @ r) = (s, r)"
proof -
  have "takeWhile (\<lambda>c. c = CHR ''1'') (replicate n (CHR ''1'') @ CHR ''0'' # s @ r)
    = replicate n (CHR ''1'')" for n by (induction n) auto
  then show ?thesis by (simp add: unpack_def pack_def Let_def)
qed

definition sample_pretty :: json_printer where
  "sample_pretty v = (case jget v ''invariants'' of
     Some (JArr vs) \<Rightarrow> (case invariants_of_json vs of
        Some invs \<Rightarrow> concat (map (\<lambda>i. pack (inv_kind i) @ pack (inv_glob i) @ pack (inv_source i) @ pack (inv_scope i)) invs)
      | None \<Rightarrow> [])
   | _ \<Rightarrow> [])"

fun unpack_invariants :: "nat \<Rightarrow> string \<Rightarrow> declared_invariant list" where
  "unpack_invariants 0 t = []"
| "unpack_invariants (Suc n) t =
     (if t = [] then []
      else case unpack t of (k, t) \<Rightarrow> case unpack t of (g, t) \<Rightarrow> case unpack t of (s, t) \<Rightarrow>
        case unpack t of (sc, t) \<Rightarrow>
          \<lparr>inv_kind = k, inv_glob = g, inv_source = s, inv_scope = sc\<rparr> # unpack_invariants n t)"

definition sample_registry_parser :: json_parser where
  "sample_registry_parser t = Some (registry_document (unpack_invariants (length t) t))"

lemma sample_serde: "sample_registry_parser (sample_pretty (registry_document invs)) = Some (registry_document invs)"
proof -
  let ?pr = "\<lambda>invs. concat (map (\<lambda>i. pack (inv_kind i) @ pack (inv_glob i) @ pack (inv_source i) @ pack (inv_scope i)) invs)"
  have "length invs \<le> n \<Longrightarrow> unpack_invariants n (?pr invs) = invs" for n
  proof (induction invs arbitrary: n)
    case Nil
    then show ?case by (cases n) auto
  next
    case (Cons i invs)
    then obtain m where "n = Suc m" "length invs \<le> m" by (cases n) auto
    moreover have "pack (inv_kind i) \<noteq> []" by (simp add: pack_def)
    ultimately show ?case using Cons.IH by (simp add: unpack_pack)
  qed
  moreover have "length invs \<le> length (?pr invs)"
    by (induction invs) (auto simp: pack_def)
  ultimately show ?thesis
    by (simp add: sample_registry_parser_def sample_pretty_def registry_document_def invariants_roundtrip)
qed

definition sample_said :: string where
  "sample_said = ''Never edit tests/unit.rs. Do not delete docs/! If unsure, never touch src/a.rs''"

definition sample_registry :: string where
  "sample_registry = sample_pretty (registry_document (extract_declared_invariants sample_said ''session''))"

end
