(* ===== verification/Chunking.thy ===== *)
theory Chunking
  imports Prelude
begin

text \<open>
  Splitting a memory into embeddable chunks (\<open>nanna-memory/src/chunking.rs\<close> and the size
  bound of \<open>service.rs\<close>). Rust slices by byte, and the model keeps the byte offsets: a cut is a
  number of bytes, and \<open>split_bytes\<close> is undefined (\<open>None\<close>) inside a character, where the
  slice would panic. Offsets and ordinals are \<open>int\<close>: a text of \<open>2^63\<close> characters, where
  the code's \<open>i64\<close> conversions would saturate, does not fit in memory.
\<close>

section \<open>The size of a chunk\<close>

definition CHARS_PER_TOKEN :: nat where "CHARS_PER_TOKEN = 3"
definition MEMORY_OBSERVATION_HEADER_CHARS :: nat where "MEMORY_OBSERVATION_HEADER_CHARS = 192"
definition MEMORY_CHUNK_TARGET_CHARS :: nat where "MEMORY_CHUNK_TARGET_CHARS = 3200"
definition CHUNKER_VERSION :: int where "CHUNKER_VERSION = 1"
definition BREAK_SEARCH_FRACTION :: nat where "BREAK_SEARCH_FRACTION = 2"

definition chunk_max_chars_for_window :: "nat \<Rightarrow> nat" where
  "chunk_max_chars_for_window embedding_window_tokens =
     (if embedding_window_tokens = 0 then MEMORY_CHUNK_TARGET_CHARS
      else (let window_chars = saturating_mul embedding_window_tokens CHARS_PER_TOKEN;
                usable = window_chars - MEMORY_OBSERVATION_HEADER_CHARS
            in max 1 (min usable MEMORY_CHUNK_TARGET_CHARS)))"

record chunk_params =
  max_chars :: nat
  version :: int

definition supersedes :: "chunk_params \<Rightarrow> chunk_params \<Rightarrow> bool" where
  "supersedes p other = (max_chars p \<noteq> max_chars other \<or> version p \<noteq> version other)"

definition derive_chunk_params :: "nat option \<Rightarrow> chunk_params" where
  "derive_chunk_params window_tokens =
     \<lparr>max_chars = (case window_tokens of None \<Rightarrow> MEMORY_CHUNK_TARGET_CHARS
                   | Some w \<Rightarrow> chunk_max_chars_for_window w),
      version = CHUNKER_VERSION\<rparr>"

section \<open>Byte offsets\<close>

text \<open>\<open>char_indices\<close>, each character with the text that starts at it.\<close>

fun char_indices_from :: "nat \<Rightarrow> string \<Rightarrow> (nat \<times> string) list" where
  "char_indices_from off [] = []"
| "char_indices_from off (c # s) = (off, c # s) # char_indices_from (off + utf8_len c) s"

abbreviation char_indices :: "string \<Rightarrow> (nat \<times> string) list" where
  "char_indices s \<equiv> char_indices_from 0 s"

text \<open>\<open>&s[..n]\<close> and \<open>&s[n..]\<close>\<close>

fun split_bytes :: "string \<Rightarrow> nat \<Rightarrow> (string \<times> string) option" where
  "split_bytes s 0 = Some ([], s)"
| "split_bytes [] (Suc n) = None"
| "split_bytes (c # s) (Suc n) =
     (if utf8_len c \<le> Suc n
      then map_option (\<lambda>(a, b). (c # a, b)) (split_bytes s (Suc n - utf8_len c)) else None)"

definition last_of :: "nat list \<Rightarrow> nat option" where
  "last_of xs = (if xs = [] then None else Some (last xs))"

definition rfind :: "string \<Rightarrow> string \<Rightarrow> nat option" where
  "rfind delimiter s = last_of (map fst (filter (\<lambda>(off, rest). prefix delimiter rest) (char_indices s)))"

section \<open>Where to break\<close>

definition NEWLINE :: char where "NEWLINE = CHR 0x0A"
definition RETURN :: char where "RETURN = CHR 0x0D"

definition delimiters :: "string list" where
  "delimiters = [[NEWLINE, NEWLINE], [RETURN, NEWLINE, RETURN, NEWLINE], [NEWLINE], [RETURN, NEWLINE]]"

fun delimiter_cut :: "string \<Rightarrow> nat \<Rightarrow> string list \<Rightarrow> nat option" where
  "delimiter_cut window floor [] = None"
| "delimiter_cut window floor (d # ds) =
     (case rfind d window of
        None \<Rightarrow> delimiter_cut window floor ds
      | Some idx \<Rightarrow> (let pos = idx + byte_len d
          in if floor < pos then Some pos else delimiter_cut window floor ds))"

text \<open>
  \<open>bytes.windows(2)\<close> looks for two ASCII bytes, so the pairs it finds are pairs of characters.
\<close>

definition ends_sentence :: "string \<Rightarrow> bool" where
  "ends_sentence rest = (case rest of
     a # b # _ \<Rightarrow> a \<in> set ''.!?'' \<and> is_ascii_whitespace b | _ \<Rightarrow> False)"

definition sentence_cut :: "string \<Rightarrow> nat \<Rightarrow> nat option" where
  "sentence_cut window floor = last_of (filter (\<lambda>pos. floor < pos)
     (map (\<lambda>(idx, rest). idx + 2) (filter (\<lambda>(idx, rest). ends_sentence rest) (char_indices window))))"

definition space_cut :: "string \<Rightarrow> nat \<Rightarrow> nat option" where
  "space_cut window floor = last_of (filter (\<lambda>pos. floor < pos)
     (map (\<lambda>(idx, rest). idx + utf8_len (hd rest))
        (filter (\<lambda>(idx, rest). is_whitespace (hd rest)) (char_indices window))))"

definition find_break :: "string \<Rightarrow> nat option" where
  "find_break window =
     (let floor = byte_len window div BREAK_SEARCH_FRACTION
      in case delimiter_cut window floor delimiters of
           Some pos \<Rightarrow> Some pos
         | None \<Rightarrow> (case sentence_cut window floor of
             Some pos \<Rightarrow> Some pos
           | None \<Rightarrow> space_cut window floor))"

section \<open>The loop\<close>

record chunk =
  ordinal :: int
  content :: string
  char_start :: int
  char_end :: int

definition window_bytes :: "nat \<Rightarrow> string \<Rightarrow> nat" where
  "window_bytes m rest =
     (case drop m (char_indices rest) of [] \<Rightarrow> byte_len rest | (byte_idx, _) # _ \<Rightarrow> byte_idx)"

text \<open>
  How many bytes the next chunk takes; \<open>None\<close> is the panic of a slice inside a character.
\<close>

definition take_bytes :: "nat \<Rightarrow> string \<Rightarrow> nat \<Rightarrow> string \<Rightarrow> nat option" where
  "take_bytes m whole byte_pos rest =
     (let n = window_bytes m rest
      in if byte_len whole \<le> byte_pos + n then Some n
         else case split_bytes rest n of
           None \<Rightarrow> None
         | Some (window, _) \<Rightarrow>
             Some (case find_break window of None \<Rightarrow> n | Some pos \<Rightarrow> pos))"

lemma char_indices_from_eq:
  "char_indices_from off s = map (\<lambda>i. (off + byte_len (take i s), drop i s)) [0..<length s]"
proof (induction s arbitrary: off)
  case (Cons c s)
  then show ?case unfolding length_Cons upt_conv_Cons [OF zero_less_Suc] map_Suc_upt [symmetric]
    by simp
qed simp

lemma utf8_len_pos [simp]: "0 < utf8_len c"
  by (simp add: utf8_len_def)

lemma byte_len_pos [simp]: "0 < byte_len s \<longleftrightarrow> s \<noteq> []"
  by (cases s) auto

lemma window_bytes_take: "window_bytes m rest = byte_len (take m rest)"
proof (cases "m < length rest")
  case True
  then have "drop m (char_indices rest) = (byte_len (take m rest), drop m rest)
      # drop (Suc m) (char_indices rest)"
    unfolding char_indices_from_eq by (simp add: drop_map drop_upt upt_conv_Cons)
  then show ?thesis by (simp add: window_bytes_def)
qed (simp add: window_bytes_def char_indices_from_eq)

lemma last_of_Some: "last_of xs = Some x \<Longrightarrow> x \<in> set xs"
  by (auto simp: last_of_def split: if_splits)

text \<open>A cut falls between two characters and in the back half of the window.\<close>

definition good_cut :: "string \<Rightarrow> nat \<Rightarrow> bool" where
  "good_cut window pos \<longleftrightarrow> (\<exists>a b. window = a @ b \<and> pos = byte_len a
     \<and> byte_len window div BREAK_SEARCH_FRACTION < pos)"

lemma good_cutI:
  assumes "drop i window = d @ b" and "pos = byte_len (take i window) + byte_len d"
    and "byte_len window div BREAK_SEARCH_FRACTION < pos"
  shows "good_cut window pos"
proof -
  have "window = (take i window @ d) @ b" using assms(1) append_take_drop_id [of i window] by simp
  with assms(2,3) show ?thesis unfolding good_cut_def by (metis byte_len_append)
qed

lemma delimiter_cut_good:
  assumes "delimiter_cut window (byte_len window div BREAK_SEARCH_FRACTION) ds = Some pos"
  shows "good_cut window pos"
  using assms
proof (induction ds)
  case (Cons d ds)
  show ?case
  proof (cases "rfind d window")
    case (Some idx)
    then obtain i where "i < length window" "prefix d (drop i window)" "idx = byte_len (take i window)"
      unfolding rfind_def by (auto dest!: last_of_Some simp: char_indices_from_eq)
    with Cons Some show ?thesis
      by (auto simp: Let_def prefix_def split: if_splits intro: good_cutI)
  qed (use Cons in simp)
qed simp

lemma sentence_cut_good:
  assumes "sentence_cut window (byte_len window div BREAK_SEARCH_FRACTION) = Some pos"
  shows "good_cut window pos"
proof -
  from assms obtain i where i: "ends_sentence (drop i window)" "pos = byte_len (take i window) + 2"
    "byte_len window div BREAK_SEARCH_FRACTION < pos"
    unfolding sentence_cut_def by (auto dest!: last_of_Some simp: char_indices_from_eq)
  then obtain a b r where r: "drop i window = [a, b] @ r" "a \<in> set ''.!?''" "is_ascii_whitespace b"
    by (auto simp: ends_sentence_def split: list.splits)
  then have "utf8_len a = 1" "utf8_len b = 1"
    by (auto simp: utf8_len_def is_ascii_whitespace_def code_def)
  with r i show ?thesis by (intro good_cutI [of i window "[a, b]" r]) auto
qed

lemma space_cut_good:
  assumes "space_cut window (byte_len window div BREAK_SEARCH_FRACTION) = Some pos"
  shows "good_cut window pos"
proof -
  from assms obtain i where i: "i < length window"
    "pos = byte_len (take i window) + utf8_len (hd (drop i window))"
    "byte_len window div BREAK_SEARCH_FRACTION < pos"
    unfolding space_cut_def by (auto dest!: last_of_Some simp: char_indices_from_eq)
  have "drop i window = [hd (drop i window)] @ drop (Suc i) window"
    using i(1) by (simp add: Cons_nth_drop_Suc hd_drop_conv_nth)
  with i show ?thesis by (intro good_cutI [of i window "[hd (drop i window)]"]) auto
qed

lemma find_break_good: "find_break window = Some pos \<Longrightarrow> good_cut window pos"
  by (auto simp: find_break_def Let_def split: option.splits
      intro: delimiter_cut_good sentence_cut_good space_cut_good)

lemma split_bytes_append: "split_bytes (a @ b) (byte_len a) = Some (a, b)"
proof (induction a)
  case (Cons c a)
  obtain n where n: "utf8_len c + byte_len a = Suc n" using utf8_len_pos [of c]
    by (cases "utf8_len c + byte_len a") (auto simp del: utf8_len_pos)
  then have "utf8_len c \<le> Suc n" "Suc n - utf8_len c = byte_len a" by auto
  with Cons n show ?case by simp
qed simp

lemma take_bytes_pos:
  assumes "take_bytes (max 1 m) whole byte_pos rest = Some n" and "rest \<noteq> []"
  shows "0 < n"
proof -
  have "0 < window_bytes (max 1 m) rest" using assms(2) by (auto simp: window_bytes_take)
  moreover have "0 < pos" if "find_break window = Some pos" for window pos
    using find_break_good [OF that] by (auto simp: good_cut_def)
  ultimately show ?thesis
    using assms(1) by (auto simp: take_bytes_def Let_def split: if_splits option.splits)
qed

lemma split_bytes_Some: "split_bytes s n = Some (a, b) \<Longrightarrow> s = a @ b \<and> n = byte_len a"
  by (induction s n arbitrary: a rule: split_bytes.induct) (auto split: if_splits)

function chunk_loop ::
  "chunk_params \<Rightarrow> string \<Rightarrow> nat \<Rightarrow> int \<Rightarrow> chunk list \<Rightarrow> chunk list option" where
  "chunk_loop params whole byte_pos char_pos chunks =
     (if \<not> byte_pos < byte_len whole then Some chunks
      else case split_bytes whole byte_pos of
        None \<Rightarrow> None
      | Some (_, rest) \<Rightarrow>
          (case take_bytes (max 1 (max_chars params)) whole byte_pos rest of
             None \<Rightarrow> None
           | Some n \<Rightarrow>
               (case split_bytes rest n of
                  None \<Rightarrow> None
                | Some (piece, _) \<Rightarrow>
                    chunk_loop params whole (byte_pos + n) (char_pos + int (length piece))
                      (chunks @ [\<lparr>ordinal = int (length chunks), content = piece,
                         char_start = char_pos, char_end = char_pos + int (length piece)\<rparr>]))))"
  by pat_completeness auto

termination
proof (relation "measure (\<lambda>(params, whole, byte_pos, char_pos, chunks). byte_len whole - byte_pos)",
    goal_cases)
  case 1
  show ?case by simp
next
  case (2 params whole byte_pos char_pos chunks x skipped rest n y piece r)
  then have "whole = skipped @ rest" "byte_pos = byte_len skipped"
    using split_bytes_Some by auto
  with 2 have "rest \<noteq> []" by auto
  with 2 take_bytes_pos have "0 < n" by blast
  with 2 show ?case by simp
qed

declare chunk_loop.simps [simp del]

definition chunk_text :: "string \<Rightarrow> chunk_params \<Rightarrow> chunk list option" where
  "chunk_text whole params = chunk_loop params whole 0 0 []"

section \<open>The pieces\<close>

text \<open>
  The reference: the next piece by characters, and the text cut into pieces until it is used up.
\<close>

definition piece_len :: "nat \<Rightarrow> string \<Rightarrow> nat" where
  "piece_len m rest =
     (if length rest \<le> m then length rest
      else case find_break (take m rest) of
        None \<Rightarrow> m
      | Some pos \<Rightarrow> length (fst (the (split_bytes (take m rest) pos))))"

lemma piece_len_cut:
  assumes "m < length rest" and "find_break (take m rest) = Some pos"
  shows "piece_len m rest \<le> m" and "pos = byte_len (take (piece_len m rest) rest)"
    and "byte_len (take m rest) div BREAK_SEARCH_FRACTION < pos"
proof -
  obtain a b where ab: "take m rest = a @ b" "pos = byte_len a"
    "byte_len (take m rest) div BREAK_SEARCH_FRACTION < pos"
    using find_break_good [OF assms(2)] unfolding good_cut_def by blast
  have len: "piece_len m rest = length a"
    using assms ab(1,2) split_bytes_append [of a b] by (simp add: piece_len_def)
  have le: "length a \<le> m" using arg_cong [OF ab(1), of length] assms(1) by simp
  then have "a = take (length a) rest"
    using arg_cong [OF ab(1), of "take (length a)"] by (simp add: min_absorb1)
  with ab(2) len have eq: "pos = byte_len (take (piece_len m rest) rest)" by metis
  show "piece_len m rest \<le> m" unfolding len by (rule le)
  show "pos = byte_len (take (piece_len m rest) rest)" by (rule eq)
  show "byte_len (take m rest) div BREAK_SEARCH_FRACTION < pos" by (rule ab(3))
qed

lemma piece_len_pos: "rest \<noteq> [] \<Longrightarrow> 0 < m \<Longrightarrow> 0 < piece_len m rest"
proof (rule ccontr)
  assume rest: "rest \<noteq> []" "0 < m" and "\<not> 0 < piece_len m rest"
  then have "m < length rest" "find_break (take m rest) \<noteq> None"
    by (auto simp: piece_len_def split: if_splits option.splits)
  with piece_len_cut [of m rest] \<open>\<not> 0 < piece_len m rest\<close> show False by auto
qed

function pieces :: "nat \<Rightarrow> string \<Rightarrow> string list" where
  "pieces m rest =
     (if rest = [] \<or> m = 0 then []
      else take (piece_len m rest) rest # pieces m (drop (piece_len m rest) rest))"
  by pat_completeness auto
termination
  by (relation "measure (\<lambda>(m, rest). length rest)") (auto simp: piece_len_pos)

declare pieces.simps [simp del]

fun number :: "int \<Rightarrow> int \<Rightarrow> string list \<Rightarrow> chunk list" where
  "number i pos [] = []"
| "number i pos (p # ps) =
     \<lparr>ordinal = i, content = p, char_start = pos, char_end = pos + int (length p)\<rparr>
       # number (i + 1) (pos + int (length p)) ps"

lemma take_bytes_piece:
  assumes "0 < m"
  shows "take_bytes m (skipped @ rest) (byte_len skipped) rest
    = Some (byte_len (take (piece_len m rest) rest))"
proof (cases "m < length rest")
  case False
  then show ?thesis by (simp add: take_bytes_def window_bytes_take piece_len_def)
next
  case True
  then have "drop m rest \<noteq> []" by simp
  then have "byte_len (take m rest) < byte_len rest"
    using byte_len_append [of "take m rest" "drop m rest"] byte_len_pos [of "drop m rest"]
    by (simp del: byte_len_pos byte_len_append)
  moreover have "split_bytes rest (byte_len (take m rest)) = Some (take m rest, drop m rest)"
    using split_bytes_append [of "take m rest" "drop m rest"] by simp
  ultimately show ?thesis
    using True piece_len_cut [OF True]
    by (auto simp: take_bytes_def window_bytes_take piece_len_def split: option.splits)
qed

lemma chunk_loop_pieces:
  "m = max 1 (max_chars params) \<Longrightarrow> whole = skipped @ rest \<Longrightarrow>
   chunk_loop params whole (byte_len skipped) char_pos chunks
     = Some (chunks @ number (int (length chunks)) char_pos (pieces m rest))"
proof (induction m rest arbitrary: skipped char_pos chunks rule: pieces.induct)
  case (1 m rest)
  show ?case
  proof (cases "rest = []")
    case True
    with 1 show ?thesis by (simp add: chunk_loop.simps pieces.simps)
  next
    case False
    let ?n = "piece_len m rest"
    have m: "0 < m" using "1.prems"(1) by simp
    have split: "split_bytes whole (byte_len skipped) = Some (skipped, rest)"
      "split_bytes rest (byte_len (take ?n rest)) = Some (take ?n rest, drop ?n rest)"
      using "1.prems"(2) split_bytes_append [of skipped rest]
        split_bytes_append [of "take ?n rest" "drop ?n rest"] by simp_all
    have "whole = (skipped @ take ?n rest) @ drop ?n rest" using "1.prems"(2) by simp
    note IH = "1.IH" [OF _ "1.prems"(1) this]
    have before: "byte_len skipped < byte_len whole" using False "1.prems"(2) by simp
    have mx: "max (Suc 0) (max_chars params) = m" using "1.prems"(1) by simp
    have tb: "take_bytes m whole (byte_len skipped) rest = Some (byte_len (take ?n rest))"
      unfolding "1.prems"(2) by (rule take_bytes_piece [OF m])
    have "chunk_loop params whole (byte_len skipped) char_pos chunks =
        chunk_loop params whole (byte_len (skipped @ take ?n rest)) (char_pos + int (length (take ?n rest)))
          (chunks @ [\<lparr>ordinal = int (length chunks), content = take ?n rest, char_start = char_pos,
             char_end = char_pos + int (length (take ?n rest))\<rparr>])"
      by (subst chunk_loop.simps) (simp add: before split mx tb)
    also have "\<dots> = Some (chunks @ number (int (length chunks)) char_pos (pieces m rest))"
      by (subst IH) (use False m in \<open>simp_all add: pieces.simps [of m rest] add.commute\<close>)
    finally show ?thesis .
  qed
qed

section \<open>Properties\<close>

lemma concat_pieces: "0 < m \<Longrightarrow> concat (pieces m rest) = rest"
proof (induction m rest rule: pieces.induct)
  case (1 m rest)
  then show ?case by (simp add: pieces.simps [of m rest])
qed

lemma contents_number [simp]: "map content (number i pos ps) = ps"
  by (induction i pos ps rule: number.induct) auto

lemma length_number [simp]: "length (number i pos ps) = length ps"
  by (induction i pos ps rule: number.induct) auto

lemma nth_number:
  "k < length ps \<Longrightarrow> number i pos ps ! k =
     \<lparr>ordinal = i + int k, content = ps ! k, char_start = pos + int (length (concat (take k ps))),
      char_end = pos + int (length (concat (take (Suc k) ps)))\<rparr>"
proof (induction i pos ps arbitrary: k rule: number.induct)
  case (2 i pos p ps)
  then show ?case by (cases k) simp_all
qed simp

lemma chunk_text_pieces:
  "chunk_text whole params = Some (number 0 0 (pieces (max 1 (max_chars params)) whole))"
  using chunk_loop_pieces [OF refl, of whole "[]" whole params 0 "[]"] by (simp add: chunk_text_def)

text \<open>Every piece has a character and at most \<open>m\<close>; every piece but the last fills more than half
  of the bytes of its window.\<close>

lemma piece_bounds: "p \<in> set (pieces m rest) \<Longrightarrow> p \<noteq> [] \<and> length p \<le> m"
proof (induction m rest rule: pieces.induct)
  case (1 m rest)
  from 1(2) have rest: "rest \<noteq> []" "0 < m"
    and p: "p = take (piece_len m rest) rest \<or> p \<in> set (pieces m (drop (piece_len m rest) rest))"
    by (simp_all add: pieces.simps [of m rest] split: if_splits)
  have "piece_len m rest \<le> m"
    using piece_len_cut(1) [of m rest] by (cases "length rest \<le> m"; cases "find_break (take m rest)")
      (simp_all add: piece_len_def)
  with p 1(1) rest piece_len_pos [OF rest] show ?case by auto
qed

lemma pieces_fill: "0 < m \<Longrightarrow> (length (pieces m rest) - 1) * m \<le> 2 * byte_len rest"
proof (induction m rest rule: pieces.induct)
  case (1 m rest)
  show ?case
  proof (cases "length rest \<le> m")
    case True
    then have "drop (piece_len m rest) rest = []" by (simp add: piece_len_def)
    then show ?thesis by (simp add: pieces.simps)
  next
    case False
    let ?n = "piece_len m rest"
    have half: "m \<le> 2 * byte_len (take ?n rest)"
    proof (cases "find_break (take m rest)")
      case None
      with False length_le_byte_len [of "take m rest"] show ?thesis by (simp add: piece_len_def)
    next
      case (Some pos)
      from False have "m < length rest" by simp
      note c = piece_len_cut [OF this Some]
      have "m \<le> byte_len (take m rest)" using False length_le_byte_len [of "take m rest"] by simp
      with c show ?thesis by (simp add: BREAK_SEARCH_FRACTION_def)
    qed
    have "byte_len rest = byte_len (take ?n rest) + byte_len (drop ?n rest)"
      by (metis append_take_drop_id byte_len_append)
    moreover have "length (pieces m rest) - 1 \<le> Suc (length (pieces m (drop ?n rest)) - 1)"
      by (simp add: pieces.simps [of m rest]) arith
    then have "(length (pieces m rest) - 1) * m \<le> m + (length (pieces m (drop ?n rest)) - 1) * m"
      by (metis mult_Suc mult_le_mono1)
    ultimately show ?thesis
      using 1 half False by (cases "rest = []") auto
  qed
qed

text \<open>
  C28: Chunking loses and repeats nothing: whatever the text and the budget, \<open>chunk_text\<close> returns
  (no slice ever falls inside a character), and the chunks in order are the text itself.
\<close>

theorem chunks_rebuild_the_text:
  "map_option (\<lambda>chunks. concat (map content chunks)) (chunk_text whole params) = Some whole"
  by (simp add: chunk_text_pieces concat_pieces)

text \<open>
  A chunk's ordinal is its position, and its offsets locate it: the characters from
  \<open>char_start\<close> to \<open>char_end\<close> of the text are the chunk's content.
\<close>

theorem chunk_offsets_locate:
  "case chunk_text whole params of
     None \<Rightarrow> False
   | Some chunks \<Rightarrow> list_all (\<lambda>k. let c = chunks ! k in
       ordinal c = int k
       \<and> content c = take (nat (char_end c) - nat (char_start c)) (drop (nat (char_start c)) whole))
       [0..<length chunks]"
proof -
  let ?ps = "pieces (max 1 (max_chars params)) whole"
  have "?ps ! k = take (length (concat (take (Suc k) ?ps)) - length (concat (take k ?ps)))
      (drop (length (concat (take k ?ps))) whole)" if "k < length ?ps" for k
  proof -
    have "whole = concat (take k ?ps) @ ?ps ! k @ concat (drop (Suc k) ?ps)"
      using concat_pieces [of "max 1 (max_chars params)" whole] id_take_nth_drop [OF that]
      by (metis concat.simps(2) concat_append less_max_iff_disj zero_less_one)
    then show ?thesis using that
      by (metis (no_types, lifting) append_eq_conv_conj concat_append concat.simps(2) concat.simps(1)
          append.right_neutral take_Suc_conv_app_nth diff_add_inverse length_append)
  qed
  then show ?thesis by (simp add: chunk_text_pieces nth_number list_all_iff Let_def)
qed

text \<open>
  A chunk is never empty and never longer than the budget, the text never falls into
  needlessly many: all chunks but the last would fill at most twice the bytes of the text.
\<close>

theorem chunks_within_budget:
  "case chunk_text whole params of
     None \<Rightarrow> False
   | Some chunks \<Rightarrow>
       list_all (\<lambda>c. content c \<noteq> [] \<and> length (content c) \<le> max 1 (max_chars params)) chunks
       \<and> (length chunks - 1) * max 1 (max_chars params) \<le> 2 * byte_len whole"
proof -
  let ?m = "max 1 (max_chars params)"
  have "list_all (\<lambda>p. p \<noteq> [] \<and> length p \<le> ?m) (map content (number 0 0 (pieces ?m whole)))"
    unfolding contents_number using piece_bounds [of _ ?m whole] by (simp add: list_all_iff)
  then have "list_all ((\<lambda>p. p \<noteq> [] \<and> length p \<le> ?m) \<circ> content) (number 0 0 (pieces ?m whole))"
    by (simp only: list.pred_map)
  then show ?thesis
    using pieces_fill [of ?m whole] by (simp add: chunk_text_pieces o_def)
qed

text \<open>The budget of a window: at least one character, at most the target, and within the window
  once it has room for the header.\<close>

lemma chunk_max_chars_bounds:
  "1 \<le> chunk_max_chars_for_window w \<and> chunk_max_chars_for_window w \<le> MEMORY_CHUNK_TARGET_CHARS"
  by (simp add: chunk_max_chars_for_window_def MEMORY_CHUNK_TARGET_CHARS_def Let_def)

end
