(* ===== verification/Cron.thy ===== *)
theory Cron
  imports Decimal
begin

text \<open>
  Cron expressions (\<open>nanna-core/src/cron.rs\<close>): the parser of the five fields, the match of
  an instant, and the search for the next one.

  A \<open>HashSet<u32>\<close> is a set. The calendar is chrono's and a parameter: \<open>cal\<close> gives
  the civil fields of a UTC minute, counted from the epoch, so that resetting the seconds and
  adding a minute are arithmetic on that count.
\<close>

section \<open>Numbers\<close>

text \<open>\<open>u32::checked_add\<close>.\<close>

definition checked_add_u32 :: "nat \<Rightarrow> nat \<Rightarrow> nat option" where
  "checked_add_u32 a b = (if a + b < 2 ^ 32 then Some (a + b) else None)"

section \<open>Errors and expressions\<close>

text \<open>
  The constructors of the source; the text of \<open>Invalid\<close> and \<open>InvalidField\<close> is kept as
  what it is made from.
\<close>

datatype field_message =
    InvalidStep string
  | ZeroStep
  | InvalidStepExpression string
  | InvalidRange string
  | InvalidRangeStart string
  | InvalidRangeEnd string
  | RangeReversed nat nat
  | InvalidValue string

datatype cron_error =
    Invalid nat
  | InvalidField string field_message
  | OutOfRange string nat nat nat

record cron_expr =
  minutes :: "nat set"
  hours :: "nat set"
  days :: "nat set"
  months :: "nat set"
  weekdays :: "nat set"

section \<open>Fields\<close>

definition parse_number :: "(string \<Rightarrow> field_message) \<Rightarrow> string \<Rightarrow> string \<Rightarrow> (cron_error, nat) result" where
  "parse_number err name s = (case parse_uint 32 s of None \<Rightarrow> Inl (InvalidField name (err s)) | Some n \<Rightarrow> Inr n)"

definition check_bounds :: "string \<Rightarrow> nat \<Rightarrow> nat \<Rightarrow> nat \<Rightarrow> (cron_error, unit) result" where
  "check_bounds name mn mx v = require (\<not> (v < mn \<or> mx < v)) (OutOfRange name v mn mx)"

definition parse_range :: "string \<Rightarrow> string \<Rightarrow> nat \<Rightarrow> nat \<Rightarrow> (cron_error, nat \<times> nat) result" where
  "parse_range rng name mn mx =
     (case split_on (\<lambda>c. c = CHR ''-'') rng of
        [a, b] \<Rightarrow>
          bind_res (parse_number InvalidRangeStart name a) (\<lambda>start.
          bind_res (parse_number InvalidRangeEnd name b) (\<lambda>stop.
          bind_res (check_bounds name mn mx start) (\<lambda>_.
          bind_res (check_bounds name mn mx stop) (\<lambda>_.
            if stop < start then Inl (InvalidField name (RangeReversed start stop)) else Inr (start, stop)))))
      | _ \<Rightarrow> Inl (InvalidField name (InvalidRange rng)))"

text \<open>
  The walk from \<open>v\<close> in steps, up to \<open>hi\<close> or the end of \<open>u32\<close>. Both callers have
  rejected a zero step, with which the loop would not end; the model stops at once.
\<close>

function walk :: "nat \<Rightarrow> nat \<Rightarrow> nat option \<Rightarrow> nat set \<Rightarrow> nat set" where
  "walk hi step None vs = vs"
| "walk hi step (Some current) vs =
     (if current \<le> hi \<and> step \<noteq> 0
      then walk hi step (checked_add_u32 current step) (insert current vs) else vs)"
  by pat_completeness auto
termination
  by (relation "measure (\<lambda>(l, s, v, vs). case v of None \<Rightarrow> 0 | Some c \<Rightarrow> Suc l - c)")
     (auto simp: checked_add_u32_def)

definition nonzero_step :: "string \<Rightarrow> nat \<Rightarrow> (cron_error, unit) result" where
  "nonzero_step name step = require (step \<noteq> 0) (InvalidField name ZeroStep)"

definition parse_part ::
  "string \<Rightarrow> nat \<Rightarrow> nat \<Rightarrow> string \<Rightarrow> nat set \<Rightarrow> (cron_error, nat set) result" where
  "parse_part name mn mx part values =
     (if part = ''*'' then Inr ({mn..mx} \<union> values)
      else case strip_prefix ''*/'' part of
        Some step_part \<Rightarrow>
          bind_res (parse_number InvalidStep name step_part) (\<lambda>step.
          bind_res (nonzero_step name step) (\<lambda>_.
            Inr (walk mx step (Some mn) values)))
      | None \<Rightarrow>
          if CHR ''/'' \<in> set part then
            (case split_on (\<lambda>c. c = CHR ''/'') part of
               [rng, s] \<Rightarrow>
                 bind_res (parse_number InvalidStep name s) (\<lambda>step.
                 bind_res (nonzero_step name step) (\<lambda>_.
                 bind_res (parse_range rng name mn mx) (\<lambda>(start, stop).
                   Inr (walk stop step (Some start) values))))
             | _ \<Rightarrow> Inl (InvalidField name (InvalidStepExpression part)))
          else if CHR ''-'' \<in> set part then
            bind_res (parse_range part name mn mx) (\<lambda>(start, stop). Inr ({start..stop} \<union> values))
          else
            bind_res (parse_number InvalidValue name part) (\<lambda>v.
            bind_res (check_bounds name mn mx v) (\<lambda>_. Inr (insert v values))))"

fun parse_parts :: "string \<Rightarrow> nat \<Rightarrow> nat \<Rightarrow> string list \<Rightarrow> nat set \<Rightarrow> (cron_error, nat set) result" where
  "parse_parts name mn mx [] values = Inr values"
| "parse_parts name mn mx (part # parts) values =
     bind_res (parse_part name mn mx (trim part) values) (parse_parts name mn mx parts)"

definition parse_field :: "string \<Rightarrow> string \<Rightarrow> nat \<Rightarrow> nat \<Rightarrow> (cron_error, nat set) result" where
  "parse_field field name mn mx =
     parse_parts name mn mx (split_on (\<lambda>c. c = CHR '','') field) {}"

section \<open>Expressions\<close>

definition parse_fields :: "string \<Rightarrow> (cron_error, cron_expr) result" where
  "parse_fields expr =
     (let parts = split_whitespace expr in
      if length parts \<noteq> 5 then Inl (Invalid (length parts))
      else bind_res (parse_field (parts ! 0) ''minute'' 0 59) (\<lambda>mi.
           bind_res (parse_field (parts ! 1) ''hour'' 0 23) (\<lambda>ho.
           bind_res (parse_field (parts ! 2) ''day'' 1 31) (\<lambda>da.
           bind_res (parse_field (parts ! 3) ''month'' 1 12) (\<lambda>mo.
           bind_res (parse_field (parts ! 4) ''weekday'' 0 6) (\<lambda>we.
             Inr \<lparr>minutes = mi, hours = ho, days = da, months = mo, weekdays = we\<rparr>))))))"

text \<open>The special strings; what they stand for is parsed by the same function.\<close>

definition special_strings :: "(string \<times> string) list" where
  "special_strings =
     [(''@yearly'', ''0 0 1 1 *''), (''@annually'', ''0 0 1 1 *''), (''@monthly'', ''0 0 1 * *''),
      (''@weekly'', ''0 0 * * 0''), (''@daily'', ''0 0 * * *''), (''@midnight'', ''0 0 * * *''),
      (''@hourly'', ''0 * * * *''), (''@every_minute'', ''* * * * *'')]"

definition special :: "string \<Rightarrow> string option" where
  "special expr = map_of special_strings expr"

definition parse_cron :: "string \<Rightarrow> (cron_error, cron_expr) result" where
  "parse_cron expr =
     (let expr = trim expr in
      case special expr of Some e \<Rightarrow> parse_fields (trim e) | None \<Rightarrow> parse_fields expr)"

section \<open>Instants\<close>

record civil =
  c_minute :: nat
  c_hour :: nat
  c_day :: nat
  c_month :: nat
  c_weekday :: nat

definition matches_cron :: "cron_expr \<Rightarrow> civil \<Rightarrow> bool" where
  "matches_cron e dt = (c_minute dt \<in> minutes e \<and> c_hour dt \<in> hours e \<and> c_day dt \<in> days e
     \<and> c_month dt \<in> months e \<and> c_weekday dt \<in> weekdays e)"

definition max_iterations :: nat where
  "max_iterations = 4 * 365 * 24 * 60"

fun next_loop :: "(int \<Rightarrow> civil) \<Rightarrow> cron_expr \<Rightarrow> nat \<Rightarrow> int \<Rightarrow> int option" where
  "next_loop cal e 0 dt = None"
| "next_loop cal e (Suc n) dt =
     (if matches_cron e (cal dt) then Some dt else next_loop cal e n (dt + 1))"

text \<open>From an instant in seconds: a minute later, seconds reset.\<close>

definition next_run :: "(int \<Rightarrow> civil) \<Rightarrow> cron_expr \<Rightarrow> int \<Rightarrow> int option" where
  "next_run cal e from_secs = next_loop cal e max_iterations ((from_secs + 60) div 60)"

declare next_loop.simps [simp del]

section \<open>What a field denotes\<close>

lemma walk_values:
  assumes "step \<noteq> 0" and "hi < 2 ^ 32" and "a \<le> hi"
  shows "walk hi step (Some a) vs = {v. a \<le> v \<and> v \<le> hi \<and> step dvd (v - a)} \<union> vs"
  using assms(3)
proof (induction "hi - a" arbitrary: a vs rule: less_induct)
  case less
  have split: "{v. a \<le> v \<and> v \<le> hi \<and> step dvd (v - a)}
      = insert a {v. a + step \<le> v \<and> v \<le> hi \<and> step dvd (v - (a + step))}"
    (is "?l = ?r")
  proof (rule set_eqI)
    fix v
    show "v \<in> ?l \<longleftrightarrow> v \<in> ?r"
    proof (cases "a + step \<le> v")
      case True
      then have "v - a = (v - (a + step)) + step" by simp
      then have "step dvd (v - a) \<longleftrightarrow> step dvd (v - (a + step))" by (simp only: dvd_add_left_iff dvd_refl)
      with True show ?thesis using assms(1) by auto
    next
      case False
      have "v = a" if "a \<le> v" "step dvd (v - a)"
      proof (rule ccontr)
        assume "v \<noteq> a"
        with that have "step \<le> v - a" by (intro dvd_imp_le) auto
        with that False show False by simp
      qed
      with False less.prems show ?thesis by auto
    qed
  qed
  show ?case
  proof (cases "a + step \<le> hi")
    case True
    then have "checked_add_u32 a step = Some (a + step)" using assms(2) by (simp add: checked_add_u32_def)
    moreover have "hi - (a + step) < hi - a" using assms(1) True by simp
    ultimately show ?thesis
      using less.hyps [of "a + step" "insert a vs"] True less.prems assms(1) unfolding split by simp
  next
    case False
    then have none: "{v. a + step \<le> v \<and> v \<le> hi \<and> step dvd (v - (a + step))} = {}" by auto
    have "walk hi step (checked_add_u32 a step) (insert a vs) = insert a vs"
      using False by (simp add: checked_add_u32_def)
    then show ?thesis using less.prems assms(1) unfolding split none by simp
  qed
qed

lemma parse_number_ok: "parse_number err name s = Inr n \<longleftrightarrow> parse_uint 32 s = Some n"
  by (simp add: parse_number_def split: option.split)

lemma parse_range_ok:
  assumes "parse_range rng name mn mx = Inr (a, b)"
  shows "mn \<le> a" "a \<le> b" "b \<le> mx"
  using assms by (auto simp: parse_range_def bind_res_eq_Inr check_bounds_def split: list.splits if_splits)

lemma parse_part_ok:
  assumes "mn \<le> mx" and "mx < 2 ^ 32" and ok: "parse_part name mn mx part values = Inr vs"
  shows "\<exists>new. new \<noteq> {} \<and> new \<subseteq> {mn..mx} \<and> vs = new \<union> values"
proof -
  have walk: "\<exists>new. new \<noteq> {} \<and> new \<subseteq> {mn..mx} \<and> walk b step (Some a) values = new \<union> values"
    if "step \<noteq> 0" "mn \<le> a" "a \<le> b" "b \<le> mx" for step a b
    using walk_values [OF that(1) _ that(3), of "values"] that assms(2)
    by (intro exI [of _ "{v. a \<le> v \<and> v \<le> b \<and> step dvd (v - a)}"]) auto
  have span_new: "\<exists>new. new \<noteq> {} \<and> new \<subseteq> {mn..mx} \<and> {a..b} \<union> values = new \<union> values"
    if "mn \<le> a" "a \<le> b" "b \<le> mx" for a b
    using that by (intro exI [of _ "{a..b}"]) auto
  consider (all) "vs = {mn..mx} \<union> values"
    | (step) step where "step \<noteq> 0" "vs = walk mx step (Some mn) values"
    | (range_step) step rng a b where "step \<noteq> 0" "parse_range rng name mn mx = Inr (a, b)"
        "vs = walk b step (Some a) values"
    | (span) rng a b where "parse_range rng name mn mx = Inr (a, b)" "vs = {a..b} \<union> values"
    | (single) v where "mn \<le> v" "v \<le> mx" "vs = insert v values"
    using ok unfolding parse_part_def nonzero_step_def check_bounds_def
    by (auto simp: bind_res_eq_Inr simp del: walk.simps split: if_splits option.splits list.splits)
      (metis linorder_not_less)
  then show ?thesis
  proof cases
    case all
    with span_new [of mn mx] assms(1) show ?thesis by simp
  next
    case step
    with walk [of _ mn mx] assms(1) show ?thesis by simp
  next
    case range_step
    with walk parse_range_ok [OF range_step(2)] show ?thesis by simp
  next
    case span
    with span_new parse_range_ok [OF span(1)] show ?thesis by simp
  next
    case single
    with span_new [of v v] show ?thesis by (intro exI [of _ "{v}"]) auto
  qed
qed

lemma parse_parts_ok:
  assumes "mn \<le> mx" and "mx < 2 ^ 32" and "parse_parts name mn mx parts values = Inr vs"
  shows "values \<subseteq> vs \<and> vs \<subseteq> values \<union> {mn..mx} \<and> (parts \<noteq> [] \<longrightarrow> vs \<noteq> {})"
  using assms(3)
proof (induction parts arbitrary: "values")
  case (Cons part parts)
  then obtain vs1 where vs1: "parse_part name mn mx (trim part) values = Inr vs1"
    "parse_parts name mn mx parts vs1 = Inr vs" by (auto simp: bind_res_eq_Inr)
  with Cons.IH [of vs1] parse_part_ok [OF assms(1,2) vs1(1)] show ?case by blast
qed simp


definition within :: "nat \<Rightarrow> nat \<Rightarrow> nat set \<Rightarrow> bool" where
  "within mn mx vs = (vs \<noteq> {} \<and> vs \<subseteq> {mn..mx})"

lemma parse_field_within:
  assumes "parse_field field name mn mx = Inr vs" and "mn \<le> mx" and "mx < 2 ^ 32"
  shows "within mn mx vs"
  using parse_parts_ok [OF assms(2,3), of name _ "{}" vs] assms(1) by (auto simp: parse_field_def within_def)

text \<open>
  every set of an accepted expression is nonempty and within the bounds of its field.
\<close>

theorem cron_fields_within_bounds:
  "case parse_cron expr of Inl _ \<Rightarrow> True
   | Inr e \<Rightarrow> within 0 59 (minutes e) \<and> within 0 23 (hours e) \<and> within 1 31 (days e)
       \<and> within 1 12 (months e) \<and> within 0 6 (weekdays e)"
proof -
  have "within 0 59 (minutes e) \<and> within 0 23 (hours e) \<and> within 1 31 (days e)
       \<and> within 1 12 (months e) \<and> within 0 6 (weekdays e)" if "parse_fields s = Inr e" for s e
    using that by (auto simp: parse_fields_def bind_res_eq_Inr Let_def
        dest!: parse_field_within split: if_splits)
  then show ?thesis by (simp add: parse_cron_def Let_def split: sum.splits option.splits)
qed

section \<open>The next instant\<close>

lemma next_loop_Some:
  "next_loop cal e n dt = Some t \<longleftrightarrow>
     dt \<le> t \<and> t < dt + int n \<and> matches_cron e (cal t)
     \<and> \<not> (\<exists>u. dt \<le> u \<and> u < t \<and> matches_cron e (cal u))"
proof (induction n arbitrary: dt)
  case (Suc n)
  show ?case
  proof (cases "matches_cron e (cal dt)")
    case True
    then have "next_loop cal e (Suc n) dt = Some dt" by (simp add: next_loop.simps)
    moreover have "t = dt" if "dt \<le> t" "\<not> (\<exists>u. dt \<le> u \<and> u < t \<and> matches_cron e (cal u))"
      using that True by (metis order_refl order_le_less)
    ultimately show ?thesis using True by auto
  next
    case False
    then have "dt \<le> u \<and> matches_cron e (cal u) \<longleftrightarrow> dt + 1 \<le> u \<and> matches_cron e (cal u)" for u
      by (cases "u = dt") auto
    then have "dt \<le> u \<and> Q \<and> matches_cron e (cal u) \<longleftrightarrow> dt + 1 \<le> u \<and> Q \<and> matches_cron e (cal u)" for u Q
      by blast
    moreover have "u < dt + int (Suc n) \<longleftrightarrow> u < dt + 1 + int n" for u by auto
    moreover have "next_loop cal e (Suc n) dt = next_loop cal e n (dt + 1)"
      using False by (simp add: next_loop.simps)
    ultimately show ?thesis using Suc.IH [of "dt + 1"] by (simp only:) blast
  qed
qed (auto simp: next_loop.simps)

lemma next_loop_None:
  "next_loop cal e n dt = None \<longleftrightarrow> \<not> (\<exists>u. dt \<le> u \<and> u < dt + int n \<and> matches_cron e (cal u))"
proof (induction n arbitrary: dt)
  case (Suc n)
  define P where "P u = matches_cron e (cal u)" for u
  have window: "dt \<le> u \<and> u < dt + int (Suc n) \<longleftrightarrow> u = dt \<or> dt + 1 \<le> u \<and> u < dt + 1 + int n" for u
    by auto
  have "(\<exists>u. (dt \<le> u \<and> u < dt + int (Suc n)) \<and> P u) \<longleftrightarrow>
      P dt \<or> (\<exists>u. (dt + 1 \<le> u \<and> u < dt + 1 + int n) \<and> P u)"
    unfolding window by blast
  moreover have "next_loop cal e (Suc n) dt = None \<longleftrightarrow> \<not> P dt \<and> next_loop cal e n (dt + 1) = None"
    by (simp add: next_loop.simps P_def)
  ultimately show ?case using Suc.IH [of "dt + 1"] unfolding P_def conj_assoc by argo
qed (simp add: next_loop.simps)

text \<open>
  C31: the search returns the first whole minute after the instant that matches, among the
  \<open>4 * 365\<close> days of minutes that follow, and nothing exactly when none of them matches.
\<close>

theorem next_run_first_match:
  "(next_run cal e secs = Some t \<longleftrightarrow>
      secs < 60 * t \<and> 60 * t \<le> secs + 60 * int max_iterations \<and> matches_cron e (cal t)
      \<and> \<not> (\<exists>u. secs < 60 * u \<and> u < t \<and> matches_cron e (cal u)))
   \<and> (next_run cal e secs = None \<longleftrightarrow>
      \<not> (\<exists>u. secs < 60 * u \<and> 60 * u \<le> secs + 60 * int max_iterations \<and> matches_cron e (cal u)))"
proof -
  define M where "M = max_iterations"
  have window: "secs < 60 * u \<longleftrightarrow> (secs + 60) div 60 \<le> u"
    "60 * u \<le> secs + 60 * int M \<longleftrightarrow> u < (secs + 60) div 60 + int M" for u :: int
    by linarith+
  show ?thesis
    unfolding next_run_def next_loop_Some next_loop_None M_def [symmetric] window by blast
qed

text \<open>
  The window is a day short of four years: when an expression matches at an instant and next
  at its fourth anniversary (\<open>1461\<close> days later, as an expression for the 29th of February
  does), asking at the first of the two finds nothing.
\<close>

theorem next_run_misses_leap_day:
  assumes rare: "\<And>u. t < u \<Longrightarrow> u < t + 1461 * 24 * 60 \<Longrightarrow> \<not> matches_cron e (cal u)"
  shows "next_run cal e (60 * t) = None"
proof -
  have "int max_iterations < 1461 * 24 * 60" by (simp add: max_iterations_def)
  with rare have "\<not> matches_cron e (cal u)" if "t + 1 \<le> u" "u < t + 1 + int max_iterations" for u
    using that by simp
  moreover have "(60 * t + 60) div 60 = t + 1" by simp
  ultimately show ?thesis unfolding next_run_def next_loop_None by auto
qed

text \<open>A calendar reduced to one leap day in 1461 days, and an expression for midnight on it.\<close>

definition sample_calendar :: "int \<Rightarrow> civil" where
  "sample_calendar m =
     (if m mod (1461 * 24 * 60) = 0
      then \<lparr>c_minute = 0, c_hour = 0, c_day = 29, c_month = 2, c_weekday = 4\<rparr>
      else \<lparr>c_minute = 0, c_hour = 0, c_day = 1, c_month = 3, c_weekday = 5\<rparr>)"

definition sample_leap_day :: cron_expr where
  "sample_leap_day = \<lparr>minutes = {0}, hours = {0}, days = {29}, months = {2}, weekdays = {0..6}\<rparr>"

section \<open>What the grammar denotes\<close>

text \<open>
  An item of a field, what it prints as and what it denotes; the reference the parser is
  compared with.
\<close>

datatype cron_item =
    Every nat
  | EveryValue
  | Value nat
  | Span nat nat
  | SpanStep nat nat nat

fun print_item :: "cron_item \<Rightarrow> string" where
  "print_item EveryValue = ''*''"
| "print_item (Every s) = ''*/'' @ decimal s"
| "print_item (Value v) = decimal v"
| "print_item (Span a b) = decimal a @ ''-'' @ decimal b"
| "print_item (SpanStep a b s) = decimal a @ ''-'' @ decimal b @ ''/'' @ decimal s"

fun item_ok :: "nat \<Rightarrow> nat \<Rightarrow> cron_item \<Rightarrow> bool" where
  "item_ok mn mx EveryValue = True"
| "item_ok mn mx (Every s) = (0 < s \<and> s < 2 ^ 32)"
| "item_ok mn mx (Value v) = (mn \<le> v \<and> v \<le> mx)"
| "item_ok mn mx (Span a b) = (mn \<le> a \<and> a \<le> b \<and> b \<le> mx)"
| "item_ok mn mx (SpanStep a b s) = (mn \<le> a \<and> a \<le> b \<and> b \<le> mx \<and> 0 < s \<and> s < 2 ^ 32)"

fun denotes :: "nat \<Rightarrow> nat \<Rightarrow> cron_item \<Rightarrow> nat set" where
  "denotes mn mx EveryValue = {mn..mx}"
| "denotes mn mx (Every s) = {v. mn \<le> v \<and> v \<le> mx \<and> s dvd (v - mn)}"
| "denotes mn mx (Value v) = {v}"
| "denotes mn mx (Span a b) = {a..b}"
| "denotes mn mx (SpanStep a b s) = {v. a \<le> v \<and> v \<le> b \<and> s dvd (v - a)}"

fun print_field :: "cron_item list \<Rightarrow> string" where
  "print_field [] = []"
| "print_field [i] = print_item i"
| "print_field (i # j # items) = print_item i @ '','' @ print_field (j # items)"

lemma parse_number_decimal: "n < 2 ^ 32 \<Longrightarrow> parse_number err name (decimal n) = Inr n"
  by (simp add: parse_number_def parse_uint_decimal)

lemma parse_range_decimals:
  assumes "mn \<le> a" "a \<le> b" "b \<le> mx" "mx < 2 ^ 32"
  shows "parse_range (decimal a @ ''-'' @ decimal b) name mn mx = Inr (a, b)"
  using assms
  by (simp add: parse_range_def split_on_cons split_on_none parse_number_decimal check_bounds_def bind_require)

lemma strip_star_decimal: "strip_prefix ''*/'' (decimal n @ r) = None"
proof -
  obtain c w where "decimal n = c # w" using decimal_digits(2) [of n] by (cases "decimal n") auto
  moreover from this have "c \<noteq> CHR ''*''" using decimal_head [of n w] by auto
  ultimately show ?thesis by (simp add: strip_prefix_def)
qed

lemma parse_part_item:
  assumes "item_ok mn mx i" and "mn \<le> mx" and "mx < 2 ^ 32"
  shows "parse_part name mn mx (print_item i) vs = Inr (denotes mn mx i \<union> vs)"
proof (cases i)
  case (Every st)
  with assms show ?thesis
    by (simp add: parse_part_def strip_prefix_def parse_number_decimal nonzero_step_def bind_require walk_values del: walk.simps)
next
  case EveryValue
  then show ?thesis by (simp add: parse_part_def)
next
  case (Value v)
  with assms strip_star_decimal [of v "[]"] decimal_head [of v "[]"] show ?thesis
    by (simp add: parse_part_def parse_number_decimal check_bounds_def bind_require)
next
  case (Span a b)
  with assms strip_star_decimal [of a "''-'' @ decimal b"] show ?thesis
    by (simp add: parse_part_def parse_range_decimals [simplified] append_eq_Cons_conv decimal_head)
next
  case (SpanStep a b st)
  with assms strip_star_decimal [of a "''-'' @ decimal b @ ''/'' @ decimal st"] 
    split_on_cons [of "\<lambda>c. c = CHR ''/''" "decimal a @ ''-'' @ decimal b" "CHR ''/''" "decimal st"] show ?thesis
    by (simp add: parse_part_def parse_range_decimals [simplified] append_eq_Cons_conv decimal_head
        split_on_none parse_number_decimal nonzero_step_def bind_require walk_values del: walk.simps)
qed


text \<open>Whitespace and separators around the items.\<close>

definition item_chars :: "char set" where
  "item_chars = {c. is_ascii_digit c} \<union> set ''*/-''"

lemma print_item_chars: "set (print_item i) \<subseteq> item_chars" "print_item i \<noteq> []"
proof -
  have "set (decimal n) \<subseteq> {c. is_ascii_digit c}" for n
    using decimal_digits(1) [of n] by (auto simp: list_all_iff)
  then show "set (print_item i) \<subseteq> item_chars" by (cases i) (force simp: item_chars_def)+
  show "print_item i \<noteq> []" using decimal_digits(2) by (cases i) auto
qed

lemma item_char_plain: "c \<in> item_chars \<Longrightarrow> \<not> is_whitespace c \<and> c \<noteq> CHR '',''"
  by (auto simp: item_chars_def is_ascii_digit_def is_whitespace_def code_def)

lemma trim_plain: "\<not> list_ex is_whitespace w \<Longrightarrow> trim w = w"
proof -
  assume plain: "\<not> list_ex is_whitespace w"
  have "dropWhile is_whitespace v = v" if "\<not> list_ex is_whitespace v" for v
    using that by (cases v) auto
  from this [of w] this [of "rev w"] plain show ?thesis
    by (simp add: trim_def trim_start_def trim_end_def list_ex_iff)
qed

lemma item_plain:
  "\<not> list_ex is_whitespace (print_item i)" "\<not> list_ex (\<lambda>c. c = CHR '','') (print_item i)"
  using print_item_chars(1) [of i] item_char_plain by (auto simp: list_ex_iff)

lemma split_print_field:
  "items \<noteq> [] \<Longrightarrow> split_on (\<lambda>c. c = CHR '','') (print_field items) = map print_item items"
  by (induction items rule: print_field.induct)
    (simp_all add: split_on_none split_on_cons item_plain)

lemma parse_parts_items:
  assumes "mn \<le> mx" and "mx < 2 ^ 32" and "\<forall>i \<in> set items. item_ok mn mx i"
  shows "parse_parts name mn mx (map print_item items) vs = Inr (\<Union> (denotes mn mx ` set items) \<union> vs)"
  using assms(3)
  by (induction items arbitrary: vs)
    (auto simp: trim_plain item_plain parse_part_item [OF _ assms(1,2)])

lemma parse_field_items:
  assumes "mn \<le> mx" and "mx < 2 ^ 32" and "\<forall>i \<in> set items. item_ok mn mx i" and "items \<noteq> []"
  shows "parse_field (print_field items) name mn mx = Inr (\<Union> (denotes mn mx ` set items))"
  using parse_parts_items [OF assms(1-3)] assms(4) by (simp add: parse_field_def split_print_field)

lemma comma_plain: "\<not> is_whitespace CHR '',''" "is_whitespace CHR '' ''"
  by (simp_all add: is_whitespace_def code_def)

lemma trim_ends: "w \<noteq> [] \<Longrightarrow> \<not> is_whitespace (hd w) \<Longrightarrow> \<not> is_whitespace (last w) \<Longrightarrow> trim w = w"
proof -
  assume w: "w \<noteq> []" "\<not> is_whitespace (hd w)" "\<not> is_whitespace (last w)"
  have "dropWhile is_whitespace v = v" if "v \<noteq> []" "\<not> is_whitespace (hd v)" for v
    using that by (cases v) auto
  from this [of w] this [of "rev w"] w show ?thesis
    by (simp add: trim_def trim_start_def trim_end_def hd_rev)
qed

lemma print_field_plain:
  "\<not> list_ex is_whitespace (print_field items)" "items \<noteq> [] \<Longrightarrow> print_field items \<noteq> []"
proof -
  show "\<not> list_ex is_whitespace (print_field items)"
    by (induction items rule: print_field.induct) (simp_all add: item_plain comma_plain)
  show "items \<noteq> [] \<Longrightarrow> print_field items \<noteq> []"
    by (cases items rule: print_field.cases) (auto simp: print_item_chars)
qed

text \<open>
  C30: an expression whose five fields are comma lists of items, one space apart, is parsed to
  the union of what its items denote, whatever steps its items have: the walks are exactly the
  arithmetic progressions.
\<close>

definition fields_ok :: "nat \<Rightarrow> nat \<Rightarrow> cron_item list \<Rightarrow> bool" where
  "fields_ok mn mx items = (items \<noteq> [] \<and> list_all (item_ok mn mx) items)"

definition field_set :: "nat \<Rightarrow> nat \<Rightarrow> cron_item list \<Rightarrow> nat set" where
  "field_set mn mx items = \<Union> (denotes mn mx ` set items)"

theorem cron_print_parse:
  assumes "fields_ok 0 59 mi" "fields_ok 0 23 ho" "fields_ok 1 31 da" "fields_ok 1 12 mo" "fields_ok 0 6 we"
  shows "parse_cron (print_field mi @ '' '' @ print_field ho @ '' '' @ print_field da @ '' '' @
           print_field mo @ '' '' @ print_field we)
       = Inr \<lparr>minutes = field_set 0 59 mi, hours = field_set 0 23 ho, days = field_set 1 31 da,
           months = field_set 1 12 mo, weekdays = field_set 0 6 we\<rparr>"
proof -
  define e where "e = print_field mi @ '' '' @ print_field ho @ '' '' @ print_field da @ '' '' @
    print_field mo @ '' '' @ print_field we"
  note items = assms [unfolded fields_ok_def list_all_iff]
  have ne: "print_field mi \<noteq> []" "print_field we \<noteq> []" using items print_field_plain(2) by blast+
  have split: "split_whitespace e = map print_field [mi, ho, da, mo, we]"
    using items print_field_plain
    by (simp add: e_def split_whitespace_def split_on_cons split_on_none comma_plain)
  have "trim e = e"
  proof (rule trim_ends)
    show "e \<noteq> []" by (simp add: e_def)
    have "hd e \<in> set (print_field mi)" "last e \<in> set (print_field we)"
      using ne by (simp_all add: e_def)
    with print_field_plain(1) show "\<not> is_whitespace (hd e)" "\<not> is_whitespace (last e)"
      by (auto simp: list_ex_iff)
  qed
  moreover have "special e = None"
  proof -
    have "CHR '' '' \<in> set e" by (simp add: e_def)
    moreover have "list_all (\<lambda>(k, _). CHR '' '' \<notin> set k) special_strings" by code_simp
    ultimately show ?thesis
      by (force simp: special_def map_of_eq_None_iff list_all_iff)
  qed
  moreover have "parse_fields e = Inr \<lparr>minutes = field_set 0 59 mi, hours = field_set 0 23 ho,
      days = field_set 1 31 da, months = field_set 1 12 mo, weekdays = field_set 0 6 we\<rparr>"
    unfolding parse_fields_def split using items
    by (simp add: parse_field_items field_set_def del: print_field.simps)
  ultimately show ?thesis unfolding e_def [symmetric] by (simp add: parse_cron_def)
qed

theorem cron_print_parse_witness:
  "parse_cron ''*/20,7 9-17/4 1 2-3 *''
     = Inr \<lparr>minutes = field_set 0 59 [Every 20, Value 7], hours = field_set 0 23 [SpanStep 9 17 4],
         days = field_set 1 31 [Value 1], months = field_set 1 12 [Span 2 3],
         weekdays = field_set 0 6 [EveryValue]\<rparr>"
proof -
  have "fields_ok 0 59 [Every 20, Value 7]" "fields_ok 0 23 [SpanStep 9 17 4]" "fields_ok 1 31 [Value 1]"
    "fields_ok 1 12 [Span 2 3]" "fields_ok 0 6 [EveryValue]" by (simp_all add: fields_ok_def)
  from cron_print_parse [OF this]
  have parsed: "parse_cron (print_field [Every 20, Value 7] @ '' '' @ print_field [SpanStep 9 17 4] @ '' '' @
      print_field [Value 1] @ '' '' @ print_field [Span 2 3] @ '' '' @ print_field [EveryValue])
    = Inr \<lparr>minutes = field_set 0 59 [Every 20, Value 7], hours = field_set 0 23 [SpanStep 9 17 4],
         days = field_set 1 31 [Value 1], months = field_set 1 12 [Span 2 3],
         weekdays = field_set 0 6 [EveryValue]\<rparr>" .
  have "print_field [Every 20, Value 7] @ '' '' @ print_field [SpanStep 9 17 4] @ '' '' @
      print_field [Value 1] @ '' '' @ print_field [Span 2 3] @ '' '' @ print_field [EveryValue]
    = ''*/20,7 9-17/4 1 2-3 *''" by code_simp
  from parsed [unfolded this] show ?thesis .
qed

end
