(* ===== verification/Scheduler.thy ===== *)
theory Scheduler
  imports Cron Json
begin

text \<open>
  The scheduler's tasks, when they are due, and how they are persisted
  (\<open>nanna-core/src/scheduler.rs\<close> with the job table of
  \<open>nanna-storage/src/repositories.rs\<close>).

  An instant and a duration are counts of nanoseconds; \<open>Instant\<close> (the monotonic clock) and
  \<open>DateTime<Utc>\<close> are both \<open>int\<close>, read from the arguments \<open>inst\<close> and \<open>now\<close>.
  Chrono's functions are parameters: the calendar \<open>cal\<close>, the bound \<open>from_std\<close> of its
  durations, and the printer and the readers of RFC 3339 (\<open>show_time\<close>, \<open>read_time\<close>
  for \<open>parse_from_rfc3339\<close>, \<open>parse_time\<close> for \<open>str::parse\<close>). The job table holds the
  columns the scheduler reads and writes; the JSON column holds its decoded value.
\<close>

section \<open>Tasks\<close>

definition NANOS :: nat where "NANOS = 10 ^ 9"

datatype task_type =
    Heartbeat
  | CronTask string "cron_expr option" "int option"
  | Delayed nat int
  | At int
  | Recurring nat

record sched_task =
  s_id :: string
  s_name :: string
  s_type :: task_type
  s_payload :: string
  s_enabled :: bool
  s_last_run :: "int option"
  s_run_count :: nat
  s_timezone :: string
  s_channel :: "string option"
  s_session :: "string option"

definition AT_SCHEDULE_PREFIX :: string where "AT_SCHEDULE_PREFIX = ''at_''"

fun schedule_label :: "(int \<Rightarrow> string) \<Rightarrow> task_type \<Rightarrow> string" where
  "schedule_label show_time Heartbeat = ''heartbeat''"
| "schedule_label show_time (CronTask schedule _ _) = schedule"
| "schedule_label show_time (Recurring d) = ''every_'' @ decimal (d div NANOS) @ ''s''"
| "schedule_label show_time (Delayed d _) = ''delay_'' @ decimal (d div NANOS) @ ''s''"
| "schedule_label show_time (At fire_at) = AT_SCHEDULE_PREFIX @ show_time fire_at"

fun type_next_run :: "task_type \<Rightarrow> int option" where
  "type_next_run (CronTask _ _ next_at) = next_at"
| "type_next_run (At fire_at) = Some fire_at"
| "type_next_run _ = None"

fun is_one_shot :: "task_type \<Rightarrow> bool" where
  "is_one_shot (Delayed _ _) = True"
| "is_one_shot (At _) = True"
| "is_one_shot _ = False"

text \<open>
  \<open>elapsed\<close> of the monotonic clock saturates at zero; an interval chrono cannot represent counts
  as zero.
\<close>

definition is_task_due :: "(nat \<Rightarrow> int option) \<Rightarrow> int \<Rightarrow> int \<Rightarrow> sched_task \<Rightarrow> bool" where
  "is_task_due from_std inst now t =
     (s_enabled t \<and>
      (case s_type t of
         CronTask _ _ next_at \<Rightarrow> (case next_at of None \<Rightarrow> False | Some n \<Rightarrow> n \<le> now)
       | Recurring d \<Rightarrow>
           (case s_last_run t of
              None \<Rightarrow> True
            | Some l \<Rightarrow> (case from_std d of None \<Rightarrow> 0 | Some i \<Rightarrow> i) \<le> now - l)
       | Delayed d created \<Rightarrow> s_run_count t = 0 \<and> int d \<le> max 0 (inst - created)
       | At fire_at \<Rightarrow> s_run_count t = 0 \<and> fire_at \<le> now
       | Heartbeat \<Rightarrow> False))"

section \<open>Settings\<close>

definition MIN_HEARTBEAT_INTERVAL_SECS :: nat where "MIN_HEARTBEAT_INTERVAL_SECS = 30"

definition clamp_heartbeat_secs :: "nat \<Rightarrow> nat" where
  "clamp_heartbeat_secs secs = max secs MIN_HEARTBEAT_INTERVAL_SECS"

record runtime =
  rt_enabled :: bool
  rt_heartbeat_enabled :: bool
  rt_heartbeat_secs :: nat

definition runtime_from_config :: "bool \<Rightarrow> bool \<Rightarrow> nat \<Rightarrow> runtime" where
  "runtime_from_config enabled heartbeat_enabled interval =
     \<lparr>rt_enabled = enabled, rt_heartbeat_enabled = heartbeat_enabled,
      rt_heartbeat_secs = clamp_heartbeat_secs (interval div NANOS)\<rparr>"

section \<open>The job table\<close>

record cron_job =
  j_id :: string
  j_schedule :: string
  j_task :: json
  j_enabled :: bool
  j_last_run :: "string option"
  j_next_run :: "string option"

record new_cron_job =
  nj_id :: string
  nj_schedule :: string
  nj_task :: json
  nj_enabled :: bool
  nj_next_run :: "string option"

text \<open>\<open>INSERT \<dots> ON CONFLICT(job_id) DO UPDATE\<close>: the columns it names, \<open>last_run\<close> not among
  them.\<close>

fun jobs_create :: "new_cron_job \<Rightarrow> cron_job list \<Rightarrow> cron_job list" where
  "jobs_create new [] =
     [\<lparr>j_id = nj_id new, j_schedule = nj_schedule new, j_task = nj_task new,
       j_enabled = nj_enabled new, j_last_run = None, j_next_run = nj_next_run new\<rparr>]"
| "jobs_create new (row # rows) =
     (if j_id row = nj_id new
      then row\<lparr>j_schedule := nj_schedule new, j_task := nj_task new, j_enabled := nj_enabled new,
               j_next_run := nj_next_run new\<rparr> # rows
      else row # jobs_create new rows)"

definition jobs_where :: "string \<Rightarrow> (cron_job \<Rightarrow> cron_job) \<Rightarrow> cron_job list \<Rightarrow> cron_job list" where
  "jobs_where i f rows = map (\<lambda>row. if j_id row = i then f row else row) rows"

definition jobs_update_last_run ::
  "string \<Rightarrow> string \<Rightarrow> string option \<Rightarrow> cron_job list \<Rightarrow> cron_job list" where
  "jobs_update_last_run i last_run next_at rows =
     jobs_where i (\<lambda>row. row\<lparr>j_last_run := Some last_run, j_next_run := next_at\<rparr>) rows"

definition jobs_set_enabled :: "string \<Rightarrow> bool \<Rightarrow> cron_job list \<Rightarrow> cron_job list" where
  "jobs_set_enabled i enabled rows = jobs_where i (\<lambda>row. row\<lparr>j_enabled := enabled\<rparr>) rows"

definition jobs_delete :: "string \<Rightarrow> cron_job list \<Rightarrow> cron_job list" where
  "jobs_delete i rows = filter (\<lambda>row. j_id row \<noteq> i) rows"

section \<open>Persisting and loading\<close>

definition seconds_between :: "string \<Rightarrow> string \<Rightarrow> nat option" where
  "seconds_between pre schedule =
     (if starts_with schedule pre \<and> ends_with schedule ''s''
      then parse_uint 64 (take (length schedule - 1 - 6) (drop 6 schedule)) else None)"

definition parse_interval :: "string \<Rightarrow> nat option" where
  "parse_interval schedule = seconds_between ''every_'' schedule"

definition parse_delay :: "string \<Rightarrow> nat option" where
  "parse_delay schedule = seconds_between ''delay_'' schedule"

definition parse_at :: "(string \<Rightarrow> int option) \<Rightarrow> string \<Rightarrow> int option" where
  "parse_at read_time schedule = Option.bind (strip_prefix AT_SCHEDULE_PREFIX schedule) read_time"

text \<open>The next matching minute after an instant, as an instant.\<close>

definition next_from_now :: "(int \<Rightarrow> civil) \<Rightarrow> int \<Rightarrow> cron_expr \<Rightarrow> int option" where
  "next_from_now cal now e = map_option (\<lambda>m. m * 60 * int NANOS) (next_run cal e (now div int NANOS))"

definition ok_cron :: "string \<Rightarrow> cron_expr option" where
  "ok_cron schedule = (case parse_cron schedule of Inl _ \<Rightarrow> None | Inr e \<Rightarrow> Some e)"

definition job_type ::
  "(int \<Rightarrow> civil) \<Rightarrow> (string \<Rightarrow> int option) \<Rightarrow> int \<Rightarrow> int \<Rightarrow> string \<Rightarrow> task_type" where
  "job_type cal read_time inst now schedule =
     (if schedule = ''heartbeat'' then Heartbeat
      else case parse_interval schedule of
        Some secs \<Rightarrow> Recurring (secs * NANOS)
      | None \<Rightarrow> (case parse_at read_time schedule of
          Some fire_at \<Rightarrow> At fire_at
        | None \<Rightarrow> (case parse_delay schedule of
            Some secs \<Rightarrow> Delayed (secs * NANOS) inst
          | None \<Rightarrow> CronTask schedule (ok_cron schedule)
              (Option.bind (ok_cron schedule) (next_from_now cal now)))))"

definition str_or :: "string option \<Rightarrow> string \<Rightarrow> string" where
  "str_or v d = (case v of None \<Rightarrow> d | Some s \<Rightarrow> s)"

definition job_to_task ::
  "(int \<Rightarrow> civil) \<Rightarrow> (string \<Rightarrow> int option) \<Rightarrow> (string \<Rightarrow> int option) \<Rightarrow> string \<Rightarrow> int \<Rightarrow> int
     \<Rightarrow> cron_job \<Rightarrow> sched_task" where
  "job_to_task cal read_time parse_time default_timezone inst now job =
     \<lparr>s_id = j_id job,
      s_name = str_or (get_str (j_task job) ''name'') (j_id job),
      s_type = job_type cal read_time inst now (j_schedule job),
      s_payload = (case get_str (j_task job) ''payload'' of
         Some p \<Rightarrow> p | None \<Rightarrow> str_or (get_str (j_task job) ''text'') []),
      s_enabled = j_enabled job,
      s_last_run = Option.bind (j_last_run job) parse_time,
      s_run_count = 0,
      s_timezone = str_or (get_str (j_task job) ''timezone'') default_timezone,
      s_channel = get_str (j_task job) ''channel'',
      s_session = get_str (j_task job) ''session''\<rparr>"

text \<open>The object of \<open>persist_task\<close>, its keys in the order of the default map.\<close>

definition task_json :: "sched_task \<Rightarrow> json" where
  "task_json t = JObj
     [(''channel'', jstr_opt (s_channel t)), (''name'', JStr (s_name t)), (''payload'', JStr (s_payload t)),
      (''session'', jstr_opt (s_session t)), (''timezone'', JStr (s_timezone t))]"

definition persisted :: "(int \<Rightarrow> string) \<Rightarrow> sched_task \<Rightarrow> new_cron_job" where
  "persisted show_time t =
     \<lparr>nj_id = s_id t, nj_schedule = schedule_label show_time (s_type t), nj_task = task_json t,
      nj_enabled = s_enabled t, nj_next_run = map_option show_time (type_next_run (s_type t))\<rparr>"

section \<open>Making tasks\<close>

text \<open>The helpers of the module; \<open>fresh\<close> is the generated part of an id.\<close>

definition plain_task :: "string \<Rightarrow> string \<Rightarrow> task_type \<Rightarrow> string \<Rightarrow> sched_task" where
  "plain_task i name ty payload =
     \<lparr>s_id = i, s_name = name, s_type = ty, s_payload = payload, s_enabled = True, s_last_run = None,
      s_run_count = 0, s_timezone = ''UTC'', s_channel = None, s_session = None\<rparr>"

definition heartbeat_task :: "string \<Rightarrow> string \<Rightarrow> sched_task" where
  "heartbeat_task fresh prompt = plain_task (''heartbeat-'' @ fresh) ''heartbeat'' Heartbeat prompt"

definition recurring_task :: "string \<Rightarrow> string \<Rightarrow> nat \<Rightarrow> string \<Rightarrow> sched_task" where
  "recurring_task fresh name interval payload =
     plain_task (name @ ''-'' @ fresh) name (Recurring interval) payload"

definition delayed_task :: "string \<Rightarrow> int \<Rightarrow> string \<Rightarrow> nat \<Rightarrow> string \<Rightarrow> sched_task" where
  "delayed_task fresh inst name delay payload =
     plain_task (name @ ''-'' @ fresh) name (Delayed delay inst) payload"

definition at_task :: "string \<Rightarrow> string \<Rightarrow> int \<Rightarrow> string \<Rightarrow> sched_task" where
  "at_task fresh name fire_at payload = plain_task (name @ ''-'' @ fresh) name (At fire_at) payload"

definition consolidation_task :: "string \<Rightarrow> nat option \<Rightarrow> sched_task" where
  "consolidation_task fresh interval =
     plain_task (''consolidation-'' @ fresh) ''memory_consolidation''
       (Recurring (case interval of None \<Rightarrow> 3600 * NANOS | Some d \<Rightarrow> d))
       ''Run memory consolidation (dreaming): compress fading memories, expand important ones.''"

definition cron_task ::
  "(int \<Rightarrow> civil) \<Rightarrow> string \<Rightarrow> int \<Rightarrow> string \<Rightarrow> string \<Rightarrow> string \<Rightarrow> (cron_error, sched_task) result" where
  "cron_task cal fresh now name schedule payload =
     bind_res (parse_cron schedule) (\<lambda>parsed.
       Inr (plain_task (name @ ''-'' @ fresh) name
         (CronTask schedule (Some parsed) (next_from_now cal now parsed)) payload))"

section \<open>What a restart restores\<close>

text \<open>
  A stored schedule is read back as the type it was written from: no cron expression starts like
  the label of another type.
\<close>

definition cron_start :: "char \<Rightarrow> bool" where
  "cron_start c = (is_ascii_digit c \<or> c \<in> set ''+*@,'' \<or> is_whitespace c)"

lemma split_on_head:
  "\<not> p c \<Longrightarrow> \<exists>w ws. split_on p (c # s) = (c # w) # ws"
  by (cases "split_on p s") auto

lemma parse_uint_start: "\<not> cron_start c \<Longrightarrow> parse_uint w (c # s) = None"
  by (auto simp: parse_uint_def cron_start_def Let_def)

lemma parse_number_start: "\<not> cron_start c \<Longrightarrow> parse_number err name (c # s) \<noteq> Inr n"
  by (simp add: parse_number_def parse_uint_start)

lemma parse_range_start:
  assumes "\<not> cron_start c" and "c \<noteq> CHR ''-''"
  shows "parse_range (c # s) name mn mx \<noteq> Inr r"
proof -
  obtain w ws where "split_on (\<lambda>c. c = CHR ''-'') (c # s) = (c # w) # ws"
    using split_on_head [of "\<lambda>c. c = CHR ''-''" c s] assms(2) by blast
  then show ?thesis
    using parse_number_start [OF assms(1)]
    by (auto simp: parse_range_def bind_res_eq_Inr simp del: split_on.simps split: list.split)
qed

lemma parse_part_start:
  assumes "\<not> cron_start c" and "c \<notin> set ''-/''"
  shows "parse_part name mn mx (c # s) vs \<noteq> Inr r"
proof -
  obtain w ws where "split_on (\<lambda>c. c = CHR ''/'') (c # s) = (c # w) # ws"
    using split_on_head [of "\<lambda>c. c = CHR ''/''" c s] assms(2) by auto
  moreover have "c \<noteq> CHR ''*''" using assms(1) by (auto simp: cron_start_def)
  ultimately show ?thesis
    using parse_number_start [OF assms(1)] parse_range_start [OF assms(1)] assms(2)
    by (auto simp: parse_part_def strip_prefix_def bind_res_eq_Inr simp del: split_on.simps
        split: list.split)
qed

lemma trim_head:
  assumes "\<not> is_whitespace c"
  shows "\<exists>w. trim (c # s) = c # w"
proof -
  have "trim (c # s) = rev (dropWhile is_whitespace (rev s @ [c]))"
    using assms by (simp add: trim_def trim_start_def trim_end_def)
  moreover have "\<exists>w. rev (dropWhile is_whitespace (xs @ [c])) = c # w" for xs
    using assms by (simp add: dropWhile_append) (metis rev_rev_ident)
  ultimately show ?thesis by simp
qed

lemma parse_field_start:
  assumes "\<not> cron_start c" and "c \<notin> set ''-/''"
  shows "parse_field (c # s) name mn mx \<noteq> Inr r"
proof -
  obtain w ws where "split_on (\<lambda>c. c = CHR '','') (c # s) = (c # w) # ws"
    using split_on_head [of "\<lambda>c. c = CHR '',''" c s] assms(1) by (auto simp: cron_start_def)
  moreover obtain v where "trim (c # w) = c # v" using trim_head assms(1) by (auto simp: cron_start_def)
  ultimately show ?thesis
    using parse_part_start [OF assms] by (simp add: parse_field_def bind_res_eq_Inr del: split_on.simps)
qed

lemma parse_fields_start:
  assumes "\<not> cron_start c" and "c \<notin> set ''-/''"
  shows "parse_fields (c # s) \<noteq> Inr r"
proof -
  obtain w ws where "split_on is_whitespace (c # s) = (c # w) # ws"
    using split_on_head [of is_whitespace c s] assms(1) by (auto simp: cron_start_def)
  then have "split_whitespace (c # s) ! 0 = c # w"
    by (simp add: split_whitespace_def del: split_on.simps)
  then show ?thesis
    using parse_field_start [OF assms] by (simp add: parse_fields_def Let_def bind_res_eq_Inr)
qed

lemma cron_not_label:
  assumes "\<not> cron_start c" and "c \<notin> set ''-/''"
  shows "ok_cron (c # s) = None"
proof -
  obtain w where w: "trim (c # s) = c # w" using trim_head assms(1) by (auto simp: cron_start_def)
  have "list_all (\<lambda>(k, _). case k of d # _ \<Rightarrow> cron_start d | [] \<Rightarrow> True) special_strings" by code_simp
  then have "special (c # w) = None"
    using assms(1) by (fastforce simp: special_def map_of_eq_None_iff list_all_iff)
  with w parse_fields_start [OF assms] show ?thesis
    by (simp add: ok_cron_def parse_cron_def Let_def split: sum.split)
qed

definition jobs_get :: "string \<Rightarrow> cron_job list \<Rightarrow> cron_job option" where
  "jobs_get i rows = List.find (\<lambda>row. j_id row = i) rows"

text \<open>What a type can be stored as, and what it is after a restart.\<close>

fun storable :: "task_type \<Rightarrow> bool" where
  "storable Heartbeat = True"
| "storable (CronTask schedule parsed _) = (parsed \<noteq> None \<and> ok_cron schedule = parsed)"
| "storable (Delayed d _) = (NANOS dvd d \<and> d div NANOS < 2 ^ 64)"
| "storable (Recurring d) = (NANOS dvd d \<and> d div NANOS < 2 ^ 64)"
| "storable (At _) = True"

lemma cron_task_storable: "cron_task cal fresh now name schedule payload = Inr t \<Longrightarrow> storable (s_type t)"
  by (auto simp: cron_task_def bind_res_eq_Inr plain_task_def ok_cron_def)

fun reloaded_type :: "(int \<Rightarrow> civil) \<Rightarrow> int \<Rightarrow> int \<Rightarrow> task_type \<Rightarrow> task_type" where
  "reloaded_type cal inst now (CronTask schedule parsed _) =
     CronTask schedule parsed (Option.bind parsed (next_from_now cal now))"
| "reloaded_type cal inst now (Delayed d _) = Delayed d inst"
| "reloaded_type cal inst now ty = ty"

lemma seconds_between_label:
  assumes "n < 2 ^ 64" and "length pre = 6"
  shows "seconds_between pre (pre @ decimal n @ ''s'') = Some n"
  using assms by (simp add: seconds_between_def starts_with_def ends_with_def suffix_def parse_uint_decimal)

lemma seconds_between_other: "\<not> prefix pre schedule \<Longrightarrow> seconds_between pre schedule = None"
  by (simp add: seconds_between_def starts_with_def)

lemma label_chars:
  "\<not> cron_start CHR ''h''" "\<not> cron_start CHR ''e''" "\<not> cron_start CHR ''d''" "\<not> cron_start CHR ''a''"
  by (simp_all add: cron_start_def is_ascii_digit_def is_whitespace_def code_def)

lemma job_type_label:
  assumes "storable ty" and read: "\<And>t. read_time (show_time t) = Some t"
  shows "job_type cal read_time inst now (schedule_label show_time ty) = reloaded_type cal inst now ty"
proof (cases ty)
  case Heartbeat
  then show ?thesis by (simp add: job_type_def)
next
  case (CronTask schedule parsed next_at)
  then have ok: "ok_cron schedule \<noteq> None" "parsed = ok_cron schedule" using assms(1) by auto
  have start: "\<not> prefix (c # w) schedule" if "\<not> cron_start c" "c \<notin> set ''-/''" for c w
    using ok(1) cron_not_label [OF that] by (auto simp: prefix_def)
  have "schedule \<noteq> ''heartbeat''" using start [OF label_chars(1), of "''eartbeat''"] by auto
  moreover have "parse_interval schedule = None" "parse_delay schedule = None"
    using start [OF label_chars(2), of "''very_''"] start [OF label_chars(3), of "''elay_''"]
    by (simp_all add: parse_interval_def parse_delay_def seconds_between_other)
  moreover have "parse_at read_time schedule = None"
    using start [OF label_chars(4), of "''t_''"]
    by (simp add: parse_at_def strip_prefix_def AT_SCHEDULE_PREFIX_def)
  ultimately show ?thesis using CronTask ok(2) by (simp add: job_type_def)
next
  case (Delayed d created)
  with assms(1) show ?thesis
    using seconds_between_label [of "d div NANOS" "''delay_''"]
    by (simp add: job_type_def parse_interval_def parse_delay_def parse_at_def strip_prefix_def
        AT_SCHEDULE_PREFIX_def seconds_between_other)
next
  case (At fire_at)
  then show ?thesis
    by (simp add: job_type_def parse_interval_def parse_at_def strip_prefix_def read
        AT_SCHEDULE_PREFIX_def seconds_between_other)
next
  case (Recurring d)
  with assms(1) show ?thesis
    using seconds_between_label [of "d div NANOS" "''every_''"]
    by (simp add: job_type_def parse_interval_def)
qed

lemma jobs_get_create:
  "jobs_get (nj_id new) (jobs_create new rows) =
     Some \<lparr>j_id = nj_id new, j_schedule = nj_schedule new, j_task = nj_task new, j_enabled = nj_enabled new,
       j_last_run = Option.bind (jobs_get (nj_id new) rows) j_last_run, j_next_run = nj_next_run new\<rparr>"
  by (induction new rows rule: jobs_create.induct) (auto simp: jobs_get_def)


text \<open>A printer of instants and its reader.\<close>

definition sample_show :: "int \<Rightarrow> string" where
  "sample_show t = (if t < 0 then ''-'' @ decimal (nat (- t)) else decimal (nat t))"

definition sample_read :: "string \<Rightarrow> int option" where
  "sample_read s = (case s of
     [] \<Rightarrow> None
   | c # r \<Rightarrow> Some (if c = CHR ''-'' then - int (digits_value r) else int (digits_value s)))"

lemma sample_read_show: "sample_read (sample_show t) = Some t"
proof (cases "t < 0")
  case True
  then show ?thesis by (simp add: sample_show_def sample_read_def digits_value_decimal)
next
  case False
  obtain c r where "decimal (nat t) = c # r" using decimal_digits(2) by (cases "decimal (nat t)") auto
  moreover from this have "c \<noteq> CHR ''-''"
    using decimal_no_sep(1) [of "CHR ''-''" "nat t"] by auto
  ultimately show ?thesis
    using False digits_value_decimal [of "nat t"] by (simp add: sample_show_def sample_read_def)
qed

definition sample_job :: sched_task where
  "sample_job = \<lparr>s_id = ''stretch-1'', s_name = ''stretch'', s_type = At 90000000000,
     s_payload = ''stand up'', s_enabled = True, s_last_run = None, s_run_count = 0,
     s_timezone = ''UTC'', s_channel = None, s_session = Some ''chat-1''\<rparr>"


end
