(* ===== verification/Scheduler_Runs.thy ===== *)
theory Scheduler_Runs
  imports Scheduler
begin

text \<open>
  The scheduler as it runs (\<open>nanna-core/src/scheduler.rs\<close>): the operations of its clients, the
  ticks of its loop and the runs it spawns, each run in the pieces between which the others can
  get in.

  The state is what the threads share: the task map, the job table (when there is one), the
  history, the claims, the live settings, and, of the loop, the rest of the snapshot it is going
  through, and of each spawned run, how far it is. A step is what one thread does under one lock.
\<close>

section \<open>The state\<close>

record task_result =
  res_task :: string
  res_name :: string
  res_success :: bool
  res_output :: "string option"
  res_error :: "string option"
  res_duration_ms :: nat
  res_started :: int
  res_finished :: int

record job_run =
  jr_id :: int
  jr_job :: string
  jr_started :: int
  jr_finished :: "int option"
  jr_success :: bool
  jr_output :: "string option"
  jr_error :: "string option"

text \<open>How far \<open>run_due_task\<close> is: the executor is at work; its result is in the history; the
  memory is settled; the storage is settled and only the claim is left to drop.\<close>

datatype phase = Executing | Recorded task_result | InMemory task_result "string option" | Stored

record run =
  r_task :: sched_task
  r_phase :: phase

record sched =
  s_tasks :: "string \<Rightarrow> sched_task option"
  s_jobs :: "cron_job list option"
  s_history :: "string \<Rightarrow> job_run list"
  s_in_flight :: "string set"
  s_runtime :: runtime
  s_tick_now :: int
  s_pending :: "sched_task list"
  s_runs :: "run list"

section \<open>Operations of the clients\<close>

definition with_jobs :: "(cron_job list \<Rightarrow> cron_job list) \<Rightarrow> sched \<Rightarrow> sched" where
  "with_jobs f s = s\<lparr>s_jobs := map_option f (s_jobs s)\<rparr>"

definition load_jobs ::
  "(int \<Rightarrow> civil) \<Rightarrow> (string \<Rightarrow> int option) \<Rightarrow> (string \<Rightarrow> int option) \<Rightarrow> string \<Rightarrow> int \<Rightarrow> int
     \<Rightarrow> sched \<Rightarrow> nat \<times> sched" where
  "load_jobs cal read_time parse_time default_timezone inst now s =
     (case s_jobs s of
        None \<Rightarrow> (0, s)
      | Some jobs \<Rightarrow>
          (length jobs,
           s\<lparr>s_tasks := fold (\<lambda>job m. m(j_id job \<mapsto>
               job_to_task cal read_time parse_time default_timezone inst now job)) jobs (s_tasks s)\<rparr>))"

definition add_task :: "(int \<Rightarrow> string) \<Rightarrow> sched_task \<Rightarrow> sched \<Rightarrow> sched" where
  "add_task show_time t s =
     (let s = with_jobs (jobs_create (persisted show_time t)) s
      in s\<lparr>s_tasks := (s_tasks s)(s_id t \<mapsto> t)\<rparr>)"

definition remove_task :: "string \<Rightarrow> sched \<Rightarrow> bool \<times> sched" where
  "remove_task i s =
     (let s = with_jobs (jobs_delete i) s
      in (s_tasks s i \<noteq> None, s\<lparr>s_tasks := (s_tasks s)(i := None)\<rparr>))"

definition update_schedule ::
  "(int \<Rightarrow> civil) \<Rightarrow> (int \<Rightarrow> string) \<Rightarrow> int \<Rightarrow> string \<Rightarrow> string \<Rightarrow> sched
     \<Rightarrow> (cron_error, bool) result \<times> sched" where
  "update_schedule cal show_time now i schedule s =
     (case parse_cron schedule of
        Inl e \<Rightarrow> (Inl e, s)
      | Inr parsed \<Rightarrow>
          (let next_at = next_from_now cal now parsed
           in case s_tasks s i of
                None \<Rightarrow> (Inr False, s)
              | Some t \<Rightarrow>
                  (Inr True,
                   with_jobs (jobs_update_last_run i [] (map_option show_time next_at))
                     (s\<lparr>s_tasks := (s_tasks s)(i \<mapsto>
                          t\<lparr>s_type := CronTask schedule (Some parsed) next_at\<rparr>)\<rparr>))))"

definition set_task_enabled :: "string \<Rightarrow> bool \<Rightarrow> sched \<Rightarrow> sched" where
  "set_task_enabled i enabled s =
     (let s = with_jobs (jobs_set_enabled i enabled) s
      in s\<lparr>s_tasks := (s_tasks s)(i := map_option (\<lambda>t. t\<lparr>s_enabled := enabled\<rparr>) (s_tasks s i))\<rparr>)"

text \<open>By name: \<open>vs\<close> is what the iteration over the map's values yields.\<close>

definition remove_all :: "string list \<Rightarrow> sched \<Rightarrow> sched" where
  "remove_all ids s = fold (\<lambda>i s. snd (remove_task i s)) ids s"

definition remove_tasks_by_name :: "sched_task list \<Rightarrow> string \<Rightarrow> sched \<Rightarrow> nat \<times> sched" where
  "remove_tasks_by_name vs name s =
     (let ids = map s_id (filter (\<lambda>t. s_name t = name) vs) in (length ids, remove_all ids s))"

definition deduplicate_by_name :: "sched_task list \<Rightarrow> string \<Rightarrow> sched \<Rightarrow> nat \<times> sched" where
  "deduplicate_by_name vs name s =
     (let matching = sort_key s_id (filter (\<lambda>t. s_name t = name) vs);
          ids = map s_id (drop 1 matching)
      in (length ids, remove_all ids s))"

definition apply_settings :: "bool \<Rightarrow> bool \<Rightarrow> nat \<Rightarrow> sched \<Rightarrow> sched" where
  "apply_settings enabled heartbeat_enabled interval s =
     s\<lparr>s_runtime := runtime_from_config enabled heartbeat_enabled interval\<rparr>"

section \<open>History\<close>

definition JOB_HISTORY_RUNS_MAX :: nat where "JOB_HISTORY_RUNS_MAX = 100"

text \<open>A run's id is the length of the list plus one; the list is bounded, so that the code's
  conversion to \<open>i64\<close> does not saturate.\<close>

definition run_entry :: "string \<Rightarrow> task_result \<Rightarrow> nat \<Rightarrow> job_run" where
  "run_entry job r n =
     \<lparr>jr_id = int n + 1, jr_job = job, jr_started = res_started r,
      jr_finished = Some (res_finished r), jr_success = res_success r, jr_output = res_output r,
      jr_error = res_error r\<rparr>"

definition push_run :: "string \<Rightarrow> task_result \<Rightarrow> job_run list \<Rightarrow> job_run list" where
  "push_run job r runs =
     (let runs = runs @ [run_entry job r (length runs)]
      in if JOB_HISTORY_RUNS_MAX < length runs then drop 1 runs else runs)"

definition record_run_in :: "string \<Rightarrow> task_result \<Rightarrow> sched \<Rightarrow> sched" where
  "record_run_in job r s = s\<lparr>s_history := (s_history s)(job := push_run job r (s_history s job))\<rparr>"

definition get_history :: "string \<Rightarrow> nat \<Rightarrow> sched \<Rightarrow> job_run list" where
  "get_history job limit s = take limit (rev (s_history s job))"

section \<open>Settling a run\<close>

definition advance :: "(int \<Rightarrow> civil) \<Rightarrow> int \<Rightarrow> task_type \<Rightarrow> task_type" where
  "advance cal now ty = (case ty of
     CronTask schedule (Some p) _ \<Rightarrow> CronTask schedule (Some p) (next_from_now cal now p)
   | _ \<Rightarrow> ty)"

definition ran :: "(int \<Rightarrow> civil) \<Rightarrow> int \<Rightarrow> task_result \<Rightarrow> sched_task \<Rightarrow> sched_task" where
  "ran cal now r t =
     t\<lparr>s_last_run := Some (res_finished r), s_run_count := s_run_count t + 1,
       s_type := advance cal now (s_type t)\<rparr>"

definition settle_memory ::
  "(int \<Rightarrow> civil) \<Rightarrow> (int \<Rightarrow> string) \<Rightarrow> int \<Rightarrow> sched_task \<Rightarrow> task_result \<Rightarrow> sched
     \<Rightarrow> string option \<times> sched" where
  "settle_memory cal show_time now task r s =
     (if is_one_shot (s_type task) \<and> res_success r
      then (None, s\<lparr>s_tasks := (s_tasks s)(s_id task := None)\<rparr>)
      else case s_tasks s (s_id task) of
        None \<Rightarrow> (None, s)
      | Some t \<Rightarrow>
          (let t = ran cal now r t;
               t = (if is_one_shot (s_type task) then t\<lparr>s_enabled := False\<rparr> else t)
           in (map_option show_time (type_next_run (s_type t)),
               s\<lparr>s_tasks := (s_tasks s)(s_id task \<mapsto> t)\<rparr>)))"

definition settle_in_storage ::
  "(int \<Rightarrow> string) \<Rightarrow> sched_task \<Rightarrow> task_result \<Rightarrow> string option \<Rightarrow> sched \<Rightarrow> sched" where
  "settle_in_storage show_time task r next_at s =
     with_jobs (\<lambda>jobs.
       if is_one_shot (s_type task) \<and> res_success r then jobs_delete (s_id task) jobs
       else let jobs = jobs_update_last_run (s_id task) (show_time (res_finished r)) next_at jobs
            in if is_one_shot (s_type task) then jobs_set_enabled (s_id task) False jobs else jobs) s"

text \<open>The last piece of \<open>run_now\<close>, after its executor has answered: no claim, and a one-shot is
  neither removed nor disabled.\<close>

definition settle_now :: "(int \<Rightarrow> civil) \<Rightarrow> int \<Rightarrow> string \<Rightarrow> task_result \<Rightarrow> sched \<Rightarrow> sched" where
  "settle_now cal now i r s =
     s\<lparr>s_tasks := (s_tasks s)(i := map_option (ran cal now r) (s_tasks s i))\<rparr>"

definition run_now ::
  "(int \<Rightarrow> civil) \<Rightarrow> int \<Rightarrow> (sched_task \<Rightarrow> task_result) option \<Rightarrow> string \<Rightarrow> sched
     \<Rightarrow> task_result option \<times> sched" where
  "run_now cal now executor i s =
     (case executor of
        None \<Rightarrow> (None, s)
      | Some exec \<Rightarrow>
          (case s_tasks s i of
             None \<Rightarrow> (None, s)
           | Some t \<Rightarrow>
               (let r = exec t
                in (Some r, settle_now cal now i r (record_run_in (res_task r) r s)))))"

section \<open>The loop and its runs\<close>

text \<open>A fresh process over a job table: nothing is loaded and nothing runs.\<close>

definition new_sched :: "runtime \<Rightarrow> cron_job list option \<Rightarrow> sched" where
  "new_sched rt jobs =
     \<lparr>s_tasks = (\<lambda>_. None), s_jobs = jobs, s_history = (\<lambda>_. []), s_in_flight = {}, s_runtime = rt,
      s_tick_now = 0, s_pending = [], s_runs = []\<rparr>"

text \<open>
  A tick copies the values of the map, in whatever order its hashing gives them, and then goes
  through the copy: a task that is due and not claimed is claimed and spawned.
\<close>

definition take_snapshot :: "int \<Rightarrow> sched_task list \<Rightarrow> sched \<Rightarrow> sched" where
  "take_snapshot now ts s = s\<lparr>s_tick_now := now, s_pending := ts\<rparr>"

definition claim_take :: "string \<Rightarrow> string set \<Rightarrow> string set option" where
  "claim_take i ids = (if i \<in> ids then None else Some (insert i ids))"

definition claim_drop :: "string \<Rightarrow> string set \<Rightarrow> string set" where
  "claim_drop i ids = ids - {i}"

definition visit :: "(nat \<Rightarrow> int option) \<Rightarrow> int \<Rightarrow> sched \<Rightarrow> sched" where
  "visit from_std inst s =
     (case s_pending s of
        [] \<Rightarrow> s
      | t # ts \<Rightarrow>
          (let s' = s\<lparr>s_pending := ts\<rparr>
           in if \<not> is_task_due from_std inst (s_tick_now s) t then s'
              else case claim_take (s_id t) (s_in_flight s) of
                None \<Rightarrow> s'
              | Some ids \<Rightarrow>
                  s'\<lparr>s_in_flight := ids, s_runs := s_runs s @ [\<lparr>r_task = t, r_phase = Executing\<rparr>]\<rparr>))"

text \<open>The \<open>k\<close>-th run in progress moves on.\<close>

definition set_phase :: "nat \<Rightarrow> phase \<Rightarrow> sched \<Rightarrow> sched" where
  "set_phase k p s = s\<lparr>s_runs := (s_runs s)[k := (s_runs s ! k)\<lparr>r_phase := p\<rparr>]\<rparr>"

definition answer :: "nat \<Rightarrow> task_result \<Rightarrow> sched \<Rightarrow> sched" where
  "answer k r s = set_phase k (Recorded r) (record_run_in (res_task r) r s)"

definition settle ::
  "(int \<Rightarrow> civil) \<Rightarrow> (int \<Rightarrow> string) \<Rightarrow> int \<Rightarrow> nat \<Rightarrow> task_result \<Rightarrow> sched \<Rightarrow> sched" where
  "settle cal show_time now k r s =
     (case settle_memory cal show_time now (r_task (s_runs s ! k)) r s of
        (next_at, s) \<Rightarrow> set_phase k (InMemory r next_at) s)"

definition store_run :: "(int \<Rightarrow> string) \<Rightarrow> nat \<Rightarrow> task_result \<Rightarrow> string option \<Rightarrow> sched \<Rightarrow> sched" where
  "store_run show_time k r next_at s =
     set_phase k Stored (settle_in_storage show_time (r_task (s_runs s ! k)) r next_at s)"

definition release :: "nat \<Rightarrow> sched \<Rightarrow> sched" where
  "release k s =
     s\<lparr>s_in_flight := claim_drop (s_id (r_task (s_runs s ! k))) (s_in_flight s),
       s_runs := take k (s_runs s) @ drop (Suc k) (s_runs s)\<rparr>"

text \<open>What an observer is told of a step.\<close>

datatype label = Silent | Added string | Loaded | Delivered string

text \<open>
  The steps, with any arguments, clocks and answers. With \<open>serial\<close>, no run settles while the
  loop goes through a snapshot; the code has nothing that keeps it from doing so.
\<close>

record world =
  w_from_std :: "nat \<Rightarrow> int option"
  w_cal :: "int \<Rightarrow> civil"
  w_show :: "int \<Rightarrow> string"
  w_read :: "string \<Rightarrow> int option"
  w_parse :: "string \<Rightarrow> int option"
  w_timezone :: string

inductive sched_step :: "world \<Rightarrow> bool \<Rightarrow> sched \<Rightarrow> label \<Rightarrow> sched \<Rightarrow> bool" for w serial where
  Load: "sched_step w serial s Loaded
           (snd (load_jobs (w_cal w) (w_read w) (w_parse w) (w_timezone w) inst now s))"
| Add: "sched_step w serial s (Added (s_id t)) (add_task (w_show w) t s)"
| Remove: "sched_step w serial s Silent (snd (remove_task i s))"
| Reschedule: "sched_step w serial s Silent (snd (update_schedule (w_cal w) (w_show w) now i schedule s))"
| Enable: "sched_step w serial s Silent (set_task_enabled i enabled s)"
| Settings: "sched_step w serial s Silent (apply_settings enabled heartbeat interval s)"
| Heartbeat: "s_pending s = [] \<Longrightarrow> rt_enabled (s_runtime s) \<Longrightarrow> rt_heartbeat_enabled (s_runtime s) \<Longrightarrow>
    sched_step w serial s Silent (record_run_in ''heartbeat'' r s)"
| Now_Record: "sched_step w serial s Silent (record_run_in (res_task r) r s)"
| Now_Settle: "sched_step w serial s Silent (settle_now (w_cal w) now i r s)"
| Tick: "s_pending s = [] \<Longrightarrow> rt_enabled (s_runtime s) \<Longrightarrow> distinct (map s_id ts) \<Longrightarrow>
    set ts = {t. \<exists>i. s_tasks s i = Some t} \<Longrightarrow>
    sched_step w serial s Silent (take_snapshot now ts s)"
| Visit: "s_pending s \<noteq> [] \<Longrightarrow> sched_step w serial s Silent (visit (w_from_std w) inst s)"
| Answer: "k < length (s_runs s) \<Longrightarrow> r_phase (s_runs s ! k) = Executing \<Longrightarrow>
    sched_step w serial s Silent (answer k r s)"
| Settle: "k < length (s_runs s) \<Longrightarrow> r_phase (s_runs s ! k) = Recorded r \<Longrightarrow> \<not> (serial \<and> s_pending s \<noteq> []) \<Longrightarrow>
    sched_step w serial s
      (if is_one_shot (s_type (r_task (s_runs s ! k))) \<and> res_success r
       then Delivered (s_id (r_task (s_runs s ! k))) else Silent)
      (settle (w_cal w) (w_show w) now k r s)"
| Store: "k < length (s_runs s) \<Longrightarrow> r_phase (s_runs s ! k) = InMemory r next_at \<Longrightarrow>
    sched_step w serial s Silent (store_run (w_show w) k r next_at s)"
| Release: "k < length (s_runs s) \<Longrightarrow> r_phase (s_runs s ! k) = Stored \<Longrightarrow>
    sched_step w serial s Silent (release k s)"

inductive sched_exec :: "world \<Rightarrow> bool \<Rightarrow> sched \<Rightarrow> label list \<Rightarrow> sched \<Rightarrow> bool" for w serial s where
  Start: "sched_exec w serial s [] s"
| Step: "sched_exec w serial s ls s' \<Longrightarrow> sched_step w serial s' l s'' \<Longrightarrow>
    sched_exec w serial s (ls @ [l]) s''"

section \<open>Histories\<close>

lemma history_max_pos: "0 < JOB_HISTORY_RUNS_MAX"
  by (simp add: JOB_HISTORY_RUNS_MAX_def)

text \<open>
  After any runs of a job its history is the last hundred of them, in order; a run's id is
  its position only up to there: from the hundred and first on, every run is given the id 101.
\<close>

theorem history_keeps_last:
  "fold (push_run job) rs [] =
     drop (length rs - JOB_HISTORY_RUNS_MAX)
       (map (\<lambda>k. run_entry job (rs ! k) (min k JOB_HISTORY_RUNS_MAX)) [0..<length rs])"
proof (induction rs rule: rev_induct)
  case (snoc r rs)
  let ?M = JOB_HISTORY_RUNS_MAX
  let ?es = "map (\<lambda>k. run_entry job ((rs @ [r]) ! k) (min k ?M)) [0..<length rs]"
  have es: "map (\<lambda>k. run_entry job (rs ! k) (min k ?M)) [0..<length rs] = ?es"
    by (rule map_cong) (auto simp: nth_append)
  have len: "length (drop (length rs - ?M) ?es) = min (length rs) ?M" by simp
  have all: "map (\<lambda>k. run_entry job ((rs @ [r]) ! k) (min k ?M)) [0..<length (rs @ [r])]
      = ?es @ [run_entry job r (min (length rs) ?M)]" by simp
  have "fold (push_run job) (rs @ [r]) [] = push_run job r (drop (length rs - ?M) ?es)"
    using snoc es by simp
  also have "\<dots> = drop (length (rs @ [r]) - ?M) (?es @ [run_entry job r (min (length rs) ?M)])"
  proof (cases "length rs < ?M")
    case True
    then show ?thesis by (simp add: push_run_def Let_def)
  next
    case False
    then have "drop 1 (drop (length rs - ?M) ?es @ [e]) = drop (Suc (length rs) - ?M) (?es @ [e])" for e
      using history_max_pos by (simp add: Suc_diff_le)
    with False show ?thesis unfolding push_run_def Let_def len by simp
  qed
  finally show ?case unfolding all .
qed simp

section \<open>Claims\<close>

definition run_id :: "run \<Rightarrow> string" where
  "run_id r = s_id (r_task r)"

definition claims_ok :: "sched \<Rightarrow> bool" where
  "claims_ok s = (distinct (map run_id (s_runs s)) \<and> s_in_flight s = run_id ` set (s_runs s))"

text \<open>What no operation but the named ones touches.\<close>

lemma with_jobs_frame [simp]:
  "s_tasks (with_jobs f s) = s_tasks s" "s_runs (with_jobs f s) = s_runs s"
  "s_in_flight (with_jobs f s) = s_in_flight s" "s_pending (with_jobs f s) = s_pending s"
  "s_history (with_jobs f s) = s_history s" "s_jobs (with_jobs f s) = map_option f (s_jobs s)"
  "s_runtime (with_jobs f s) = s_runtime s"
  by (simp_all add: with_jobs_def)

lemma record_run_frame [simp]:
  "s_tasks (record_run_in i r s) = s_tasks s" "s_runs (record_run_in i r s) = s_runs s"
  "s_in_flight (record_run_in i r s) = s_in_flight s" "s_pending (record_run_in i r s) = s_pending s"
  by (simp_all add: record_run_in_def)

lemma settle_memory_frame:
  "settle_memory cal show_time now t r s = (next_at, s') \<Longrightarrow>
     s_runs s' = s_runs s \<and> s_in_flight s' = s_in_flight s \<and> s_pending s' = s_pending s
     \<and> (\<forall>i. i \<noteq> s_id t \<longrightarrow> s_tasks s' i = s_tasks s i)"
  by (auto simp: settle_memory_def Let_def split: if_splits option.splits)

lemma settle_in_storage_frame [simp]:
  "s_tasks (settle_in_storage show_time t r n s) = s_tasks s"
  "s_runs (settle_in_storage show_time t r n s) = s_runs s"
  "s_in_flight (settle_in_storage show_time t r n s) = s_in_flight s"
  "s_pending (settle_in_storage show_time t r n s) = s_pending s"
  by (simp_all add: settle_in_storage_def)

lemma set_phase_frame [simp]:
  "s_tasks (set_phase k p s) = s_tasks s" "s_in_flight (set_phase k p s) = s_in_flight s"
  "s_pending (set_phase k p s) = s_pending s"
  by (simp_all add: set_phase_def)

lemma run_id_phase [simp]: "run_id (r\<lparr>r_phase := p\<rparr>) = run_id r"
  by (simp add: run_id_def)

lemma set_phase_ids [simp]: "map run_id (s_runs (set_phase k p s)) = map run_id (s_runs s)"
  by (cases "k < length (s_runs s)")
    (simp_all add: set_phase_def map_update list_update_same_conv list_update_beyond)

lemma claims_ok_ids:
  "claims_ok s \<longleftrightarrow> distinct (map run_id (s_runs s)) \<and> s_in_flight s = set (map run_id (s_runs s))"
  by (simp add: claims_ok_def)

lemma claims_cong:
  "map run_id (s_runs s') = map run_id (s_runs s) \<Longrightarrow> s_in_flight s' = s_in_flight s \<Longrightarrow>
     claims_ok s' = claims_ok s"
  unfolding claims_ok_ids by simp

lemma settle_frame:
  "map run_id (s_runs (settle cal show_time now k r s)) = map run_id (s_runs s)"
  "s_in_flight (settle cal show_time now k r s) = s_in_flight s"
  "s_pending (settle cal show_time now k r s) = s_pending s"
  "i \<noteq> run_id (s_runs s ! k) \<Longrightarrow> s_tasks (settle cal show_time now k r s) i = s_tasks s i"
  using settle_memory_frame [of cal show_time now "r_task (s_runs s ! k)" r s]
  by (auto simp: settle_def run_id_def split: prod.split)

lemma claims_visit: "claims_ok s \<Longrightarrow> claims_ok (visit from_std inst s)"
  by (auto simp: visit_def claims_ok_def claim_take_def run_id_def Let_def split: list.split)

lemma claims_release:
  assumes "claims_ok s" and "k < length (s_runs s)"
  shows "claims_ok (release k s)"
proof -
  let ?r = "s_runs s ! k"
  have split: "s_runs s = take k (s_runs s) @ ?r # drop (Suc k) (s_runs s)"
    using assms(2) by (rule id_take_nth_drop)
  then have "distinct (map run_id (take k (s_runs s) @ ?r # drop (Suc k) (s_runs s)))"
    using assms(1) by (simp add: claims_ok_def)
  moreover have "s_in_flight s = run_id ` set (take k (s_runs s) @ ?r # drop (Suc k) (s_runs s))"
    using assms(1) split by (simp add: claims_ok_def)
  ultimately have "s_in_flight s - {run_id ?r}
      = run_id ` set (take k (s_runs s)) \<union> run_id ` set (drop (Suc k) (s_runs s))"
    unfolding set_append list.set image_Un image_insert distinct_append map_append list.map
      distinct.simps set_map by blast
  with \<open>distinct _\<close> show ?thesis
    by (simp add: claims_ok_def release_def claim_drop_def image_Un flip: run_id_def)
qed

lemma claims_step: "sched_step w serial s l s' \<Longrightarrow> claims_ok s \<Longrightarrow> claims_ok s'"
proof (induction rule: sched_step.induct)
  case Visit
  then show ?case by (intro claims_visit)
next
  case Release
  then show ?case by (intro claims_release)
next
  case (Settle k s r)
  then show ?case using claims_cong [OF settle_frame(1,2)] by blast
next
  case (Answer k s r)
  then show ?case by (subst claims_cong) (simp_all add: answer_def)
next
  case (Store k s r next_at)
  then show ?case by (subst claims_cong) (simp_all add: store_run_def)
qed (auto simp: claims_ok_def load_jobs_def add_task_def remove_task_def update_schedule_def
      set_task_enabled_def apply_settings_def settle_now_def take_snapshot_def Let_def
      split: option.splits sum.splits)

section \<open>One-shots\<close>

definition keyed :: "sched \<Rightarrow> bool" where
  "keyed s = (\<forall>i t. s_tasks s i = Some t \<longrightarrow> s_id t = i)"

fun settled :: "phase \<Rightarrow> bool" where
  "settled Executing = False"
| "settled (Recorded _) = False"
| "settled (InMemory _ _) = True"
| "settled Stored = True"

text \<open>A task that is over: not in the map, not in the snapshot the loop goes through, and in no run
  that has yet to settle.\<close>

definition over :: "string \<Rightarrow> sched \<Rightarrow> bool" where
  "over i s = (s_tasks s i = None \<and> i \<notin> s_id ` set (s_pending s)
     \<and> (\<forall>r \<in> set (s_runs s). run_id r = i \<longrightarrow> settled (r_phase r)))"

lemma ran_id [simp]: "s_id (ran cal now r t) = s_id t"
  by (simp add: ran_def)

lemma keyed_load: "keyed s \<Longrightarrow> keyed (snd (load_jobs cal rd ps tz inst now s))"
proof -
  assume "keyed s"
  then have "\<forall>i t. fold (\<lambda>job m. m(j_id job \<mapsto> job_to_task cal rd ps tz inst now job)) jobs (s_tasks s) i
      = Some t \<longrightarrow> s_id t = i" for jobs
  proof (induction jobs rule: rev_induct)
    case (snoc job jobs)
    then show ?case by (auto simp: job_to_task_def)
  qed (simp add: keyed_def)
  with \<open>keyed s\<close> show ?thesis by (auto simp: load_jobs_def keyed_def split: option.split)
qed

lemma keyed_settle: "keyed s \<Longrightarrow> keyed (settle cal show_time now k r s)"
  by (auto simp: settle_def settle_memory_def keyed_def Let_def split: if_splits option.splits)

lemma keyed_step: "sched_step w serial s l s' \<Longrightarrow> keyed s \<Longrightarrow> keyed s'"
proof (induction rule: sched_step.induct)
  case Load
  then show ?case by (rule keyed_load)
next
  case Settle
  then show ?case by (intro keyed_settle)
next
  case (Visit s inst)
  then show ?case by (auto simp: visit_def keyed_def Let_def split: list.split option.split)
next
  case (Reschedule s now i schedule)
  then show ?case
    by (auto simp: update_schedule_def keyed_def Let_def split: option.split sum.split)
qed (auto simp: keyed_def add_task_def remove_task_def set_task_enabled_def apply_settings_def
      settle_now_def take_snapshot_def answer_def store_run_def release_def Let_def)

lemma over_cong:
  assumes "s_tasks s' i = None" "s_pending s' = s_pending s" "s_runs s' = s_runs s" and "over i s"
  shows "over i s'"
  using assms by (simp add: over_def)

lemma over_phase:
  assumes "over i s" and "k < length (s_runs s)" and "run_id (s_runs s ! k) = i \<Longrightarrow> settled p"
  shows "over i (set_phase k p s)"
proof -
  have "settled (r_phase r)" if "r \<in> set (s_runs (set_phase k p s))" "run_id r = i" for r
  proof -
    from that(1) have "r \<in> set ((s_runs s)[k := (s_runs s ! k)\<lparr>r_phase := p\<rparr>])"
      by (simp add: set_phase_def)
    then have "r = (s_runs s ! k)\<lparr>r_phase := p\<rparr> \<or> r \<in> set (s_runs s)"
      using set_update_subset_insert [of "s_runs s" k] by blast
    then show ?thesis using that(2) assms by (auto simp: over_def)
  qed
  with assms(1) show ?thesis by (simp add: over_def)
qed

lemma over_unsettled:
  "over i s \<Longrightarrow> k < length (s_runs s) \<Longrightarrow> \<not> settled (r_phase (s_runs s ! k)) \<Longrightarrow> run_id (s_runs s ! k) \<noteq> i"
  by (auto simp: over_def)

lemma over_settle:
  assumes "over i s" and "k < length (s_runs s)" and "run_id (s_runs s ! k) \<noteq> i"
  shows "over i (settle cal show_time now k r s)"
proof -
  obtain n s' where s': "settle_memory cal show_time now (r_task (s_runs s ! k)) r s = (n, s')"
    by (cases "settle_memory cal show_time now (r_task (s_runs s ! k)) r s")
  note frame = settle_memory_frame [OF s']
  with assms have "over i s'" by (auto simp: over_def run_id_def)
  then show ?thesis
    using s' frame assms(2,3) by (auto simp: settle_def intro: over_phase)
qed

lemma over_step:
  "sched_step w serial s l s' \<Longrightarrow> keyed s \<Longrightarrow> over i s \<Longrightarrow> l \<noteq> Added i \<Longrightarrow> l \<noteq> Loaded \<Longrightarrow>
     over i s' \<and> l \<noteq> Delivered i"
proof (induction rule: sched_step.induct)
  case (Tick s ts now)
  then show ?case by (auto simp: over_def take_snapshot_def keyed_def)
next
  case (Visit s inst)
  then show ?case
    by (auto simp: visit_def over_def run_id_def claim_take_def Let_def split: list.splits if_splits)
next
  case (Answer k s r)
  then have "run_id (s_runs s ! k) \<noteq> i" using over_unsettled by simp
  moreover have "over i (record_run_in (res_task r) r s)" using Answer by (simp add: over_def)
  ultimately show ?case using Answer unfolding answer_def by (auto intro!: over_phase)
next
  case (Settle k s r now)
  then have "run_id (s_runs s ! k) \<noteq> i" using over_unsettled by simp
  with Settle over_settle show ?case by (simp add: run_id_def)
next
  case (Store k s r next_at)
  then have "over i (settle_in_storage (w_show w) (r_task (s_runs s ! k)) r next_at s)"
    by (simp add: over_def)
  with Store show ?case unfolding store_run_def by (auto intro!: over_phase)
next
  case (Release k s)
  then show ?case by (auto simp: over_def release_def dest: in_set_takeD in_set_dropD)
next
  case (Reschedule s now j schedule)
  then show ?case
    by (auto simp: update_schedule_def over_def Let_def split: option.split sum.split)
qed (auto simp: over_def add_task_def remove_task_def set_task_enabled_def apply_settings_def
      settle_now_def Let_def)

lemma settle_one_shot:
  assumes "is_one_shot (s_type (r_task (s_runs s ! k)))" and "res_success r"
  shows "settle cal show_time now k r s = set_phase k (InMemory r None)
    (s\<lparr>s_tasks := (s_tasks s)(run_id (s_runs s ! k) := None)\<rparr>)"
  using assms by (simp add: settle_def settle_memory_def run_id_def)

lemma delivered_over:
  assumes "sched_step w True s (Delivered i) s'" and "claims_ok s"
  shows "over i s'"
proof -
  from assms(1) obtain k r now where k: "k < length (s_runs s)" "r_phase (s_runs s ! k) = Recorded r"
    and idle: "s_pending s = []" and i: "i = run_id (s_runs s ! k)"
    and done_now: "is_one_shot (s_type (r_task (s_runs s ! k)))" "res_success r"
    and s': "s' = settle (w_cal w) (w_show w) now k r s"
    by (cases rule: sched_step.cases) (auto simp: run_id_def split: if_splits)
  have s'_eq: "s' = set_phase k (InMemory r None) (s\<lparr>s_tasks := (s_tasks s)(i := None)\<rparr>)"
    using settle_one_shot [OF done_now] i by (simp add: s')
  have "settled (r_phase x)" if "x \<in> set (s_runs s')" "run_id x = i" for x
  proof -
    from that(1) obtain j where j: "j < length (s_runs s)"
      "x = (s_runs s)[k := (s_runs s ! k)\<lparr>r_phase := InMemory r None\<rparr>] ! j"
      by (auto simp: s'_eq set_phase_def in_set_conv_nth)
    have "j = k"
    proof (rule ccontr)
      assume "j \<noteq> k"
      then have "map run_id (s_runs s) ! j = map run_id (s_runs s) ! k" using j k that(2) i by simp
      with \<open>j \<noteq> k\<close> show False
        using assms(2) j(1) k(1) unfolding claims_ok_def by (metis length_map nth_eq_iff_index_eq)
    qed
    with j k show ?thesis by simp
  qed
  with idle show ?thesis by (simp add: over_def s'_eq)
qed

lemma exec_Cons:
  assumes "sched_step w serial s l s'" and "sched_exec w serial s' ls s''"
  shows "sched_exec w serial s (l # ls) s''"
  using assms(2)
proof induction
  case Start
  from sched_exec.Step [OF sched_exec.Start assms(1)] show ?case by simp
next
  case (Step ls t l' t')
  from sched_exec.Step [OF Step.IH Step.hyps(2)] show ?case by simp
qed

lemma exec_append:
  assumes "sched_exec w serial s ls s'" and "sched_exec w serial s' ms s''"
  shows "sched_exec w serial s (ls @ ms) s''"
  using assms(2)
proof induction
  case (Step ms t l t')
  from sched_exec.Step [OF Step.IH Step.hyps(2)] show ?case by simp
qed (simp add: assms(1))

lemma deliver_step:
  assumes "k < length (s_runs s)" "r_phase (s_runs s ! k) = Recorded r" "\<not> (serial \<and> s_pending s \<noteq> [])"
    and "is_one_shot (s_type (r_task (s_runs s ! k)))" "res_success r" "i = run_id (s_runs s ! k)"
  shows "sched_step w serial s (Delivered i)
    (set_phase k (InMemory r None) (s\<lparr>s_tasks := (s_tasks s)(i := None)\<rparr>))"
  using sched_step.Settle [OF assms(1-3), of w 0] assms(4-6)
  by (simp add: settle_one_shot [OF assms(4,5)]) (simp add: run_id_def)

lemma exec_started:
  assumes "sched_exec w serial (new_sched rt jobs) ls s"
  shows "keyed s" "claims_ok s"
proof -
  have "keyed s \<and> claims_ok s"
    using assms
  proof induction
    case Start
    then show ?case by (simp add: keyed_def claims_ok_def new_sched_def)
  next
    case (Step ls s l s')
    then show ?case using keyed_step claims_step by blast
  qed
  then show "keyed s" "claims_ok s" by auto
qed

text \<open>
  C23: However ticks, runs and clients interleave, no task has two scheduled runs in progress, and
  the claims are exactly those of the runs in progress.
\<close>

theorem one_run_per_task:
  assumes "sched_exec w serial (new_sched rt jobs) ls s"
  shows "distinct (map run_id (s_runs s)) \<and> s_in_flight s = run_id ` set (s_runs s)"
  using exec_started(2) [OF assms] by (simp add: claims_ok_def)


section \<open>Runs of a reminder\<close>

definition sample_world :: world where
  "sample_world = \<lparr>w_from_std = (\<lambda>d. Some (int d)), w_cal = sample_calendar, w_show = sample_show,
     w_read = sample_read, w_parse = sample_read, w_timezone = ''UTC''\<rparr>"

definition sample_runtime :: runtime where
  "sample_runtime = runtime_from_config True False 0"

definition sample_result :: task_result where
  "sample_result = \<lparr>res_task = ''stretch-1'', res_name = ''stretch'', res_success = True,
     res_output = None, res_error = None, res_duration_ms = 0, res_started = 100000000000, res_finished = 100000000001\<rparr>"

text \<open>Added, found due and spawned; and, with its answer in the history, still in the map.\<close>

definition spawned :: sched where
  "spawned = visit (w_from_std sample_world) 0 (take_snapshot 100000000000 [sample_job]
     (add_task (w_show sample_world) sample_job (new_sched sample_runtime (Some []))))"

definition answered :: sched where
  "answered = answer 0 sample_result spawned"

lemma sample_due: "is_task_due from_std inst 100000000000 sample_job"
  by (simp add: is_task_due_def sample_job_def)

lemma spawned_fields:
  "s_tasks spawned = (\<lambda>_. None)(''stretch-1'' \<mapsto> sample_job)" "s_pending spawned = []"
  "s_in_flight spawned = {''stretch-1''}" "s_runs spawned = [\<lparr>r_task = sample_job, r_phase = Executing\<rparr>]"
  "s_runtime spawned = sample_runtime" "s_tick_now spawned = 100000000000"
  by (simp_all add: spawned_def visit_def take_snapshot_def add_task_def new_sched_def sample_due
      claim_take_def with_jobs_def Let_def) (simp_all add: sample_job_def)

lemma spawned_exec: "sched_exec sample_world serial (new_sched sample_runtime (Some [])) [Added ''stretch-1'', Silent, Silent] spawned"
proof -
  define s0 s1 s2 where "s0 = new_sched sample_runtime (Some [])"
    and "s1 = add_task (w_show sample_world) sample_job s0"
    and "s2 = take_snapshot 100000000000 [sample_job] s1"
  have i: "s_id sample_job = ''stretch-1''" by (simp add: sample_job_def)
  have "sched_step sample_world serial s0 (Added ''stretch-1'') s1"
    unfolding s1_def i [symmetric] by (rule sched_step.Add)
  moreover have "sched_step sample_world serial s1 Silent s2"
    unfolding s2_def
    by (rule sched_step.Tick) (auto simp: s1_def s0_def add_task_def new_sched_def with_jobs_def Let_def
        sample_runtime_def runtime_from_config_def split: if_splits)
  moreover have "sched_step sample_world serial s2 Silent (visit (w_from_std sample_world) 0 s2)"
    by (rule sched_step.Visit) (simp add: s2_def take_snapshot_def)
  ultimately have "sched_exec sample_world serial s0 [Added ''stretch-1'', Silent, Silent]
      (visit (w_from_std sample_world) 0 s2)"
    by (meson exec_Cons sched_exec.Start)
  then show ?thesis by (simp add: spawned_def s0_def s1_def s2_def)
qed

theorem one_run_per_task_witness:
  "distinct (map run_id (s_runs spawned)) \<and> s_in_flight spawned = run_id ` set (s_runs spawned)
   \<and> length (s_runs spawned) = 1"
  using one_run_per_task [OF spawned_exec [of False]] by (simp add: spawned_fields)

text \<open>From there to the delivery, with nothing between: the memory, the table, the claim.\<close>

lemma answer_step: "sched_step sample_world serial spawned Silent answered"
  unfolding answered_def by (rule sched_step.Answer) (simp_all add: spawned_fields)

lemma answered_fields:
  "s_tasks answered = (\<lambda>_. None)(''stretch-1'' \<mapsto> sample_job)" "s_pending answered = []"
  "s_in_flight answered = {''stretch-1''}"
  "s_runs answered = [\<lparr>r_task = sample_job, r_phase = Recorded sample_result\<rparr>]"
  "s_runtime answered = sample_runtime" "s_tick_now answered = 100000000000"
  by (simp_all add: answered_def answer_def set_phase_def record_run_in_def spawned_fields)

lemma sample_one_shot:
  "is_one_shot (s_type sample_job)" "res_success sample_result" "s_id sample_job = ''stretch-1''"
  by (simp_all add: sample_job_def sample_result_def)

definition delivered :: sched where
  "delivered = set_phase 0 (InMemory sample_result None)
     (answered\<lparr>s_tasks := (s_tasks answered)(''stretch-1'' := None)\<rparr>)"

lemma delivered_step: "sched_step sample_world serial answered (Delivered ''stretch-1'') delivered"
  unfolding delivered_def by (rule deliver_step) (simp_all add: answered_fields sample_one_shot run_id_def)


text \<open>
  C38: Without that proviso it is delivered twice: a second tick takes its snapshot while the first
  run has its answer but has not settled, the run settles and drops its claim, and the loop then
  finds the task due in the snapshot and unclaimed. The claim is taken after the state it protects
  was read.
\<close>

theorem stale_snapshot_delivers_twice:
  "\<exists>ls s. sched_exec sample_world False (new_sched sample_runtime (Some [])) (Added ''stretch-1'' # ls) s
     \<and> list_all (\<lambda>l. l = Silent \<or> l = Delivered ''stretch-1'') ls
     \<and> count_list ls (Delivered ''stretch-1'') = 2"
proof -
  let ?run = "\<lambda>p. \<lparr>r_task = sample_job, r_phase = p\<rparr>"
  let ?step = "sched_step sample_world False"
  define s1 where "s1 = take_snapshot 100000000000 [sample_job] answered"
  define s2 where "s2 = set_phase 0 (InMemory sample_result None)
    (s1\<lparr>s_tasks := (s_tasks s1)(''stretch-1'' := None)\<rparr>)"
  define s3 where "s3 = store_run (w_show sample_world) 0 sample_result None s2"
  define s4 where "s4 = release 0 s3"
  define s5 where "s5 = visit (w_from_std sample_world) 0 s4"
  define s6 where "s6 = answer 0 sample_result s5"
  define s7 where "s7 = set_phase 0 (InMemory sample_result None)
    (s6\<lparr>s_tasks := (s_tasks s6)(''stretch-1'' := None)\<rparr>)"
  have r1: "s_runs s1 = [?run (Recorded sample_result)]" "s_pending s1 = [sample_job]"
    by (simp_all add: s1_def take_snapshot_def answered_fields)
  have r2: "s_runs s2 = [?run (InMemory sample_result None)]" using r1 by (simp add: s2_def set_phase_def)
  have r3: "s_runs s3 = [?run Stored]" using r2 by (simp add: s3_def store_run_def set_phase_def)
  have r4: "s_runs s4 = []" "s_pending s4 = [sample_job]" "s_in_flight s4 = {}" "s_tick_now s4 = 100000000000"
    using r3 by (simp_all add: s4_def release_def claim_drop_def sample_one_shot s3_def store_run_def
        s2_def s1_def take_snapshot_def answered_fields settle_in_storage_def with_jobs_def set_phase_def)
  have r5: "s_runs s5 = [?run Executing]" "s_pending s5 = []"
    using r4 by (simp_all add: s5_def visit_def sample_due claim_take_def Let_def)
  have r6: "s_runs s6 = [?run (Recorded sample_result)]" using r5 by (simp add: s6_def answer_def set_phase_def)
  have "?step answered Silent s1"
    unfolding s1_def
    by (rule sched_step.Tick) (auto simp: answered_fields sample_runtime_def runtime_from_config_def split: if_splits)
  moreover have "?step s1 (Delivered ''stretch-1'') s2"
    unfolding s2_def by (rule deliver_step) (simp_all add: r1 sample_one_shot run_id_def)
  moreover have "?step s2 Silent s3" unfolding s3_def by (rule sched_step.Store) (simp_all add: r2)
  moreover have "?step s3 Silent s4" unfolding s4_def by (rule sched_step.Release) (simp_all add: r3)
  moreover have "?step s4 Silent s5" unfolding s5_def by (rule sched_step.Visit) (simp add: r4)
  moreover have "?step s5 Silent s6" unfolding s6_def by (rule sched_step.Answer) (simp_all add: r5)
  moreover have "?step s6 (Delivered ''stretch-1'') s7"
    unfolding s7_def by (rule deliver_step) (simp_all add: r6 sample_one_shot run_id_def)
  ultimately have "sched_exec sample_world False spawned
      [Silent, Silent, Delivered ''stretch-1'', Silent, Silent, Silent, Silent, Delivered ''stretch-1''] s7"
    by (meson exec_Cons sched_exec.Start answer_step)
  from exec_append [OF spawned_exec this] show ?thesis
    by (intro exI [of _ "[Silent, Silent] @ [Silent, Silent, Delivered ''stretch-1'', Silent, Silent, Silent, Silent,
      Delivered ''stretch-1'']"] exI [of _ s7]) simp
qed

end
