(* ===== verification/Scheduler_Restart.thy ===== *)
theory Scheduler_Restart
  imports Scheduler_Runs
begin

text \<open>
  What the scheduler relies on in the job table, as a locale with the table of
  \<open>repositories.rs\<close> as its instance, and what a restart makes of a settled one-shot and of a
  changed schedule.
\<close>

section \<open>The table's contract\<close>

locale job_store =
  fixes lookup :: "string \<Rightarrow> 'd \<Rightarrow> cron_job option"
    and create :: "new_cron_job \<Rightarrow> 'd \<Rightarrow> 'd"
    and update_last_run :: "string \<Rightarrow> string \<Rightarrow> string option \<Rightarrow> 'd \<Rightarrow> 'd"
    and set_enabled :: "string \<Rightarrow> bool \<Rightarrow> 'd \<Rightarrow> 'd"
    and delete_job :: "string \<Rightarrow> 'd \<Rightarrow> 'd"
  assumes lookup_create: "lookup i (create new d) =
      (if i = nj_id new
       then Some \<lparr>j_id = i, j_schedule = nj_schedule new, j_task = nj_task new, j_enabled = nj_enabled new,
         j_last_run = Option.bind (lookup i d) j_last_run, j_next_run = nj_next_run new\<rparr>
       else lookup i d)"
    and lookup_last_run: "lookup i (update_last_run j l n d) =
      (if i = j then map_option (\<lambda>row. row\<lparr>j_last_run := Some l, j_next_run := n\<rparr>) (lookup i d)
       else lookup i d)"
    and lookup_enabled: "lookup i (set_enabled j b d) =
      (if i = j then map_option (\<lambda>row. row\<lparr>j_enabled := b\<rparr>) (lookup i d) else lookup i d)"
    and lookup_delete: "lookup i (delete_job j d) = (if i = j then None else lookup i d)"
begin

lemma last_run_keeps_schedule:
  "map_option (\<lambda>row. (j_schedule row, j_task row, j_enabled row)) (lookup i (update_last_run j l n d))
     = map_option (\<lambda>row. (j_schedule row, j_task row, j_enabled row)) (lookup i d)"
  by (simp add: lookup_last_run option.map_comp comp_def)

lemma settled_off:
  "case lookup i (if ok then delete_job i d else set_enabled i False (update_last_run i l n d)) of
     None \<Rightarrow> True | Some row \<Rightarrow> \<not> ok \<and> \<not> j_enabled row"
  by (simp add: lookup_delete lookup_enabled lookup_last_run option.map_comp comp_def split: option.split)

lemma delete_after_create:
  "lookup i (delete_job (nj_id new) (create new d)) = (if i = nj_id new then None else lookup i d)"
  by (simp add: lookup_delete lookup_create)

end

lemma jobs_get_Cons: "jobs_get i (row # rows) = (if j_id row = i then Some row else jobs_get i rows)"
  by (simp add: jobs_get_def)

lemma jobs_get_Nil: "jobs_get i [] = None"
  by (simp add: jobs_get_def)

lemmas jobs_get_simps = jobs_get_Cons jobs_get_Nil

lemma jobs_get_None: "jobs_get i rows = None \<longleftrightarrow> i \<notin> j_id ` set rows"
  by (induction rows) (auto simp: jobs_get_simps)

interpretation table: job_store jobs_get jobs_create jobs_update_last_run jobs_set_enabled jobs_delete
proof
  fix i j l n b and new :: new_cron_job and d :: "cron_job list"
  show "jobs_get i (jobs_create new d) =
      (if i = nj_id new
       then Some \<lparr>j_id = i, j_schedule = nj_schedule new, j_task = nj_task new, j_enabled = nj_enabled new,
         j_last_run = Option.bind (jobs_get i d) j_last_run, j_next_run = nj_next_run new\<rparr>
       else jobs_get i d)"
    by (induction new d rule: jobs_create.induct) (auto simp: jobs_get_simps)
  show "jobs_get i (jobs_update_last_run j l n d) =
      (if i = j then map_option (\<lambda>row. row\<lparr>j_last_run := Some l, j_next_run := n\<rparr>) (jobs_get i d)
       else jobs_get i d)"
    by (induction d) (auto simp: jobs_update_last_run_def jobs_where_def jobs_get_simps)
  show "jobs_get i (jobs_set_enabled j b d) =
      (if i = j then map_option (\<lambda>row. row\<lparr>j_enabled := b\<rparr>) (jobs_get i d) else jobs_get i d)"
    by (induction d) (auto simp: jobs_set_enabled_def jobs_where_def jobs_get_simps)
  show "jobs_get i (jobs_delete j d) = (if i = j then None else jobs_get i d)"
    by (induction d) (auto simp: jobs_delete_def jobs_get_simps)
qed

section \<open>Restarting\<close>

text \<open>A new process over the table the old one left.\<close>

definition restart :: "world \<Rightarrow> runtime \<Rightarrow> int \<Rightarrow> int \<Rightarrow> sched \<Rightarrow> sched" where
  "restart w rt inst now s =
     snd (load_jobs (w_cal w) (w_read w) (w_parse w) (w_timezone w) inst now (new_sched rt (s_jobs s)))"

lemma load_lookup:
  assumes "distinct (map j_id jobs)"
  shows "fold (\<lambda>job m. m(j_id job \<mapsto> f job)) jobs m i =
    (case jobs_get i jobs of None \<Rightarrow> m i | Some row \<Rightarrow> Some (f row))"
  using assms
proof (induction jobs arbitrary: m)
  case (Cons job jobs)
  have "jobs_get (j_id job) jobs = None"
    using Cons.prems by (simp add: jobs_get_None)
  with Cons show ?case by (auto simp: jobs_get_Cons split: option.split)
qed (simp add: jobs_get_Nil)

lemma restart_lookup:
  assumes "s_jobs s = Some jobs" and "distinct (map j_id jobs)"
  shows "s_tasks (restart w rt inst now s) i =
    map_option (job_to_task (w_cal w) (w_read w) (w_parse w) (w_timezone w) inst now) (jobs_get i jobs)"
  unfolding restart_def load_jobs_def new_sched_def
  by (simp add: assms(1) load_lookup [OF assms(2)] split: option.split)

lemma jobs_ids:
  "map j_id (jobs_update_last_run i l n jobs) = map j_id jobs"
  "map j_id (jobs_set_enabled i b jobs) = map j_id jobs"
  "distinct (map j_id jobs) \<Longrightarrow> distinct (map j_id (jobs_delete i jobs))"
  by (auto simp: jobs_update_last_run_def jobs_set_enabled_def jobs_where_def jobs_delete_def
      distinct_map_filter)

text \<open>
  A one-shot that has settled is over: after a success it is in neither the map nor the table,
  after a failure it is disabled wherever it still is, and a restart brings it back in no other way.
\<close>

theorem one_shot_settles:
  assumes "is_one_shot (s_type task)" and "s_jobs s = Some jobs" and "distinct (map j_id jobs)"
    and "settle_memory cal show_time now task r s = (next_at, s1)"
    and "s2 = settle_in_storage show_time task r next_at s1"
  shows "(case s_tasks s2 (s_id task) of None \<Rightarrow> True | Some t \<Rightarrow> \<not> res_success r \<and> \<not> s_enabled t)
    \<and> (case s_tasks (restart w rt inst now' s2) (s_id task) of
         None \<Rightarrow> True | Some t \<Rightarrow> \<not> res_success r \<and> \<not> s_enabled t)"
proof -
  define ok where "ok = res_success r"
  define jobs2 where "jobs2 = (if ok then jobs_delete (s_id task) jobs
    else jobs_set_enabled (s_id task) False
      (jobs_update_last_run (s_id task) (show_time (res_finished r)) next_at jobs))"
  have s1: "s_jobs s1 = Some jobs"
    and mem: "case s_tasks s1 (s_id task) of None \<Rightarrow> True | Some t \<Rightarrow> \<not> ok \<and> \<not> s_enabled t"
    using assms(1,2,4) by (auto simp: settle_memory_def ok_def Let_def split: if_splits option.splits)
  then have s2: "s_jobs s2 = Some jobs2" "s_tasks s2 = s_tasks s1"
    using assms(1,5) by (simp_all add: settle_in_storage_def jobs2_def ok_def Let_def)
  have "distinct (map j_id jobs2)" using assms(3) by (simp add: jobs2_def jobs_ids)
  from restart_lookup [OF s2(1) this]
  have "s_tasks (restart w rt inst now' s2) (s_id task) =
      map_option (job_to_task (w_cal w) (w_read w) (w_parse w) (w_timezone w) inst now') (jobs_get (s_id task) jobs2)" .
  with table.settled_off [where i = "s_id task" and ok = ok and d = jobs and l = "show_time (res_finished r)" and n = next_at] mem s2(2)
  show ?thesis unfolding jobs2_def [symmetric] ok_def [symmetric]
    by (auto simp: job_to_task_def split: option.splits)
qed

text \<open>
  A changed schedule lasts until the next restart: \<open>update_schedule\<close> writes the next run to
  the table and not the schedule, so that the process that reads the table back runs the task on
  the schedule it had before.
\<close>

theorem reschedule_lost_at_restart:
  assumes "parse_cron schedule = Inr e" and "s_tasks s i = Some t"
    and "s_jobs s = Some jobs" and "distinct (map j_id jobs)" and "jobs_get i jobs = Some row"
    and "update_schedule cal show_time now i schedule s = (res, s')"
  shows "res = Inr True
    \<and> map_option s_type (s_tasks s' i) = Some (CronTask schedule (Some e) (next_from_now cal now e))
    \<and> map_option s_type (s_tasks (restart w rt inst now' s') i)
        = Some (job_type (w_cal w) (w_read w) inst now' (j_schedule row))"
proof -
  define next_at where "next_at = map_option show_time (next_from_now cal now e)"
  have s': "res = Inr True" "s_jobs s' = Some (jobs_update_last_run i [] next_at jobs)"
    "map_option s_type (s_tasks s' i) = Some (CronTask schedule (Some e) (next_from_now cal now e))"
    using assms(1,2,3,6) by (auto simp: update_schedule_def next_at_def Let_def)
  have "distinct (map j_id (jobs_update_last_run i [] next_at jobs))" using assms(4) by (simp add: jobs_ids)
  from restart_lookup [OF s'(2) this] show ?thesis
    using s'(1,3) assms(5) by (simp add: table.lookup_last_run job_to_task_def)
qed

section \<open>Duplicates\<close>

lemma remove_all_tasks: "s_tasks (remove_all ids s) i = (if i \<in> set ids then None else s_tasks s i)"
  unfolding remove_all_def by (induction ids arbitrary: s) (auto simp: remove_task_def Let_def)

text \<open>Of the tasks with a name, the one with the least id is kept.\<close>

lemma deduplicate_keeps_least:
  assumes "distinct (map s_id vs)" and "sort_key s_id (filter (\<lambda>t. s_name t = name) vs) = t # ts"
  shows "s_tasks (snd (deduplicate_by_name vs name s)) i = (if i \<in> s_id ` set ts then None else s_tasks s i)"
    and "\<And>u. u \<in> set vs \<Longrightarrow> s_name u = name \<Longrightarrow> u \<noteq> t \<Longrightarrow> s_id t < s_id u"
proof -
  show "s_tasks (snd (deduplicate_by_name vs name s)) i = (if i \<in> s_id ` set ts then None else s_tasks s i)"
    using assms(2) by (simp add: deduplicate_by_name_def remove_all_tasks Let_def)
  fix u assume u: "u \<in> set vs" "s_name u = name" "u \<noteq> t"
  have "set (t # ts) = set (filter (\<lambda>t. s_name t = name) vs)" unfolding assms(2) [symmetric] by simp
  with u have "u \<in> set ts" by auto
  moreover have "sorted (map s_id (t # ts))" unfolding assms(2) [symmetric] by simp
  moreover have "distinct (map s_id (t # ts))"
    unfolding assms(2) [symmetric] using distinct_map_filter [OF assms(1)] by (simp add: distinct_map)
  ultimately show "s_id t < s_id u" by (auto simp: order_le_less)
qed

section \<open>Examples\<close>

definition sample_sched :: sched where
  "sample_sched = add_task sample_show sample_job (new_sched sample_runtime (Some []))"

definition sample_row :: cron_job where
  "sample_row = \<lparr>j_id = ''stretch-1'', j_schedule = ''at_'' @ sample_show 90000000000,
     j_task = task_json sample_job, j_enabled = True, j_last_run = None,
     j_next_run = Some (sample_show 90000000000)\<rparr>"

lemma sample_sched_fields:
  "s_jobs sample_sched = Some [sample_row]" "s_tasks sample_sched ''stretch-1'' = Some sample_job"
  by (simp_all add: sample_sched_def add_task_def new_sched_def with_jobs_def persisted_def
      sample_row_def Let_def) (simp_all add: sample_job_def AT_SCHEDULE_PREFIX_def)

lemma daily_parses: "\<exists>e. parse_cron ''@daily'' = Inr e"
proof -
  have star: "parse_field ''*'' name mn mx = Inr {mn..mx}" if "mn \<le> mx" "mx < 2 ^ 32" for name mn mx
    using parse_field_items [OF that, of "[EveryValue]" name] by simp
  have zero: "parse_field ''0'' name 0 mx = Inr {0}" if "mx < 2 ^ 32" for name mx
  proof -
    have "decimal 0 = ''0''" by code_simp
    with parse_field_items [of 0 mx "[Value 0]" name] that show ?thesis by simp
  qed
  have "special (trim ''@daily'') = Some ''0 0 * * *''" by code_simp
  moreover have "split_whitespace (trim ''0 0 * * *'') = [''0'', ''0'', ''*'', ''*'', ''*'']" by code_simp
  ultimately show ?thesis
    by (simp add: parse_cron_def parse_fields_def Let_def star zero)
qed

end
