(* ===== verification/Spec2Isabelle.thy ===== *)
theory Spec2Isabelle
  imports Context_Unread Numeric_Float Harness_Results Channel_Delivery Circuit_Breaker Task_Schedule Store_Contracts Store_Completion Store_Sweeps Store_Events Store_Cascade
    Task_Query Declared_Invariants Chunking Scheduler_Restart
begin

text \<open>
  A verification of the deterministic core of Nanna, an agent that keeps its plan of work in a
  task store: the store and its board, the filter language that reads it, the prohibitions a user
  declares, the chunker of the memory, the scheduler with its cron expressions, the context an agent
  sends to its model, the numeric conversions under it, the long-horizon harness that works the
  tasks off, and the queue through which the chat channels send.

  \<^bold>\<open>Parts.\<close> Paths are relative to \<open>src/crates\<close>.

  \<^item> \<open>Prelude\<close>: results, Rust's \<open>str\<close> operations and list facts; \<open>Json\<close>: the values of
    \<open>serde_json\<close>; \<open>Reach\<close>: the interface of a graph search (locales \<open>graph_search\<close> and
    \<open>graph_walk\<close>) and what follows from it.
  \<^item> \<open>Task_Model\<close>: rows, patches and events (\<open>nanna-storage/src/models.rs\<close>,
    \<open>task_events.rs\<close>), the error type, and \<open>db\<close>, the state the repositories share.
  \<^item> \<open>Acceptance\<close>: the write boundary of acceptance checks (\<open>nanna-storage/src/tasks.rs\<close>),
    with the bit masks of its float coercion on \<open>64 word\<close>.
  \<^item> \<open>Task_Graph\<close>: the walks and the cycle and depth checks of \<open>tasks.rs\<close>;
    \<open>Graph_Invariant\<close>: well-formed graphs and the effect of each shape of write.
  \<^item> \<open>Store_Base\<close>, \<open>Task_Store\<close>: the statements and the operations of
    \<open>TaskRepository\<close> (\<open>create\<close>, \<open>get\<close>, \<open>update\<close>, \<open>complete\<close>,
    \<open>reopen\<close>, \<open>delete\<close>, \<open>clear\<close>, notes, the sweeps, \<open>import_v01\<close>).
    \<open>Members\<close>: the board (\<open>members.rs\<close>).
  \<^item> \<open>Store_Invariant\<close>, \<open>Store_Update\<close>, \<open>Store_Delete\<close>, \<open>Store_Rows\<close>: every
    operation keeps the invariant; the locale \<open>row_property\<close> carries a predicate on rows through
    all of them. \<open>Store_Reachable\<close>: the operations as a step relation and what holds in every
    reachable state.
  \<^item> \<open>Store_Contracts\<close>, \<open>Store_Completion\<close>, \<open>Store_Cascade\<close>, \<open>Store_Sweeps\<close>,
    \<open>Store_Events\<close>: what each operation promises, and the races its locks leave open.
  \<^item> \<open>Task_Schedule\<close>: \<open>list\<close>, \<open>next\<close>, \<open>next_admitted\<close>, \<open>counts\<close>; the
    comparator is a total order (locale \<open>comparator_order\<close>).
  \<^item> \<open>Task_Filter\<close>: the filter language (\<open>task_filter.rs\<close>) against its grammar;
    \<open>Filter_Text\<close>: its printer and the round trip; \<open>Task_Query\<close>: \<open>query\<close>.
  \<^item> \<open>Declared_Invariants\<close>: extraction, registry and lifting of file prohibitions
    (\<open>tasks.rs\<close>).
  \<^item> \<open>Chunking\<close>: \<open>nanna-memory/src/chunking.rs\<close> and the budget in \<open>service.rs\<close>.
  \<^item> \<open>Decimal\<close>: numerals as Rust prints and parses them; \<open>Cron\<close>:
    \<open>nanna-core/src/cron.rs\<close>.
  \<^item> \<open>Scheduler\<close>: tasks, when they are due and how they are stored
    (\<open>nanna-core/src/scheduler.rs\<close>, the job table of \<open>nanna-storage/src/repositories.rs\<close>);
    \<open>Scheduler_Runs\<close>: the clients' operations, the loop and its runs as one transition system
    (\<open>sched_step\<close>); \<open>Scheduler_Restart\<close>: the contract of the job table (locale
    \<open>job_store\<close>) and what a restart makes of it.
  \<^item> \<open>Unicode_Text\<close>: \<open>str\<close> over all of Unicode; \<open>Float_Rounding\<close>: a float operation as one
    rounding of the exact one; \<open>Token_Estimate\<close>: the estimates and budgets of
    \<open>nanna-llm/src/lib.rs\<close>; \<open>Content_Chunks\<close>: \<open>nanna-agent/src/chunker.rs\<close>;
    \<open>Numeric\<close>, \<open>Numeric_Float\<close>: the conversions of \<open>nanna-numeric/src/lib.rs\<close> on the bits
    of words, against the rounding of the values they denote.
  \<^item> \<open>Agent_Context\<close>: the state of \<open>AgentContext\<close> (\<open>nanna-agent/src/context.rs\<close>) with its
    pinned request, \<open>Context_Cuts\<close>, \<open>Context_Truncation\<close>, \<open>Context_Summary\<close>,
    \<open>Context_Budget\<close>: its reductions; \<open>Context_Request\<close>: the request it sends.
    \<open>Context_Pin\<close>, \<open>Context_Kept\<close> (locale \<open>context_reducer\<close>), \<open>Context_Passes\<close>,
    \<open>Context_Extract\<close>, \<open>Context_Replacement\<close>: what each reduction keeps and which messages a
    summary replaces; \<open>Context_Contracts\<close>, \<open>Context_Properties\<close>, \<open>Context_Unread\<close>: the
    operations as a step relation, and the properties.
  \<^item> \<open>Harness_World\<close>: the traits, the shell, the files and the clock of
    \<open>nanna-agent/src/harness.rs\<close> as an environment, with the weakest preconditions of the
    programs that ask it; \<open>Harness_Check\<close>: acceptance checks, verdicts and the evidence guard;
    \<open>Harness_Text\<close>: prompts, notices and the reading of a step; \<open>Harness\<close>,
    \<open>Harness_Judge\<close>, \<open>Harness_Loop\<close>: \<open>HarnessRun\<close> with its ledgers and one definition per
    method, up to \<open>run_with_interjector\<close>.
  \<^item> \<open>Harness_Frame\<close>: what programs leave alone (relations proved construct by construct);
    \<open>Harness_Trace\<close>: what an answer says of a check; \<open>Harness_Ledger\<close>: the invariant of a run;
    \<open>Harness_Verdicts\<close>, \<open>Harness_Sweeps\<close>, \<open>Harness_Runs\<close>: reopenings, sweeps and phases keep
    it; \<open>Harness_Bounds\<close>: the requests stay within the run's budgets; \<open>Harness_Results\<close>: the
    properties of every run.
  \<^item> \<open>Channel_Queue\<close>: the send queue of \<open>nanna-channels/src/queue.rs\<close>, one definition per
    critical section (token bucket, overflow, choice of the next message, backoff);
    \<open>Channel_Delivery\<close>: the calls on it as one transition system (\<open>queue_step\<close>) that
    interleave at the write lock, the bounded event channel and the sends; \<open>Circuit_Breaker\<close>:
    \<open>nanna-channels/src/listeners/circuit_breaker.rs\<close>.

  \<^bold>\<open>Conventions.\<close> A struct is a record with the code's fields under a prefix, an enum a datatype
  with the code's constructors; \<open>Result\<close> is a sum with the error on the left. A string is a
  list of characters read as U+0000 to U+00FF, with UTF-8 lengths where the code counts bytes. A
  table is the list of its rows in insertion order. An operation takes the state to a result and
  the new state, and also returns the state when it fails, so that partial writes before a failure
  would show. The texts of the context and the harness are \<open>ustring\<close>, lists of scalar values,
  into which \<open>lit\<close> embeds the literals of the code. A float that is only computed with is the
  rational it denotes, one that is taken apart is its bits. Durations are in nanoseconds. The
  harness is \<open>async\<close> code over an environment that others act on: each of its awaits is one entry
  of a journal, and the environment answers from the whole journal so far, so that a theorem about
  every environment is one about every interleaving. Row ids are unbounded, as nothing adds to them but the database's
  sequence; the float bits, the counters of the circuit breaker and the saturating and checked
  additions are kept at their width.

  \<^bold>\<open>Parameters.\<close> Third-party code is an argument: \<open>jp\<close> and \<open>ser\<close> (or \<open>pretty\<close>) the
  parser and printers of JSON, \<open>now\<close>, \<open>inst\<close> and \<open>today\<close> the clocks,
  \<open>cal\<close> chrono's calendar, \<open>show_time\<close> and \<open>read_time\<close> its RFC 3339, the answers of
  the scheduler's executor, \<open>tm\<close> the formatter of a time of day, the clients and completions of
  the summariser, the answers of the model, and in the record \<open>inputs\<close> of the harness the hasher,
  the regex engine and the display of paths beside the strategies of the environment. The send
  queue takes the instants it reads, the random part of a backoff, the channel's answers and
  \<open>pick\<close>, the binary heap's choice among equal messages. Laws that are assumed of them are
  hypotheses of the theorems that need them (a printed document or instant reads back). The database is taken to run its statements; a failing statement
  (\<open>StorageError::Database\<close>) is not modelled.

  \<^bold>\<open>Bounds and fuel.\<close> The walks to a root take \<open>TASK_DEPTH_MAX\<close> steps as the code does; that
  they are enough in every reachable store is part of the graph invariant. The worklist walks end
  by a measure on the rows not yet visited, the lexer and the chunker by the characters left, the
  filter parser by the code's own depth bound. \<open>next\<close> of cron counts down the code's number of
  iterations, summarisation counts up to the code's \<open>max_iterations\<close>. The loop of the harness has
  no bound in the code: \<open>run_passes\<close> is a partial function, \<open>run_for\<close> is the state after so many
  passes, and \<open>run_ends_when_time_passes\<close> says that a result exists when the clock moves on. No
  loop of the code is given fuel of the model's own.

  \<^bold>\<open>What is shown.\<close> Invariants of every reachable store (forest, acyclic dependencies, completion
  stamps, field bounds, roster); the effect of every operation, errors included; liveness and
  optimality of the scheduler's choice; equivalence of the parser with a grammar, of the row list
  with single reads, of the query with the sweep; round trips of the filter, the chunker, cron and
  the stored tasks of the scheduler; exclusion of its runs under every interleaving; and the places
  where the code falls short: a deadlock that accepted creations can build, races between a check
  and its write in the store and between the scheduler's snapshot and its claims, and a changed
  schedule that a restart forgets. Of the context: the live request and the recorded outcomes survive
  every reduction, a request is well formed, a pass replaces what it read, truncation ends and
  spends the request last, budgets share the window. Of the conversions: they are the correctly
  rounded ones. Of the harness: no completion and no reopening without an answer that vouches for
  it, ledgers that count the calls, requests within their budgets, an end, and what its last sweep
  leaves unnamed. Of the send queue: the message handed out is a best one, every message is in one
  place or left for one reason, and events that nobody reads hang the queue with its lock held.

  \<^bold>\<open>Not modelled.\<close> The loop that drives a single agent, the clients of the models, the channels'
  protocols, tools, the memory service and the daemon are I/O around answers the program does not
  compute, and are left out, as are SQL text, timers, the shell process, log lines and the user
  interface.
\<close>

end
